(* ===== verification/Nachos_Prelude.thy ===== *)
theory Nachos_Prelude
  imports Main "HOL-Library.Word" "HOL-Library.Signed_Division"
begin

text \<open>
  Shared vocabulary of the development.

  \<^item> \<open>fault\<close> lists the ways a routine of the kernel stops: a failed \<open>ASSERT\<close>
    (\<^verbatim>\<open>src/code/threads/utility.h\<close>), a load or store through a null pointer, through a
    pointer to a deleted object, outside an array, a division the host processor traps on, and the calls of \<open>Interrupt::Halt\<close> and of \<open>Thread::Finish\<close>, which never
    return. A routine that can stop returns \<open>fault + 'a\<close>, with \<open>Inl\<close> for the stop.
  \<^item> \<open>bindR\<close> sequences such routines, \<open>assertR\<close> is \<open>ASSERT\<close>.
  \<^item> C integers are \<open>int\<close> where their width plays no part, \<open>32 word\<close> where bits are
    manipulated; \<open>c_int\<close> is the wrap-around of a 32-bit signed integer and \<open>sdiv\<close>,
    \<open>smod\<close> are C's truncating division and remainder.
\<close>

section \<open>Collections of simplification rules\<close>

named_theorems kernel_defs \<open>definitions of straight-line kernel routines\<close>
named_theorems res_simps \<open>sequencing of routines that may stop\<close>

section \<open>Routines that may stop\<close>

datatype fault = AssertFail | NullPointer | DanglingPointer | OutOfBounds | ArithmeticTrap | Halted | ThreadFinished

type_synonym 'a res = "fault + 'a"

definition bindR :: "'a res \<Rightarrow> ('a \<Rightarrow> 'b res) \<Rightarrow> 'b res" where
  "bindR m f = (case m of Inl e \<Rightarrow> Inl e | Inr x \<Rightarrow> f x)"

definition assertR :: "bool \<Rightarrow> unit res" where
  "assertR b = (if b then Inr () else Inl AssertFail)"

lemma bindR_simps [simp, res_simps]:
  "bindR (Inl e) f = Inl e"
  "bindR (Inr x) f = f x"
  by (simp_all add: bindR_def)

lemma bindR_eq_Inr [res_simps]: "bindR m f = Inr y \<longleftrightarrow> (\<exists>x. m = Inr x \<and> f x = Inr y)"
  by (cases m) auto

lemma bindR_eq_Inl [res_simps]:
  "bindR m f = Inl e \<longleftrightarrow> m = Inl e \<or> (\<exists>x. m = Inr x \<and> f x = Inl e)"
  by (cases m) auto

lemma assertR_simps [simp, res_simps]:
  "assertR True = Inr ()"
  "assertR False = Inl AssertFail"
  "assertR b = Inr u \<longleftrightarrow> b"
  "assertR b = Inl e \<longleftrightarrow> \<not> b \<and> e = AssertFail"
  by (auto simp: assertR_def)

lemma bindR_assoc: "bindR (bindR m f) g = bindR m (\<lambda>x. bindR (f x) g)"
  by (cases m) auto

lemma bindR_cong [fundef_cong]:
  "m = m' \<Longrightarrow> (\<And>x. m' = Inr x \<Longrightarrow> f x = f' x) \<Longrightarrow> bindR m f = bindR m' f'"
  by (cases m') auto

text \<open>A routine that may also run forever returns \<open>'a res option\<close>, with \<open>None\<close> for no return.\<close>

definition bindO :: "'a res option \<Rightarrow> ('a \<Rightarrow> 'b res option) \<Rightarrow> 'b res option" where
  "bindO m f = Option.bind m (\<lambda>r. case r of Inl e \<Rightarrow> Some (Inl e) | Inr x \<Rightarrow> f x)"

lemma bindO_simps [simp, res_simps]:
  "bindO None f = None"
  "bindO (Some (Inl e)) f = Some (Inl e)"
  "bindO (Some (Inr x)) f = f x"
  by (simp_all add: bindO_def)

lemma bindO_eq_Inr [res_simps]:
  "bindO m f = Some (Inr y) \<longleftrightarrow> (\<exists>x. m = Some (Inr x) \<and> f x = Some (Inr y))"
  by (auto simp: bindO_def split: sum.splits Option.bind_splits)

lemma bindO_mono [partial_function_mono]:
  assumes "mono_option B" and "\<And>y. mono_option (\<lambda>f. C y f)"
  shows "mono_option (\<lambda>f. bindO (B f) (\<lambda>y. C y f))"
proof -
  have "mono_option (\<lambda>f. case r of Inl e \<Rightarrow> Some (Inl e) | Inr x \<Rightarrow> C x f)" for r
    using assms(2) by (cases r) (simp_all add: monotone_def flat_ord_def fun_ord_def)
  then show ?thesis
    unfolding bindO_def using assms(1) by (rule bind_mono [rotated])
qed

section \<open>C integers\<close>

definition c_int :: "int \<Rightarrow> int" where
  "c_int i = (i + 2 ^ 31) mod 2 ^ 32 - 2 ^ 31"

definition int_min :: int where "int_min = - (2 ^ 31)"

definition int_max :: int where "int_max = 2 ^ 31 - 1"

lemma c_int_id: "int_min \<le> i \<Longrightarrow> i \<le> int_max \<Longrightarrow> c_int i = i"
  by (simp add: c_int_def int_min_def int_max_def mod_pos_pos_trivial)

lemma c_int_bounds: "int_min \<le> c_int i \<and> c_int i \<le> int_max"
proof -
  have "0 \<le> (i + 2 ^ 31) mod 2 ^ 32 \<and> (i + 2 ^ 31) mod 2 ^ 32 < (2 ^ 32 :: int)"
    by simp
  then show ?thesis by (simp add: c_int_def int_min_def int_max_def)
qed

lemma c_int_add: "c_int (c_int i + j) = c_int (i + j)"
proof -
  have "(((i + 2 ^ 31) mod 2 ^ 32 - 2 ^ 31) + j + 2 ^ 31) mod 2 ^ 32 = ((i + 2 ^ 31) mod 2 ^ 32 + j) mod (2 ^ 32 :: int)" by simp
  also have "\<dots> = (i + 2 ^ 31 + j) mod 2 ^ 32" by (rule mod_add_left_eq)
  also have "i + 2 ^ 31 + j = i + j + 2 ^ 31" by simp
  finally show ?thesis unfolding c_int_def by simp
qed

lemma c_int_pos: "0 < c_int i \<Longrightarrow> 0 \<le> i \<Longrightarrow> 0 < i"
  by (cases "i = 0") (simp_all add: c_int_def)

text \<open>\<open>divRoundUp\<close> of \<^verbatim>\<open>src/code/threads/utility.h\<close>.\<close>

definition divRoundUp :: "int \<Rightarrow> int \<Rightarrow> int" where
  "divRoundUp n s = n sdiv s + (if n smod s > 0 then 1 else 0)"

definition divRoundDown :: "int \<Rightarrow> int \<Rightarrow> int" where
  "divRoundDown n s = n sdiv s"

lemma sdiv_nonneg [simp]: "0 \<le> (a::int) \<Longrightarrow> 0 \<le> b \<Longrightarrow> a sdiv b = a div b"
  by (cases "a = 0"; cases "b = 0") (auto simp: signed_divide_int_def sgn_if)

lemma smod_nonneg [simp]: "0 \<le> (a::int) \<Longrightarrow> 0 \<le> b \<Longrightarrow> a smod b = a mod b"
  by (cases "a = 0") (auto simp: signed_modulo_int_def sgn_if)

lemma divRoundUp_split:
  assumes "0 \<le> n" and "0 < s"
  obtains q r where "n = q * s + r" "0 \<le> r" "r < s" "0 \<le> q"
    "divRoundUp n s = q + (if r > 0 then 1 else 0)"
proof
  show "n = n div s * s + n mod s" by simp
  show "0 \<le> n mod s" "n mod s < s" using assms by simp_all
  show "0 \<le> n div s" using assms by (simp add: pos_imp_zdiv_nonneg_iff)
  show "divRoundUp n s = n div s + (if n mod s > 0 then 1 else 0)"
    using assms by (simp add: divRoundUp_def)
qed

lemma divRoundUp_ge: "0 \<le> n \<Longrightarrow> 0 < s \<Longrightarrow> n \<le> divRoundUp n s * s"
  by (erule (1) divRoundUp_split) (auto simp: distrib_right)

lemma divRoundUp_less: "0 \<le> n \<Longrightarrow> 0 < s \<Longrightarrow> divRoundUp n s * s < n + s"
  by (erule (1) divRoundUp_split) (auto simp: distrib_right)

lemma divRoundUp_nonneg: "0 \<le> n \<Longrightarrow> 0 < s \<Longrightarrow> 0 \<le> divRoundUp n s"
  by (erule (1) divRoundUp_split) auto

section \<open>Lists\<close>

lemma takeWhile_dropWhile_set: "set (takeWhile P xs) \<union> set (dropWhile P xs) = set xs"
  by (metis set_append takeWhile_dropWhile_id)

lemma takeWhile_dropWhile_disjoint:
  "distinct xs \<Longrightarrow> set (takeWhile P xs) \<inter> set (dropWhile P xs) = {}"
  by (metis distinct_append takeWhile_dropWhile_id)

end
