(* ===== verification/Linked_List.thy ===== *)
theory Linked_List
  imports Nachos_Prelude "HOL-Library.Multiset"
begin

text \<open>
  The class \<open>List\<close> of \<^verbatim>\<open>src/code/threads/list.cc\<close>: a singly linked list of
  \<open>ListElement\<close> cells with a head and a tail pointer.

  The cells live in an explicit store: an address is a \<open>nat\<close>, a pointer a \<open>nat option\<close>
  with \<open>None\<close> for \<open>NULL\<close>, and \<open>cells\<close> maps the addresses of the live cells to
  their contents. \<open>new\<close> takes the address \<open>brk\<close> and \<open>delete\<close> removes the cell
  from the store, so that a use after free shows as \<open>DanglingPointer\<close>. The walks along
  \<open>next\<close> are partial functions: they do not return on a cyclic list.

  The second half relates the pointer structure to a list of keyed items (\<open>represents\<close>): every
  operation returns, keeps the structure well-formed and does to the represented list what its
  functional counterpart (\<open>sorted_insert\<close>, append, head and tail) does. The locale
  \<open>keyed_queue\<close> is the interface the scheduler and the synchronisation primitives use.
\<close>

section \<open>The model of list.cc\<close>

record 'a ListElement =
  le_next :: "nat option"
  le_key :: int
  le_item :: 'a

record 'a LList =
  lfirst :: "nat option"
  llast :: "nat option"
  cells :: "nat \<Rightarrow> 'a ListElement option"
  brk :: nat

definition List_new :: "'a LList" where
  "List_new = \<lparr>lfirst = None, llast = None, cells = Map.empty, brk = 0\<rparr>"

definition ListElement_new :: "'a \<Rightarrow> int \<Rightarrow> 'a LList \<Rightarrow> nat \<times> 'a LList" where
  "ListElement_new itemPtr sortKey l =
     (brk l, l\<lparr>cells := (cells l)(brk l \<mapsto> \<lparr>le_next = None, le_key = sortKey, le_item = itemPtr\<rparr>),
               brk := Suc (brk l)\<rparr>)"

definition deref :: "'a LList \<Rightarrow> nat option \<Rightarrow> 'a ListElement res" where
  "deref l ptr = (case ptr of None \<Rightarrow> Inl NullPointer
     | Some a \<Rightarrow> (case cells l a of None \<Rightarrow> Inl DanglingPointer | Some e \<Rightarrow> Inr e))"

definition store_next :: "'a LList \<Rightarrow> nat option \<Rightarrow> nat option \<Rightarrow> 'a LList res" where
  "store_next l ptr v =
     bindR (deref l ptr) (\<lambda>e. Inr (l\<lparr>cells := (cells l)(the ptr \<mapsto> e\<lparr>le_next := v\<rparr>)\<rparr>))"

definition IsEmpty :: "'a LList \<Rightarrow> bool" where
  "IsEmpty l = (lfirst l = None)"

definition Append :: "'a \<Rightarrow> 'a LList \<Rightarrow> 'a LList res" where
  "Append item l =
     (let (element, l) = ListElement_new item 0 l in
      if IsEmpty l then Inr (l\<lparr>lfirst := Some element, llast := Some element\<rparr>)
      else bindR (store_next l (llast l) (Some element)) (\<lambda>l. Inr (l\<lparr>llast := Some element\<rparr>)))"

definition Prepend :: "'a \<Rightarrow> 'a LList \<Rightarrow> 'a LList res" where
  "Prepend item l =
     (let (element, l) = ListElement_new item 0 l in
      if IsEmpty l then Inr (l\<lparr>lfirst := Some element, llast := Some element\<rparr>)
      else bindR (store_next l (Some element) (lfirst l)) (\<lambda>l. Inr (l\<lparr>lfirst := Some element\<rparr>)))"

text \<open>The \<open>for\<close> loop of \<open>SortedInsert\<close> and the code after it.\<close>

partial_function (option) SortedInsert_scan ::
  "nat option \<Rightarrow> int \<Rightarrow> nat \<Rightarrow> 'a LList \<Rightarrow> 'a LList res option" where
  "SortedInsert_scan ptr sortKey element l =
     (case deref l ptr of
        Inl e \<Rightarrow> Some (Inl e)
      | Inr pe \<Rightarrow>
         (case le_next pe of
            None \<Rightarrow> Some (bindR (store_next l (llast l) (Some element))
                            (\<lambda>l. Inr (l\<lparr>llast := Some element\<rparr>)))
          | Some nx \<Rightarrow>
             (case deref l (Some nx) of
                Inl e \<Rightarrow> Some (Inl e)
              | Inr ne \<Rightarrow>
                  if sortKey < le_key ne
                  then Some (bindR (store_next l (Some element) (Some nx))
                               (\<lambda>l. store_next l ptr (Some element)))
                  else SortedInsert_scan (Some nx) sortKey element l)))"

definition SortedInsert :: "'a \<Rightarrow> int \<Rightarrow> 'a LList \<Rightarrow> 'a LList res option" where
  "SortedInsert item sortKey l =
     (let (element, l) = ListElement_new item sortKey l in
      if IsEmpty l then Some (Inr (l\<lparr>lfirst := Some element, llast := Some element\<rparr>))
      else (case deref l (lfirst l) of
              Inl e \<Rightarrow> Some (Inl e)
            | Inr fe \<Rightarrow>
                if sortKey < le_key fe
                then Some (bindR (store_next l (Some element) (lfirst l))
                             (\<lambda>l. Inr (l\<lparr>lfirst := Some element\<rparr>)))
                else SortedInsert_scan (lfirst l) sortKey element l))"

text \<open>\<open>SortedRemove\<close> returns the item and its key, \<open>None\<close> for \<open>NULL\<close>.\<close>

definition SortedRemove :: "'a LList \<Rightarrow> ((int \<times> 'a) option \<times> 'a LList) res" where
  "SortedRemove l =
     (let element = lfirst l in
      if IsEmpty l then Inr (None, l)
      else bindR (deref l (lfirst l)) (\<lambda>e.
        let thing = le_item e;
            l = (if lfirst l = llast l then l\<lparr>lfirst := None, llast := None\<rparr>
                 else l\<lparr>lfirst := le_next e\<rparr>)
        in Inr (Some (le_key e, thing), l\<lparr>cells := (cells l)(the element := None)\<rparr>)))"

definition Remove :: "'a LList \<Rightarrow> ('a option \<times> 'a LList) res" where
  "Remove l = bindR (SortedRemove l) (\<lambda>(r, l). Inr (map_option snd r, l))"

text \<open>\<open>Mapcar\<close>, as the sequence of items it calls \<open>func\<close> on.\<close>

partial_function (option) Mapcar_from :: "nat option \<Rightarrow> 'a LList \<Rightarrow> 'a list \<Rightarrow> 'a list res option" where
  "Mapcar_from ptr l called =
     (if ptr = None then Some (Inr called)
      else (case deref l ptr of
              Inl e \<Rightarrow> Some (Inl e)
            | Inr e \<Rightarrow> Mapcar_from (le_next e) l (called @ [le_item e])))"

definition Mapcar :: "'a LList \<Rightarrow> 'a list res option" where
  "Mapcar l = Mapcar_from (lfirst l) l []"

partial_function (option) List_delete :: "'a LList \<Rightarrow> 'a LList res option" where
  "List_delete l =
     (case Remove l of
        Inl e \<Rightarrow> Some (Inl e)
      | Inr (None, l) \<Rightarrow> Some (Inr l)
      | Inr (Some _, l) \<Rightarrow> List_delete l)"

section \<open>The represented list\<close>

fun chain :: "(nat \<Rightarrow> 'a ListElement option) \<Rightarrow> nat option \<Rightarrow> nat list \<Rightarrow> nat option \<Rightarrow> bool" where
  "chain c p [] q \<longleftrightarrow> p = q"
| "chain c p (a # as) q \<longleftrightarrow> p = Some a \<and> (\<exists>e. c a = Some e \<and> chain c (le_next e) as q)"

definition content :: "(nat \<Rightarrow> 'a ListElement option) \<Rightarrow> nat list \<Rightarrow> (int \<times> 'a) list" where
  "content c ps = map (\<lambda>a. (le_key (the (c a)), le_item (the (c a)))) ps"

definition list_rep :: "'a LList \<Rightarrow> nat list \<Rightarrow> (int \<times> 'a) list \<Rightarrow> bool" where
  "list_rep l ps xs \<longleftrightarrow>
     chain (cells l) (lfirst l) ps None \<and> distinct ps \<and>
     llast l = (if ps = [] then None else Some (last ps)) \<and>
     content (cells l) ps = xs \<and> dom (cells l) = set ps \<and> (\<forall>a\<in>set ps. a < brk l)"

definition represents :: "'a LList \<Rightarrow> (int \<times> 'a) list \<Rightarrow> bool" where
  "represents l xs \<longleftrightarrow> (\<exists>ps. list_rep l ps xs)"

text \<open>The functional counterpart of \<open>SortedInsert\<close>: before the first item with a greater key.\<close>

definition sorted_insert :: "int \<Rightarrow> 'a \<Rightarrow> (int \<times> 'a) list \<Rightarrow> (int \<times> 'a) list" where
  "sorted_insert k x xs =
     takeWhile (\<lambda>(k', _). k' \<le> k) xs @ (k, x) # dropWhile (\<lambda>(k', _). k' \<le> k) xs"

subsection \<open>Chains of cells\<close>

lemma chain_append: "chain c p (as @ bs) q \<longleftrightarrow> (\<exists>r. chain c p as r \<and> chain c r bs q)"
  by (induction as arbitrary: p) auto

lemma chain_None [simp]: "chain c None ps q \<longleftrightarrow> ps = [] \<and> q = None"
  by (cases ps) auto

lemma chain_update [simp]: "a \<notin> set as \<Longrightarrow> chain (c(a := v)) p as q = chain c p as q"
  by (induction as arbitrary: p) auto

lemma content_update [simp]: "a \<notin> set as \<Longrightarrow> content (c(a := v)) as = content c as"
  by (auto simp: content_def)

lemma content_simps [simp]:
  "content c [] = []"
  "content c (a # as) = (le_key (the (c a)), le_item (the (c a))) # content c as"
  "content c (as @ bs) = content c as @ content c bs"
  by (simp_all add: content_def)

lemma content_Nil_iff [simp]: "content c ps = [] \<longleftrightarrow> ps = []"
  by (simp add: content_def)

lemma content_length [simp]: "length (content c ps) = length ps"
  by (simp add: content_def)

lemma chain_in_dom: "chain c p as q \<Longrightarrow> set as \<subseteq> dom c"
  by (induction as arbitrary: p) auto

lemma list_repD:
  assumes "list_rep l ps xs"
  shows "chain (cells l) (lfirst l) ps None" "distinct ps"
    "llast l = (if ps = [] then None else Some (last ps))" "content (cells l) ps = xs"
    "dom (cells l) = set ps" "\<And>a. a \<in> set ps \<Longrightarrow> a < brk l"
  using assms by (auto simp: list_rep_def)

lemma list_rep_brk: "list_rep l ps xs \<Longrightarrow> brk l \<notin> set ps"
  by (auto simp: list_rep_def)

lemma list_rep_empty: "list_rep l ps xs \<Longrightarrow> IsEmpty l \<longleftrightarrow> ps = []"
  by (cases ps) (auto simp: list_rep_def IsEmpty_def)


text \<open>Two stores whose cells differ in their \<open>next\<close> fields only.\<close>

definition same_data :: "(nat \<Rightarrow> 'a ListElement option) \<Rightarrow> (nat \<Rightarrow> 'a ListElement option) \<Rightarrow> bool" where
  "same_data c c' \<longleftrightarrow>
     (\<forall>x. map_option (\<lambda>e. (le_key e, le_item e)) (c' x) = map_option (\<lambda>e. (le_key e, le_item e)) (c x))"

lemma same_data_refl [simp]: "same_data c c"
  by (simp add: same_data_def)

lemma same_data_trans: "same_data c c' \<Longrightarrow> same_data c' c'' \<Longrightarrow> same_data c c''"
  by (simp add: same_data_def)

lemma same_data_next: "c a = Some e \<Longrightarrow> same_data c (c(a \<mapsto> e\<lparr>le_next := v\<rparr>))"
  by (simp add: same_data_def)

lemma same_data_dom: "same_data c c' \<Longrightarrow> dom c' = dom c"
proof -
  assume "same_data c c'"
  then have "map_option (\<lambda>e. (le_key e, le_item e)) (c' x) = map_option (\<lambda>e. (le_key e, le_item e)) (c x)" for x
    by (simp add: same_data_def)
  then have "c' x = None \<longleftrightarrow> c x = None" for x
    by (cases "c x"; cases "c' x") (metis option.simps(8,9) option.distinct(1))+
  then show ?thesis by (auto simp: dom_def)
qed

lemma same_data_content:
  assumes "same_data c c'" and "set ps \<subseteq> dom c"
  shows "content c' ps = content c ps"
proof -
  have "(le_key (the (c' a)), le_item (the (c' a))) = (le_key (the (c a)), le_item (the (c a)))"
    if "a \<in> set ps" for a
  proof -
    from that assms(2) obtain e where e: "c a = Some e" by auto
    have "map_option (\<lambda>e. (le_key e, le_item e)) (c' a) = Some (le_key e, le_item e)"
      using assms(1) e by (simp add: same_data_def)
    then show ?thesis using e by (auto split: option.splits)
  qed
  then show ?thesis by (simp add: content_def)
qed

lemma chain_cong: "(\<And>a. a \<in> set as \<Longrightarrow> c' a = c a) \<Longrightarrow> chain c' p as q = chain c p as q"
  by (induction as arbitrary: p) auto

subsection \<open>The walk of SortedInsert\<close>

abbreviation "key_le c k \<equiv> (\<lambda>x. le_key (the (c x)) \<le> k)"

lemma SortedInsert_scan_correct:
  assumes "chain (cells l) (Some a) (a # bs) None" and "distinct (a # bs)"
    and "p \<notin> set (a # bs)" and "cells l p = Some pe" and "llast l = Some (last (a # bs))"
    and "le_next pe = None"
  defines "c \<equiv> cells l"
  shows "\<exists>l'. SortedInsert_scan (Some a) k p l = Some (Inr l') \<and>
     chain (cells l') (Some a)
       (a # takeWhile (key_le c k) bs @ p # dropWhile (key_le c k) bs) None \<and>
     llast l' = Some (last (p # dropWhile (key_le c k) bs)) \<and>
     lfirst l' = lfirst l \<and> brk l' = brk l \<and> same_data c (cells l') \<and>
     (\<forall>x. x \<notin> set (a # bs) \<union> {p} \<longrightarrow> cells l' x = c x)"
  using assms(1-6) unfolding c_def
proof (induction bs arbitrary: a)
  case Nil
  then obtain e where e: "cells l a = Some e" "le_next e = None" by auto
  let ?l' = "l\<lparr>cells := (cells l)(a \<mapsto> e\<lparr>le_next := Some p\<rparr>), llast := Some p\<rparr>"
  have "SortedInsert_scan (Some a) k p l = Some (Inr ?l')"
    using Nil e by (simp add: SortedInsert_scan.simps deref_def store_next_def)
  then show ?case
    using Nil e same_data_next [of "cells l" a e "Some p"]
    by (intro exI [of _ ?l'] conjI) (simp_all del: fun_upd_apply, simp_all)
next
  case (Cons b bs)
  from Cons.prems obtain e be where e: "cells l a = Some e" "le_next e = Some b"
    and be: "cells l b = Some be" and rest: "chain (cells l) (le_next be) bs None" by auto
  show ?case
  proof (cases "k < le_key be")
    case True
    let ?c1 = "(cells l)(p \<mapsto> pe\<lparr>le_next := Some b\<rparr>)"
    let ?c2 = "?c1(a \<mapsto> e\<lparr>le_next := Some p\<rparr>)"
    let ?l' = "l\<lparr>cells := ?c2\<rparr>"
    have "SortedInsert_scan (Some a) k p l = Some (Inr ?l')"
      using Cons.prems e be True
      by (subst SortedInsert_scan.simps) (auto simp: deref_def store_next_def)
    moreover have "same_data (cells l) ?c2"
      using Cons.prems e
      by (intro same_data_trans [OF same_data_next [of "cells l" p pe "Some b"]] same_data_next) auto
    moreover have "chain ?c2 (Some a) (a # p # b # bs) None"
      using Cons.prems be rest by auto
    ultimately show ?thesis
      using Cons.prems be True
      by (intro exI [of _ ?l'] conjI) (simp_all del: fun_upd_apply, simp_all)
  next
    case False
    have step: "SortedInsert_scan (Some a) k p l = SortedInsert_scan (Some b) k p l"
      using e be False by (subst SortedInsert_scan.simps) (simp add: deref_def)
    have "chain (cells l) (Some b) (b # bs) None" "distinct (b # bs)" "p \<notin> set (b # bs)"
      "llast l = Some (last (b # bs))"
      using Cons.prems be rest by auto
    from Cons.IH [OF this(1-3) Cons.prems(4) this(4) Cons.prems(6)] obtain l' where
      l': "SortedInsert_scan (Some b) k p l = Some (Inr l')"
        "chain (cells l') (Some b)
           (b # takeWhile (key_le (cells l) k) bs @ p # dropWhile (key_le (cells l) k) bs) None"
        "llast l' = Some (last (p # dropWhile (key_le (cells l) k) bs))"
        "lfirst l' = lfirst l" "brk l' = brk l" "same_data (cells l) (cells l')"
        "\<forall>x. x \<notin> set (b # bs) \<union> {p} \<longrightarrow> cells l' x = cells l x"
      by blast
    have "cells l' a = Some e"
      using l'(7) e Cons.prems by auto
    then show ?thesis
      using l' step e be False by (intro exI [of _ l']) auto
  qed
qed

subsection \<open>Every operation on the represented list\<close>

lemma represents_new: "represents List_new []"
  by (auto simp: represents_def list_rep_def List_new_def intro!: exI [of _ "[]"])

text \<open>Allocation adds a fresh cell.\<close>

lemma ListElement_new_rep:
  assumes "list_rep l ps xs" and "ListElement_new item k l = (p, l1)"
  shows "p \<notin> set ps" "p = brk l" "brk l1 = Suc p" "lfirst l1 = lfirst l" "llast l1 = llast l"
    "cells l1 = (cells l)(p \<mapsto> \<lparr>le_next = None, le_key = k, le_item = item\<rparr>)"
    "chain (cells l1) (lfirst l1) ps None" "content (cells l1) ps = xs" "dom (cells l1) = insert p (set ps)"
    "\<forall>a\<in>insert p (set ps). a < brk l1"
  using assms list_rep_brk [OF assms(1)]
  by (auto simp: ListElement_new_def list_rep_def less_SucI dest: domD
      dest: equalityD2 [THEN subsetD])

lemma content_single: "c p = Some e \<Longrightarrow> content c [p] = [(le_key e, le_item e)]"
  by simp

lemma list_repI:
  assumes "chain c f ps None" "distinct ps" "content c ps = xs" "dom c = set ps"
    "\<forall>a\<in>set ps. a < b" "t = (if ps = [] then None else Some (last ps))"
  shows "list_rep \<lparr>lfirst = f, llast = t, cells = c, brk = b\<rparr> ps xs"
  using assms by (simp add: list_rep_def)

lemma represents_single:
  assumes "list_rep l [] xs" and "ListElement_new x k l = (p, l1)"
  shows "represents (l1\<lparr>lfirst := Some p, llast := Some p\<rparr>) [(k, x)]"
  using ListElement_new_rep [OF assms] unfolding represents_def
  by (intro exI [of _ "[p]"]) (auto simp: list_rep_def)

lemma Append_correct:
  assumes "represents l xs"
  shows "\<exists>l'. Append x l = Inr l' \<and> represents l' (xs @ [(0, x)])"
proof -
  from assms obtain ps where ps: "list_rep l ps xs" by (auto simp: represents_def)
  obtain p l1 where new: "ListElement_new x 0 l = (p, l1)" by (cases "ListElement_new x 0 l")
  note N = ListElement_new_rep [OF ps new]
  show ?thesis
  proof (cases "ps = []")
    case True
    moreover have "IsEmpty l1"
      using N True list_rep_empty [OF ps] by (simp add: IsEmpty_def)
    moreover have "xs = []" using ps True by (simp add: list_rep_def)
    ultimately show ?thesis
      using represents_single [of l xs x 0 p l1] ps new by (simp add: Append_def)
  next
    case False
    then obtain as a where as: "ps = as @ [a]" by (metis rev_exhaust)
    obtain e where e: "cells l1 a = Some e" "le_next e = None"
      and pre: "chain (cells l1) (lfirst l1) as (Some a)"
      using N(7) as by (auto simp: chain_append)
    let ?c = "(cells l1)(a \<mapsto> e\<lparr>le_next := Some p\<rparr>)"
    have "\<not> IsEmpty l1" using N(4) False list_rep_empty [OF ps] by (simp add: IsEmpty_def)
    moreover have "llast l1 = Some a" using N(5) as list_repD(3) [OF ps] by simp
    ultimately have app: "Append x l = Inr (l1\<lparr>cells := ?c, llast := Some p\<rparr>)"
      using new e by (simp add: Append_def store_next_def deref_def)
    have dis: "distinct ps" using list_repD(2) [OF ps] .
    have "chain ?c (lfirst l1) (ps @ [p]) None"
      using pre as N(1,6) dis by (auto simp: chain_append)
    moreover have "content ?c (ps @ [p]) = content (cells l1) (ps @ [p])"
      using same_data_content [OF same_data_next, of "cells l1" a e "ps @ [p]" "Some p"] e(1) N(9)
      by simp
    then have "content ?c (ps @ [p]) = xs @ [(0, x)]"
      using N(6,8) by simp
    moreover have "dom ?c = set (ps @ [p])" using N(9) as by auto
    ultimately have "list_rep (l1\<lparr>cells := ?c, llast := Some p\<rparr>) (ps @ [p]) (xs @ [(0, x)])"
      using N(1,10) dis by (auto simp: list_rep_def)
    then show ?thesis using app by (auto simp: represents_def)
  qed
qed

lemma Prepend_correct:
  assumes "represents l xs"
  shows "\<exists>l'. Prepend x l = Inr l' \<and> represents l' ((0, x) # xs)"
proof -
  from assms obtain ps where ps: "list_rep l ps xs" by (auto simp: represents_def)
  obtain p l1 where new: "ListElement_new x 0 l = (p, l1)" by (cases "ListElement_new x 0 l")
  note N = ListElement_new_rep [OF ps new]
  show ?thesis
  proof (cases "ps = []")
    case True
    moreover have "IsEmpty l1"
      using N True list_rep_empty [OF ps] by (simp add: IsEmpty_def)
    moreover have "xs = []" using ps True by (simp add: list_rep_def)
    ultimately show ?thesis
      using represents_single [of l xs x 0 p l1] ps new by (simp add: Prepend_def)
  next
    case False
    let ?c = "(cells l1)(p \<mapsto> \<lparr>le_next = lfirst l1, le_key = 0, le_item = x\<rparr>)"
    let ?l = "l1\<lparr>cells := ?c, lfirst := Some p\<rparr>"
    have "\<not> IsEmpty l1" using N(4) False list_rep_empty [OF ps] by (simp add: IsEmpty_def)
    then have "Prepend x l = Inr ?l"
      using new N(6) by (simp add: Prepend_def store_next_def deref_def)
    moreover have "list_rep ?l (p # ps) ((0, x) # xs)"
      using N False list_repD(2,3) [OF ps] by (auto simp: list_rep_def)
    ultimately show ?thesis by (auto simp: represents_def)
  qed
qed


lemma takeWhile_content:
  "takeWhile (\<lambda>(k', _). k' \<le> k) (content c ps) = content c (takeWhile (key_le c k) ps)"
  "dropWhile (\<lambda>(k', _). k' \<le> k) (content c ps) = content c (dropWhile (key_le c k) ps)"
  by (induction ps) (auto simp: content_def)

lemma SortedInsert_rep:
  assumes "list_rep l ps xs"
  shows "\<exists>l' qs. SortedInsert x k l = Some (Inr l') \<and> list_rep l' qs (sorted_insert k x xs)"
proof -
  obtain p l1 where new: "ListElement_new x k l = (p, l1)" by (cases "ListElement_new x k l")
  note N = ListElement_new_rep [OF assms new]
  have pc: "content (cells l1) [p] = [(k, x)]" using N(6) by simp
  show ?thesis
  proof (cases ps)
    case Nil
    have "IsEmpty l1" using N(4) Nil list_rep_empty [OF assms] by (simp add: IsEmpty_def)
    moreover have "xs = []" using assms Nil by (simp add: list_rep_def)
    ultimately show ?thesis
      using represents_single [of l xs x k p l1] assms new Nil
      by (auto simp: SortedInsert_def sorted_insert_def represents_def)
  next
    case (Cons a bs)
    have ne: "\<not> IsEmpty l1" using N(4) Cons list_rep_empty [OF assms] by (simp add: IsEmpty_def)
    obtain e where e: "cells l1 a = Some e" "lfirst l1 = Some a" and
      ch: "chain (cells l1) (Some a) (a # bs) None" using N(7) Cons by auto
    have dis: "distinct (a # bs)" and ll: "llast l1 = Some (last (a # bs))"
      using list_repD(2,3) [OF assms] N(5) Cons by auto
    show ?thesis
    proof (cases "k < le_key e")
      case True
      let ?c = "(cells l1)(p \<mapsto> \<lparr>le_next = Some a, le_key = k, le_item = x\<rparr>)"
      let ?l = "l1\<lparr>cells := ?c, lfirst := Some p\<rparr>"
      have "SortedInsert x k l = Some (Inr ?l)"
        using new N(6) ne e True
        by (simp add: SortedInsert_def store_next_def deref_def split: if_splits)
      moreover have "sorted_insert k x xs = (k, x) # xs"
        using N(8) Cons e True by (auto simp: sorted_insert_def)
      ultimately show ?thesis
        using N ch dis ll Cons e
        by (intro exI [of _ ?l] exI [of _ "p # ps"]) (auto simp: list_rep_def)
    next
      case False
      let ?qs = "a # takeWhile (key_le (cells l1) k) bs @ p # dropWhile (key_le (cells l1) k) bs"
      have "p \<notin> set (a # bs)" using N(1) Cons by simp
      from SortedInsert_scan_correct [OF ch dis this _ ll, of _ k] N(6) obtain l' where
        l': "SortedInsert_scan (Some a) k p l1 = Some (Inr l')"
          "chain (cells l') (Some a) ?qs None"
          "llast l' = Some (last (p # dropWhile (key_le (cells l1) k) bs))"
          "lfirst l' = lfirst l1" "brk l' = brk l1" "same_data (cells l1) (cells l')"
        by auto
      have ins: "SortedInsert x k l = Some (Inr l')"
        using new ne e False l'(1) by (simp add: SortedInsert_def deref_def)
      have set_qs: "set ?qs = insert p (set ps)"
        using Cons takeWhile_dropWhile_set [of "key_le (cells l1) k" bs] by auto
      have "content (cells l') ?qs = content (cells l1) ?qs"
        by (rule same_data_content [OF l'(6)]) (simp only: set_qs N(9) order_refl)
      also have "\<dots> = sorted_insert k x xs"
        using N(8) Cons e False pc by (auto simp: sorted_insert_def takeWhile_content)
      finally have "content (cells l') ?qs = sorted_insert k x xs" .
      moreover have "distinct ?qs"
        using dis \<open>p \<notin> set (a # bs)\<close>
          takeWhile_dropWhile_disjoint [of bs "key_le (cells l1) k"]
        by (auto dest: set_takeWhileD set_dropWhileD)
      ultimately have "list_rep l' ?qs (sorted_insert k x xs)"
        using l' e N(9,10) set_qs same_data_dom [OF l'(6)] by (simp add: list_rep_def)
      then show ?thesis using ins by blast
    qed
  qed
qed

lemma SortedInsert_correct:
  assumes "represents l xs"
  shows "\<exists>l'. SortedInsert x k l = Some (Inr l') \<and> represents l' (sorted_insert k x xs)"
proof -
  from assms obtain ps where "list_rep l ps xs" by (auto simp: represents_def)
  from SortedInsert_rep [OF this, of x k] show ?thesis by (auto simp: represents_def)
qed

lemma SortedRemove_empty: "represents l [] \<Longrightarrow> SortedRemove l = Inr (None, l)"
  by (auto simp: represents_def list_rep_def SortedRemove_def IsEmpty_def)

lemma SortedRemove_rep:
  assumes "list_rep l ps ((k, x) # xs)"
  shows "\<exists>l'. SortedRemove l = Inr (Some (k, x), l') \<and> list_rep l' (tl ps) xs"
proof -
  from assms obtain a bs where ps: "ps = a # bs" by (cases ps) (auto simp: list_rep_def)
  note R = list_repD [OF assms]
  obtain e where e: "cells l a = Some e" "lfirst l = Some a" "le_key e = k" "le_item e = x"
    and bs: "chain (cells l) (le_next e) bs None" using R(1,4) ps by auto
  let ?l = "(if lfirst l = llast l then l\<lparr>lfirst := None, llast := None\<rparr> else l\<lparr>lfirst := le_next e\<rparr>)"
  let ?l' = "?l\<lparr>cells := (cells l)(a := None)\<rparr>"
  have "SortedRemove l = Inr (Some (k, x), ?l')"
    using e by (simp add: SortedRemove_def IsEmpty_def deref_def)
  moreover have "list_rep ?l' bs xs"
  proof (cases "bs = []")
    case True
    then show ?thesis using R e ps bs by (auto simp: list_rep_def)
  next
    case False
    then have "a \<noteq> last bs" using R(2) ps by auto
    then have "lfirst l \<noteq> llast l" using R(3) e ps False by auto
    then show ?thesis using R e ps bs False by (auto simp: list_rep_def)
  qed
  ultimately show ?thesis using ps by auto
qed

lemma SortedRemove_correct:
  assumes "represents l ((k, x) # xs)"
  shows "\<exists>l'. SortedRemove l = Inr (Some (k, x), l') \<and> represents l' xs"
proof -
  from assms obtain ps where "list_rep l ps ((k, x) # xs)" by (auto simp: represents_def)
  from SortedRemove_rep [OF this] show ?thesis by (auto simp: represents_def)
qed

lemma IsEmpty_correct: "represents l xs \<Longrightarrow> IsEmpty l \<longleftrightarrow> xs = []"
  unfolding represents_def by (metis list_rep_empty list_repD(4) content_Nil_iff)

lemma Mapcar_from_correct:
  "chain (cells l) ptr ps None \<Longrightarrow>
   Mapcar_from ptr l called = Some (Inr (called @ map snd (content (cells l) ps)))"
proof (induction ps arbitrary: ptr called)
  case Nil
  then show ?case by (subst Mapcar_from.simps) simp
next
  case (Cons a ps)
  then obtain e where e: "ptr = Some a" "cells l a = Some e" "chain (cells l) (le_next e) ps None"
    by auto
  then have "Mapcar_from ptr l called = Mapcar_from (le_next e) l (called @ [le_item e])"
    by (subst Mapcar_from.simps) (simp add: deref_def)
  with Cons.IH [OF e(3)] e show ?case by simp
qed

lemma Mapcar_correct: "represents l xs \<Longrightarrow> Mapcar l = Some (Inr (map snd xs))"
  by (auto simp: represents_def list_rep_def Mapcar_def Mapcar_from_correct)

lemma List_delete_correct:
  "represents l xs \<Longrightarrow> \<exists>l'. List_delete l = Some (Inr l') \<and> represents l' [] \<and> cells l' = Map.empty"
proof (induction xs arbitrary: l)
  case Nil
  then have "List_delete l = Some (Inr l)"
    by (simp add: List_delete.simps Remove_def SortedRemove_empty)
  with Nil show ?case by (auto simp: represents_def list_rep_def)
next
  case (Cons y ys)
  obtain k x where y: "y = (k, x)" by (cases y)
  have "represents l ((k, x) # ys)" using Cons.prems y by simp
  from SortedRemove_correct [OF this] obtain l' where
    l': "SortedRemove l = Inr (Some (k, x), l')" "represents l' ys" by blast
  have "List_delete l = List_delete l'"
    by (subst List_delete.simps) (simp add: Remove_def l')
  with Cons.IH [OF l'(2)] show ?case by simp
qed

section \<open>The keyed queue\<close>

lemma mset_sorted_insert: "mset (sorted_insert k x xs) = add_mset (k, x) (mset xs)"
proof -
  have "mset (takeWhile P xs) + mset (dropWhile P xs) = mset xs" for P
    by (metis mset_append takeWhile_dropWhile_id)
  then show ?thesis by (simp add: sorted_insert_def)
qed

lemma set_sorted_insert [simp]: "set (sorted_insert k x xs) = insert (k, x) (set xs)"
  by (metis mset_sorted_insert set_mset_add_mset_insert set_mset_mset)

lemma sorted_insert_not_Nil [simp]: "sorted_insert k x xs \<noteq> []"
  by (simp add: sorted_insert_def)

lemma length_sorted_insert [simp]: "length (sorted_insert k x xs) = Suc (length xs)"
  by (metis mset_sorted_insert size_add_mset size_mset)

lemma sorted_insert_Cons:
  "sorted_insert k x ((k', y) # xs) =
     (if k' \<le> k then (k', y) # sorted_insert k x xs else (k, x) # (k', y) # xs)"
  by (simp add: sorted_insert_def)

lemma sorted_insert_Nil [simp]: "sorted_insert k x [] = [(k, x)]"
  by (simp add: sorted_insert_def)

lemma sorted_sorted_insert:
  "sorted (map fst xs) \<Longrightarrow> sorted (map fst (sorted_insert k x xs))"
  by (induction xs) (force simp: sorted_insert_Cons split: if_splits)+

text \<open>Insertion goes behind the items of the same key: the queue is first-in first-out per key.\<close>

lemma filter_sorted_insert:
  "sorted (map fst xs) \<Longrightarrow>
   filter (\<lambda>y. k' = fst y) (sorted_insert k x xs) =
     filter (\<lambda>y. k' = fst y) xs @ (if k' = k then [(k, x)] else [])"
proof (induction xs)
  case (Cons y ys)
  obtain ky vy where y: "y = (ky, vy)" by (cases y)
  have "filter (\<lambda>z. k = fst z) ys = []" if "k < ky"
    using Cons.prems y that by (force simp: filter_empty_conv)
  then show ?case using Cons y by (auto simp: sorted_insert_Cons)
qed simp

locale keyed_queue =
  fixes empty :: 'q
    and insert :: "int \<Rightarrow> 'a \<Rightarrow> 'q \<Rightarrow> 'q"
    and remove :: "'q \<Rightarrow> (int \<times> 'a) option \<times> 'q"
    and items :: "'q \<Rightarrow> (int \<times> 'a) list"
    and invar :: "'q \<Rightarrow> bool"
  assumes items_empty: "items empty = []"
    and items_insert: "invar q \<Longrightarrow> items (insert k x q) = sorted_insert k x (items q)"
    and remove_empty: "invar q \<Longrightarrow> items q = [] \<Longrightarrow> fst (remove q) = None"
    and remove_first: "invar q \<Longrightarrow> items q = y # ys \<Longrightarrow> fst (remove q) = Some y \<and> items (snd (remove q)) = ys"
    and invar_empty: "invar empty"
    and invar_insert: "invar q \<Longrightarrow> invar (insert k x q)"
    and invar_remove: "invar q \<Longrightarrow> invar (snd (remove q))"

fun insert_all :: "(int \<Rightarrow> 'a \<Rightarrow> 'q \<Rightarrow> 'q) \<Rightarrow> (int \<times> 'a) list \<Rightarrow> 'q \<Rightarrow> 'q" where
  "insert_all ins [] q = q"
| "insert_all ins ((k, x) # ys) q = insert_all ins ys (ins k x q)"

fun remove_all :: "('q \<Rightarrow> (int \<times> 'a) option \<times> 'q) \<Rightarrow> nat \<Rightarrow> 'q \<Rightarrow> (int \<times> 'a) list" where
  "remove_all rem 0 q = []"
| "remove_all rem (Suc n) q =
     (case rem q of (None, _) \<Rightarrow> [] | (Some y, q') \<Rightarrow> y # remove_all rem n q')"

context keyed_queue
begin

lemma insert_all_invar: "invar q \<Longrightarrow> invar (insert_all insert ys q)"
  by (induction ys arbitrary: q) (auto simp: invar_insert)

lemma insert_all_sorted:
  "invar q \<Longrightarrow> sorted (map fst (items q)) \<Longrightarrow> sorted (map fst (items (insert_all insert ys q)))"
  by (induction ys arbitrary: q)
     (auto simp: items_insert sorted_sorted_insert invar_insert)

lemma insert_all_mset:
  "invar q \<Longrightarrow> mset (items (insert_all insert ys q)) = mset (items q) + mset ys"
  by (induction ys arbitrary: q)
     (auto simp: items_insert mset_sorted_insert invar_insert)

lemma insert_all_fifo:
  "invar q \<Longrightarrow> sorted (map fst (items q)) \<Longrightarrow>
   filter (\<lambda>y. k = fst y) (items (insert_all insert ys q)) =
     filter (\<lambda>y. k = fst y) (items q) @ filter (\<lambda>y. k = fst y) ys"
  by (induction ys arbitrary: q)
     (auto simp: items_insert invar_insert sorted_sorted_insert filter_sorted_insert)

lemma items_insert_all: "items (insert_all insert ys empty) = sort_key fst ys"
proof (rule sym, rule properties_for_sort_key)
  show "mset (items (insert_all insert ys empty)) = mset ys"
    by (simp add: insert_all_mset invar_empty items_empty)
  show "sorted (map fst (items (insert_all insert ys empty)))"
    by (simp add: insert_all_sorted invar_empty items_empty)
  show "filter (\<lambda>y. fst k = fst y) (items (insert_all insert ys empty)) = filter (\<lambda>y. fst k = fst y) ys" for k
    by (simp add: insert_all_fifo invar_empty items_empty)
qed

lemma remove_all_items: "invar q \<Longrightarrow> remove_all remove (length (items q)) q = items q"
proof (induction "items q" arbitrary: q)
  case (Cons y ys)
  have "fst (remove q) = Some y" "items (snd (remove q)) = ys"
    using remove_first [OF Cons.prems, of y ys] Cons.hyps(2) by auto
  moreover have "remove_all remove (length ys) (snd (remove q)) = ys"
    using Cons.hyps(1) [of "snd (remove q)"] calculation(2) invar_remove [OF Cons.prems] by simp
  ultimately show ?case
    by (subst Cons.hyps(2) [symmetric]) (auto simp: Cons.hyps(2) [symmetric] split: prod.split)
qed simp

lemma remove_all_insert_all:
  "remove_all remove (length ys) (insert_all insert ys empty) = sort_key fst ys"
  using remove_all_items [of "insert_all insert ys empty"]
  by (simp add: items_insert_all insert_all_invar invar_empty)

end

section \<open>The list class and its value as keyed queues\<close>

fun walk :: "nat \<Rightarrow> (nat \<Rightarrow> 'a ListElement option) \<Rightarrow> nat option \<Rightarrow> (int \<times> 'a) list" where
  "walk 0 c p = []"
| "walk (Suc n) c p =
     (case p of None \<Rightarrow> []
      | Some a \<Rightarrow> (case c a of None \<Rightarrow> [] | Some e \<Rightarrow> (le_key e, le_item e) # walk n c (le_next e)))"

definition list_items :: "'a LList \<Rightarrow> (int \<times> 'a) list" where
  "list_items l = walk (brk l) (cells l) (lfirst l)"

lemma walk_chain: "chain c p ps None \<Longrightarrow> length ps \<le> n \<Longrightarrow> walk n c p = content c ps"
proof (induction ps arbitrary: p n)
  case Nil
  then show ?case by (cases n) auto
next
  case (Cons a ps)
  then show ?case by (cases n) auto
qed

lemma represents_items: "represents l xs \<Longrightarrow> list_items l = xs"
proof -
  assume "represents l xs"
  then obtain ps where R: "list_rep l ps xs" by (auto simp: represents_def)
  have "set ps \<subseteq> {..<brk l}" using list_repD(6) [OF R] by auto
  then have "length ps \<le> brk l"
    using list_repD(2) [OF R] by (metis card_lessThan card_mono distinct_card finite_lessThan)
  then show ?thesis
    using walk_chain [OF list_repD(1) [OF R]] list_repD(4) [OF R] by (simp add: list_items_def)
qed

definition list_wf :: "'a LList \<Rightarrow> bool" where
  "list_wf l \<longleftrightarrow> represents l (list_items l)"

lemma list_wf_iff: "list_wf l \<longleftrightarrow> (\<exists>xs. represents l xs)"
  using represents_items by (fastforce simp: list_wf_def)

definition heap_insert :: "int \<Rightarrow> 'a \<Rightarrow> 'a LList \<Rightarrow> 'a LList" where
  "heap_insert k x l = projr (the (SortedInsert x k l))"

definition heap_remove :: "'a LList \<Rightarrow> (int \<times> 'a) option \<times> 'a LList" where
  "heap_remove l = projr (SortedRemove l)"

interpretation heap_queue: keyed_queue List_new heap_insert heap_remove list_items list_wf
proof unfold_locales
  show "list_items (List_new :: 'a LList) = []"
    by (rule represents_items [OF represents_new])
  show "list_wf (List_new :: 'a LList)"
    using represents_new list_wf_iff by blast
next
  fix q :: "'a LList" and k and x :: 'a
  assume "list_wf q"
  then obtain l' where l': "SortedInsert x k q = Some (Inr l')"
    "represents l' (sorted_insert k x (list_items q))"
    using SortedInsert_correct [of q "list_items q" x k] by (auto simp: list_wf_def)
  then show "list_items (heap_insert k x q) = sorted_insert k x (list_items q)"
    using represents_items [OF l'(2)] by (simp add: heap_insert_def)
  show "list_wf (heap_insert k x q)"
    using l' list_wf_iff by (auto simp: heap_insert_def)
next
  fix q :: "'a LList"
  assume wf: "list_wf q"
  show "fst (heap_remove q) = None" if "list_items q = []"
    using wf that SortedRemove_empty [of q] by (simp add: list_wf_def heap_remove_def)
  have rem: "\<exists>l'. SortedRemove q = Inr (Some y, l') \<and> represents l' ys" if "list_items q = y # ys" for y ys
    using wf that SortedRemove_correct [of q "fst y" "snd y" ys] by (simp add: list_wf_def)
  show "fst (heap_remove q) = Some y \<and> list_items (snd (heap_remove q)) = ys"
    if "list_items q = y # ys" for y ys
    using rem [OF that] represents_items by (auto simp: heap_remove_def)
  show "list_wf (snd (heap_remove q))"
  proof (cases "list_items q")
    case Nil
    then show ?thesis using wf SortedRemove_empty [of q] by (simp add: list_wf_def heap_remove_def)
  next
    case (Cons y ys)
    then show ?thesis using rem [OF Cons] by (auto simp: heap_remove_def list_wf_iff)
  qed
qed

text \<open>
  The kernel model keeps the value of a \<open>List\<close>, its list of keyed items, in place of the cells:
  \<open>sorted_insert\<close> for \<open>SortedInsert\<close>, \<open>queue_remove\<close> for \<open>SortedRemove\<close>. Both satisfy
  the same interface.
\<close>

fun queue_remove :: "(int \<times> 'a) list \<Rightarrow> (int \<times> 'a) option \<times> (int \<times> 'a) list" where
  "queue_remove [] = (None, [])"
| "queue_remove (y # ys) = (Some y, ys)"

interpretation value_queue: keyed_queue "[]" sorted_insert queue_remove "\<lambda>q. q" "\<lambda>q. True"
  by unfold_locales auto

section \<open>Properties\<close>

text \<open>C29. \<open>List::SortedInsert\<close> on a well-formed list returns without touching a null or deleted cell,
  its result is well-formed again, and the list it stands for is the old one with the new item placed
  before the first item of greater key; a list sorted by key stays sorted, and the new item comes
  after all items of the same key.\<close>

theorem SortedInsert_refines:
  assumes "represents l xs"
  shows "\<exists>l'. SortedInsert x k l = Some (Inr l') \<and> represents l' (sorted_insert k x xs) \<and>
    (sorted (map fst xs) \<longrightarrow> sorted (map fst (sorted_insert k x xs)) \<and>
      filter (\<lambda>y. k = fst y) (sorted_insert k x xs) = filter (\<lambda>y. k = fst y) xs @ [(k, x)])"
  using SortedInsert_correct [OF assms, of x k] sorted_sorted_insert filter_sorted_insert by fastforce

theorem SortedInsert_refines_witness:
  "\<exists>l'. SortedInsert (7::nat) 3 List_new = Some (Inr l') \<and> represents l' [(3, 7)]"
  using SortedInsert_refines [OF represents_new, of "7::nat" 3] by auto

text \<open>The pointer structure of \<open>list.cc\<close> is a stable priority queue: items put into a fresh list
  with \<open>SortedInsert\<close> come out of \<open>SortedRemove\<close> sorted by key, items of equal key in the order
  in which they were put in.\<close>

theorem SortedInsert_SortedRemove_stable_sort:
  "remove_all heap_remove (length ys) (insert_all heap_insert ys List_new) = sort_key fst ys"
  by (rule heap_queue.remove_all_insert_all)

text \<open>\<open>Append\<close> and \<open>SortedRemove\<close> make the list a first-in first-out queue, and the
  destructor \<open>~List\<close> returns and frees every cell.\<close>

theorem Append_Remove_delete:
  assumes "represents l xs"
  shows "(\<exists>l'. Append x l = Inr l' \<and> represents l' (xs @ [(0, x)])) \<and>
    (case xs of
       [] \<Rightarrow> Remove l = Inr (None, l)
     | (k, y) # ys \<Rightarrow> \<exists>l'. Remove l = Inr (Some y, l') \<and> represents l' ys) \<and>
    (\<exists>l'. List_delete l = Some (Inr l') \<and> cells l' = Map.empty)"
proof (intro conjI)
  show "\<exists>l'. Append x l = Inr l' \<and> represents l' (xs @ [(0, x)])" by (rule Append_correct [OF assms])
  show "case xs of [] \<Rightarrow> Remove l = Inr (None, l)
     | (k, y) # ys \<Rightarrow> \<exists>l'. Remove l = Inr (Some y, l') \<and> represents l' ys"
    using SortedRemove_correct [of l] SortedRemove_empty [of l] assms
    by (fastforce simp: Remove_def split: list.splits)
  show "\<exists>l'. List_delete l = Some (Inr l') \<and> cells l' = Map.empty"
    using List_delete_correct [OF assms] by blast
qed

theorem Append_Remove_delete_witness:
  "(\<exists>l'. Append (5::nat) List_new = Inr l' \<and> represents l' [(0, 5)]) \<and>
   (\<exists>l'. List_delete (List_new :: nat LList) = Some (Inr l') \<and> cells l' = Map.empty)"
  using Append_Remove_delete [OF represents_new, of "5::nat"] by simp

end
