(* ===== verification/Bit_Map.thy ===== *)
theory Bit_Map
  imports Nachos_Prelude
begin

text \<open>
  The class \<open>BitMap\<close> of \<^verbatim>\<open>src/code/userprog/bitmap.cc\<close>: bits packed into an array of
  32-bit words. The kernel uses it as an allocator of disk sectors (\<open>FileHeader::Allocate\<close>), of
  physical pages (\<open>MemoryManager\<close>) and as the set of saved pages (\<open>BackingStore\<close>).

  \<open>bits b\<close> is the set a bitmap stands for; each operation is shown to be the corresponding
  operation on that set, and the locale \<open>slot_allocator\<close> is the interface its clients rely on.
\<close>

unbundle bit_operations_syntax

section \<open>The model of bitmap.cc\<close>

definition BitsInByte :: int where "BitsInByte = 8"
definition BitsInWord :: int where "BitsInWord = 32"

record BitMap =
  numBits :: int
  numWords :: int
  bm_map :: "32 word list"

text \<open>\<open>map[i]\<close>: reading and writing outside the array stops.\<close>

definition word_at :: "BitMap \<Rightarrow> int \<Rightarrow> 32 word res" where
  "word_at b i = (if 0 \<le> i \<and> i < int (length (bm_map b)) then Inr (bm_map b ! nat i) else Inl OutOfBounds)"

definition set_word :: "BitMap \<Rightarrow> int \<Rightarrow> 32 word \<Rightarrow> BitMap" where
  "set_word b i w = b\<lparr>bm_map := (bm_map b)[nat i := w]\<rparr>"

definition bit_mask :: "int \<Rightarrow> 32 word" where
  "bit_mask which = push_bit (nat (which smod BitsInWord)) 1"

definition Mark :: "int \<Rightarrow> BitMap \<Rightarrow> BitMap res" where
  "Mark which b =
     bindR (assertR (which \<ge> 0 \<and> which < numBits b)) (\<lambda>_.
     bindR (word_at b (which sdiv BitsInWord)) (\<lambda>w.
     Inr (set_word b (which sdiv BitsInWord) (w OR bit_mask which))))"

definition Clear :: "int \<Rightarrow> BitMap \<Rightarrow> BitMap res" where
  "Clear which b =
     bindR (assertR (which \<ge> 0 \<and> which < numBits b)) (\<lambda>_.
     bindR (word_at b (which sdiv BitsInWord)) (\<lambda>w.
     Inr (set_word b (which sdiv BitsInWord) (w AND NOT (bit_mask which)))))"

definition Test :: "int \<Rightarrow> BitMap \<Rightarrow> bool res" where
  "Test which b =
     bindR (assertR (which \<ge> 0 \<and> which < numBits b)) (\<lambda>_.
     bindR (word_at b (which sdiv BitsInWord)) (\<lambda>w.
     Inr (w AND bit_mask which \<noteq> 0)))"

function clear_from :: "int \<Rightarrow> BitMap \<Rightarrow> BitMap res" where
  "clear_from i b =
     (if i < numBits b
      then bindR (Clear i b) (\<lambda>b'. if numBits b' = numBits b then clear_from (i + 1) b' else Inr b')
      else Inr b)"
  by pat_completeness auto
termination by (relation "measure (\<lambda>(i, b). nat (numBits b - i))") auto

text \<open>\<open>new unsigned int[numWords]\<close> leaves the words with whatever the memory held: \<open>junk\<close>.\<close>

definition BitMap_new :: "32 word list \<Rightarrow> int \<Rightarrow> BitMap res" where
  "BitMap_new junk nitems =
     clear_from 0 \<lparr>numBits = nitems, numWords = divRoundUp nitems BitsInWord,
                   bm_map = take (nat (divRoundUp nitems BitsInWord)) (junk @ replicate (nat (divRoundUp nitems BitsInWord)) 0)\<rparr>"

function Find_from :: "int \<Rightarrow> BitMap \<Rightarrow> (int \<times> BitMap) res" where
  "Find_from i b =
     (if i < numBits b
      then bindR (Test i b) (\<lambda>t. if \<not> t then bindR (Mark i b) (\<lambda>b'. Inr (i, b')) else Find_from (i + 1) b)
      else Inr (- 1, b))"
  by pat_completeness auto
termination by (relation "measure (\<lambda>(i, b). nat (numBits b - i))") auto

definition Find :: "BitMap \<Rightarrow> (int \<times> BitMap) res" where
  "Find b = Find_from 0 b"

function NumClear_from :: "int \<Rightarrow> int \<Rightarrow> BitMap \<Rightarrow> int res" where
  "NumClear_from i count b =
     (if i < numBits b
      then bindR (Test i b) (\<lambda>t. NumClear_from (i + 1) (if \<not> t then count + 1 else count) b)
      else Inr count)"
  by pat_completeness auto
termination by (relation "measure (\<lambda>(i, c, b). nat (numBits b - i))") auto

definition NumClear :: "BitMap \<Rightarrow> int res" where
  "NumClear b = NumClear_from 0 0 b"

text \<open>\<open>Print\<close>, as the list of numbers it prints.\<close>

function Print_from :: "int \<Rightarrow> int list \<Rightarrow> BitMap \<Rightarrow> int list res" where
  "Print_from i printed b =
     (if i < numBits b
      then bindR (Test i b) (\<lambda>t. Print_from (i + 1) (if t then printed @ [i] else printed) b)
      else Inr printed)"
  by pat_completeness auto
termination by (relation "measure (\<lambda>(i, p, b). nat (numBits b - i))") auto

definition Print :: "BitMap \<Rightarrow> int list res" where
  "Print b = Print_from 0 [] b"

declare clear_from.simps [simp del] Find_from.simps [simp del] NumClear_from.simps [simp del]
  Print_from.simps [simp del]

section \<open>The set a bitmap stands for\<close>

definition bitmap_wf :: "BitMap \<Rightarrow> bool" where
  "bitmap_wf b \<longleftrightarrow> 0 \<le> numBits b \<and> numWords b = divRoundUp (numBits b) BitsInWord \<and>
     int (length (bm_map b)) = numWords b"

definition bits :: "BitMap \<Rightarrow> int set" where
  "bits b = {i. 0 \<le> i \<and> i < numBits b \<and> bit (bm_map b ! nat (i div 32)) (nat (i mod 32))}"

lemma bits_bounds: "i \<in> bits b \<Longrightarrow> 0 \<le> i \<and> i < numBits b"
  by (simp add: bits_def)

lemma finite_bits [simp]: "finite (bits b)"
  by (rule finite_subset [of _ "{0..<numBits b}"]) (auto simp: bits_def)

lemma word_index:
  assumes "bitmap_wf b" and "0 \<le> i" and "i < numBits b"
  shows "i div 32 < int (length (bm_map b))" "0 \<le> i div 32"
proof -
  have "numBits b \<le> divRoundUp (numBits b) 32 * 32"
    using assms by (intro divRoundUp_ge) auto
  then show "i div 32 < int (length (bm_map b))"
    using assms by (simp add: bitmap_wf_def BitsInWord_def)
  show "0 \<le> i div 32" using assms by simp
qed

lemma bit_mask_bit:
  "0 \<le> i \<Longrightarrow> bit (bit_mask i) n \<longleftrightarrow> n = nat (i mod 32)"
  by (auto simp: bit_mask_def BitsInWord_def bit_simps nat_less_iff)

lemma and_bit_mask:
  assumes "0 \<le> i"
  shows "w AND bit_mask i \<noteq> 0 \<longleftrightarrow> bit w (nat (i mod 32))"
proof -
  have "bit w n \<Longrightarrow> n < 32" for n
    using bit_imp_le_length [of w n] by simp
  then have "w AND bit_mask i = 0 \<longleftrightarrow> (\<forall>n. \<not> (bit w n \<and> bit (bit_mask i) n))"
    by (subst bit_eq_iff) (auto simp: bit_simps)
  then show ?thesis by (simp add: bit_mask_bit assms)
qed

lemma Test_correct:
  assumes "bitmap_wf b" and "0 \<le> i" and "i < numBits b"
  shows "Test i b = Inr (i \<in> bits b)"
  using assms word_index [OF assms] and_bit_mask [OF assms(2), of "bm_map b ! nat (i div 32)"]
  by (simp add: Test_def word_at_def BitsInWord_def bits_def)

lemma div_mod_32_eq: "(i::int) div 32 = j div 32 \<Longrightarrow> i mod 32 = j mod 32 \<Longrightarrow> i = j"
  by (metis div_mult_mod_eq)

lemma set_word_bits:
  assumes "bitmap_wf b" and "0 \<le> i" and "i < numBits b"
  shows "bits (set_word b (i div 32) w) =
    {j \<in> bits b. j div 32 \<noteq> i div 32} \<union>
    {j. 0 \<le> j \<and> j < numBits b \<and> j div 32 = i div 32 \<and> bit w (nat (j mod 32))}"
proof (rule set_eqI)
  fix j
  show "j \<in> bits (set_word b (i div 32) w) \<longleftrightarrow> j \<in> {j \<in> bits b. j div 32 \<noteq> i div 32} \<union>
    {j. 0 \<le> j \<and> j < numBits b \<and> j div 32 = i div 32 \<and> bit w (nat (j mod 32))}"
  proof (cases "0 \<le> j")
    case True
    then have "nat (j div 32) = nat (i div 32) \<longleftrightarrow> j div 32 = i div 32"
      using assms by auto
    then show ?thesis
      using word_index [OF assms] by (auto simp: bits_def set_word_def nth_list_update nat_less_iff)
  qed (auto simp: bits_def)
qed

lemma set_word_wf [simp]: "bitmap_wf (set_word b i w) = bitmap_wf b"
  by (simp add: bitmap_wf_def set_word_def)

lemma set_word_numBits [simp]: "numBits (set_word b i w) = numBits b"
  by (simp add: set_word_def)

lemma Mark_correct:
  assumes "bitmap_wf b" and "0 \<le> i" and "i < numBits b"
  shows "\<exists>b'. Mark i b = Inr b' \<and> bitmap_wf b' \<and> numBits b' = numBits b \<and> bits b' = insert i (bits b)"
proof -
  let ?w = "bm_map b ! nat (i div 32)"
  let ?b = "set_word b (i div 32) (?w OR bit_mask i)"
  have "Mark i b = Inr ?b"
    using assms word_index [OF assms] by (simp add: Mark_def word_at_def BitsInWord_def)
  moreover have "bits ?b = insert i (bits b)"
    unfolding set_word_bits [OF assms] using assms
    by (auto simp: bit_simps bit_mask_bit bits_def nat_less_iff dest: div_mod_32_eq)
  ultimately show ?thesis using assms by auto
qed

lemma Clear_correct:
  assumes "bitmap_wf b" and "0 \<le> i" and "i < numBits b"
  shows "\<exists>b'. Clear i b = Inr b' \<and> bitmap_wf b' \<and> numBits b' = numBits b \<and> bits b' = bits b - {i}"
proof -
  let ?w = "bm_map b ! nat (i div 32)"
  let ?b = "set_word b (i div 32) (?w AND NOT (bit_mask i))"
  have "Clear i b = Inr ?b"
    using assms word_index [OF assms] by (simp add: Clear_def word_at_def BitsInWord_def)
  moreover have "bits ?b = bits b - {i}"
    unfolding set_word_bits [OF assms] using assms
    by (auto simp: bit_simps bit_mask_bit bits_def nat_less_iff dest: div_mod_32_eq)
  ultimately show ?thesis using assms by auto
qed


lemma clear_from_correct:
  "bitmap_wf b \<Longrightarrow> 0 \<le> i \<Longrightarrow>
   \<exists>b'. clear_from i b = Inr b' \<and> bitmap_wf b' \<and> numBits b' = numBits b \<and> bits b' = {j \<in> bits b. j < i}"
proof (induction i b rule: clear_from.induct)
  case (1 i b)
  show ?case
  proof (cases "i < numBits b")
    case True
    from Clear_correct [OF "1.prems" True] obtain b1 where
      b1: "Clear i b = Inr b1" "bitmap_wf b1" "numBits b1 = numBits b" "bits b1 = bits b - {i}" by blast
    have "0 \<le> i + 1" using "1.prems"(2) by simp
    from "1.IH" [OF True b1(1,3,2) this] obtain b' where
      b': "clear_from (i + 1) b1 = Inr b'" "bitmap_wf b'" "numBits b' = numBits b1"
        "bits b' = {j \<in> bits b1. j < i + 1}" by blast
    have "bits b' = {j \<in> bits b. j < i}" unfolding b'(4) b1(4) by auto
    moreover have "clear_from i b = clear_from (i + 1) b1"
      using True b1 by (subst clear_from.simps) simp
    ultimately show ?thesis using b1 b' by simp
  next
    case False
    then have "clear_from i b = Inr b" by (subst clear_from.simps) simp
    moreover have "bits b = {j \<in> bits b. j < i}" using False by (auto dest: bits_bounds)
    ultimately show ?thesis using "1.prems" by simp
  qed
qed

lemma BitMap_new_correct:
  assumes "0 \<le> nitems"
  shows "\<exists>b. BitMap_new junk nitems = Inr b \<and> bitmap_wf b \<and> numBits b = nitems \<and> bits b = {}"
proof -
  let ?n = "nat (divRoundUp nitems BitsInWord)"
  let ?b = "\<lparr>numBits = nitems, numWords = divRoundUp nitems BitsInWord,
             bm_map = take ?n (junk @ replicate ?n 0)\<rparr>"
  have "bitmap_wf ?b"
    using assms divRoundUp_nonneg [OF assms, of 32] by (simp add: bitmap_wf_def BitsInWord_def)
  from clear_from_correct [OF this, of 0] show ?thesis
    using bits_bounds by (auto simp: BitMap_new_def) (metis not_le)
qed

text \<open>\<open>Find\<close> takes the least clear bit.\<close>

lemma Find_from_correct:
  "bitmap_wf b \<Longrightarrow> 0 \<le> i \<Longrightarrow> {0..<i} \<subseteq> bits b \<Longrightarrow>
   (\<exists>b' j. Find_from i b = Inr (j, b') \<and> 0 \<le> j \<and> j < numBits b \<and> j \<notin> bits b \<and> {0..<j} \<subseteq> bits b \<and>
      bitmap_wf b' \<and> numBits b' = numBits b \<and> bits b' = insert j (bits b)) \<or>
   (Find_from i b = Inr (- 1, b) \<and> {0..<numBits b} \<subseteq> bits b)"
proof (induction i b rule: Find_from.induct)
  case (1 i b)
  show ?case
  proof (cases "i < numBits b")
    case True
    note T = Test_correct [OF "1.prems"(1,2) True]
    show ?thesis
    proof (cases "i \<in> bits b")
      case False
      from Mark_correct [OF "1.prems"(1,2) True] obtain b' where
        b': "Mark i b = Inr b'" "bitmap_wf b'" "numBits b' = numBits b" "bits b' = insert i (bits b)"
        by blast
      have "Find_from i b = Inr (i, b')"
        using T b' True False by (subst Find_from.simps) simp
      then show ?thesis
        using b' "1.prems" True False
        by (intro disjI1 exI [of _ b'] exI [of _ i] conjI) assumption+
    next
      case True
      have "{0..<i + 1} = insert i {0..<i}" using "1.prems"(2) by auto
      then have "{0..<i + 1} \<subseteq> bits b"
        using "1.prems"(3) True by simp
      moreover have step: "Find_from i b = Find_from (i + 1) b"
        using T True \<open>i < numBits b\<close> by (subst Find_from.simps) simp
      ultimately show ?thesis
        unfolding step using True "1.prems"(1,2) by (intro "1.IH" [OF \<open>i < numBits b\<close> T]) simp_all
    qed
  next
    case False
    then have "Find_from i b = Inr (- 1, b)" by (subst Find_from.simps) simp
    moreover have "{0..<numBits b} \<subseteq> {0..<i}" using False by simp
    ultimately show ?thesis using "1.prems"(3) by (intro disjI2 conjI) (assumption, rule subset_trans)
  qed
qed

lemma Find_correct:
  assumes "bitmap_wf b"
  shows "(\<exists>b' j. Find b = Inr (j, b') \<and> 0 \<le> j \<and> j < numBits b \<and> j \<notin> bits b \<and> {0..<j} \<subseteq> bits b \<and>
      bitmap_wf b' \<and> numBits b' = numBits b \<and> bits b' = insert j (bits b)) \<or>
   (Find b = Inr (- 1, b) \<and> bits b = {0..<numBits b})"
proof -
  have "bits b \<subseteq> {0..<numBits b}" by (auto simp: bits_def)
  then show ?thesis
    using Find_from_correct [OF assms, of 0] unfolding Find_def by auto
qed

lemma bits_from_Suc:
  "i < numBits b \<Longrightarrow> 0 \<le> i \<Longrightarrow>
   {j. i \<le> j \<and> j < numBits b \<and> j \<notin> bits b} =
     (if i \<in> bits b then {} else {i}) \<union> {j. i + 1 \<le> j \<and> j < numBits b \<and> j \<notin> bits b}"
  by (auto simp: order_le_less)

lemma NumClear_from_correct:
  "bitmap_wf b \<Longrightarrow> 0 \<le> i \<Longrightarrow>
   NumClear_from i c b = Inr (c + int (card {j. i \<le> j \<and> j < numBits b \<and> j \<notin> bits b}))"
proof (induction i c b rule: NumClear_from.induct)
  case (1 i c b)
  show ?case
  proof (cases "i < numBits b")
    case True
    note T = Test_correct [OF "1.prems" True]
    have fin: "finite {j. i + 1 \<le> j \<and> j < numBits b \<and> j \<notin> bits b}"
      by (rule finite_subset [of _ "{i..<numBits b}"]) auto
    have "NumClear_from i c b =
        NumClear_from (i + 1) (if \<not> i \<in> bits b then c + 1 else c) b"
      using True T by (subst NumClear_from.simps) simp
    then show ?thesis
      using "1.IH" [OF True T] "1.prems" fin bits_from_Suc [OF True "1.prems"(2)] by simp
  next
    case False
    then have "{j. i \<le> j \<and> j < numBits b \<and> j \<notin> bits b} = {}" by auto
    moreover have "NumClear_from i c b = Inr c" using False by (subst NumClear_from.simps) simp
    ultimately show ?thesis by (simp only: card.empty) simp
  qed
qed

lemma NumClear_correct:
  assumes "bitmap_wf b"
  shows "NumClear b = Inr (numBits b - int (card (bits b)))"
proof -
  have eq: "{j. 0 \<le> j \<and> j < numBits b \<and> j \<notin> bits b} = {0..<numBits b} - bits b" by auto
  have sub: "bits b \<subseteq> {0..<numBits b}" by (auto simp: bits_def)
  have "card (bits b) \<le> card {0..<numBits b}" by (rule card_mono [OF _ sub]) simp
  then have "int (card ({0..<numBits b} - bits b)) = numBits b - int (card (bits b))"
    using assms card_Diff_subset [OF _ sub] by (simp add: bitmap_wf_def of_nat_diff)
  then show ?thesis
    using NumClear_from_correct [OF assms, of 0 0] eq by (simp add: NumClear_def)
qed

lemma Print_from_correct:
  "bitmap_wf b \<Longrightarrow> 0 \<le> i \<Longrightarrow>
   Print_from i pr b = Inr (pr @ filter (\<lambda>j. j \<in> bits b) [i..numBits b - 1])"
proof (induction i pr b rule: Print_from.induct)
  case (1 i pr b)
  show ?case
  proof (cases "i < numBits b")
    case True
    note T = Test_correct [OF "1.prems" True]
    have "[i..numBits b - 1] = i # [i + 1..numBits b - 1]"
      using True by (subst upto.simps) simp
    moreover have "Print_from i pr b = Print_from (i + 1) (if i \<in> bits b then pr @ [i] else pr) b"
      using True T by (subst Print_from.simps) simp
    ultimately show ?thesis using "1.IH" [OF True T] "1.prems" by simp
  next
    case False
    then show ?thesis by (subst Print_from.simps) simp
  qed
qed

section \<open>The allocator interface\<close>

locale slot_allocator =
  fixes alloc :: "'m \<Rightarrow> (int \<times> 'm) res"
    and free :: "int \<Rightarrow> 'm \<Rightarrow> 'm res"
    and used :: "'m \<Rightarrow> int set"
    and slots :: "'m \<Rightarrow> int"
    and invar :: "'m \<Rightarrow> bool"
  assumes used_bounds: "invar m \<Longrightarrow> used m \<subseteq> {0..<slots m}"
    and alloc_full: "invar m \<Longrightarrow> used m = {0..<slots m} \<Longrightarrow> alloc m = Inr (- 1, m)"
    and alloc_fresh: "invar m \<Longrightarrow> used m \<noteq> {0..<slots m} \<Longrightarrow>
      \<exists>j m'. alloc m = Inr (j, m') \<and> j \<in> {0..<slots m} - used m \<and>
        invar m' \<and> slots m' = slots m \<and> used m' = insert j (used m)"
    and free_used: "invar m \<Longrightarrow> j \<in> {0..<slots m} \<Longrightarrow>
      \<exists>m'. free j m = Inr m' \<and> invar m' \<and> slots m' = slots m \<and> used m' = used m - {j}"

fun alloc_many :: "('m \<Rightarrow> (int \<times> 'm) res) \<Rightarrow> nat \<Rightarrow> 'm \<Rightarrow> (int list \<times> 'm) res" where
  "alloc_many alc 0 m = Inr ([], m)"
| "alloc_many alc (Suc n) m =
     bindR (alc m) (\<lambda>(j, m). bindR (alloc_many alc n m) (\<lambda>(js, m). Inr (j # js, m)))"

fun free_many :: "(int \<Rightarrow> 'm \<Rightarrow> 'm res) \<Rightarrow> int list \<Rightarrow> 'm \<Rightarrow> 'm res" where
  "free_many fre [] m = Inr m"
| "free_many fre (j # js) m = bindR (fre j m) (free_many fre js)"

context slot_allocator
begin

lemma alloc_many_fresh:
  "invar m \<Longrightarrow> int n + int (card (used m)) \<le> slots m \<Longrightarrow>
   \<exists>js m'. alloc_many alloc n m = Inr (js, m') \<and> length js = n \<and> distinct js \<and>
     set js \<subseteq> {0..<slots m} - used m \<and> invar m' \<and> slots m' = slots m \<and> used m' = used m \<union> set js"
proof (induction n arbitrary: m)
  case (Suc n)
  have fin: "finite (used m)" using used_bounds [OF Suc.prems(1)] finite_subset by blast
  have "used m \<noteq> {0..<slots m}" using Suc.prems by (auto split: if_splits)
  from alloc_fresh [OF Suc.prems(1) this] obtain j m1 where
    m1: "alloc m = Inr (j, m1)" "j \<in> {0..<slots m} - used m" "invar m1" "slots m1 = slots m"
      "used m1 = insert j (used m)" by blast
  have "int n + int (card (used m1)) \<le> slots m1" using Suc.prems(2) m1 fin by simp
  from Suc.IH [OF m1(3) this] obtain js m' where
    m': "alloc_many alloc n m1 = Inr (js, m')" "length js = n" "distinct js"
      "set js \<subseteq> {0..<slots m1} - used m1" "invar m'" "slots m' = slots m1" "used m' = used m1 \<union> set js"
    by blast
  show ?case
    using m1 m' by (intro exI [of _ "j # js"] exI [of _ m']) auto
qed simp

lemma free_many_used:
  "invar m \<Longrightarrow> set js \<subseteq> {0..<slots m} \<Longrightarrow>
   \<exists>m'. free_many free js m = Inr m' \<and> invar m' \<and> slots m' = slots m \<and> used m' = used m - set js"
proof (induction js arbitrary: m)
  case (Cons j js)
  from free_used [OF Cons.prems(1), of j] Cons.prems(2) obtain m1 where
    m1: "free j m = Inr m1" "invar m1" "slots m1 = slots m" "used m1 = used m - {j}" by auto
  from Cons.IH [OF m1(2)] m1(3) Cons.prems(2) obtain m' where
    "free_many free js m1 = Inr m'" "invar m'" "slots m' = slots m1" "used m' = used m1 - set js"
    by auto
  with m1 show ?case by (intro exI [of _ m']) auto
qed simp

text \<open>Freeing what was allocated gives back the set of free slots.\<close>

lemma alloc_free_many:
  assumes "invar m" and "int n + int (card (used m)) \<le> slots m"
  shows "\<exists>js m1 m'. alloc_many alloc n m = Inr (js, m1) \<and> free_many free js m1 = Inr m' \<and>
    invar m' \<and> slots m' = slots m \<and> used m' = used m"
proof -
  from alloc_many_fresh [OF assms] obtain js m1 where
    m1: "alloc_many alloc n m = Inr (js, m1)" "set js \<subseteq> {0..<slots m} - used m" "invar m1"
      "slots m1 = slots m" "used m1 = used m \<union> set js" by blast
  from free_many_used [OF m1(3), of js] m1 obtain m' where
    m': "free_many free js m1 = Inr m'" "invar m'" "slots m' = slots m1" "used m' = used m1 - set js"
    by auto
  have "used m' = used m" unfolding m'(4) m1(5) using m1(2) by auto
  then show ?thesis using m1 m' by simp
qed

end

interpretation bitmap: slot_allocator Find Clear bits numBits bitmap_wf
proof unfold_locales
  fix m assume wf: "bitmap_wf m"
  show "bits m \<subseteq> {0..<numBits m}" by (auto simp: bits_def)
  show "Find m = Inr (- 1, m)" if "bits m = {0..<numBits m}"
    using Find_correct [OF wf] that by auto
  show "\<exists>j m'. Find m = Inr (j, m') \<and> j \<in> {0..<numBits m} - bits m \<and> bitmap_wf m' \<and>
      numBits m' = numBits m \<and> bits m' = insert j (bits m)" if "bits m \<noteq> {0..<numBits m}"
    using Find_correct [OF wf] that by (metis Diff_iff atLeastLessThan_iff)
  show "\<exists>m'. Clear j m = Inr m' \<and> bitmap_wf m' \<and> numBits m' = numBits m \<and> bits m' = bits m - {j}"
    if "j \<in> {0..<numBits m}" for j
    using Clear_correct [OF wf] that by simp
qed

section \<open>Properties\<close>

text \<open>A bitmap is a set of bit numbers: whatever the memory held before, a new bitmap is empty;
  \<open>Mark\<close>, \<open>Clear\<close> and \<open>Test\<close> of a number in range insert, delete and test it and stop on any
  other number; \<open>NumClear\<close> counts the numbers that are not in the set.\<close>

theorem bitmap_is_set:
  assumes "bitmap_wf b" and "0 \<le> n"
  shows "(\<exists>b0. BitMap_new junk n = Inr b0 \<and> bitmap_wf b0 \<and> numBits b0 = n \<and> bits b0 = {}) \<and>
    (if 0 \<le> i \<and> i < numBits b
     then (\<exists>b'. Mark i b = Inr b' \<and> bitmap_wf b' \<and> numBits b' = numBits b \<and> bits b' = insert i (bits b)) \<and>
          (\<exists>b'. Clear i b = Inr b' \<and> bitmap_wf b' \<and> numBits b' = numBits b \<and> bits b' = bits b - {i}) \<and>
          Test i b = Inr (i \<in> bits b)
     else Mark i b = Inl AssertFail \<and> Clear i b = Inl AssertFail \<and> Test i b = Inl AssertFail) \<and>
    NumClear b = Inr (numBits b - int (card (bits b)))"
  using BitMap_new_correct [OF assms(2)] Mark_correct [OF assms(1)] Clear_correct [OF assms(1)]
    Test_correct [OF assms(1)] NumClear_correct [OF assms(1)]
  by (auto simp: Mark_def Clear_def Test_def)

theorem bitmap_is_set_witness:
  "\<exists>b'. Mark 33 \<lparr>numBits = 40, numWords = 2, bm_map = [0, 0]\<rparr> = Inr b' \<and> bits b' = {33}"
proof -
  let ?b = "\<lparr>numBits = 40, numWords = 2, bm_map = [0, 0]\<rparr>"
  have wf: "bitmap_wf ?b" by (simp add: bitmap_wf_def divRoundUp_def BitsInWord_def)
  have "bits ?b = {}"
  proof -
    have "([0, 0] :: 32 word list) ! n = 0" if "n < 2" for n
      using that by (cases n) auto
    then show ?thesis by (auto simp: bits_def nat_less_iff)
  qed
  then show ?thesis using bitmap_is_set [OF wf, of 5 "[]" 33] by auto
qed

text \<open>\<open>Find\<close> never hands out a bit twice: it returns and marks the least clear bit, and returns -1
  and changes nothing exactly when every bit is set. \<open>n\<close> calls in a row, with at least \<open>n\<close> bits
  clear, give \<open>n\<close> different bits that were clear, and clearing them again restores the set.\<close>

theorem Find_allocates:
  assumes "bitmap_wf b" and "int n + int (card (bits b)) \<le> numBits b"
  shows "(\<exists>j b'. Find b = Inr (j, b') \<and>
      (if bits b = {0..<numBits b} then j = - 1 \<and> b' = b
       else 0 \<le> j \<and> j < numBits b \<and> j \<notin> bits b \<and> {0..<j} \<subseteq> bits b \<and> bits b' = insert j (bits b))) \<and>
    (\<exists>js b1 b2. alloc_many Find n b = Inr (js, b1) \<and> length js = n \<and> distinct js \<and>
      set js \<subseteq> {0..<numBits b} - bits b \<and> bits b1 = bits b \<union> set js \<and>
      free_many Clear js b1 = Inr b2 \<and> bits b2 = bits b)"
proof
  show "\<exists>j b'. Find b = Inr (j, b') \<and>
      (if bits b = {0..<numBits b} then j = - 1 \<and> b' = b
       else 0 \<le> j \<and> j < numBits b \<and> j \<notin> bits b \<and> {0..<j} \<subseteq> bits b \<and> bits b' = insert j (bits b))"
    using Find_correct [OF assms(1)] by fastforce
  show "\<exists>js b1 b2. alloc_many Find n b = Inr (js, b1) \<and> length js = n \<and> distinct js \<and>
      set js \<subseteq> {0..<numBits b} - bits b \<and> bits b1 = bits b \<union> set js \<and>
      free_many Clear js b1 = Inr b2 \<and> bits b2 = bits b"
    using bitmap.alloc_many_fresh [OF assms] bitmap.alloc_free_many [OF assms] by fastforce
qed

theorem Find_allocates_witness:
  "\<exists>j b'. Find \<lparr>numBits = 40, numWords = 2, bm_map = [5, 0]\<rparr> = Inr (j, b') \<and> j \<notin> {0, 2}"
proof -
  let ?b = "\<lparr>numBits = 40, numWords = 2, bm_map = [5, 0]\<rparr>"
  have wf: "bitmap_wf ?b" by (simp add: bitmap_wf_def divRoundUp_def BitsInWord_def)
  have in_bits: "0 \<in> bits ?b" "2 \<in> bits ?b" by (simp_all add: bits_def)
  have "39 \<notin> bits ?b" by (simp add: bits_def)
  then have nf: "bits ?b \<noteq> {0..<numBits ?b}" by auto
  have "bits ?b \<subseteq> {0..<numBits ?b}" by (auto simp: bits_def)
  then have "card (bits ?b) \<le> card {0..<numBits ?b}" by (rule card_mono [rotated]) simp
  then have "int 0 + int (card (bits ?b)) \<le> numBits ?b" by simp
  from Find_allocates [OF wf this] nf in_bits show ?thesis by auto
qed

end
