(* ===== verification/Table_Pipe.thy ===== *)
theory Table_Pipe
  imports Nachos_Prelude
begin

text \<open>
  Two data structures of \<^verbatim>\<open>src/code/userprog/exception.cc\<close>.

  \<^item> \<open>Table\<close>: the process table and the table of backing stores, an array of pointers with a
    first-fit \<open>Alloc\<close>. Its lock is a flag that every method takes at its start and gives back on
    every return path.
  \<^item> \<open>Pipe\<close>: a ring buffer of characters between two processes. \<open>Read\<close> and \<open>Write\<close> are given
    as the code from the (re-)test of their \<open>while\<close> condition on: \<open>Waits\<close> says that the thread goes to
    sleep in \<open>bufferCV->Wait\<close> and tests the condition again when it is woken.

  The locale \<open>fifo_channel\<close> is the interface of a bounded character stream; the pipe implements it.
\<close>

section \<open>Table\<close>

record 'a Table =
  tbl_locked :: bool
  tableptr :: "'a option list"
  tableSize :: int

definition Table_new :: "int \<Rightarrow> 'a Table" where
  "Table_new n = \<lparr>tbl_locked = False, tableptr = replicate (nat n) None, tableSize = n\<rparr>"

definition tbl_acquire :: "'a Table \<Rightarrow> 'a Table res" where
  "tbl_acquire t = bindR (assertR (\<not> tbl_locked t)) (\<lambda>_. Inr (t\<lparr>tbl_locked := True\<rparr>))"

definition tbl_release :: "'a Table \<Rightarrow> 'a Table res" where
  "tbl_release t = bindR (assertR (tbl_locked t)) (\<lambda>_. Inr (t\<lparr>tbl_locked := False\<rparr>))"

definition slot_at :: "'a Table \<Rightarrow> int \<Rightarrow> 'a option res" where
  "slot_at t i = (if 0 \<le> i \<and> i < int (length (tableptr t)) then Inr (tableptr t ! nat i) else Inl OutOfBounds)"

function Alloc_from :: "'a \<Rightarrow> int \<Rightarrow> 'a Table \<Rightarrow> (int \<times> 'a Table) res" where
  "Alloc_from obj i t =
     (if i < tableSize t
      then bindR (slot_at t i) (\<lambda>s.
             if s = None
             then bindR (tbl_release (t\<lparr>tableptr := (tableptr t)[nat i := Some obj]\<rparr>)) (\<lambda>t. Inr (i, t))
             else Alloc_from obj (i + 1) t)
      else bindR (tbl_release t) (\<lambda>t. Inr (- 1, t)))"
  by pat_completeness auto
termination by (relation "measure (\<lambda>(obj, i, t). nat (tableSize t - i))") auto

declare Alloc_from.simps [simp del]

definition Table_Alloc :: "'a \<Rightarrow> 'a Table \<Rightarrow> (int \<times> 'a Table) res" where
  "Table_Alloc obj t = bindR (tbl_acquire t) (Alloc_from obj 0)"

definition Table_Get :: "int \<Rightarrow> 'a Table \<Rightarrow> ('a option \<times> 'a Table) res" where
  "Table_Get index t =
     bindR (tbl_acquire t) (\<lambda>t.
       if index \<ge> tableSize t \<or> index < 0 then bindR (tbl_release t) (\<lambda>t. Inr (None, t))
       else bindR (slot_at t index) (\<lambda>toReturn. bindR (tbl_release t) (\<lambda>t. Inr (toReturn, t))))"

definition Table_Release :: "int \<Rightarrow> 'a Table \<Rightarrow> 'a Table res" where
  "Table_Release index t =
     bindR (tbl_acquire t) (\<lambda>t.
       if index \<ge> tableSize t \<or> index < 0 then tbl_release t
       else bindR (slot_at t index) (\<lambda>_. tbl_release (t\<lparr>tableptr := (tableptr t)[nat index := None]\<rparr>)))"

definition table_wf :: "'a Table \<Rightarrow> bool" where
  "table_wf t \<longleftrightarrow> \<not> tbl_locked t \<and> int (length (tableptr t)) = tableSize t"

definition entries :: "'a Table \<Rightarrow> int \<Rightarrow> 'a option" where
  "entries t i = (if 0 \<le> i \<and> i < tableSize t then tableptr t ! nat i else None)"

lemma Table_new_wf: "0 \<le> n \<Longrightarrow> table_wf (Table_new n) \<and> entries (Table_new n) = Map.empty"
  by (auto simp: Table_new_def table_wf_def entries_def fun_eq_iff nat_less_iff)

lemma entries_update:
  "int (length (tableptr t)) = tableSize t \<Longrightarrow> 0 \<le> i \<Longrightarrow> i < tableSize t \<Longrightarrow>
   entries (t\<lparr>tableptr := (tableptr t)[nat i := v], tbl_locked := b\<rparr>) = (entries t)(i := v)"
  by (auto simp: entries_def fun_eq_iff nth_list_update nat_less_iff)

lemma Alloc_from_correct:
  "int (length (tableptr t)) = tableSize t \<Longrightarrow> tbl_locked t \<Longrightarrow> 0 \<le> i \<Longrightarrow>
   (\<forall>j. 0 \<le> j \<and> j < i \<longrightarrow> entries t j \<noteq> None) \<Longrightarrow>
   (\<exists>j t'. Alloc_from obj i t = Inr (j, t') \<and> table_wf t' \<and> tableSize t' = tableSize t \<and>
      (if \<exists>k. 0 \<le> k \<and> k < tableSize t \<and> entries t k = None
       then 0 \<le> j \<and> j < tableSize t \<and> entries t j = None \<and> (\<forall>k. 0 \<le> k \<and> k < j \<longrightarrow> entries t k \<noteq> None) \<and>
            entries t' = (entries t)(j \<mapsto> obj)
       else j = - 1 \<and> entries t' = entries t))"
proof (induction obj i t rule: Alloc_from.induct)
  case (1 obj i t)
  note len = "1.prems"(1) and locked = "1.prems"(2) and pos = "1.prems"(3) and full = "1.prems"(4)
  show ?case
  proof (cases "i < tableSize t")
    case False
    have "\<not> (\<exists>k. 0 \<le> k \<and> k < tableSize t \<and> entries t k = None)"
      using False full by (meson not_le order_less_le_trans)
    moreover have "Alloc_from obj i t = Inr (- 1, t\<lparr>tbl_locked := False\<rparr>)"
      using False locked by (subst Alloc_from.simps) (simp add: tbl_release_def)
    ultimately show ?thesis
      using len by (auto simp: table_wf_def entries_def fun_eq_iff)
  next
    case True
    have slot: "slot_at t i = Inr (entries t i)"
      using True pos len by (simp add: slot_at_def entries_def)
    show ?thesis
    proof (cases "entries t i")
      case None
      let ?t = "t\<lparr>tableptr := (tableptr t)[nat i := Some obj], tbl_locked := False\<rparr>"
      have "Alloc_from obj i t = Inr (i, ?t)"
        using True slot None locked by (subst Alloc_from.simps) (simp add: tbl_release_def)
      then show ?thesis
        using True None pos len full entries_update [OF len pos True, where v = "Some obj" and b = False]
        by (auto simp: table_wf_def)
    next
      case (Some x)
      have step: "Alloc_from obj i t = Alloc_from obj (i + 1) t"
        using True slot Some by (subst Alloc_from.simps) simp
      have below: "\<forall>j. 0 \<le> j \<and> j < i + 1 \<longrightarrow> entries t j \<noteq> None"
        using full Some by (metis option.distinct(1) zle_add1_eq_le order_le_less)
      show ?thesis
        unfolding step using Some len locked pos below by (intro "1.IH" [OF True slot]) simp_all
    qed
  qed
qed

lemma Table_Alloc_correct:
  assumes "table_wf t"
  shows "\<exists>j t'. Table_Alloc obj t = Inr (j, t') \<and> table_wf t' \<and> tableSize t' = tableSize t \<and>
      (if \<exists>k. 0 \<le> k \<and> k < tableSize t \<and> entries t k = None
       then 0 \<le> j \<and> j < tableSize t \<and> entries t j = None \<and> (\<forall>k. 0 \<le> k \<and> k < j \<longrightarrow> entries t k \<noteq> None) \<and>
            entries t' = (entries t)(j \<mapsto> obj)
       else j = - 1 \<and> entries t' = entries t)"
proof -
  let ?t = "t\<lparr>tbl_locked := True\<rparr>"
  have e: "entries ?t = entries t" "tableSize ?t = tableSize t" by (simp_all add: entries_def fun_eq_iff)
  have "Table_Alloc obj t = Alloc_from obj 0 ?t"
    using assms by (simp add: Table_Alloc_def tbl_acquire_def table_wf_def)
  moreover have "int (length (tableptr ?t)) = tableSize ?t" "tbl_locked ?t" "(0::int) \<le> 0"
    "\<forall>j. 0 \<le> j \<and> j < 0 \<longrightarrow> entries ?t j \<noteq> None"
    using assms by (auto simp: table_wf_def)
  note Alloc_from_correct [OF this, of obj, unfolded e]
  ultimately show ?thesis by (simp split del: if_split)
qed

lemma Table_Get_correct:
  assumes "table_wf t"
  shows "Table_Get i t = Inr (entries t i, t)"
  using assms
  by (auto simp: Table_Get_def tbl_acquire_def tbl_release_def table_wf_def slot_at_def entries_def)

lemma Table_Release_correct:
  assumes "table_wf t"
  shows "\<exists>t'. Table_Release i t = Inr t' \<and> table_wf t' \<and> tableSize t' = tableSize t \<and>
    entries t' = (entries t)(i := None)"
proof (cases "0 \<le> i \<and> i < tableSize t")
  case True
  then show ?thesis
    using assms entries_update [of t i, where v = None and b = False]
    by (auto simp: Table_Release_def tbl_acquire_def tbl_release_def table_wf_def slot_at_def)
next
  case False
  then show ?thesis
    using assms
    by (auto simp: Table_Release_def tbl_acquire_def tbl_release_def table_wf_def entries_def fun_eq_iff)
qed

section \<open>Pipe\<close>

record Pipe =
  p_buffer :: "int list"
  p_capacity :: int
  p_size :: int
  p_start :: int
  p_end :: int
  p_inOpen :: int
  p_outOpen :: int

datatype 'a attempt = Waits | Returns 'a

definition PIPE_SIZE :: int where "PIPE_SIZE = 128"
definition PIPE_EOF :: int where "PIPE_EOF = 1000000"

text \<open>\<open>new char[capacity]\<close> leaves the characters with whatever the memory held: \<open>junk\<close>.\<close>

definition Pipe_new :: "int list \<Rightarrow> int \<Rightarrow> Pipe" where
  "Pipe_new junk bufferSize =
     \<lparr>p_buffer = take (nat bufferSize) (junk @ replicate (nat bufferSize) 0), p_capacity = bufferSize,
      p_size = 0, p_start = 0, p_end = 0, p_inOpen = 0, p_outOpen = 0\<rparr>"

definition setInOpen :: "int \<Rightarrow> Pipe \<Rightarrow> Pipe" where "setInOpen value p = p\<lparr>p_inOpen := value\<rparr>"
definition setOutOpen :: "int \<Rightarrow> Pipe \<Rightarrow> Pipe" where "setOutOpen value p = p\<lparr>p_outOpen := value\<rparr>"
definition getInOpen :: "Pipe \<Rightarrow> int" where "getInOpen p = p_inOpen p"
definition getOutOpen :: "Pipe \<Rightarrow> int" where "getOutOpen p = p_outOpen p"

definition Pipe_Read :: "Pipe \<Rightarrow> (int attempt \<times> Pipe) res" where
  "Pipe_Read p =
     (if p_size p = 0
      then (if getOutOpen p = 0 then Inr (Returns PIPE_EOF, p) else Inr (Waits, p))
      else
        let p = p\<lparr>p_size := p_size p - 1\<rparr>;
            p = (if p_start p = p_capacity p then p\<lparr>p_start := 0\<rparr> else p)
        in if 0 \<le> p_start p \<and> p_start p < int (length (p_buffer p))
           then let retVal = p_buffer p ! nat (p_start p)
                in Inr (Returns retVal, p\<lparr>p_buffer := (p_buffer p)[nat (p_start p) := 0],
                                          p_start := p_start p + 1\<rparr>)
           else Inl OutOfBounds)"

definition Pipe_Write :: "int \<Rightarrow> Pipe \<Rightarrow> (int attempt \<times> Pipe) res" where
  "Pipe_Write ch p =
     (if p_size p = p_capacity p
      then (if getInOpen p = 0 then Inr (Returns 0, p) else Inr (Waits, p))
      else if 0 \<le> p_end p \<and> p_end p < int (length (p_buffer p))
      then let p = p\<lparr>p_buffer := (p_buffer p)[nat (p_end p) := ch], p_end := p_end p + 1\<rparr>;
               p = p\<lparr>p_size := p_size p + 1\<rparr>;
               p = (if p_end p = p_capacity p then p\<lparr>p_end := 0\<rparr> else p)
           in Inr (Returns 1, p)
      else Inl OutOfBounds)"

text \<open>The ring invariant and the characters in the pipe, oldest first.\<close>

definition pipe_wf :: "Pipe \<Rightarrow> bool" where
  "pipe_wf p \<longleftrightarrow> 0 < p_capacity p \<and> int (length (p_buffer p)) = p_capacity p \<and>
     0 \<le> p_size p \<and> p_size p \<le> p_capacity p \<and> 0 \<le> p_start p \<and> p_start p \<le> p_capacity p \<and>
     0 \<le> p_end p \<and> p_end p < p_capacity p \<and> p_end p = (p_start p + p_size p) mod p_capacity p"

definition pipe_contents :: "Pipe \<Rightarrow> int list" where
  "pipe_contents p =
     map (\<lambda>i. p_buffer p ! nat ((p_start p + int i) mod p_capacity p)) [0..<nat (p_size p)]"

lemma Pipe_new_wf: "0 < n \<Longrightarrow> pipe_wf (Pipe_new junk n) \<and> pipe_contents (Pipe_new junk n) = []"
  by (simp add: Pipe_new_def pipe_wf_def pipe_contents_def)


lemma mod_index_less: "0 < c \<Longrightarrow> nat ((a::int) mod c) < n \<longleftrightarrow> a mod c < int n"
  by (simp add: nat_less_iff)

lemma mod_wrap_start: "0 < c \<Longrightarrow> 0 \<le> s \<Longrightarrow> s \<le> c \<Longrightarrow> (s::int) mod c = (if s = c then 0 else s)"
  by auto

lemma ring_index_inj:
  "0 \<le> (i::int) \<Longrightarrow> i < c \<Longrightarrow> 0 \<le> j \<Longrightarrow> j < c \<Longrightarrow> (s + i) mod c = (s + j) mod c \<Longrightarrow> i = j"
  by (metis add.commute add_left_cancel mod_add_left_eq mod_pos_pos_trivial
      add_diff_cancel_left' mod_diff_left_eq)

lemma Pipe_Read_full:
  assumes "pipe_wf p" and "pipe_contents p = c # cs"
  shows "\<exists>p'. Pipe_Read p = Inr (Returns c, p') \<and> pipe_wf p' \<and> pipe_contents p' = cs \<and>
    p_inOpen p' = p_inOpen p \<and> p_outOpen p' = p_outOpen p \<and> p_capacity p' = p_capacity p"
proof -
  let ?C = "p_capacity p" and ?s = "p_start p mod p_capacity p"
  have wf: "0 < ?C" "int (length (p_buffer p)) = ?C" "0 \<le> p_size p" "p_size p \<le> ?C"
    "0 \<le> p_start p" "p_start p \<le> ?C" "0 \<le> p_end p" "p_end p < ?C"
    "p_end p = (p_start p + p_size p) mod ?C" using assms(1) by (auto simp: pipe_wf_def)
  have pos: "0 < p_size p"
  proof -
    have "length (pipe_contents p) = nat (p_size p)" by (simp add: pipe_contents_def)
    then show ?thesis using assms(2) wf(3) by (cases "p_size p = 0") auto
  qed
  have s: "0 \<le> ?s" "?s < ?C" using wf by simp_all
  let ?p' = "p\<lparr>p_size := p_size p - 1, p_start := ?s + 1, p_buffer := (p_buffer p)[nat ?s := 0]\<rparr>"
  have split: "[0..<nat (p_size p)] = 0 # map Suc [0..<nat (p_size p - 1)]"
    using pos by (simp add: map_Suc_upt upt_conv_Cons nat_diff_distrib del: upt_Suc)
  have c: "c = p_buffer p ! nat ?s"
    and cs: "cs = map (\<lambda>i. p_buffer p ! nat ((p_start p + int (Suc i)) mod ?C)) [0..<nat (p_size p - 1)]"
    using assms(2) unfolding pipe_contents_def split by (simp_all add: comp_def)
  have "Pipe_Read p = Inr (Returns c, ?p')"
    using pos s wf c mod_wrap_start [OF wf(1,5,6)]
    by (auto simp: Pipe_Read_def Let_def)
  moreover have "pipe_wf ?p'"
  proof -
    have "(?s + 1 + (p_size p - 1)) mod ?C = (p_start p + p_size p) mod ?C"
      by (simp add: mod_add_left_eq)
    moreover have "0 \<le> ?s + 1" "?s + 1 \<le> ?C" "0 \<le> p_size p - 1" "p_size p - 1 \<le> ?C"
      using s pos wf by linarith+
    ultimately show ?thesis
      unfolding pipe_wf_def using wf(1,2,7,8,9) by (simp del: zle_add1_eq_le add1_zle_eq)
  qed
  moreover have "pipe_contents ?p' = cs"
  proof -
    have "(p_buffer p)[nat ?s := 0] ! nat ((?s + 1 + int i) mod ?C) =
        p_buffer p ! nat ((p_start p + int (Suc i)) mod ?C)" if "i < nat (p_size p - 1)" for i
    proof -
      have eq: "(?s + 1 + int i) mod ?C = (p_start p + int (Suc i)) mod ?C"
        by (simp add: mod_add_left_eq add.assoc)
      have "(p_start p + int (Suc i)) mod ?C \<noteq> (p_start p + 0) mod ?C"
        using ring_index_inj [of "int (Suc i)" ?C 0 "p_start p"] that wf(1,4) by linarith
      then have "nat ?s \<noteq> nat ((p_start p + int (Suc i)) mod ?C)"
        using s wf by (simp add: nat_eq_iff)
      then show ?thesis by (simp only: eq nth_list_update_neq not_False_eq_True)
    qed
    then show ?thesis by (simp add: pipe_contents_def cs)
  qed
  ultimately show ?thesis by simp
qed

lemma Pipe_Read_empty:
  "pipe_wf p \<Longrightarrow> pipe_contents p = [] \<Longrightarrow>
   Pipe_Read p = Inr (if p_outOpen p = 0 then Returns PIPE_EOF else Waits, p)"
  by (auto simp: pipe_contents_def Pipe_Read_def pipe_wf_def getOutOpen_def)

lemma ring_write_contents:
  assumes C: "0 < C" and len: "int (length b) = C" and e: "e = (st + n) mod C" and n: "0 \<le> n" "n < C"
  shows "map (\<lambda>i. b[nat e := ch] ! nat ((st + int i) mod C)) [0..<nat (n + 1)] =
    map (\<lambda>i. b ! nat ((st + int i) mod C)) [0..<nat n] @ [ch]"
proof -
  have last: "nat (n + 1) = Suc (nat n)" using n by simp
  have "b[nat e := ch] ! nat ((st + int i) mod C) = b ! nat ((st + int i) mod C)" if "i < nat n" for i
  proof -
    have "(st + int i) mod C \<noteq> e"
      using ring_index_inj [of "int i" C n st] that n e by linarith
    moreover have "0 \<le> e" "0 \<le> (st + int i) mod C" using C e by simp_all
    ultimately have "nat e \<noteq> nat ((st + int i) mod C)" by linarith
    then show ?thesis by (rule nth_list_update_neq)
  qed
  moreover have "b[nat e := ch] ! nat e = ch"
  proof -
    have "0 \<le> e" "e < C" using C e by simp_all
    then have "nat e < length b" using len by linarith
    then show ?thesis by (rule nth_list_update_eq)
  qed
  ultimately show ?thesis using n unfolding last by (simp add: e [symmetric])
qed

lemma Pipe_Write_room:
  assumes "pipe_wf p" and "int (length (pipe_contents p)) < p_capacity p"
  shows "\<exists>p'. Pipe_Write ch p = Inr (Returns 1, p') \<and> pipe_wf p' \<and> pipe_contents p' = pipe_contents p @ [ch] \<and>
    p_inOpen p' = p_inOpen p \<and> p_outOpen p' = p_outOpen p \<and> p_capacity p' = p_capacity p"
proof -
  let ?C = "p_capacity p"
  have wf: "0 < ?C" "int (length (p_buffer p)) = ?C" "0 \<le> p_size p" "p_size p \<le> ?C"
    "0 \<le> p_start p" "p_start p \<le> ?C" "0 \<le> p_end p" "p_end p < ?C"
    "p_end p = (p_start p + p_size p) mod ?C" using assms(1) by (auto simp: pipe_wf_def)
  have room: "p_size p < ?C" using assms(2) wf by (simp add: pipe_contents_def)
  let ?e = "(p_end p + 1) mod ?C"
  let ?p' = "p\<lparr>p_buffer := (p_buffer p)[nat (p_end p) := ch], p_size := p_size p + 1, p_end := ?e\<rparr>"
  have "?e = (if p_end p + 1 = ?C then 0 else p_end p + 1)"
    using wf(1,7,8) by (intro mod_wrap_start) linarith+
  then have "Pipe_Write ch p = Inr (Returns 1, ?p')"
    using room wf(2,7,8) by (simp add: Pipe_Write_def)
  moreover have "pipe_wf ?p'"
  proof -
    have "?e = (p_start p + (p_size p + 1)) mod ?C"
      unfolding wf(9) by (simp add: mod_add_left_eq add.assoc)
    moreover have "0 \<le> ?e" "?e < ?C" "0 \<le> p_size p + 1" "p_size p + 1 \<le> ?C"
      using wf(1,3) room by simp_all
    ultimately show ?thesis
      unfolding pipe_wf_def using wf(1,2,5,6) by simp
  qed
  moreover have "pipe_contents ?p' = pipe_contents p @ [ch]"
    using ring_write_contents [OF wf(1,2,9,3) room] by (simp add: pipe_contents_def)
  ultimately show ?thesis by simp
qed

lemma Pipe_Write_full:
  "pipe_wf p \<Longrightarrow> int (length (pipe_contents p)) = p_capacity p \<Longrightarrow>
   Pipe_Write ch p = Inr (if p_inOpen p = 0 then Returns 0 else Waits, p)"
  by (auto simp: pipe_contents_def Pipe_Write_def pipe_wf_def getInOpen_def)

lemma pipe_contents_le: "pipe_wf p \<Longrightarrow> int (length (pipe_contents p)) \<le> p_capacity p"
  by (simp add: pipe_contents_def pipe_wf_def)

section \<open>The pipe as a bounded stream\<close>

text \<open>
  A client of a pipe offers characters and asks for characters. \<open>Pipe_put\<close> is a writer's attempt with the
  answer \<open>accepted?\<close>; \<open>Pipe_get\<close> is a reader's attempt, which tells the end of the stream from a
  character the way \<open>Read2\<close> does, by comparing with the value 1000000.
\<close>

definition Pipe_put :: "int \<Rightarrow> Pipe \<Rightarrow> (bool \<times> Pipe) res" where
  "Pipe_put ch p = bindR (Pipe_Write ch p) (\<lambda>(a, p). Inr (a = Returns 1, p))"

definition Pipe_get :: "Pipe \<Rightarrow> (int option \<times> Pipe) res" where
  "Pipe_get p = bindR (Pipe_Read p) (\<lambda>(a, p).
     Inr (case a of Waits \<Rightarrow> None | Returns c \<Rightarrow> if c = PIPE_EOF then None else Some c, p))"

datatype 'a chan_op = Put 'a | Get

text \<open>A session: the elements accepted, the elements delivered, and the final state.\<close>

fun chan_run :: "('a \<Rightarrow> 's \<Rightarrow> (bool \<times> 's) res) \<Rightarrow> ('s \<Rightarrow> ('a option \<times> 's) res) \<Rightarrow> 'a chan_op list \<Rightarrow> 's \<Rightarrow>
    ('a list \<times> 'a list \<times> 's) res" where
  "chan_run put get [] s = Inr ([], [], s)"
| "chan_run put get (Put x # ops) s =
     bindR (put x s) (\<lambda>(ok, s). bindR (chan_run put get ops s) (\<lambda>(acc, got, s).
       Inr (if ok then x # acc else acc, got, s)))"
| "chan_run put get (Get # ops) s =
     bindR (get s) (\<lambda>(r, s). bindR (chan_run put get ops s) (\<lambda>(acc, got, s).
       Inr (acc, case r of None \<Rightarrow> got | Some x \<Rightarrow> x # got, s)))"

locale fifo_channel =
  fixes inv :: "'s \<Rightarrow> bool" and elem :: "'a \<Rightarrow> bool" and contents :: "'s \<Rightarrow> 'a list" and room :: "'s \<Rightarrow> bool"
    and put :: "'a \<Rightarrow> 's \<Rightarrow> (bool \<times> 's) res" and get :: "'s \<Rightarrow> ('a option \<times> 's) res"
  assumes put_room: "inv s \<Longrightarrow> elem x \<Longrightarrow> room s \<Longrightarrow>
      \<exists>s'. put x s = Inr (True, s') \<and> inv s' \<and> contents s' = contents s @ [x]"
    and put_full: "inv s \<Longrightarrow> elem x \<Longrightarrow> \<not> room s \<Longrightarrow> put x s = Inr (False, s)"
    and get_some: "inv s \<Longrightarrow> contents s = x # xs \<Longrightarrow> \<exists>s'. get s = Inr (Some x, s') \<and> inv s' \<and> contents s' = xs"
    and get_none: "inv s \<Longrightarrow> contents s = [] \<Longrightarrow> get s = Inr (None, s)"
begin

lemma session_step_put:
  "inv s \<Longrightarrow> elem x \<Longrightarrow> \<exists>ok s'. put x s = Inr (ok, s') \<and> inv s' \<and>
     contents s' = contents s @ (if ok then [x] else [])"
  using put_room put_full by (cases "room s") fastforce+

lemma session_step_get:
  "inv s \<Longrightarrow> \<exists>r s'. get s = Inr (r, s') \<and> inv s' \<and>
     contents s = (case r of None \<Rightarrow> [] | Some x \<Rightarrow> [x]) @ contents s'"
  using get_some get_none by (cases "contents s") fastforce+

lemma session_stream:
  "inv s \<Longrightarrow> (\<forall>x. Put x \<in> set ops \<longrightarrow> elem x) \<Longrightarrow>
   \<exists>acc got s'. chan_run put get ops s = Inr (acc, got, s') \<and> inv s' \<and> contents s @ acc = got @ contents s'"
proof (induction ops arbitrary: s)
  case (Cons op ops)
  show ?case
  proof (cases op)
    case (Put x)
    then obtain ok s1 where 1: "put x s = Inr (ok, s1)" "inv s1" "contents s1 = contents s @ (if ok then [x] else [])"
      using session_step_put Cons.prems by (metis list.set_intros(1))
    then obtain acc got s2 where "chan_run put get ops s1 = Inr (acc, got, s2)" "inv s2"
      "contents s1 @ acc = got @ contents s2" using Cons.IH [of s1] Cons.prems by auto
    then show ?thesis using Put 1 by (cases ok) simp_all
  next
    case Get
    obtain r s1 where 1: "get s = Inr (r, s1)" "inv s1"
      "contents s = (case r of None \<Rightarrow> [] | Some x \<Rightarrow> [x]) @ contents s1"
      using session_step_get Cons.prems(1) by blast
    then obtain acc got s2 where "chan_run put get ops s1 = Inr (acc, got, s2)" "inv s2"
      "contents s1 @ acc = got @ contents s2" using Cons.IH [of s1] Cons.prems by auto
    then show ?thesis using Get 1 by (cases r) simp_all
  qed
qed simp

end

definition is_char :: "int \<Rightarrow> bool" where "is_char c \<longleftrightarrow> - 128 \<le> c \<and> c \<le> 127"

definition pipe_inv :: "Pipe \<Rightarrow> bool" where
  "pipe_inv p \<longleftrightarrow> pipe_wf p \<and> list_all is_char (pipe_contents p)"

definition pipe_room :: "Pipe \<Rightarrow> bool" where
  "pipe_room p \<longleftrightarrow> int (length (pipe_contents p)) < p_capacity p"

lemma is_char_not_EOF: "is_char c \<Longrightarrow> c \<noteq> PIPE_EOF"
  by (simp add: is_char_def PIPE_EOF_def)

interpretation pipe: fifo_channel pipe_inv is_char pipe_contents pipe_room Pipe_put Pipe_get
proof
  fix p :: Pipe and x :: int and xs :: "int list"
  show "pipe_inv p \<Longrightarrow> is_char x \<Longrightarrow> pipe_room p \<Longrightarrow>
      \<exists>p'. Pipe_put x p = Inr (True, p') \<and> pipe_inv p' \<and> pipe_contents p' = pipe_contents p @ [x]"
    using Pipe_Write_room [of p x] by (auto simp: Pipe_put_def pipe_inv_def pipe_room_def)
  show "pipe_inv p \<Longrightarrow> is_char x \<Longrightarrow> \<not> pipe_room p \<Longrightarrow> Pipe_put x p = Inr (False, p)"
    using Pipe_Write_full [of p x] pipe_contents_le [of p]
    by (auto simp: Pipe_put_def pipe_inv_def pipe_room_def)
  show "pipe_inv p \<Longrightarrow> pipe_contents p = x # xs \<Longrightarrow>
      \<exists>p'. Pipe_get p = Inr (Some x, p') \<and> pipe_inv p' \<and> pipe_contents p' = xs"
    using Pipe_Read_full [of p x xs] is_char_not_EOF [of x] by (auto simp: Pipe_get_def pipe_inv_def)
  show "pipe_inv p \<Longrightarrow> pipe_contents p = [] \<Longrightarrow> Pipe_get p = Inr (None, p)"
    using Pipe_Read_empty [of p] by (auto simp: Pipe_get_def pipe_inv_def)
qed

lemma Pipe_put_capacity: "Pipe_put ch p = Inr (ok, p') \<Longrightarrow> p_capacity p' = p_capacity p"
  by (auto simp: Pipe_put_def Pipe_Write_def Let_def res_simps split: if_splits)

lemma Pipe_get_capacity: "Pipe_get p = Inr (r, p') \<Longrightarrow> p_capacity p' = p_capacity p"
  by (auto simp: Pipe_get_def Pipe_Read_def Let_def res_simps split: if_splits)

lemma chan_run_capacity:
  "chan_run Pipe_put Pipe_get ops p = Inr (acc, got, p') \<Longrightarrow> p_capacity p' = p_capacity p"
proof (induction ops arbitrary: p acc got)
  case (Cons op ops)
  then show ?case
    by (cases op) (fastforce simp: bindR_eq_Inr dest: Pipe_put_capacity Pipe_get_capacity)+
qed simp

section \<open>Properties\<close>

text \<open>A table is a partial map from slot numbers to objects, with first-fit allocation: \<open>Alloc\<close>
  stores the object in the lowest free slot and returns its number, or returns -1 and changes nothing when every
  slot is taken; \<open>Get\<close> returns what the slot holds, and the null pointer outside the table;
  \<open>Release\<close> frees the slot. No call stops and each gives back the lock on every return path.\<close>

theorem Table_first_fit:
  assumes "table_wf t"
  shows "(\<exists>j t'. Table_Alloc obj t = Inr (j, t') \<and> table_wf t' \<and> tableSize t' = tableSize t \<and>
      (if \<exists>k. 0 \<le> k \<and> k < tableSize t \<and> entries t k = None
       then 0 \<le> j \<and> j < tableSize t \<and> entries t j = None \<and> (\<forall>k. 0 \<le> k \<and> k < j \<longrightarrow> entries t k \<noteq> None) \<and>
            entries t' = (entries t)(j \<mapsto> obj)
       else j = - 1 \<and> entries t' = entries t)) \<and>
    Table_Get i t = Inr (entries t i, t) \<and>
    (\<exists>t'. Table_Release i t = Inr t' \<and> table_wf t' \<and> tableSize t' = tableSize t \<and>
      entries t' = (entries t)(i := None))"
  using Table_Alloc_correct [OF assms, of obj] Table_Get_correct [OF assms, of i]
    Table_Release_correct [OF assms, of i] by blast

theorem Table_first_fit_witness:
  "table_wf (Table_new 2 :: nat Table) \<and> Table_Get 1 (Table_new 2 :: nat Table) = Inr (None, Table_new 2)"
proof -
  have wf: "table_wf (Table_new 2 :: nat Table)" by (simp add: table_wf_def Table_new_def)
  moreover have "entries (Table_new 2 :: nat Table) 1 = None" by (simp add: Table_new_def entries_def)
  ultimately show ?thesis using Table_first_fit [OF wf, of 7 1] by simp
qed

text \<open>C30. Stream integrity of a pipe: over any interleaving of attempts to write and attempts to read, started on
  a new pipe whose buffer holds arbitrary garbage, no call leaves the buffer, and the characters accepted are
  exactly the characters delivered, in the same order, followed by the characters still in the pipe.\<close>

theorem Pipe_stream:
  assumes "0 < n" and "\<forall>c. Put c \<in> set ops \<longrightarrow> is_char c"
  shows "\<exists>acc got p'. chan_run Pipe_put Pipe_get ops (Pipe_new junk n) = Inr (acc, got, p') \<and>
    acc = got @ pipe_contents p' \<and> int (length (pipe_contents p')) \<le> n"
proof -
  have "pipe_inv (Pipe_new junk n)" "pipe_contents (Pipe_new junk n) = []"
    using Pipe_new_wf [OF assms(1), of junk] by (simp_all add: pipe_inv_def)
  then obtain acc got p' where r: "chan_run Pipe_put Pipe_get ops (Pipe_new junk n) = Inr (acc, got, p')"
    "pipe_inv p'" "acc = got @ pipe_contents p'" using pipe.session_stream [of "Pipe_new junk n" ops] assms(2) by auto
  moreover have "p_capacity p' = n" using chan_run_capacity [OF r(1)] by (simp add: Pipe_new_def)
  ultimately show ?thesis using pipe_contents_le [of p'] by (auto simp: pipe_inv_def)
qed

theorem Pipe_stream_witness:
  "(0::int) < 2 \<and> list_all is_char [65, 66, 67, 68] \<and>
   (\<exists>acc got p'. chan_run Pipe_put Pipe_get [Put 65, Put 66, Put 67, Get, Put 68, Get] (Pipe_new [9] 2) =
      Inr (acc, got, p') \<and> acc = got @ pipe_contents p' \<and> int (length (pipe_contents p')) \<le> 2)"
  using Pipe_stream [of 2 "[Put 65, Put 66, Put 67, Get, Put 68, Get]" "[9]"] by (simp add: is_char_def)

text \<open>When a reader and a writer wait. With the ring invariant, a reader takes the oldest character when
  there is one; on an empty pipe it goes to sleep while the write end is open and returns the end-of-stream value
  once the write end is closed. A writer goes to sleep only on a full pipe whose read end is open, and gives up with
  0 once the read end is closed. An attempt that does not move a character leaves the pipe as it was.\<close>

theorem Pipe_blocking:
  assumes "pipe_wf p"
  shows "(Pipe_Read p = Inr (Waits, p) \<longleftrightarrow> pipe_contents p = [] \<and> p_outOpen p \<noteq> 0) \<and>
    (pipe_contents p = [] \<and> p_outOpen p = 0 \<longrightarrow> Pipe_Read p = Inr (Returns PIPE_EOF, p)) \<and>
    (pipe_contents p \<noteq> [] \<longrightarrow> (\<exists>p'. Pipe_Read p = Inr (Returns (hd (pipe_contents p)), p') \<and>
       pipe_wf p' \<and> pipe_contents p' = tl (pipe_contents p))) \<and>
    (Pipe_Write ch p = Inr (Waits, p) \<longleftrightarrow> int (length (pipe_contents p)) = p_capacity p \<and> p_inOpen p \<noteq> 0) \<and>
    (int (length (pipe_contents p)) = p_capacity p \<and> p_inOpen p = 0 \<longrightarrow> Pipe_Write ch p = Inr (Returns 0, p))"
proof -
  have read: "\<exists>p'. Pipe_Read p = Inr (Returns (hd (pipe_contents p)), p') \<and> pipe_wf p' \<and>
      pipe_contents p' = tl (pipe_contents p)" if "pipe_contents p \<noteq> []"
    using that Pipe_Read_full [OF assms] by (cases "pipe_contents p") auto
  have wr: "\<exists>p'. Pipe_Write ch p = Inr (Returns 1, p')" if "int (length (pipe_contents p)) \<noteq> p_capacity p"
    using that Pipe_Write_room [OF assms, of ch] pipe_contents_le [OF assms] by force
  show ?thesis
    using read wr Pipe_Read_empty [OF assms] Pipe_Write_full [OF assms, of ch] by fastforce
qed

theorem Pipe_blocking_witness:
  "pipe_wf (setOutOpen 1 (Pipe_new [] 2)) \<and> Pipe_Read (setOutOpen 1 (Pipe_new [] 2)) =
     Inr (Waits, setOutOpen 1 (Pipe_new [] 2))"
proof -
  have wf: "pipe_wf (setOutOpen 1 (Pipe_new [] 2))"
    by (simp add: setOutOpen_def Pipe_new_def pipe_wf_def)
  moreover have "pipe_contents (setOutOpen 1 (Pipe_new [] 2)) = []" "p_outOpen (setOutOpen 1 (Pipe_new [] 2)) = 1"
    by (simp_all add: setOutOpen_def Pipe_new_def pipe_contents_def)
  ultimately show ?thesis using Pipe_blocking [OF wf, of 65] by simp
qed

end
