(* ===== verification/Interrupts.thy ===== *)
theory Interrupts
  imports Linked_List
begin

text \<open>
  The simulated interrupt hardware (\<^verbatim>\<open>src/code/machine/interrupt.cc\<close>), the statistics it advances
  (\<^verbatim>\<open>stats.cc\<close>) and the timer device (\<^verbatim>\<open>timer.cc\<close>).

  The record \<open>isys\<close> is the state of the class \<open>Interrupt\<close> with the global \<open>stats\<close>; later theories extend it
  with the machine and the kernel, so that every routine here runs on the extended state unchanged. \<open>pending\<close> is
  the sorted list of the theory \<open>Linked_List\<close>, as a value. Three routines that live elsewhere are arguments:
  \<open>dl\<close> is \<open>machine->DelayedLoad(0, 0)\<close> (\<open>Inr\<close> in a kernel built without user programs), \<open>dispatch\<close> calls a handler through its pointer, and
  \<open>yield\<close> is \<open>currentThread->Yield()\<close>.

  The locale \<open>irq_handlers\<close> is the contract between the interrupt simulation and the device handlers.
\<close>

section \<open>Statistics\<close>

record Statistics =
  totalTicks :: int
  idleTicks :: int
  systemTicks :: int
  userTicks :: int
  numDiskReads :: int
  numDiskWrites :: int
  numConsoleCharsRead :: int
  numConsoleCharsWritten :: int
  numPageFaults :: int
  numPacketsSent :: int
  numPacketsRecvd :: int
  numPageOuts :: int
  numPageIns :: int

definition Statistics_new :: Statistics where
  "Statistics_new = \<lparr>totalTicks = 0, idleTicks = 0, systemTicks = 0, userTicks = 0, numDiskReads = 0,
     numDiskWrites = 0, numConsoleCharsRead = 0, numConsoleCharsWritten = 0, numPageFaults = 0,
     numPacketsSent = 0, numPacketsRecvd = 0, numPageOuts = 0, numPageIns = 0\<rparr>"

definition UserTick :: int where "UserTick = 1"
definition SystemTick :: int where "SystemTick = 10"
definition TimerTicks :: int where "TimerTicks = 100"

section \<open>Interrupt\<close>

datatype IntStatus = IntOff | IntOn
datatype MachineStatus = IdleMode | SystemMode | UserMode
datatype IntType = TimerInt | DiskInt | ConsoleWriteInt | ConsoleReadInt | NetworkSendInt | NetworkRecvInt

text \<open>The functions of the device emulators that are ever scheduled.\<close>

datatype irq = TimerHandler | DiskDone | ConsoleReadPoll | ConsoleWriteDone | NetworkReadPoll | NetworkSendDone

record PendingInterrupt =
  handler :: irq
  arg :: int
  "when" :: int
  type :: IntType

definition PendingInterrupt_new :: "irq \<Rightarrow> int \<Rightarrow> int \<Rightarrow> IntType \<Rightarrow> PendingInterrupt" where
  "PendingInterrupt_new func param time kind = \<lparr>handler = func, arg = param, when = time, type = kind\<rparr>"

text \<open>\<open>rng\<close> and \<open>rng_pos\<close> are the pseudo-random numbers \<open>Random()\<close> returns, one after the other.\<close>

record isys =
  level :: IntStatus
  pending :: "(int \<times> PendingInterrupt) list"
  inHandler :: bool
  yieldOnReturn :: bool
  status :: MachineStatus
  stats :: Statistics
  rng :: "nat \<Rightarrow> int"
  rng_pos :: nat

definition Interrupt_new :: "(nat \<Rightarrow> int) \<Rightarrow> isys" where
  "Interrupt_new r = \<lparr>level = IntOff, pending = [], inHandler = False, yieldOnReturn = False,
     status = SystemMode, stats = Statistics_new, rng = r, rng_pos = 0\<rparr>"

definition Random :: "'m isys_scheme \<Rightarrow> int \<times> 'm isys_scheme" where
  "Random s = (rng s (rng_pos s), s\<lparr>rng_pos := Suc (rng_pos s)\<rparr>)"

definition ChangeLevel :: "IntStatus \<Rightarrow> IntStatus \<Rightarrow> 'm isys_scheme \<Rightarrow> 'm isys_scheme" where
  "ChangeLevel old now s = s\<lparr>level := now\<rparr>"

definition getLevel :: "'m isys_scheme \<Rightarrow> IntStatus" where "getLevel s = level s"
definition getStatus :: "'m isys_scheme \<Rightarrow> MachineStatus" where "getStatus s = status s"
definition setStatus :: "MachineStatus \<Rightarrow> 'm isys_scheme \<Rightarrow> 'm isys_scheme" where "setStatus st s = s\<lparr>status := st\<rparr>"

definition YieldOnReturn :: "'m isys_scheme \<Rightarrow> 'm isys_scheme res" where
  "YieldOnReturn s = bindR (assertR (inHandler s)) (\<lambda>_. Inr (s\<lparr>yieldOnReturn := True\<rparr>))"

definition Halt :: "'m isys_scheme \<Rightarrow> 'a res" where "Halt s = Inl Halted"

definition Schedule :: "irq \<Rightarrow> int \<Rightarrow> int \<Rightarrow> IntType \<Rightarrow> 'm isys_scheme \<Rightarrow> 'm isys_scheme res" where
  "Schedule h a fromNow ty s =
     (let w = totalTicks (stats s) + fromNow;
          toOccur = PendingInterrupt_new h a w ty
      in bindR (assertR (fromNow > 0)) (\<lambda>_. Inr (s\<lparr>pending := sorted_insert w toOccur (pending s)\<rparr>)))"

definition CheckIfDue ::
    "('m isys_scheme \<Rightarrow> 'm isys_scheme res) \<Rightarrow> (irq \<Rightarrow> int \<Rightarrow> 'm isys_scheme \<Rightarrow> 'm isys_scheme res) \<Rightarrow>
     bool \<Rightarrow> 'm isys_scheme \<Rightarrow> (bool \<times> 'm isys_scheme) res" where
  "CheckIfDue dl dispatch advanceClock s =
     (let old = status s in
      bindR (assertR (level s = IntOff)) (\<lambda>_.
        case pending s of
          [] \<Rightarrow> Inr (False, s)
        | (w, toOccur) # rest \<Rightarrow>
            let s = s\<lparr>pending := rest\<rparr>;
                now = totalTicks (stats s)
            in if \<not> advanceClock \<and> w > now
               then Inr (False, s\<lparr>pending := sorted_insert w toOccur (pending s)\<rparr>)
               else
                 let s = (if w > now
                          then s\<lparr>stats := (stats s)\<lparr>idleTicks := idleTicks (stats s) + (w - now), totalTicks := w\<rparr>\<rparr>
                          else s)
                 in if status s = IdleMode \<and> type toOccur = TimerInt \<and> pending s = []
                    then Inr (False, s\<lparr>pending := sorted_insert w toOccur (pending s)\<rparr>)
                    else
                      bindR (dl s) (\<lambda>s.
                      let s = s\<lparr>inHandler := True, status := SystemMode\<rparr>
                      in bindR (dispatch (handler toOccur) (arg toOccur) s) (\<lambda>s.
                           Inr (True, s\<lparr>status := old, inHandler := False\<rparr>)))))"

text \<open>The loop \<open>while (CheckIfDue(FALSE));\<close>\<close>

partial_function (option) fire_due ::
    "('m isys_scheme \<Rightarrow> 'm isys_scheme res) \<Rightarrow> (irq \<Rightarrow> int \<Rightarrow> 'm isys_scheme \<Rightarrow> 'm isys_scheme res) \<Rightarrow>
     'm isys_scheme \<Rightarrow> 'm isys_scheme res option" where
  "fire_due dl dispatch s =
     bindO (Some (CheckIfDue dl dispatch False s)) (\<lambda>r.
       if fst r then fire_due dl dispatch (snd r) else Some (Inr (snd r)))"

definition advance_ticks :: "'m isys_scheme \<Rightarrow> 'm isys_scheme" where
  "advance_ticks s =
     (if status s = SystemMode
      then s\<lparr>stats := (stats s)\<lparr>totalTicks := totalTicks (stats s) + SystemTick,
                                systemTicks := systemTicks (stats s) + SystemTick\<rparr>\<rparr>
      else s\<lparr>stats := (stats s)\<lparr>totalTicks := totalTicks (stats s) + UserTick,
                                userTicks := userTicks (stats s) + UserTick\<rparr>\<rparr>)"

definition OneTick ::
    "('m isys_scheme \<Rightarrow> 'm isys_scheme res) \<Rightarrow> (irq \<Rightarrow> int \<Rightarrow> 'm isys_scheme \<Rightarrow> 'm isys_scheme res) \<Rightarrow>
     ('m isys_scheme \<Rightarrow> 'm isys_scheme res option) \<Rightarrow> 'm isys_scheme \<Rightarrow> 'm isys_scheme res option" where
  "OneTick dl dispatch yield s =
     (let old = status s;
          s = advance_ticks s;
          s = ChangeLevel IntOn IntOff s
      in bindO (fire_due dl dispatch s) (\<lambda>s.
           let s = ChangeLevel IntOff IntOn s
           in if yieldOnReturn s
              then bindO (yield (s\<lparr>yieldOnReturn := False, status := SystemMode\<rparr>)) (\<lambda>s.
                     Some (Inr (s\<lparr>status := old\<rparr>)))
              else Some (Inr s)))"

definition SetLevel ::
    "('m isys_scheme \<Rightarrow> 'm isys_scheme res) \<Rightarrow> (irq \<Rightarrow> int \<Rightarrow> 'm isys_scheme \<Rightarrow> 'm isys_scheme res) \<Rightarrow>
     ('m isys_scheme \<Rightarrow> 'm isys_scheme res option) \<Rightarrow> IntStatus \<Rightarrow> 'm isys_scheme \<Rightarrow>
     (IntStatus \<times> 'm isys_scheme) res option" where
  "SetLevel dl dispatch yield now s =
     (let old = level s in
      bindO (Some (assertR (now = IntOff \<or> \<not> inHandler s))) (\<lambda>_.
        let s = ChangeLevel old now s
        in if now = IntOn \<and> old = IntOff
           then bindO (OneTick dl dispatch yield s) (\<lambda>s. Some (Inr (old, s)))
           else Some (Inr (old, s))))"

definition Enable ::
    "('m isys_scheme \<Rightarrow> 'm isys_scheme res) \<Rightarrow> (irq \<Rightarrow> int \<Rightarrow> 'm isys_scheme \<Rightarrow> 'm isys_scheme res) \<Rightarrow>
     ('m isys_scheme \<Rightarrow> 'm isys_scheme res option) \<Rightarrow> 'm isys_scheme \<Rightarrow> 'm isys_scheme res option" where
  "Enable dl dispatch yield s = bindO (SetLevel dl dispatch yield IntOn s) (\<lambda>r. Some (Inr (snd r)))"

definition Idle ::
    "('m isys_scheme \<Rightarrow> 'm isys_scheme res) \<Rightarrow> (irq \<Rightarrow> int \<Rightarrow> 'm isys_scheme \<Rightarrow> 'm isys_scheme res) \<Rightarrow>
     'm isys_scheme \<Rightarrow> 'm isys_scheme res option" where
  "Idle dl dispatch s =
     (let s = s\<lparr>status := IdleMode\<rparr> in
      bindO (Some (CheckIfDue dl dispatch True s)) (\<lambda>r.
        if fst r
        then bindO (fire_due dl dispatch (snd r)) (\<lambda>s.
               Some (Inr (s\<lparr>yieldOnReturn := False, status := SystemMode\<rparr>)))
        else Some (Halt (snd r))))"

section \<open>Timer\<close>

record Timer =
  randomize :: bool
  tm_arg :: int

definition TimeOfNextInterrupt :: "Timer \<Rightarrow> 'm isys_scheme \<Rightarrow> int \<times> 'm isys_scheme" where
  "TimeOfNextInterrupt t s =
     (if randomize t
      then let (r, s) = Random s in (1 + r smod (TimerTicks * 2), s)
      else (TimerTicks, s))"

definition Timer_schedule :: "Timer \<Rightarrow> 'm isys_scheme \<Rightarrow> 'm isys_scheme res" where
  "Timer_schedule t s = (let (n, s) = TimeOfNextInterrupt t s in Schedule TimerHandler 0 n TimerInt s)"

definition Timer_new :: "int \<Rightarrow> bool \<Rightarrow> 'm isys_scheme \<Rightarrow> (Timer \<times> 'm isys_scheme) res" where
  "Timer_new callArg doRandom s =
     (let t = \<lparr>randomize = doRandom, tm_arg = callArg\<rparr>
      in bindR (Timer_schedule t s) (\<lambda>s. Inr (t, s)))"

definition TimerExpired :: "(int \<Rightarrow> 'm isys_scheme \<Rightarrow> 'm isys_scheme res) \<Rightarrow> Timer \<Rightarrow> 'm isys_scheme \<Rightarrow> 'm isys_scheme res" where
  "TimerExpired timerHandler t s = bindR (Timer_schedule t s) (timerHandler (tm_arg t))"

text \<open>The kernel's timer handler, \<open>TimerInterruptHandler\<close> of \<^verbatim>\<open>src/code/threads/system.cc\<close>.\<close>

definition TimerInterruptHandler :: "int \<Rightarrow> 'm isys_scheme \<Rightarrow> 'm isys_scheme res" where
  "TimerInterruptHandler dummy s = (if getStatus s \<noteq> IdleMode then YieldOnReturn s else Inr s)"

section \<open>Lemmas\<close>

abbreviation now :: "'m isys_scheme \<Rightarrow> int" where "now s \<equiv> totalTicks (stats s)"

abbreviation pending_sorted :: "'m isys_scheme \<Rightarrow> bool" where "pending_sorted s \<equiv> sorted (map fst (pending s))"

definition due :: "'m isys_scheme \<Rightarrow> (int \<times> PendingInterrupt) list" where
  "due s = filter (\<lambda>p. fst p \<le> now s) (pending s)"

definition only_timer :: "(int \<times> PendingInterrupt) list \<Rightarrow> bool" where
  "only_timer ps \<longleftrightarrow> (case ps of [(w, p)] \<Rightarrow> type p = TimerInt | _ \<Rightarrow> False)"

lemma only_timer_iff: "only_timer ps \<longleftrightarrow> (\<exists>w p. ps = [(w, p)] \<and> type p = TimerInt)"
  by (auto simp: only_timer_def split: list.splits)

lemma due_empty: "pending_sorted s \<Longrightarrow> due s = [] \<longleftrightarrow> pending s = [] \<or> fst (hd (pending s)) > now s"
  by (cases "pending s") (auto simp: due_def filter_empty_conv)

lemma pending_stats_commute: "s\<lparr>pending := ps, stats := st\<rparr> = s\<lparr>stats := st, pending := ps\<rparr>"
  by (cases s) simp

lemma due_frame [simp]:
  "due (s\<lparr>level := l\<rparr>) = due s" "due (s\<lparr>inHandler := i\<rparr>) = due s" "due (s\<lparr>status := st\<rparr>) = due s"
  "due (s\<lparr>yieldOnReturn := y\<rparr>) = due s"
  by (simp_all add: due_def)

text \<open>All pending interrupts are of the kinds the machine has devices for.\<close>

definition all_can :: "(irq \<Rightarrow> bool) \<Rightarrow> 'm isys_scheme \<Rightarrow> bool" where
  "all_can can s \<longleftrightarrow> (\<forall>p \<in> set (pending s). can (handler (snd p)))"

lemma all_can_frame [simp]:
  "all_can can (s\<lparr>level := l\<rparr>) = all_can can s" "all_can can (s\<lparr>inHandler := i\<rparr>) = all_can can s" "all_can can (s\<lparr>status := st\<rparr>) = all_can can s"
  "all_can can (s\<lparr>yieldOnReturn := y\<rparr>) = all_can can s" "all_can can (s\<lparr>stats := ss\<rparr>) = all_can can s"
  by (simp_all add: all_can_def)

text \<open>What a tick is to do: for each interrupt of a list, one after the other, it is no longer pending, its handler is called with its argument inside the handler bracket, and the status is put back.\<close>

fun run_handlers :: "('m isys_scheme \<Rightarrow> 'm isys_scheme res) \<Rightarrow> (irq \<Rightarrow> int \<Rightarrow> 'm isys_scheme \<Rightarrow> 'm isys_scheme res) \<Rightarrow> (int \<times> PendingInterrupt) list \<Rightarrow>
    'm isys_scheme \<Rightarrow> 'm isys_scheme res" where
  "run_handlers dl dispatch [] s = Inr s"
| "run_handlers dl dispatch (p # ps) s =
     bindR (dl (s\<lparr>pending := remove1 p (pending s)\<rparr>)) (\<lambda>s1.
     bindR (dispatch (handler (snd p)) (arg (snd p)) (s1\<lparr>inHandler := True, status := SystemMode\<rparr>)) (\<lambda>s2.
       run_handlers dl dispatch ps (s2\<lparr>status := status s, inHandler := False\<rparr>)))"

lemma Schedule_correct:
  assumes "fromNow > 0" and "pending_sorted s"
  shows "\<exists>s'. Schedule h a fromNow ty s = Inr s' \<and> pending_sorted s' \<and> due s' = due s \<and>
    s' = s\<lparr>pending := sorted_insert (now s + fromNow) (PendingInterrupt_new h a (now s + fromNow) ty) (pending s)\<rparr> \<and>
    mset (pending s') = add_mset (now s + fromNow, PendingInterrupt_new h a (now s + fromNow) ty) (mset (pending s))"
proof -
  let ?w = "now s + fromNow"
  let ?p = "PendingInterrupt_new h a ?w ty"
  have "filter (\<lambda>p. fst p \<le> now s) (sorted_insert ?w ?p (pending s)) = filter (\<lambda>p. fst p \<le> now s) (pending s)"
    using assms(1) unfolding sorted_insert_def
    by simp (metis filter_append takeWhile_dropWhile_id)
  then show ?thesis
    using assms sorted_sorted_insert [of "pending s" ?w ?p]
    by (simp add: Schedule_def due_def mset_sorted_insert Let_def)
qed

lemma put_back:
  assumes "pending s = p # rest" and "pending_sorted s"
  shows "sorted (map fst (sorted_insert (fst p) (snd p) rest))"
    and "mset (sorted_insert (fst p) (snd p) rest) = mset (pending s)"
  using assms sorted_sorted_insert [of rest "fst p" "snd p"] by (simp_all add: mset_sorted_insert)

section \<open>Contract between the interrupt simulation and the handlers\<close>

text \<open>
  A handler called with interrupts off, inside the handler bracket, returns; it leaves the clock and the interrupt
  level alone, and schedules nothing that would already be due. \<open>ok\<close> is what the handlers need of the rest of the
  state, \<open>can\<close> the handlers there are: only those are ever scheduled.
\<close>

locale irq_handlers =
  fixes dl :: "'m isys_scheme \<Rightarrow> 'm isys_scheme res"
    and dispatch :: "irq \<Rightarrow> int \<Rightarrow> 'm isys_scheme \<Rightarrow> 'm isys_scheme res"
    and ok :: "'m isys_scheme \<Rightarrow> bool"
    and can :: "irq \<Rightarrow> bool"
  assumes dl_returns: "ok s \<Longrightarrow> \<exists>s'. dl s = Inr s' \<and> ok s' \<and> isys.truncate s' = isys.truncate s"
    and ok_frame: "ok s \<Longrightarrow> rng s' = rng s \<Longrightarrow> isys.more s' = isys.more s \<Longrightarrow> ok s'"
    and dispatch_returns: "ok s \<Longrightarrow> level s = IntOff \<Longrightarrow> inHandler s \<Longrightarrow> status s = SystemMode \<Longrightarrow>
      pending_sorted s \<Longrightarrow> all_can can s \<Longrightarrow> can h \<Longrightarrow> \<exists>s'. dispatch h a s = Inr s' \<and> ok s' \<and> level s' = IntOff \<and> now s' = now s \<and>
        pending_sorted s' \<and> due s' = due s \<and> all_can can s'"
begin

lemma handler_runs:
  assumes "ok s" and "level s = IntOff" and "pending_sorted s" and "all_can can s" and "can h"
  shows "\<exists>s1 s'. dl s = Inr s1 \<and> dispatch h a (s1\<lparr>inHandler := True, status := SystemMode\<rparr>) = Inr s' \<and> ok s' \<and>
    level s' = IntOff \<and> now s' = now s \<and> pending_sorted s' \<and> due s' = due s \<and> all_can can s'"
proof -
  obtain s1 where s1: "dl s = Inr s1" "ok s1" "isys.truncate s1 = isys.truncate s" using dl_returns [OF assms(1)] by blast
  let ?s = "s1\<lparr>inHandler := True, status := SystemMode\<rparr>"
  have "ok ?s" using ok_frame [OF s1(2), of ?s] by simp
  moreover have "level ?s = level s" "now ?s = now s" "due ?s = due s" "pending_sorted ?s" "all_can can ?s"
    using assms(3,4) s1(3) by (simp_all add: due_def all_can_def isys.defs)
  ultimately show ?thesis
    using dispatch_returns [of ?s h a] assms(2,5) s1(1) by simp
qed

lemma CheckIfDue_fires:
  assumes "ok s" "level s = IntOff" "pending_sorted s" and can: "all_can can s" and due: "due s = p # ps"
    and busy: "\<not> (status s = IdleMode \<and> only_timer (pending s))"
  shows "\<exists>s'. CheckIfDue dl dispatch adv s = Inr (True, s') \<and> ok s' \<and> level s' = IntOff \<and> now s' = now s \<and>
    pending_sorted s' \<and> due s' = ps \<and> status s' = status s \<and> all_can can s' \<and>
    (\<forall>qs. run_handlers dl dispatch (p # qs) s = run_handlers dl dispatch qs s')"
proof -
  obtain rest where pend: "pending s = p # rest" and first: "fst p \<le> now s"
    using due due_empty [OF assms(3)] by (cases "pending s") (auto simp: due_def)
  let ?s = "s\<lparr>pending := rest\<rparr>"
  have "due ?s = ps" using due pend first by (simp add: due_def)
  moreover have "ok ?s" using ok_frame [OF assms(1), of ?s] by simp
  ultimately obtain s1 s' where s1: "dl ?s = Inr s1"
    and s': "dispatch (handler (snd p)) (arg (snd p)) (s1\<lparr>inHandler := True, status := SystemMode\<rparr>) = Inr s'"
    "ok s'" "level s' = IntOff" "now s' = now s" "pending_sorted s'" "due s' = ps" "all_can can s'"
    using handler_runs [of ?s "handler (snd p)" "arg (snd p)"] assms(2,3) can pend by (auto simp: all_can_def)
  have "CheckIfDue dl dispatch adv s = Inr (True, s'\<lparr>status := status s, inHandler := False\<rparr>)"
    using s1 s'(1) pend first assms(2) busy
    by (auto simp: CheckIfDue_def only_timer_def Let_def split: prod.splits list.splits)
  moreover have "ok (s'\<lparr>status := status s, inHandler := False\<rparr>)" using ok_frame [OF s'(2)] by simp
  moreover have "\<forall>qs. run_handlers dl dispatch (p # qs) s = run_handlers dl dispatch qs (s'\<lparr>status := status s, inHandler := False\<rparr>)"
    using s1 s'(1) pend by simp
  ultimately show ?thesis using s' by simp
qed

lemma CheckIfDue_waits:
  assumes "level s = IntOff" "pending_sorted s" and "due s = [] \<or> status s = IdleMode \<and> only_timer (pending s)"
  shows "\<exists>ps. CheckIfDue dl dispatch False s = Inr (False, s\<lparr>pending := ps\<rparr>) \<and> sorted (map fst ps) \<and>
    mset ps = mset (pending s)"
proof (cases "pending s")
  case Nil
  then show ?thesis using assms(1) by (intro exI [of _ "[]"]) (simp add: CheckIfDue_def)
next
  case (Cons p rest)
  then have "CheckIfDue dl dispatch False s = Inr (False, s\<lparr>pending := sorted_insert (fst p) (snd p) rest\<rparr>)"
    using assms due_empty [OF assms(2)]
    by (auto simp: CheckIfDue_def only_timer_def Let_def split: prod.splits list.splits)
  then show ?thesis using put_back [OF Cons assms(2)] by blast
qed

text \<open>The loop of pending interrupts ends: each round takes one due interrupt away and none is added.\<close>

lemma fire_due_returns:
  "ok s \<Longrightarrow> level s = IntOff \<Longrightarrow> pending_sorted s \<Longrightarrow> all_can can s \<Longrightarrow>
   \<exists>s'. fire_due dl dispatch s = Some (Inr s') \<and> ok s' \<and> level s' = IntOff \<and> now s' = now s \<and>
     pending_sorted s' \<and> all_can can s' \<and> status s' = status s \<and> (due s' = [] \<or> status s = IdleMode \<and> only_timer (pending s')) \<and>
     (status s \<noteq> IdleMode \<longrightarrow> (\<exists>s1. run_handlers dl dispatch (due s) s = Inr s1 \<and> s' = s1\<lparr>pending := pending s'\<rparr> \<and> mset (pending s') = mset (pending s1)))"
proof (induction "length (due s)" arbitrary: s rule: less_induct)
  case less
  show ?case
  proof (cases "due s = [] \<or> status s = IdleMode \<and> only_timer (pending s)")
    case True
    then obtain ps where ps: "CheckIfDue dl dispatch False s = Inr (False, s\<lparr>pending := ps\<rparr>)" "sorted (map fst ps)"
      "mset ps = mset (pending s)" using CheckIfDue_waits less.prems(2,3) by blast
    have "fire_due dl dispatch s = Some (Inr (s\<lparr>pending := ps\<rparr>))"
      by (subst fire_due.simps) (simp add: ps(1))
    moreover have "ok (s\<lparr>pending := ps\<rparr>)" using ok_frame [OF less.prems(1)] by simp
    moreover have "due (s\<lparr>pending := ps\<rparr>) = [] \<longleftrightarrow> due s = []"
      using mset_eq_setD [OF ps(3)] by (simp add: due_def filter_empty_conv)
    moreover have "only_timer (pending s) \<Longrightarrow> ps = pending s"
      using ps(3) by (auto simp: only_timer_iff)
    moreover have "all_can can (s\<lparr>pending := ps\<rparr>)" using less.prems(4) mset_eq_setD [OF ps(3)] by (simp add: all_can_def)
    ultimately show ?thesis using True less.prems ps(2,3) by auto
  next
    case False
    then obtain p ps where due: "due s = p # ps" by (cases "due s") auto
    obtain s1 where s1: "CheckIfDue dl dispatch False s = Inr (True, s1)" "ok s1" "level s1 = IntOff" "now s1 = now s"
      "pending_sorted s1" "due s1 = ps" "status s1 = status s" "all_can can s1" "\<forall>qs. run_handlers dl dispatch (p # qs) s = run_handlers dl dispatch qs s1"
      using CheckIfDue_fires [OF less.prems due, of False] False by blast
    moreover have "fire_due dl dispatch s = fire_due dl dispatch s1"
      by (subst fire_due.simps) (simp add: s1(1))
    ultimately show ?thesis using less.hyps [of s1] due by (simp del: run_handlers.simps)
  qed
qed

lemma OneTick_returns:
  assumes "ok s" and "pending_sorted s" and "all_can can s" and "status s \<noteq> IdleMode" and "s0 = (advance_ticks s)\<lparr>level := IntOff\<rparr>"
  shows "\<exists>s1 ps. run_handlers dl dispatch (due s0) s0 = Inr s1 \<and> mset ps = mset (pending s1) \<and> sorted (map fst ps) \<and> (\<forall>p \<in> set ps. now s1 < fst p) \<and>
    now s1 = now s + (if status s = SystemMode then SystemTick else UserTick) \<and>
    OneTick dl dispatch yield s =
      (let s2 = s1\<lparr>pending := ps, level := IntOn\<rparr> in
       if yieldOnReturn s2
       then bindO (yield (s2\<lparr>yieldOnReturn := False, status := SystemMode\<rparr>)) (\<lambda>s3. Some (Inr (s3\<lparr>status := status s\<rparr>)))
       else Some (Inr s2))"
proof -
  have "ok s0" using ok_frame [OF assms(1), of s0] by (simp add: assms(5) advance_ticks_def)
  moreover have "level s0 = IntOff" "pending_sorted s0" "all_can can s0" and st: "status s0 = status s" "now s0 = now s + (if status s = SystemMode then SystemTick else UserTick)"
    using assms(2,3) by (simp_all add: assms(5) advance_ticks_def all_can_def)
  ultimately obtain s' where s': "fire_due dl dispatch s0 = Some (Inr s')" "now s' = now s0" "pending_sorted s'" "due s' = [] \<or> status s0 = IdleMode"
    "status s0 \<noteq> IdleMode \<longrightarrow> (\<exists>s1. run_handlers dl dispatch (due s0) s0 = Inr s1 \<and> s' = s1\<lparr>pending := pending s'\<rparr> \<and> mset (pending s') = mset (pending s1))"
    using fire_due_returns [of s0] by blast
  have idle: "status s0 \<noteq> IdleMode" using assms(4) st(1) by simp
  then obtain s1 where s1: "run_handlers dl dispatch (due s0) s0 = Inr s1" "s' = s1\<lparr>pending := pending s'\<rparr>" "mset (pending s') = mset (pending s1)" using s'(5) by blast
  have n: "now s1 = now s'" by (subst s1(2)) simp
  have "\<forall>p \<in> set (pending s'). now s1 < fst p" using s'(4) idle n by (auto simp: due_def filter_empty_conv)
  moreover have "ChangeLevel IntOff IntOn s' = s1\<lparr>pending := pending s', level := IntOn\<rparr>" unfolding ChangeLevel_def by (subst s1(2)) simp
  then have "OneTick dl dispatch yield s = (let s2 = s1\<lparr>pending := pending s', level := IntOn\<rparr> in
       if yieldOnReturn s2 then bindO (yield (s2\<lparr>yieldOnReturn := False, status := SystemMode\<rparr>)) (\<lambda>s3. Some (Inr (s3\<lparr>status := status s\<rparr>))) else Some (Inr s2))"
    using s'(1) unfolding OneTick_def Let_def assms(5) ChangeLevel_def [of IntOn] by (simp add: Let_def)
  ultimately show ?thesis using s1 s'(2,3) n st(2) by metis
qed

text \<open>An idle machine stops exactly when nothing, or nothing but the timer, is left to wait for.\<close>

lemma Idle_returns:
  assumes "ok s" and "level s = IntOff" and "pending_sorted s" and "all_can can s"
  shows "if pending s = [] \<or> only_timer (pending s) then Idle dl dispatch s = Some (Inl Halted)
    else \<exists>s'. Idle dl dispatch s = Some (Inr s') \<and> ok s' \<and> level s' = IntOff \<and> pending_sorted s' \<and>
      status s' = SystemMode \<and> \<not> yieldOnReturn s' \<and> now s' = max (now s) (fst (hd (pending s)))"
proof (cases "pending s")
  case Nil
  then show ?thesis using assms(2) by (simp add: Idle_def CheckIfDue_def Halt_def)
next
  case (Cons p rest)
  let ?now = "max (now s) (fst p)"
  let ?st = "if fst p > now s then (stats s)\<lparr>idleTicks := idleTicks (stats s) + (fst p - now s), totalTicks := fst p\<rparr> else stats s"
  have chk: "CheckIfDue dl dispatch True (s\<lparr>status := IdleMode\<rparr>) =
      CheckIfDue dl dispatch True (s\<lparr>status := IdleMode, stats := ?st\<rparr>)" (is "_ = CheckIfDue _ _ _ ?s")
    using Cons by (cases p; cases "now s < fst p"; cases "rest = []"; cases "type (snd p) = TimerInt")
      (simp_all add: CheckIfDue_def Let_def pending_stats_commute)
  have nows: "now ?s = ?now" by simp
  show ?thesis
  proof (cases "only_timer (pending s)")
    case True
    then have "Idle dl dispatch s = Some (Inl Halted)"
      using Cons assms(2)
      by (auto simp: Idle_def Halt_def CheckIfDue_def only_timer_iff Let_def)
    then show ?thesis using True by simp
  next
    case False
    have "due ?s = p # filter (\<lambda>q. fst q \<le> ?now) rest" using Cons by (simp add: due_def)
    moreover have "ok ?s" using ok_frame [OF assms(1), of ?s] by simp
    ultimately obtain s1 where s1: "CheckIfDue dl dispatch True ?s = Inr (True, s1)" "ok s1" "level s1 = IntOff"
      "now s1 = ?now" "pending_sorted s1" "status s1 = IdleMode" "all_can can s1"
      using CheckIfDue_fires [of ?s p _ True] assms(2-4) False nows by auto
    then obtain s2 where s2: "fire_due dl dispatch s1 = Some (Inr s2)" "ok s2" "level s2 = IntOff" "now s2 = ?now"
      "pending_sorted s2" using fire_due_returns [OF s1(2,3,5,7)] by auto
    have "ok (s2\<lparr>yieldOnReturn := False, status := SystemMode\<rparr>)" using ok_frame [OF s2(2)] by simp
    then show ?thesis
      using False Cons s1(1) s2 by (simp add: Idle_def chk)
  qed
qed

end

section \<open>The timer device fulfils the contract\<close>

text \<open>A machine whose only device is the timer, as the threads-only kernel configures it; another handler does not exist there.\<close>

definition timer_dispatch :: "Timer \<Rightarrow> irq \<Rightarrow> int \<Rightarrow> 'm isys_scheme \<Rightarrow> 'm isys_scheme res" where
  "timer_dispatch t h a s = (if h = TimerHandler then TimerExpired TimerInterruptHandler t s else Inl NullPointer)"

definition random_nonneg :: "'m isys_scheme \<Rightarrow> bool" where
  "random_nonneg s \<longleftrightarrow> (\<forall>n. 0 \<le> rng s n)"

lemma TimeOfNextInterrupt_bounds:
  assumes "random_nonneg s" and "TimeOfNextInterrupt t s = (n, s')"
  shows "1 \<le> n \<and> n \<le> 2 * TimerTicks \<and> s' = s\<lparr>rng_pos := rng_pos s'\<rparr>"
proof -
  have "0 \<le> rng s (rng_pos s)" using assms(1) by (simp add: random_nonneg_def)
  then have "rng s (rng_pos s) smod 200 = rng s (rng_pos s) mod 200" by simp
  moreover have "0 \<le> rng s (rng_pos s) mod 200 \<and> rng s (rng_pos s) mod 200 < 200" by simp
  ultimately show ?thesis
    using assms(2) by (auto simp: TimeOfNextInterrupt_def Random_def TimerTicks_def split: if_splits)
qed

lemma Timer_schedule_correct:
  assumes "random_nonneg s" and "pending_sorted s"
  shows "\<exists>s' n. Timer_schedule t s = Inr s' \<and> 1 \<le> n \<and> n \<le> 2 * TimerTicks \<and> pending_sorted s' \<and> due s' = due s \<and>
    s' = s\<lparr>rng_pos := rng_pos s', pending := pending s'\<rparr> \<and>
    mset (pending s') = add_mset (now s + n, PendingInterrupt_new TimerHandler 0 (now s + n) TimerInt) (mset (pending s))"
proof -
  obtain n s1 where t: "TimeOfNextInterrupt t s = (n, s1)" by force
  note b = TimeOfNextInterrupt_bounds [OF assms(1) t]
  then have s1: "now s1 = now s" "pending s1 = pending s" "due s1 = due s"
    by (metis isys.select_convs isys.simps(16) isys.surjective isys.update_convs(8) due_def)+
  obtain s' where s': "Schedule TimerHandler 0 n TimerInt s1 = Inr s'" "pending_sorted s'" "due s' = due s1"
    "s' = s1\<lparr>pending := sorted_insert (now s1 + n) (PendingInterrupt_new TimerHandler 0 (now s1 + n) TimerInt) (pending s1)\<rparr>"
    "mset (pending s') = add_mset (now s1 + n, PendingInterrupt_new TimerHandler 0 (now s1 + n) TimerInt) (mset (pending s1))"
    using Schedule_correct [of n s1 TimerHandler 0 TimerInt] b assms(2) s1(2) by auto
  have "s' = s\<lparr>rng_pos := rng_pos s', pending := pending s'\<rparr>"
    using s'(4) b by (metis isys.select_convs isys.surjective isys.update_convs)
  then show ?thesis using t b s' s1 by (intro exI [of _ s'] exI [of _ n]) (simp add: Timer_schedule_def)
qed

lemma TimerExpired_correct:
  assumes "random_nonneg s" and "pending_sorted s" and "inHandler s" and "status s = SystemMode"
  shows "\<exists>s' n. TimerExpired TimerInterruptHandler t s = Inr s' \<and> yieldOnReturn s' \<and> 1 \<le> n \<and> n \<le> 2 * TimerTicks \<and>
    mset (pending s') = add_mset (now s + n, PendingInterrupt_new TimerHandler 0 (now s + n) TimerInt) (mset (pending s)) \<and>
    pending_sorted s' \<and> due s' = due s \<and> s' = s\<lparr>rng_pos := rng_pos s', pending := pending s', yieldOnReturn := True\<rparr>"
proof -
  obtain s1 n where s1: "Timer_schedule t s = Inr s1" "1 \<le> n" "n \<le> 2 * TimerTicks" "pending_sorted s1" "due s1 = due s"
    "s1 = s\<lparr>rng_pos := rng_pos s1, pending := pending s1\<rparr>"
    "mset (pending s1) = add_mset (now s + n, PendingInterrupt_new TimerHandler 0 (now s + n) TimerInt) (mset (pending s))"
    using Timer_schedule_correct [OF assms(1,2)] by blast
  have h: "inHandler s1" "status s1 = SystemMode" using assms(3,4) by (subst s1(6), simp)+
  have "TimerExpired TimerInterruptHandler t s = Inr (s1\<lparr>yieldOnReturn := True\<rparr>)"
    using s1(1) h by (simp add: TimerExpired_def TimerInterruptHandler_def YieldOnReturn_def getStatus_def)
  moreover have "s1\<lparr>yieldOnReturn := True\<rparr> = s\<lparr>rng_pos := rng_pos s1, pending := pending s1, yieldOnReturn := True\<rparr>"
    by (subst s1(6)) simp
  moreover have "due (s\<lparr>rng_pos := rng_pos s1, pending := pending s1\<rparr>) = due s" using s1(5,6) by metis
  ultimately show ?thesis using s1(1-5,7) by (intro exI [of _ "s1\<lparr>yieldOnReturn := True\<rparr>"] exI [of _ n]) simp
qed

interpretation timer_irq: irq_handlers Inr "timer_dispatch t" random_nonneg "\<lambda>h. h = TimerHandler" for t
proof
  fix s s' :: "'a isys_scheme" and h a
  show "random_nonneg s \<Longrightarrow> rng s' = rng s \<Longrightarrow> isys.more s' = isys.more s \<Longrightarrow> random_nonneg s'"
    by (simp add: random_nonneg_def)
  assume ok: "random_nonneg s" and off: "level s = IntOff" and st: "inHandler s" "status s = SystemMode"
    and sorted: "pending_sorted s" and can: "all_can (\<lambda>h. h = TimerHandler) s" and h: "h = TimerHandler"
  obtain s' n where s': "TimerExpired TimerInterruptHandler t s = Inr s'" "pending_sorted s'" "due s' = due s"
    "s' = s\<lparr>rng_pos := rng_pos s', pending := pending s', yieldOnReturn := True\<rparr>"
    "mset (pending s') = add_mset (now s + n, PendingInterrupt_new TimerHandler 0 (now s + n) TimerInt) (mset (pending s))"
    using TimerExpired_correct [OF ok sorted st] by blast
  have "rng s' = rng s" "level s' = level s" "now s' = now s" by (subst s'(4), simp)+
  moreover have "all_can (\<lambda>h. h = TimerHandler) s'"
    using can arg_cong [where f = set_mset, OF s'(5)] by (simp add: all_can_def PendingInterrupt_new_def)
  ultimately show "\<exists>s'. timer_dispatch t h a s = Inr s' \<and> random_nonneg s' \<and> level s' = IntOff \<and> now s' = now s \<and>
      pending_sorted s' \<and> due s' = due s \<and> all_can (\<lambda>h. h = TimerHandler) s'"
    using h s'(1-3) ok off by (auto simp: timer_dispatch_def random_nonneg_def)
qed auto

section \<open>Properties\<close>

text \<open>C31. The clock: whatever devices a machine has, as long as their handlers return, leave the clock and the interrupt level alone and schedule nothing that is already due (the contract \<open>irq_handlers\<close>), \<open>OneTick\<close> outside
  the idle loop advances the simulated time by exactly one system tick in kernel mode and one user tick in user mode and comes through its loop of handlers: it calls the handler of every interrupt that is due by then,
  each once and with its argument, in the order of their times, and no other; what is left pending is what the handlers have left, and none of it is due. Interrupts are enabled again, and a context switch follows
  exactly when a handler asked for one.\<close>

theorem OneTick_fires_all_due:
  assumes "irq_handlers dl dispatch ok can" and "ok s" and "pending_sorted s" and "all_can can s" and "status s \<noteq> IdleMode" and "s0 = (advance_ticks s)\<lparr>level := IntOff\<rparr>"
  shows "\<exists>s1 ps. run_handlers dl dispatch (due s0) s0 = Inr s1 \<and> mset ps = mset (pending s1) \<and> sorted (map fst ps) \<and> (\<forall>p \<in> set ps. now s1 < fst p) \<and>
    now s1 = now s + (if status s = SystemMode then SystemTick else UserTick) \<and>
    OneTick dl dispatch yield s =
      (let s2 = s1\<lparr>pending := ps, level := IntOn\<rparr> in
       if yieldOnReturn s2
       then bindO (yield (s2\<lparr>yieldOnReturn := False, status := SystemMode\<rparr>)) (\<lambda>s3. Some (Inr (s3\<lparr>status := status s\<rparr>)))
       else Some (Inr s2))"
  by (rule irq_handlers.OneTick_returns [OF assms])

text \<open>The timer is due in the tick: it is armed again, and the running thread yields.\<close>

definition timer_due :: isys where
  "timer_due = (Interrupt_new (\<lambda>n. 4))\<lparr>pending := [(5, PendingInterrupt_new TimerHandler 0 5 TimerInt)]\<rparr>"

theorem OneTick_fires_all_due_witness:
  "\<exists>s2. OneTick Inr (timer_dispatch \<lparr>randomize = False, tm_arg = 0\<rparr>) (\<lambda>s. Some (Inr s)) timer_due = Some (Inr s2) \<and> now s2 = 10 \<and>
     pending s2 = [(110, PendingInterrupt_new TimerHandler 0 110 TimerInt)] \<and> level s2 = IntOn"
proof -
  let ?d = "timer_dispatch \<lparr>randomize = False, tm_arg = 0\<rparr>" and ?s0 = "(advance_ticks timer_due)\<lparr>level := IntOff\<rparr>"
  let ?s1 = "?s0\<lparr>pending := [(110, PendingInterrupt_new TimerHandler 0 110 TimerInt)], yieldOnReturn := True\<rparr>"
  have h: "random_nonneg timer_due" "pending_sorted timer_due" "all_can (\<lambda>h. h = TimerHandler) timer_due" "status timer_due \<noteq> IdleMode"
    by (simp_all add: timer_due_def Interrupt_new_def random_nonneg_def all_can_def PendingInterrupt_new_def)
  have run: "run_handlers Inr ?d (due ?s0) ?s0 = Inr ?s1"
    by (simp add: timer_due_def Interrupt_new_def Statistics_new_def advance_ticks_def SystemTick_def due_def timer_dispatch_def TimerExpired_def Timer_schedule_def TimeOfNextInterrupt_def
        Schedule_def TimerTicks_def TimerInterruptHandler_def YieldOnReturn_def getStatus_def PendingInterrupt_new_def sorted_insert_def)
  obtain s1 ps where r: "run_handlers Inr ?d (due ?s0) ?s0 = Inr s1" "mset ps = mset (pending s1)"
    "OneTick Inr ?d (\<lambda>s. Some (Inr s)) timer_due =
      (let s2 = s1\<lparr>pending := ps, level := IntOn\<rparr> in
       if yieldOnReturn s2
       then bindO (Some (Inr (s2\<lparr>yieldOnReturn := False, status := SystemMode\<rparr>))) (\<lambda>s3. Some (Inr (s3\<lparr>status := status timer_due\<rparr>)))
       else Some (Inr s2))"
    using OneTick_fires_all_due [OF timer_irq.irq_handlers_axioms h HOL.refl, of "\<lparr>randomize = False, tm_arg = 0\<rparr>" "\<lambda>s. Some (Inr s)"] by blast
  have "s1 = ?s1" using r(1) run by simp
  moreover from this have "ps = [(110, PendingInterrupt_new TimerHandler 0 110 TimerInt)]" using r(2) by simp
  moreover have "now ?s0 = 10" by (simp add: timer_due_def Interrupt_new_def Statistics_new_def advance_ticks_def SystemTick_def)
  ultimately show ?thesis using r(3) by simp
qed

text \<open>An idle machine: with interrupts off, \<open>Idle\<close> halts exactly when no interrupt is pending or the time-slice
  timer alone is; otherwise it returns, with the clock moved forward to the earliest pending interrupt (never back) and
  without a pending request for a context switch.\<close>

theorem Idle_halts_or_advances:
  assumes "irq_handlers dl dispatch ok can" and "ok s" and "level s = IntOff" and "pending_sorted s" and "all_can can s"
  shows "if pending s = [] \<or> only_timer (pending s) then Idle dl dispatch s = Some (Inl Halted)
    else \<exists>s'. Idle dl dispatch s = Some (Inr s') \<and> level s' = IntOff \<and> pending_sorted s' \<and>
      status s' = SystemMode \<and> \<not> yieldOnReturn s' \<and> now s' = max (now s) (fst (hd (pending s)))"
  using irq_handlers.Idle_returns [OF assms] by auto

theorem Idle_halts_or_advances_witness:
  "Idle Inr (timer_dispatch \<lparr>randomize = False, tm_arg = 0\<rparr>) (Interrupt_new (\<lambda>n. 4)) = Some (Inl Halted)"
proof -
  have "random_nonneg (Interrupt_new (\<lambda>n. 4))" "level (Interrupt_new (\<lambda>n. 4)) = IntOff" "pending_sorted (Interrupt_new (\<lambda>n. 4))"
    "all_can (\<lambda>h. h = TimerHandler) (Interrupt_new (\<lambda>n. 4))" "pending (Interrupt_new (\<lambda>n. 4)) = []"
    by (simp_all add: Interrupt_new_def random_nonneg_def all_can_def)
  then show ?thesis
    using Idle_halts_or_advances [OF timer_irq.irq_handlers_axioms, of "Interrupt_new (\<lambda>n. 4)" "\<lparr>randomize = False, tm_arg = 0\<rparr>"] by simp
qed

text \<open>The time slice: each timer interrupt, taken inside the handler bracket, arms exactly one further timer interrupt
  between 1 and 200 ticks ahead and asks for a context switch; it changes nothing else of the machine.\<close>

theorem TimerExpired_rearms:
  assumes "random_nonneg s" and "pending_sorted s" and "inHandler s" and "status s = SystemMode"
  shows "\<exists>s' n. timer_dispatch t TimerHandler a s = Inr s' \<and> yieldOnReturn s' \<and> 1 \<le> n \<and> n \<le> 200 \<and>
    mset (pending s') = add_mset (now s + n, PendingInterrupt_new TimerHandler 0 (now s + n) TimerInt) (mset (pending s)) \<and>
    s' = s\<lparr>rng_pos := rng_pos s', pending := pending s', yieldOnReturn := True\<rparr>"
  using TimerExpired_correct [OF assms, of t] by (auto simp: timer_dispatch_def TimerTicks_def)

theorem TimerExpired_rearms_witness:
  "\<exists>s' n. timer_dispatch \<lparr>randomize = True, tm_arg = 0\<rparr> TimerHandler 0
     ((Interrupt_new (\<lambda>n. 4))\<lparr>inHandler := True\<rparr>) = Inr s' \<and> yieldOnReturn s' \<and> 1 \<le> n \<and> n \<le> (200::int)"
proof -
  have "random_nonneg ((Interrupt_new (\<lambda>n. 4))\<lparr>inHandler := True\<rparr>)"
    "pending_sorted ((Interrupt_new (\<lambda>n. 4))\<lparr>inHandler := True\<rparr>)"
    "inHandler ((Interrupt_new (\<lambda>n. 4))\<lparr>inHandler := True\<rparr>)"
    "status ((Interrupt_new (\<lambda>n. 4))\<lparr>inHandler := True\<rparr>) = SystemMode"
    by (simp_all add: Interrupt_new_def random_nonneg_def)
  from TimerExpired_rearms [OF this, of "\<lparr>randomize = True, tm_arg = 0\<rparr>" 0] show ?thesis by blast
qed

end
