(* ===== verification/Translate.thy ===== *)
theory Translate
  imports Interrupts "HOL-Library.Word"
begin

unbundle bit_operations_syntax

text \<open>
  The simulated machine: registers, memory and address translation
  (\<^verbatim>\<open>src/code/machine/translate.cc\<close>, \<^verbatim>\<open>machine.cc\<close>, with \<open>DelayedLoad\<close> of \<^verbatim>\<open>mipssim.cc\<close>).

  The record \<open>Machine\<close> extends the interrupt state, because \<open>RaiseException\<close> changes the machine status. C's
  \<open>int\<close> and \<open>unsigned\<close> are both \<open>32 word\<close>, \<open>char\<close> is \<open>8 word\<close>; the host is little endian with signed
  characters, which makes \<open>WordToHost\<close> and its relatives the identity. A page table is an array owned by an
  address space and shared with the machine through a pointer: \<open>tables\<close> maps pointers to arrays, \<open>pageTable\<close> is the
  machine's pointer. \<open>ExceptionHandler\<close> is the argument \<open>trap\<close>; it may not return (\<open>None\<close>).
\<close>

section \<open>State\<close>

definition SectorSize :: nat where "SectorSize = 128"
definition PageSize :: nat where "PageSize = SectorSize"
definition NumPhysPages :: nat where "NumPhysPages = 32"
definition MemorySize :: nat where "MemorySize = NumPhysPages * PageSize"
definition TLBSize :: nat where "TLBSize = 4"

lemmas machine_sizes [simp] = SectorSize_def PageSize_def NumPhysPages_def MemorySize_def TLBSize_def

datatype ExceptionType = NoException | SyscallException | PageFaultException | ReadOnlyException |
  BusErrorException | AddressErrorException | OverflowException | IllegalInstrException | NumExceptionTypes

definition StackReg :: nat where "StackReg = 29"
definition RetAddrReg :: nat where "RetAddrReg = 31"
definition NumGPRegs :: nat where "NumGPRegs = 32"
definition HiReg :: nat where "HiReg = 32"
definition LoReg :: nat where "LoReg = 33"
definition PCReg :: nat where "PCReg = 34"
definition NextPCReg :: nat where "NextPCReg = 35"
definition PrevPCReg :: nat where "PrevPCReg = 36"
definition LoadReg :: nat where "LoadReg = 37"
definition LoadValueReg :: nat where "LoadValueReg = 38"
definition BadVAddrReg :: nat where "BadVAddrReg = 39"
definition NumTotalRegs :: nat where "NumTotalRegs = 40"

lemmas register_numbers [simp] = StackReg_def RetAddrReg_def NumGPRegs_def HiReg_def LoReg_def PCReg_def NextPCReg_def
  PrevPCReg_def LoadReg_def LoadValueReg_def BadVAddrReg_def NumTotalRegs_def

record TranslationEntry =
  virtualPage :: "32 word"
  physicalPage :: "32 word"
  valid :: bool
  readOnly :: bool
  "use" :: bool
  dirty :: bool

record Machine = isys +
  mainMemory :: "8 word list"
  registers :: "32 word list"
  tlb :: "TranslationEntry list option"
  pageTable :: "nat option"
  pageTableSize :: "32 word"
  tables :: "nat \<Rightarrow> TranslationEntry list option"
  singleStep :: bool
  runUntilTime :: int

type_synonym 'm trap = "ExceptionType \<Rightarrow> 'm Machine_scheme \<Rightarrow> 'm Machine_scheme res option"

text \<open>The constructor \<open>Machine::Machine\<close>, built without \<open>USE_TLB\<close>. It leaves \<open>pageTableSize\<close> and
  \<open>runUntilTime\<close> as the memory had them (\<open>junk\<close>).\<close>

definition Machine_new :: "isys \<Rightarrow> 32 word \<Rightarrow> int \<Rightarrow> bool \<Rightarrow> Machine" where
  "Machine_new i junk1 junk2 debug = isys.extend i
     (Machine.fields (replicate MemorySize 0) (replicate NumTotalRegs 0) None None junk1 Map.empty debug junk2)"

definition CheckEndian :: bool where
  "CheckEndian \<longleftrightarrow> (push_bit 24 4 OR push_bit 16 3 OR push_bit 8 2 OR 1 :: 32 word) = 0x04030201"

section \<open>Registers\<close>

definition reg :: "nat \<Rightarrow> 'm Machine_scheme \<Rightarrow> 32 word" where
  "reg i m = registers m ! i"

definition set_reg :: "nat \<Rightarrow> 32 word \<Rightarrow> 'm Machine_scheme \<Rightarrow> 'm Machine_scheme" where
  "set_reg i v m = m\<lparr>registers := (registers m)[i := v]\<rparr>"

definition ReadRegister :: "int \<Rightarrow> 'm Machine_scheme \<Rightarrow> 32 word res" where
  "ReadRegister num m = bindR (assertR (num \<ge> 0 \<and> num < int NumTotalRegs)) (\<lambda>_. Inr (reg (nat num) m))"

definition WriteRegister :: "int \<Rightarrow> 32 word \<Rightarrow> 'm Machine_scheme \<Rightarrow> 'm Machine_scheme res" where
  "WriteRegister num v m = bindR (assertR (num \<ge> 0 \<and> num < int NumTotalRegs)) (\<lambda>_. Inr (set_reg (nat num) v m))"

definition DelayedLoad :: "32 word \<Rightarrow> 32 word \<Rightarrow> 'm Machine_scheme \<Rightarrow> 'm Machine_scheme res" where
  "DelayedLoad nextReg nextValue m =
     (if unat (reg LoadReg m) < NumTotalRegs
      then let m = set_reg (unat (reg LoadReg m)) (reg LoadValueReg m) m;
               m = set_reg LoadReg nextReg m;
               m = set_reg LoadValueReg nextValue m
           in Inr (set_reg 0 0 m)
      else Inl OutOfBounds)"

definition RaiseException :: "'m trap \<Rightarrow> ExceptionType \<Rightarrow> 32 word \<Rightarrow> 'm Machine_scheme \<Rightarrow> 'm Machine_scheme res option" where
  "RaiseException trap which badVAddr m =
     (let m = set_reg BadVAddrReg badVAddr m in
      bindO (Some (DelayedLoad 0 0 m)) (\<lambda>m.
      bindO (trap which (setStatus SystemMode m)) (\<lambda>m. Some (Inr (setStatus UserMode m)))))"

section \<open>Address translation\<close>

definition WordToHost :: "32 word \<Rightarrow> 32 word" where "WordToHost w = w"
definition ShortToHost :: "16 word \<Rightarrow> 16 word" where "ShortToHost w = w"
definition WordToMachine :: "32 word \<Rightarrow> 32 word" where "WordToMachine w = WordToHost w"
definition ShortToMachine :: "16 word \<Rightarrow> 16 word" where "ShortToMachine w = ShortToHost w"

text \<open>Where a translation entry lives, so that the \<open>use\<close> and \<open>dirty\<close> bits can be stored in it.\<close>

datatype entry_ref = InTable nat nat | InTLB nat

definition entry_load :: "entry_ref \<Rightarrow> 'm Machine_scheme \<Rightarrow> TranslationEntry res" where
  "entry_load r m = (case r of
     InTable a i \<Rightarrow> (case tables m a of None \<Rightarrow> Inl DanglingPointer
                       | Some t \<Rightarrow> if i < length t then Inr (t ! i) else Inl OutOfBounds)
   | InTLB i \<Rightarrow> (case tlb m of None \<Rightarrow> Inl NullPointer
                   | Some t \<Rightarrow> if i < length t then Inr (t ! i) else Inl OutOfBounds))"

definition entry_store :: "entry_ref \<Rightarrow> TranslationEntry \<Rightarrow> 'm Machine_scheme \<Rightarrow> 'm Machine_scheme" where
  "entry_store r e m = (case r of
     InTable a i \<Rightarrow> m\<lparr>tables := (tables m)(a := map_option (\<lambda>t. t[i := e]) (tables m a))\<rparr>
   | InTLB i \<Rightarrow> m\<lparr>tlb := map_option (\<lambda>t. t[i := e]) (tlb m)\<rparr>)"

text \<open>The search loop over the TLB.\<close>

function tlb_search :: "32 word \<Rightarrow> nat \<Rightarrow> 'm Machine_scheme \<Rightarrow> nat option res" where
  "tlb_search vpn i m =
     (if i < TLBSize
      then bindR (entry_load (InTLB i) m) (\<lambda>e.
             if valid e \<and> virtualPage e = vpn then Inr (Some i) else tlb_search vpn (i + 1) m)
      else Inr None)"
  by pat_completeness auto
termination by (relation "measure (\<lambda>(vpn, i, m). TLBSize - i)") auto

declare tlb_search.simps [simp del]

definition find_entry :: "32 word \<Rightarrow> 'm Machine_scheme \<Rightarrow> (ExceptionType + entry_ref) res" where
  "find_entry vpn m =
     (case tlb m of
        None \<Rightarrow>
          if vpn \<ge> pageTableSize m then Inr (Inl AddressErrorException)
          else (case pageTable m of None \<Rightarrow> Inl NullPointer
                | Some a \<Rightarrow> bindR (entry_load (InTable a (unat vpn)) m) (\<lambda>e.
                    if \<not> valid e then Inr (Inl PageFaultException) else Inr (Inr (InTable a (unat vpn)))))
      | Some _ \<Rightarrow> bindR (tlb_search vpn 0 m) (\<lambda>r.
          case r of None \<Rightarrow> Inr (Inl PageFaultException) | Some i \<Rightarrow> Inr (Inr (InTLB i))))"

definition misaligned :: "32 word \<Rightarrow> nat \<Rightarrow> bool" where
  "misaligned virtAddr sz \<longleftrightarrow> (sz = 4 \<and> virtAddr AND 3 \<noteq> 0) \<or> (sz = 2 \<and> virtAddr AND 1 \<noteq> 0)"

text \<open>\<open>Translate\<close> gives \<open>Inl\<close> the exception or \<open>Inr\<close> the physical address (\<open>NoException\<close>).\<close>

definition Translate_addr :: "32 word \<Rightarrow> nat \<Rightarrow> bool \<Rightarrow> 'm Machine_scheme \<Rightarrow> ((ExceptionType + nat) \<times> 'm Machine_scheme) res" where
  "Translate_addr virtAddr sz writing m =
     (if misaligned virtAddr sz then Inr (Inl AddressErrorException, m)
      else
        bindR (assertR (tlb m = None \<or> pageTable m = None)) (\<lambda>_.
        bindR (assertR (tlb m \<noteq> None \<or> pageTable m \<noteq> None)) (\<lambda>_.
        let vpn = virtAddr div of_nat PageSize;
            offset = virtAddr mod of_nat PageSize
        in bindR (find_entry vpn m) (\<lambda>f.
           case f of Inl exc \<Rightarrow> Inr (Inl exc, m)
           | Inr r \<Rightarrow> bindR (entry_load r m) (\<lambda>entry.
               if readOnly entry \<and> writing then Inr (Inl ReadOnlyException, m)
               else
                 let pageFrame = physicalPage entry
                 in if pageFrame \<ge> of_nat NumPhysPages then Inr (Inl BusErrorException, m)
                    else
                      let entry = entry\<lparr>use := True\<rparr>;
                          entry = (if writing then entry\<lparr>dirty := True\<rparr> else entry);
                          m = entry_store r entry m;
                          physAddr = unat (pageFrame * of_nat PageSize + offset)
                      in bindR (assertR (physAddr + sz \<le> MemorySize)) (\<lambda>_. Inr (Inr physAddr, m)))))))"

section \<open>Memory\<close>

definition load8 :: "nat \<Rightarrow> 'm Machine_scheme \<Rightarrow> 8 word" where
  "load8 a m = mainMemory m ! a"

definition load16 :: "nat \<Rightarrow> 'm Machine_scheme \<Rightarrow> 16 word" where
  "load16 a m = ucast (load8 a m) OR push_bit 8 (ucast (load8 (a + 1) m))"

definition load32 :: "nat \<Rightarrow> 'm Machine_scheme \<Rightarrow> 32 word" where
  "load32 a m = ucast (load8 a m) OR push_bit 8 (ucast (load8 (a + 1) m)) OR
     push_bit 16 (ucast (load8 (a + 2) m)) OR push_bit 24 (ucast (load8 (a + 3) m))"

definition store8 :: "nat \<Rightarrow> 8 word \<Rightarrow> 'm Machine_scheme \<Rightarrow> 'm Machine_scheme" where
  "store8 a v m = m\<lparr>mainMemory := (mainMemory m)[a := v]\<rparr>"

definition store16 :: "nat \<Rightarrow> 16 word \<Rightarrow> 'm Machine_scheme \<Rightarrow> 'm Machine_scheme" where
  "store16 a v m = store8 (a + 1) (ucast (drop_bit 8 v)) (store8 a (ucast v) m)"

definition store32 :: "nat \<Rightarrow> 32 word \<Rightarrow> 'm Machine_scheme \<Rightarrow> 'm Machine_scheme" where
  "store32 a v m = store8 (a + 3) (ucast (drop_bit 24 v)) (store8 (a + 2) (ucast (drop_bit 16 v))
     (store8 (a + 1) (ucast (drop_bit 8 v)) (store8 a (ucast v) m)))"

text \<open>\<open>ReadMem\<close> returns \<open>None\<close> for \<open>FALSE\<close> and \<open>Some\<close> the value stored through its pointer. A byte is read as a
  signed \<open>char\<close>.\<close>

definition ReadMem :: "'m trap \<Rightarrow> 32 word \<Rightarrow> nat \<Rightarrow> 'm Machine_scheme \<Rightarrow> (32 word option \<times> 'm Machine_scheme) res option" where
  "ReadMem trap addr sz m =
     bindO (Some (Translate_addr addr sz False m)) (\<lambda>(r, m).
       case r of
         Inl exc \<Rightarrow> bindO (RaiseException trap exc addr m) (\<lambda>m. Some (Inr (None, m)))
       | Inr pa \<Rightarrow>
           if sz = 1 then Some (Inr (Some (scast (load8 pa m)), m))
           else if sz = 2 then Some (Inr (Some (ucast (ShortToHost (load16 pa m))), m))
           else if sz = 4 then Some (Inr (Some (WordToHost (load32 pa m)), m))
           else Some (Inl AssertFail))"

definition WriteMem :: "'m trap \<Rightarrow> 32 word \<Rightarrow> nat \<Rightarrow> 32 word \<Rightarrow> 'm Machine_scheme \<Rightarrow> (bool \<times> 'm Machine_scheme) res option" where
  "WriteMem trap addr sz v m =
     bindO (Some (Translate_addr addr sz True m)) (\<lambda>(r, m).
       case r of
         Inl exc \<Rightarrow> bindO (RaiseException trap exc addr m) (\<lambda>m. Some (Inr (False, m)))
       | Inr pa \<Rightarrow>
           if sz = 1 then Some (Inr (True, store8 pa (ucast (v AND 0xff)) m))
           else if sz = 2 then Some (Inr (True, store16 pa (ShortToMachine (ucast (v AND 0xffff))) m))
           else if sz = 4 then Some (Inr (True, store32 pa (WordToMachine v) m))
           else Some (Inl AssertFail))"

section \<open>Translation through a page table\<close>

definition entries_of :: "'m Machine_scheme \<Rightarrow> TranslationEntry list" where
  "entries_of m = (case pageTable m of None \<Rightarrow> [] | Some a \<Rightarrow> (case tables m a of None \<Rightarrow> [] | Some t \<Rightarrow> t))"

definition paging_wf :: "'m Machine_scheme \<Rightarrow> bool" where
  "paging_wf m \<longleftrightarrow> tlb m = None \<and> (\<exists>a t. pageTable m = Some a \<and> tables m a = Some t \<and> unat (pageTableSize m) \<le> length t)"

definition set_entry :: "nat \<Rightarrow> TranslationEntry \<Rightarrow> 'm Machine_scheme \<Rightarrow> 'm Machine_scheme" where
  "set_entry i e m = entry_store (InTable (the (pageTable m)) i) e m"

lemma and_low_mask: "(v::32 word) AND 3 = v mod 4" "(v::32 word) AND 1 = v mod 2"
proof -
  have "(3::32 word) = mask 2" by (simp add: mask_eq_exp_minus_1)
  then show "v AND 3 = v mod 4"
    by (simp only: take_bit_eq_mask [symmetric]) (simp add: take_bit_eq_mod)
  show "v AND 1 = v mod 2" by (rule and_one_eq)
qed

lemma misaligned_iff:
  "sz \<in> {1, 2, 4} \<Longrightarrow> misaligned v sz \<longleftrightarrow> unat v mod sz \<noteq> 0"
  unfolding misaligned_def and_low_mask by (auto simp: unat_eq_0 [symmetric] unat_mod)

lemma page_split:
  "unat ((v::32 word) div 128) = unat v div 128" "unat ((v::32 word) mod 128) = unat v mod 128"
  by (simp_all add: unat_div unat_mod)

lemma frame_address:
  assumes "unat (f::32 word) < 32"
  shows "unat (f * 128 + (v::32 word) mod 128) = unat f * 128 + unat v mod 128"
proof -
  have "unat v mod 128 < 128" by simp
  then have "unat f * 128 + unat v mod 128 < 4096" using assms by linarith
  then show ?thesis
    by (simp add: unat_word_ariths unat_mod)
qed

lemma aligned_fits:
  assumes "sz \<in> {1, 2, 4}" and "(n::nat) mod sz = 0"
  shows "n mod 128 + sz \<le> 128"
proof -
  obtain c where c: "128 = sz * c" using assms(1) by (auto intro: that [of 128] that [of 64] that [of 32])
  then have "sz dvd 128" by (metis dvd_triv_left)
  then have "(n mod 128) mod sz = 0" using assms(2) by (simp add: mod_mod_cancel)
  then obtain k where k: "n mod 128 = sz * k" by auto
  moreover have "sz * k < sz * c" using k c by (metis mod_less_divisor zero_less_numeral)
  then have "Suc k \<le> c" by simp
  then have "sz * Suc k \<le> sz * c" by (rule mult_le_mono2)
  ultimately show ?thesis using c by simp
qed

lemma Translate_paging:
  assumes wf: "paging_wf m" and sz: "sz \<in> {1, 2, 4}"
  shows "Translate_addr v sz w m = Inr (
    let vpn = unat v div 128; offset = unat v mod 128; e = entries_of m ! vpn
    in if unat v mod sz \<noteq> 0 \<or> vpn \<ge> unat (pageTableSize m) then (Inl AddressErrorException, m)
       else if \<not> valid e then (Inl PageFaultException, m)
       else if readOnly e \<and> w then (Inl ReadOnlyException, m)
       else if unat (physicalPage e) \<ge> 32 then (Inl BusErrorException, m)
       else (Inr (unat (physicalPage e) * 128 + offset), set_entry vpn (e\<lparr>use := True, dirty := w \<or> dirty e\<rparr>) m))"
proof -
  obtain a t where m: "tlb m = None" "pageTable m = Some a" "tables m a = Some t" "unat (pageTableSize m) \<le> length t"
    using wf by (auto simp: paging_wf_def)
  let ?vpn = "unat v div 128"
  have e: "entries_of m = t" using m by (simp add: entries_of_def)
  have big: "(32 \<le> f) = (32 \<le> unat f)" for f :: "32 word" by (simp add: word_le_nat_alt)
  have le: "(pageTableSize m \<le> v div 128) = (unat (pageTableSize m) \<le> ?vpn)"
    by (simp add: word_le_nat_alt page_split)
  have load: "entry_load (InTable a ?vpn) m = Inr (t ! ?vpn)" if "?vpn < unat (pageTableSize m)"
    using that m by (simp add: entry_load_def)
  have fit: "unat (physicalPage (t ! ?vpn)) * 128 + unat v mod 128 + sz \<le> 4096"
    if "unat v mod sz = 0" "unat (physicalPage (t ! ?vpn)) < 32"
  proof -
    have "unat v mod 128 + sz \<le> 128" using aligned_fits [OF sz that(1)] .
    then show ?thesis using that(2) by linarith
  qed
  show ?thesis
  proof (cases "unat v mod sz \<noteq> 0")
    case True
    then show ?thesis using sz by (simp add: Translate_addr_def misaligned_iff Let_def)
  next
    case al: False
    show ?thesis
    proof (cases "?vpn < unat (pageTableSize m)")
      case False
      then show ?thesis using al m sz
        by (simp add: Translate_addr_def misaligned_iff find_entry_def le page_split Let_def)
    next
      case True
      then show ?thesis using al m sz load [OF True] fit
        by (auto simp: Translate_addr_def misaligned_iff find_entry_def le big page_split e Let_def frame_address
            set_entry_def not_le)
    qed
  qed
qed

section \<open>Memory round trips\<close>

lemma word32_bytes:
  "ucast (ucast (v::32 word) :: 8 word) OR push_bit 8 (ucast (ucast (drop_bit 8 v) :: 8 word)) OR
   push_bit 16 (ucast (ucast (drop_bit 16 v) :: 8 word)) OR push_bit 24 (ucast (ucast (drop_bit 24 v) :: 8 word)) = v" (is "?w = v")
proof (rule bit_word_eqI)
  fix n assume "n < LENGTH(32)"
  then consider "n < 8" | "8 \<le> n" "n < 16" | "16 \<le> n" "n < 24" | "24 \<le> n" "n < 32" by fastforce
  then show "bit ?w n = bit v n" by cases (auto simp: bit_simps)
qed

lemma word16_bytes:
  "ucast (ucast (v::16 word) :: 8 word) OR push_bit 8 (ucast (ucast (drop_bit 8 v) :: 8 word)) = v" (is "?w = v")
proof (rule bit_word_eqI)
  fix n assume "n < LENGTH(16)"
  then consider "n < 8" | "8 \<le> n" "n < 16" by fastforce
  then show "bit ?w n = bit v n" by cases (auto simp: bit_simps)
qed

lemma load_store8: "a < length (mainMemory m) \<Longrightarrow> load8 b (store8 a v m) = (if b = a then v else load8 b m)"
  by (simp add: load8_def store8_def)

lemma store8_length [simp]: "length (mainMemory (store8 a v m)) = length (mainMemory m)"
  by (simp add: store8_def)

lemma load_store16: "a + 1 < length (mainMemory m) \<Longrightarrow> load16 a (store16 a v m) = v"
  by (simp add: load16_def store16_def load_store8 word16_bytes)

lemma load_store32: "a + 3 < length (mainMemory m) \<Longrightarrow> load32 a (store32 a v m) = v"
  by (simp add: load32_def store32_def load_store8 word32_bytes)

text \<open>The bytes \<open>WriteMem\<close> stores, in one definition for the three sizes.\<close>

definition store_mem :: "nat \<Rightarrow> nat \<Rightarrow> 32 word \<Rightarrow> 'm Machine_scheme \<Rightarrow> 'm Machine_scheme" where
  "store_mem pa sz v m = (if sz = 1 then store8 pa (ucast (v AND 0xff)) m
     else if sz = 2 then store16 pa (ucast (v AND 0xffff)) m else store32 pa v m)"

definition load_mem :: "nat \<Rightarrow> nat \<Rightarrow> 'm Machine_scheme \<Rightarrow> 32 word" where
  "load_mem pa sz m = (if sz = 1 then scast (load8 pa m) else if sz = 2 then ucast (load16 pa m) else load32 pa m)"

text \<open>What a value becomes by being stored in and loaded from \<open>sz\<close> bytes.\<close>

definition clip :: "nat \<Rightarrow> 32 word \<Rightarrow> 32 word" where
  "clip sz v = (if sz = 1 then scast (ucast v :: 8 word) else if sz = 2 then ucast (ucast v :: 16 word) else v)"

lemma ucast_low: "ucast ((v::32 word) AND 0xff) = (ucast v :: 8 word)" "ucast ((v::32 word) AND 0xffff) = (ucast v :: 16 word)"
proof -
  have m: "(0xff::32 word) = mask 8" "(0xffff::32 word) = mask 16" by (simp_all add: mask_eq_exp_minus_1)
  show "ucast (v AND 0xff) = (ucast v :: 8 word)" unfolding m by (auto intro!: bit_word_eqI simp: bit_simps)
  show "ucast (v AND 0xffff) = (ucast v :: 16 word)" unfolding m by (auto intro!: bit_word_eqI simp: bit_simps)
qed

lemma load_store_mem:
  assumes "sz \<in> {1, 2, 4}" and "pa + sz \<le> length (mainMemory m)"
  shows "load_mem pa sz (store_mem pa sz v m) = clip sz v"
  using assms by (auto simp: load_mem_def store_mem_def clip_def load_store8 load_store16 load_store32 ucast_low)

lemma store_mem_frame:
  "sz \<in> {1, 2, 4} \<Longrightarrow> x < pa \<or> pa + sz \<le> x \<Longrightarrow> mainMemory (store_mem pa sz v m) ! x = mainMemory m ! x"
  by (auto simp: store_mem_def store8_def store16_def store32_def)

lemma store_mem_fields [simp]:
  "tlb (store_mem pa sz v m) = tlb m" "pageTable (store_mem pa sz v m) = pageTable m"
  "tables (store_mem pa sz v m) = tables m" "pageTableSize (store_mem pa sz v m) = pageTableSize m"
  "registers (store_mem pa sz v m) = registers m" "length (mainMemory (store_mem pa sz v m)) = length (mainMemory m)"
  by (simp_all add: store_mem_def store8_def store16_def store32_def)

lemma set_entry_fields [simp]:
  "tlb (set_entry i e m) = tlb m" "pageTable (set_entry i e m) = pageTable m" "mainMemory (set_entry i e m) = mainMemory m"
  "pageTableSize (set_entry i e m) = pageTableSize m" "registers (set_entry i e m) = registers m"
  by (simp_all add: set_entry_def entry_store_def)

lemma entries_of_store_mem [simp]: "entries_of (store_mem pa sz v m) = entries_of m"
  by (auto simp: entries_of_def split: option.splits)

lemma entries_of_set_entry: "paging_wf m \<Longrightarrow> entries_of (set_entry i e m) = (entries_of m)[i := e]"
  by (auto simp: entries_of_def set_entry_def entry_store_def paging_wf_def)

lemma paging_wf_frame [simp]:
  "paging_wf (store_mem pa sz v m) = paging_wf m" "paging_wf m \<Longrightarrow> paging_wf (set_entry i e m)"
  by (auto simp: paging_wf_def set_entry_def entry_store_def)

lemma paging_length: "paging_wf m \<Longrightarrow> unat (pageTableSize m) \<le> length (entries_of m)"
  by (auto simp: paging_wf_def entries_of_def)

text \<open>The outcome of an access: the exception or the physical address.\<close>

definition access :: "32 word \<Rightarrow> nat \<Rightarrow> bool \<Rightarrow> 'm Machine_scheme \<Rightarrow> ExceptionType + nat" where
  "access v sz w m =
    (let vpn = unat v div 128; e = entries_of m ! vpn
     in if unat v mod sz \<noteq> 0 \<or> vpn \<ge> unat (pageTableSize m) then Inl AddressErrorException
        else if \<not> valid e then Inl PageFaultException
        else if readOnly e \<and> w then Inl ReadOnlyException
        else if unat (physicalPage e) \<ge> 32 then Inl BusErrorException
        else Inr (unat (physicalPage e) * 128 + unat v mod 128))"

definition mark_entry :: "nat \<Rightarrow> bool \<Rightarrow> 'm Machine_scheme \<Rightarrow> 'm Machine_scheme" where
  "mark_entry vpn w m = (let e = entries_of m ! vpn in set_entry vpn (e\<lparr>use := True, dirty := w \<or> dirty e\<rparr>) m)"

lemma Translate_access:
  assumes "paging_wf m" and "sz \<in> {1, 2, 4}"
  shows "Translate_addr v sz w m =
    Inr (access v sz w m, case access v sz w m of Inl _ \<Rightarrow> m | Inr _ \<Rightarrow> mark_entry (unat v div 128) w m)"
  unfolding Translate_paging [OF assms] by (simp add: access_def mark_entry_def Let_def)

lemma access_bounds:
  "sz \<in> {1, 2, 4} \<Longrightarrow> access v sz w m = Inr pa \<Longrightarrow>
   pa + sz \<le> 4096 \<and> pa div 128 = unat (physicalPage (entries_of m ! (unat v div 128))) \<and> pa mod 128 = unat v mod 128 \<and>
   unat v div 128 < unat (pageTableSize m)"
  using aligned_fits [of sz "unat v"] by (auto simp: access_def Let_def split: if_splits)

lemma WriteMem_access:
  assumes "paging_wf m" and "sz \<in> {1, 2, 4}"
  shows "WriteMem trap a sz v m = (case access a sz True m of
      Inl exc \<Rightarrow> bindO (RaiseException trap exc a m) (\<lambda>m. Some (Inr (False, m)))
    | Inr pa \<Rightarrow> Some (Inr (True, store_mem pa sz v (mark_entry (unat a div 128) True m))))"
  using assms(2)
  by (auto simp: WriteMem_def Translate_access [OF assms] store_mem_def ShortToMachine_def ShortToHost_def
      WordToMachine_def WordToHost_def split: sum.splits)

lemma ReadMem_access:
  assumes "paging_wf m" and "sz \<in> {1, 2, 4}"
  shows "ReadMem trap a sz m = (case access a sz False m of
      Inl exc \<Rightarrow> bindO (RaiseException trap exc a m) (\<lambda>m. Some (Inr (None, m)))
    | Inr pa \<Rightarrow> let m' = mark_entry (unat a div 128) False m in Some (Inr (Some (load_mem pa sz m'), m')))"
  using assms(2)
  by (auto simp: ReadMem_def Translate_access [OF assms] load_mem_def ShortToHost_def WordToHost_def Let_def split: sum.splits)

lemma access_after_write:
  assumes wf: "paging_wf m" and acc: "access a sz True m = Inr pa"
  shows "access a sz False (store_mem pa' sz v (mark_entry (unat a div 128) True m)) = Inr pa"
proof -
  have "unat a div 128 < length (entries_of m)"
    using acc paging_length [OF wf] by (auto simp: access_def Let_def split: if_splits)
  then show ?thesis
    using acc wf by (auto simp: access_def Let_def mark_entry_def entries_of_set_entry split: if_splits)
qed

lemma mark_entry_memory [simp]: "mainMemory (mark_entry i w m) = mainMemory m"
  by (simp add: mark_entry_def Let_def)

lemma mark_entry_wf [simp]: "paging_wf m \<Longrightarrow> paging_wf (mark_entry i w m)"
  by (simp add: mark_entry_def Let_def)

lemma load_mem_mark_entry [simp]: "load_mem pa sz (mark_entry i w m) = load_mem pa sz m"
  by (simp add: load_mem_def load8_def load16_def load32_def)

lemma WriteMem_success:
  assumes "paging_wf m" and "sz \<in> {1, 2, 4}" and "WriteMem trap a sz v m = Some (Inr (True, m'))"
  obtains pa where "access a sz True m = Inr pa" "m' = store_mem pa sz v (mark_entry (unat a div 128) True m)"
  using assms(3) unfolding WriteMem_access [OF assms(1,2)] by (auto simp: bindO_eq_Inr split: sum.splits)

definition example_machine :: Machine where
  "example_machine =
     (Machine_new (Interrupt_new (\<lambda>n. 0)) 1 0 False)
       \<lparr>pageTable := Some 0, tables := [0 \<mapsto> [\<lparr>virtualPage = 0, physicalPage = 3, valid = True, readOnly = False,
          use = False, dirty = False\<rparr>]]\<rparr>"

lemma example_machine_fields:
  "pageTable example_machine = Some 0" "pageTableSize example_machine = 1" "tlb example_machine = None"
  "entries_of example_machine = [\<lparr>virtualPage = 0, physicalPage = 3, valid = True, readOnly = False, use = False, dirty = False\<rparr>]"
  "length (mainMemory example_machine) = 4096" "paging_wf example_machine"
  by (simp_all add: example_machine_def entries_of_def paging_wf_def Machine_new_def isys.defs Machine.defs Interrupt_new_def)

section \<open>Properties\<close>

text \<open>C12. Address translation through the linear page table decides every outcome: an address that is not a multiple of
  the access size or lies beyond the table is an address error, an invalid entry a page fault, a write to a read-only page
  a read-only exception, a frame number beyond physical memory a bus error; none of these changes the machine. Otherwise the
  physical address is the frame of the page plus the offset, the access lies inside that frame of physical memory, and the entry's
  use bit, and for a write its dirty bit, are set. No assertion of the routine can fail.\<close>

theorem Translate_outcomes:
  assumes "paging_wf m" and "sz \<in> {1, 2, 4}"
  shows "let vpn = unat v div 128; offset = unat v mod 128; e = entries_of m ! vpn
    in Translate_addr v sz w m = Inr (
         if unat v mod sz \<noteq> 0 \<or> vpn \<ge> unat (pageTableSize m) then (Inl AddressErrorException, m)
         else if \<not> valid e then (Inl PageFaultException, m)
         else if readOnly e \<and> w then (Inl ReadOnlyException, m)
         else if unat (physicalPage e) \<ge> 32 then (Inl BusErrorException, m)
         else (Inr (unat (physicalPage e) * 128 + offset), set_entry vpn (e\<lparr>use := True, dirty := w \<or> dirty e\<rparr>) m)) \<and>
       (unat v mod sz = 0 \<longrightarrow> offset + sz \<le> 128)"
  using Translate_paging [OF assms, of v w] aligned_fits [OF assms(2), of "unat v"] by (simp add: Let_def)

theorem Translate_outcomes_witness:
  "Translate_addr 5 2 False example_machine = Inr (Inl AddressErrorException, example_machine) \<and>
   Translate_addr 200 4 False example_machine = Inr (Inl AddressErrorException, example_machine)"
  using Translate_outcomes [of example_machine 2 5 False] Translate_outcomes [of example_machine 4 200 False]
  by (simp add: example_machine_fields Let_def)

text \<open>Memory round trip: when a store of 1, 2 or 4 bytes at a virtual address succeeds, a load of the same size at the
  same address succeeds and returns the stored value, cut to the size and extended again (a byte with its sign, a half word
  with zeros).\<close>

theorem ReadMem_after_WriteMem:
  assumes "paging_wf m" and "length (mainMemory m) = MemorySize" and "sz \<in> {1, 2, 4}"
    and "WriteMem trap a sz v m = Some (Inr (True, m'))"
  shows "\<exists>m''. ReadMem trap a sz m' = Some (Inr (Some
      (if sz = 1 then scast (ucast v :: 8 word) else if sz = 2 then ucast (ucast v :: 16 word) else v), m'')) \<and>
    mainMemory m'' = mainMemory m'"
proof -
  obtain pa where pa: "access a sz True m = Inr pa" and m': "m' = store_mem pa sz v (mark_entry (unat a div 128) True m)"
    using WriteMem_success [OF assms(1,3,4)] .
  have "pa + sz \<le> 4096" using access_bounds [OF assms(3) pa] by simp
  then have "load_mem pa sz m' = clip sz v"
    using assms(2,3) by (simp add: m' load_store_mem)
  moreover have "access a sz False m' = Inr pa" using access_after_write [OF assms(1) pa] by (simp add: m')
  moreover have "paging_wf m'" using assms(1) by (simp add: m')
  ultimately show ?thesis
    using ReadMem_access [OF _ assms(3), of m' trap a] by (auto simp: clip_def Let_def)
qed

theorem ReadMem_after_WriteMem_witness:
  "\<exists>m' m''. WriteMem (\<lambda>e m. None) 8 4 0xdeadbeef example_machine = Some (Inr (True, m')) \<and>
     ReadMem (\<lambda>e m. None) 8 4 m' = Some (Inr (Some 0xdeadbeef, m''))"
proof -
  have acc: "access 8 4 True example_machine = Inr 392" by (simp add: access_def example_machine_fields Let_def)
  then obtain m' where w: "WriteMem (\<lambda>e m. None) 8 4 0xdeadbeef example_machine = Some (Inr (True, m'))"
    using WriteMem_access [of example_machine 4 "\<lambda>e m. None" 8 "0xdeadbeef"] by (simp add: example_machine_fields)
  from ReadMem_after_WriteMem [OF _ _ _ w] w show ?thesis by (auto simp: example_machine_fields)
qed

text \<open>Isolation: a successful store by a user program changes at most the bytes it addresses,
  and these lie in the physical frame its page table gives for the page; every other byte of physical memory, in particular
  every other frame, keeps its value, and so do the registers.\<close>

theorem WriteMem_isolation:
  assumes "paging_wf m" and "sz \<in> {1, 2, 4}" and "WriteMem trap a sz v m = Some (Inr (True, m'))"
  shows "length (mainMemory m') = length (mainMemory m) \<and> registers m' = registers m \<and>
    (\<forall>x. x div 128 \<noteq> unat (physicalPage (entries_of m ! (unat a div 128))) \<longrightarrow> mainMemory m' ! x = mainMemory m ! x) \<and>
    (\<forall>x. x mod 128 < unat a mod 128 \<or> unat a mod 128 + sz \<le> x mod 128 \<longrightarrow> mainMemory m' ! x = mainMemory m ! x)"
proof -
  obtain pa where pa: "access a sz True m = Inr pa" and m': "m' = store_mem pa sz v (mark_entry (unat a div 128) True m)"
    using WriteMem_success [OF assms] .
  note b = access_bounds [OF assms(2) pa]
  have fits: "pa mod 128 + sz \<le> 128"
    using b pa aligned_fits [OF assms(2), of "unat a"] by (auto simp: access_def Let_def split: if_splits)
  have same: "mainMemory m' ! x = mainMemory m ! x" if "x < pa \<or> pa + sz \<le> x" for x
    unfolding m' by (simp add: store_mem_frame [OF assms(2) that])
  have out: "x < pa \<or> pa + sz \<le> x" if "x div 128 \<noteq> pa div 128 \<or> x mod 128 < pa mod 128 \<or> pa mod 128 + sz \<le> x mod 128" for x
  proof (rule ccontr)
    assume "\<not> (x < pa \<or> pa + sz \<le> x)"
    then obtain k where k: "x = pa + k" "k < sz" by (auto simp: not_less dest: le_Suc_ex)
    then have "pa mod 128 + k < 128" using fits by linarith
    then have "x div 128 = pa div 128" "x mod 128 = pa mod 128 + k"
      using k(1) by (simp_all add: div_add1_eq [of pa k] mod_add_left_eq [symmetric, of pa k])
    then show False using that k(2) by linarith
  qed
  show ?thesis
    using same out b m' by (auto simp: mark_entry_def Let_def)
qed

theorem WriteMem_isolation_witness:
  "\<exists>m'. WriteMem (\<lambda>e m. None) 8 4 7 example_machine = Some (Inr (True, m')) \<and>
     mainMemory m' ! 0 = mainMemory example_machine ! 0"
proof -
  have acc: "access 8 4 True example_machine = Inr 392" by (simp add: access_def example_machine_fields Let_def)
  then obtain m' where w: "WriteMem (\<lambda>e m. None) 8 4 7 example_machine = Some (Inr (True, m'))"
    using WriteMem_access [of example_machine 4 "\<lambda>e m. None" 8 7] by (simp add: example_machine_fields)
  have "unat (physicalPage (entries_of example_machine ! (unat (8::32 word) div 128))) = 3"
    by (simp add: example_machine_fields)
  with WriteMem_isolation [OF _ _ w] have "mainMemory m' ! 0 = mainMemory example_machine ! 0"
    by (simp add: example_machine_fields)
  then show ?thesis using w by blast
qed

end
