(* ===== verification/Mips.thy ===== *)
theory Mips
  imports Translate
begin

text \<open>
  The simulated MIPS processor (\<^verbatim>\<open>src/code/machine/mipssim.cc\<close>, \<^verbatim>\<open>mipssim.h\<close>): decoding, the multiplication
  routine and the execution of one instruction.

  \<open>OneInstruction\<close> is one function with a switch of fifty cases in the source. Here each run of cases is a definition of its own, in
  the order of the source, and \<open>execute\<close> is the switch. An arm of the switch either leaves the routine early, after an
  exception (\<open>Stop\<close>), or falls out of the switch (\<open>Go\<close>) with the next program counter and the delayed load. \<open>>>\<close>
  on a C \<open>int\<close> is the arithmetic shift \<open>signed_drop_bit\<close>. The division the host traps on is \<open>ArithmeticTrap\<close>.
\<close>

section \<open>Decoding\<close>

type_synonym opcode = nat

definition OP_ADD :: opcode where "OP_ADD = 1"
definition OP_ADDI :: opcode where "OP_ADDI = 2"
definition OP_ADDIU :: opcode where "OP_ADDIU = 3"
definition OP_ADDU :: opcode where "OP_ADDU = 4"
definition OP_AND :: opcode where "OP_AND = 5"
definition OP_ANDI :: opcode where "OP_ANDI = 6"
definition OP_BEQ :: opcode where "OP_BEQ = 7"
definition OP_BGEZ :: opcode where "OP_BGEZ = 8"
definition OP_BGEZAL :: opcode where "OP_BGEZAL = 9"
definition OP_BGTZ :: opcode where "OP_BGTZ = 10"
definition OP_BLEZ :: opcode where "OP_BLEZ = 11"
definition OP_BLTZ :: opcode where "OP_BLTZ = 12"
definition OP_BLTZAL :: opcode where "OP_BLTZAL = 13"
definition OP_BNE :: opcode where "OP_BNE = 14"
definition OP_DIV :: opcode where "OP_DIV = 16"
definition OP_DIVU :: opcode where "OP_DIVU = 17"
definition OP_J :: opcode where "OP_J = 18"
definition OP_JAL :: opcode where "OP_JAL = 19"
definition OP_JALR :: opcode where "OP_JALR = 20"
definition OP_JR :: opcode where "OP_JR = 21"
definition OP_LB :: opcode where "OP_LB = 22"
definition OP_LBU :: opcode where "OP_LBU = 23"
definition OP_LH :: opcode where "OP_LH = 24"
definition OP_LHU :: opcode where "OP_LHU = 25"
definition OP_LUI :: opcode where "OP_LUI = 26"
definition OP_LW :: opcode where "OP_LW = 27"
definition OP_LWL :: opcode where "OP_LWL = 28"
definition OP_LWR :: opcode where "OP_LWR = 29"
definition OP_MFHI :: opcode where "OP_MFHI = 31"
definition OP_MFLO :: opcode where "OP_MFLO = 32"
definition OP_MTHI :: opcode where "OP_MTHI = 34"
definition OP_MTLO :: opcode where "OP_MTLO = 35"
definition OP_MULT :: opcode where "OP_MULT = 36"
definition OP_MULTU :: opcode where "OP_MULTU = 37"
definition OP_NOR :: opcode where "OP_NOR = 38"
definition OP_OR :: opcode where "OP_OR = 39"
definition OP_ORI :: opcode where "OP_ORI = 40"
definition OP_RFE :: opcode where "OP_RFE = 41"
definition OP_SB :: opcode where "OP_SB = 42"
definition OP_SH :: opcode where "OP_SH = 43"
definition OP_SLL :: opcode where "OP_SLL = 44"
definition OP_SLLV :: opcode where "OP_SLLV = 45"
definition OP_SLT :: opcode where "OP_SLT = 46"
definition OP_SLTI :: opcode where "OP_SLTI = 47"
definition OP_SLTIU :: opcode where "OP_SLTIU = 48"
definition OP_SLTU :: opcode where "OP_SLTU = 49"
definition OP_SRA :: opcode where "OP_SRA = 50"
definition OP_SRAV :: opcode where "OP_SRAV = 51"
definition OP_SRL :: opcode where "OP_SRL = 52"
definition OP_SRLV :: opcode where "OP_SRLV = 53"
definition OP_SUB :: opcode where "OP_SUB = 54"
definition OP_SUBU :: opcode where "OP_SUBU = 55"
definition OP_SW :: opcode where "OP_SW = 56"
definition OP_SWL :: opcode where "OP_SWL = 57"
definition OP_SWR :: opcode where "OP_SWR = 58"
definition OP_XOR :: opcode where "OP_XOR = 59"
definition OP_XORI :: opcode where "OP_XORI = 60"
definition OP_SYSCALL :: opcode where "OP_SYSCALL = 61"
definition OP_UNIMP :: opcode where "OP_UNIMP = 62"
definition OP_RES :: opcode where "OP_RES = 63"
definition SPECIAL :: opcode where "SPECIAL = 100"
definition BCOND :: opcode where "BCOND = 101"

lemmas op_codes [simp] = OP_ADD_def OP_ADDI_def OP_ADDIU_def OP_ADDU_def OP_AND_def OP_ANDI_def OP_BEQ_def OP_BGEZ_def
   OP_BGEZAL_def OP_BGTZ_def OP_BLEZ_def OP_BLTZ_def OP_BLTZAL_def OP_BNE_def OP_DIV_def OP_DIVU_def
   OP_J_def OP_JAL_def OP_JALR_def OP_JR_def OP_LB_def OP_LBU_def OP_LH_def OP_LHU_def
   OP_LUI_def OP_LW_def OP_LWL_def OP_LWR_def OP_MFHI_def OP_MFLO_def OP_MTHI_def OP_MTLO_def
   OP_MULT_def OP_MULTU_def OP_NOR_def OP_OR_def OP_ORI_def OP_RFE_def OP_SB_def OP_SH_def
   OP_SLL_def OP_SLLV_def OP_SLT_def OP_SLTI_def OP_SLTIU_def OP_SLTU_def OP_SRA_def OP_SRAV_def
   OP_SRL_def OP_SRLV_def OP_SUB_def OP_SUBU_def OP_SW_def OP_SWL_def OP_SWR_def OP_XOR_def
   OP_XORI_def OP_SYSCALL_def OP_UNIMP_def OP_RES_def SPECIAL_def BCOND_def

datatype format = IFMT | JFMT | RFMT

definition opTable :: "(opcode \<times> format) list" where
  "opTable = [
   (SPECIAL, RFMT), (BCOND, IFMT), (OP_J, JFMT), (OP_JAL, JFMT),
   (OP_BEQ, IFMT), (OP_BNE, IFMT), (OP_BLEZ, IFMT), (OP_BGTZ, IFMT),
   (OP_ADDI, IFMT), (OP_ADDIU, IFMT), (OP_SLTI, IFMT), (OP_SLTIU, IFMT),
   (OP_ANDI, IFMT), (OP_ORI, IFMT), (OP_XORI, IFMT), (OP_LUI, IFMT),
   (OP_UNIMP, IFMT), (OP_UNIMP, IFMT), (OP_UNIMP, IFMT), (OP_UNIMP, IFMT),
   (OP_RES, IFMT), (OP_RES, IFMT), (OP_RES, IFMT), (OP_RES, IFMT),
   (OP_RES, IFMT), (OP_RES, IFMT), (OP_RES, IFMT), (OP_RES, IFMT),
   (OP_RES, IFMT), (OP_RES, IFMT), (OP_RES, IFMT), (OP_RES, IFMT),
   (OP_LB, IFMT), (OP_LH, IFMT), (OP_LWL, IFMT), (OP_LW, IFMT),
   (OP_LBU, IFMT), (OP_LHU, IFMT), (OP_LWR, IFMT), (OP_RES, IFMT),
   (OP_SB, IFMT), (OP_SH, IFMT), (OP_SWL, IFMT), (OP_SW, IFMT),
   (OP_RES, IFMT), (OP_RES, IFMT), (OP_SWR, IFMT), (OP_RES, IFMT),
   (OP_UNIMP, IFMT), (OP_UNIMP, IFMT), (OP_UNIMP, IFMT), (OP_UNIMP, IFMT),
   (OP_RES, IFMT), (OP_RES, IFMT), (OP_RES, IFMT), (OP_RES, IFMT),
   (OP_UNIMP, IFMT), (OP_UNIMP, IFMT), (OP_UNIMP, IFMT), (OP_UNIMP, IFMT),
   (OP_RES, IFMT), (OP_RES, IFMT), (OP_RES, IFMT), (OP_RES, IFMT)]"

definition specialTable :: "opcode list" where
  "specialTable = [
   OP_SLL, OP_RES, OP_SRL, OP_SRA, OP_SLLV, OP_RES, OP_SRLV, OP_SRAV,
   OP_JR, OP_JALR, OP_RES, OP_RES, OP_SYSCALL, OP_UNIMP, OP_RES, OP_RES,
   OP_MFHI, OP_MTHI, OP_MFLO, OP_MTLO, OP_RES, OP_RES, OP_RES, OP_RES,
   OP_MULT, OP_MULTU, OP_DIV, OP_DIVU, OP_RES, OP_RES, OP_RES, OP_RES,
   OP_ADD, OP_ADDU, OP_SUB, OP_SUBU, OP_AND, OP_OR, OP_XOR, OP_NOR,
   OP_RES, OP_RES, OP_SLT, OP_SLTU, OP_RES, OP_RES, OP_RES, OP_RES,
   OP_RES, OP_RES, OP_RES, OP_RES, OP_RES, OP_RES, OP_RES, OP_RES,
   OP_RES, OP_RES, OP_RES, OP_RES, OP_RES, OP_RES, OP_RES, OP_RES]"

record Instruction =
  ivalue :: "32 word"
  opCode :: opcode
  rs :: nat
  rt :: nat
  rd :: nat
  extra :: "32 word"

definition bcond_op :: "32 word \<Rightarrow> opcode" where
  "bcond_op v = (let i = v AND 0x1f0000 in
     if i = 0 then OP_BLTZ else if i = 0x10000 then OP_BGEZ else if i = 0x100000 then OP_BLTZAL
     else if i = 0x110000 then OP_BGEZAL else OP_UNIMP)"

definition Decode :: "32 word \<Rightarrow> Instruction" where
  "Decode v =
     (let opPtr = opTable ! unat (drop_bit 26 v AND 0x3f);
          op = fst opPtr;
          ex = (if snd opPtr = IFMT
                then let e = v AND 0xffff in if e AND 0x8000 \<noteq> 0 then e OR 0xffff0000 else e
                else if snd opPtr = RFMT then drop_bit 6 v AND 0x1f
                else v AND 0x3ffffff);
          op = (if op = SPECIAL then specialTable ! unat (v AND 0x3f)
                else if op = BCOND then bcond_op v else op)
      in \<lparr>ivalue = v, opCode = op, rs = unat (drop_bit 21 v AND 0x1f), rt = unat (drop_bit 16 v AND 0x1f),
          rd = unat (drop_bit 11 v AND 0x1f), extra = ex\<rparr>)"

section \<open>Multiplication\<close>

function Mult_loop :: "nat \<Rightarrow> 32 word \<Rightarrow> 32 word \<Rightarrow> 32 word \<Rightarrow> 32 word \<Rightarrow> 32 word \<Rightarrow> 32 word \<times> 32 word" where
  "Mult_loop i a bLo bHi lo hi =
     (if i < 32
      then
        let odd = (a AND 1 \<noteq> 0);
            lo' = (if odd then lo + bLo else lo);
            hi' = (if odd then (if lo' < bLo then hi + 1 else hi) + bHi else hi)
        in if odd \<and> a AND 0xfffffffe = 0 then (hi', lo')
           else
             let bHi' = push_bit 1 bHi;
                 bHi' = (if bLo AND 0x80000000 \<noteq> 0 then bHi' OR 1 else bHi')
             in Mult_loop (i + 1) (signed_drop_bit 1 a) (push_bit 1 bLo) bHi' lo' hi'
      else (hi, lo))"
  by pat_completeness auto
termination by (relation "measure (\<lambda>(i, a, bLo, bHi, lo, hi). 32 - i)") auto

declare Mult_loop.simps [simp del]

definition Mult :: "32 word \<Rightarrow> 32 word \<Rightarrow> bool \<Rightarrow> 32 word \<times> 32 word" where
  "Mult a b signedArith =
     (if a = 0 \<or> b = 0 then (0, 0)
      else
        let negative = False;
            (negative, a) = (if signedArith \<and> a <s 0 then (\<not> negative, - a) else (negative, a));
            (negative, b) = (if signedArith \<and> b <s 0 then (\<not> negative, - b) else (negative, b));
            (hi, lo) = Mult_loop 0 a b 0 0 0
        in if negative
           then let hi = NOT hi; lo = NOT lo; lo = lo + 1 in (if lo = 0 then hi + 1 else hi, lo)
           else (hi, lo))"

section \<open>One instruction\<close>

datatype 's exec = Stop 's | Go 's "32 word" "32 word" "32 word"

type_synonym 'm arm = "'m trap \<Rightarrow> Instruction \<Rightarrow> 32 word \<Rightarrow> 'm Machine_scheme \<Rightarrow> 'm Machine_scheme exec res option"

definition SIGN_BIT :: "32 word" where "SIGN_BIT = 0x80000000"

definition IndexToAddr :: "32 word \<Rightarrow> 32 word" where "IndexToAddr x = push_bit 2 x"

definition go :: "'m Machine_scheme \<Rightarrow> 32 word \<Rightarrow> 'm Machine_scheme exec res option" where
  "go m pcAfter = Some (Inr (Go m pcAfter 0 0))"

definition raise :: "'m trap \<Rightarrow> ExceptionType \<Rightarrow> 32 word \<Rightarrow> 'm Machine_scheme \<Rightarrow> 'm Machine_scheme exec res option" where
  "raise trap which addr m = bindO (RaiseException trap which addr m) (\<lambda>m. Some (Inr (Stop m)))"

definition exec_add :: "'m arm" where
  "exec_add trap i pcAfter m =
     (if opCode i = OP_ADD then (let sum = reg (rs i) m + reg (rt i) m in
          if (reg (rs i) m XOR reg (rt i) m) AND SIGN_BIT = 0 \<and> (reg (rs i) m XOR sum) AND SIGN_BIT \<noteq> 0
          then raise trap OverflowException 0 m
          else go (set_reg (rd i) sum m) pcAfter)
      else if opCode i = OP_ADDI then (let sum = reg (rs i) m + extra i in
          if (reg (rs i) m XOR extra i) AND SIGN_BIT = 0 \<and> (extra i XOR sum) AND SIGN_BIT \<noteq> 0
          then raise trap OverflowException 0 m
          else go (set_reg (rt i) sum m) pcAfter)
      else if opCode i = OP_ADDIU then (go (set_reg (rt i) (reg (rs i) m + extra i) m) pcAfter)
      else if opCode i = OP_ADDU then (go (set_reg (rd i) (reg (rs i) m + reg (rt i) m) m) pcAfter)
      else if opCode i = OP_AND then (go (set_reg (rd i) (reg (rs i) m AND reg (rt i) m) m) pcAfter)
      else if opCode i = OP_ANDI then (go (set_reg (rt i) (reg (rs i) m AND (extra i AND 0xffff)) m) pcAfter)
      else Some (Inl AssertFail))"

definition exec_branch :: "'m arm" where
  "exec_branch trap i pcAfter m =
     (let target = (\<lambda>m. reg NextPCReg m + IndexToAddr (extra i));
          link = set_reg 31 (reg NextPCReg m + 4) m
      in if opCode i = OP_BEQ then (go m (if reg (rs i) m = reg (rt i) m then target m else pcAfter))
      else if opCode i = OP_BGEZAL then (go link (if reg (rs i) link AND SIGN_BIT = 0 then target link else pcAfter))
      else if opCode i = OP_BGEZ then (go m (if reg (rs i) m AND SIGN_BIT = 0 then target m else pcAfter))
      else if opCode i = OP_BGTZ then (go m (if 0 <s reg (rs i) m then target m else pcAfter))
      else if opCode i = OP_BLEZ then (go m (if reg (rs i) m \<le>s 0 then target m else pcAfter))
      else if opCode i = OP_BLTZAL then (go link (if reg (rs i) link AND SIGN_BIT \<noteq> 0 then target link else pcAfter))
      else if opCode i = OP_BLTZ then (go m (if reg (rs i) m AND SIGN_BIT \<noteq> 0 then target m else pcAfter))
      else if opCode i = OP_BNE then (go m (if reg (rs i) m \<noteq> reg (rt i) m then target m else pcAfter))
      else Some (Inl AssertFail))"

definition exec_div :: "'m arm" where
  "exec_div trap i pcAfter m =
     (let a = reg (rs i) m; b = reg (rt i) m in
      if opCode i = OP_DIV then (if b = 0 then go (set_reg HiReg 0 (set_reg LoReg 0 m)) pcAfter
          else if a = SIGN_BIT \<and> b = - 1 then Some (Inl ArithmeticTrap)
          else go (set_reg HiReg (word_of_int (sint a smod sint b)) (set_reg LoReg (word_of_int (sint a sdiv sint b)) m)) pcAfter)
      else if opCode i = OP_DIVU then (if b = 0 then go (set_reg HiReg 0 (set_reg LoReg 0 m)) pcAfter
          else go (set_reg HiReg (a mod b) (set_reg LoReg (a div b) m)) pcAfter)
      else Some (Inl AssertFail))"

definition exec_jump :: "'m arm" where
  "exec_jump trap i pcAfter m =
     (let target = (pcAfter AND 0xf0000000) OR IndexToAddr (extra i) in
      if opCode i = OP_JAL then (go (set_reg 31 (reg NextPCReg m + 4) m) target)
      else if opCode i = OP_J then (go m target)
      else if opCode i = OP_JALR then ((let m = set_reg (rd i) (reg NextPCReg m + 4) m in go m (reg (rs i) m)))
      else if opCode i = OP_JR then (go m (reg (rs i) m))
      else Some (Inl AssertFail))"

definition fetch :: "'m trap \<Rightarrow> 32 word \<Rightarrow> nat \<Rightarrow> 'm Machine_scheme \<Rightarrow>
    (32 word \<Rightarrow> 'm Machine_scheme \<Rightarrow> 'm Machine_scheme exec res option) \<Rightarrow> 'm Machine_scheme exec res option" where
  "fetch trap addr sz m k = bindO (ReadMem trap addr sz m) (\<lambda>(r, m).
     case r of None \<Rightarrow> Some (Inr (Stop m)) | Some v \<Rightarrow> k v m)"

definition exec_load :: "'m arm" where
  "exec_load trap i pcAfter m =
     (let tmp = reg (rs i) m + extra i; dest = of_nat (rt i) in
      if opCode i = OP_LB \<or> opCode i = OP_LBU then
        fetch trap tmp 1 m (\<lambda>v m. Some (Inr (Go m pcAfter dest
          (if v AND 0x80 \<noteq> 0 \<and> opCode i = OP_LB then v OR 0xffffff00 else v AND 0xff))))
      else if opCode i = OP_LH \<or> opCode i = OP_LHU then
        if tmp AND 1 \<noteq> 0 then raise trap AddressErrorException tmp m
        else fetch trap tmp 2 m (\<lambda>v m. Some (Inr (Go m pcAfter dest
          (if v AND 0x8000 \<noteq> 0 \<and> opCode i = OP_LH then v OR 0xffff0000 else v AND 0xffff))))
      else if opCode i = OP_LUI then go (set_reg (rt i) (push_bit 16 (extra i)) m) pcAfter
      else if opCode i = OP_LW then
        if tmp AND 3 \<noteq> 0 then raise trap AddressErrorException tmp m
        else fetch trap tmp 4 m (\<lambda>v m. Some (Inr (Go m pcAfter dest v)))
      else Some (Inl AssertFail))"

definition old_load :: "Instruction \<Rightarrow> 'm Machine_scheme \<Rightarrow> 32 word" where
  "old_load i m = (if reg LoadReg m = of_nat (rt i) then reg LoadValueReg m else reg (rt i) m)"

definition exec_load_unaligned :: "'m arm" where
  "exec_load_unaligned trap i pcAfter m =
     (let tmp = reg (rs i) m + extra i; dest = of_nat (rt i) in
      if opCode i = OP_LWL then
        bindO (Some (assertR (tmp AND 3 = 0))) (\<lambda>_.
        fetch trap tmp 4 m (\<lambda>v m.
          let nextLoadValue = old_load i m;
              nextLoadValue =
                (if tmp AND 3 = 0 then v
                 else if tmp AND 3 = 1 then (nextLoadValue AND 0xff) OR push_bit 8 v
                 else if tmp AND 3 = 2 then (nextLoadValue AND 0xffff) OR push_bit 16 v
                 else (nextLoadValue AND 0xffffff) OR push_bit 24 v)
          in Some (Inr (Go m pcAfter dest nextLoadValue))))
      else if opCode i = OP_LWR then
        bindO (Some (assertR (tmp AND 3 = 0))) (\<lambda>_.
        fetch trap tmp 4 m (\<lambda>v m.
          let nextLoadValue = old_load i m;
              nextLoadValue =
                (if tmp AND 3 = 0 then (nextLoadValue AND 0xffffff00) OR (signed_drop_bit 24 v AND 0xff)
                 else if tmp AND 3 = 1 then (nextLoadValue AND 0xffff0000) OR (signed_drop_bit 16 v AND 0xffff)
                 else if tmp AND 3 = 2 then (nextLoadValue AND 0xff000000) OR (signed_drop_bit 8 v AND 0xffffff)
                 else v)
          in Some (Inr (Go m pcAfter dest nextLoadValue))))
      else Some (Inl AssertFail))"

definition exec_hilo :: "'m arm" where
  "exec_hilo trap i pcAfter m =
     (let mult = (\<lambda>sg. let (hi, lo) = Mult (reg (rs i) m) (reg (rt i) m) sg
                       in go (set_reg LoReg lo (set_reg HiReg hi m)) pcAfter)
      in if opCode i = OP_MFHI then (go (set_reg (rd i) (reg HiReg m) m) pcAfter)
      else if opCode i = OP_MFLO then (go (set_reg (rd i) (reg LoReg m) m) pcAfter)
      else if opCode i = OP_MTHI then (go (set_reg HiReg (reg (rs i) m) m) pcAfter)
      else if opCode i = OP_MTLO then (go (set_reg LoReg (reg (rs i) m) m) pcAfter)
      else if opCode i = OP_MULT then (mult True)
      else if opCode i = OP_MULTU then (mult False)
      else Some (Inl AssertFail))"

definition exec_or :: "'m arm" where
  "exec_or trap i pcAfter m =
     (if opCode i = OP_NOR then (go (set_reg (rd i) (NOT (reg (rs i) m OR reg (rt i) m)) m) pcAfter)
      else if opCode i = OP_OR then (go (set_reg (rd i) (reg (rs i) m OR reg (rs i) m) m) pcAfter)
      else if opCode i = OP_ORI then (go (set_reg (rt i) (reg (rs i) m OR (extra i AND 0xffff)) m) pcAfter)
      else Some (Inl AssertFail))"

definition put :: "'m trap \<Rightarrow> 32 word \<Rightarrow> nat \<Rightarrow> 32 word \<Rightarrow> 32 word \<Rightarrow> 'm Machine_scheme \<Rightarrow> 'm Machine_scheme exec res option" where
  "put trap addr sz v pcAfter m = bindO (WriteMem trap addr sz v m) (\<lambda>(ok, m).
     if ok then go m pcAfter else Some (Inr (Stop m)))"

definition exec_store :: "'m arm" where
  "exec_store trap i pcAfter m =
     (if opCode i = OP_SB then (put trap (reg (rs i) m + extra i) 1 (reg (rt i) m) pcAfter m)
      else if opCode i = OP_SH then (put trap (reg (rs i) m + extra i) 2 (reg (rt i) m) pcAfter m)
      else Some (Inl AssertFail))"

definition exec_shift :: "'m arm" where
  "exec_shift trap i pcAfter m =
     (let a = reg (rs i) m; b = reg (rt i) m; truth = (\<lambda>c. if c then 1 else 0 :: 32 word) in
      if opCode i = OP_SLL then (go (set_reg (rd i) (push_bit (unat (extra i)) b) m) pcAfter)
      else if opCode i = OP_SLLV then (go (set_reg (rd i) (push_bit (unat (a AND 0x1f)) b) m) pcAfter)
      else if opCode i = OP_SLT then (go (set_reg (rd i) (truth (a <s b)) m) pcAfter)
      else if opCode i = OP_SLTI then (go (set_reg (rt i) (truth (a <s extra i)) m) pcAfter)
      else if opCode i = OP_SLTIU then (go (set_reg (rt i) (truth (a < extra i)) m) pcAfter)
      else if opCode i = OP_SLTU then (go (set_reg (rd i) (truth (a < b)) m) pcAfter)
      else if opCode i = OP_SRA then (go (set_reg (rd i) (signed_drop_bit (unat (extra i)) b) m) pcAfter)
      else if opCode i = OP_SRAV then (go (set_reg (rd i) (signed_drop_bit (unat (a AND 0x1f)) b) m) pcAfter)
      else if opCode i = OP_SRL then (go (set_reg (rd i) (signed_drop_bit (unat (extra i)) b) m) pcAfter)
      else if opCode i = OP_SRLV then (go (set_reg (rd i) (signed_drop_bit (unat (a AND 0x1f)) b) m) pcAfter)
      else Some (Inl AssertFail))"

definition exec_sub :: "'m arm" where
  "exec_sub trap i pcAfter m =
     (if opCode i = OP_SUB then (let diff = reg (rs i) m - reg (rt i) m in
          if (reg (rs i) m XOR reg (rt i) m) AND SIGN_BIT \<noteq> 0 \<and> (reg (rs i) m XOR diff) AND SIGN_BIT \<noteq> 0
          then raise trap OverflowException 0 m
          else go (set_reg (rd i) diff m) pcAfter)
      else if opCode i = OP_SUBU then (go (set_reg (rd i) (reg (rs i) m - reg (rt i) m) m) pcAfter)
      else Some (Inl AssertFail))"

definition exec_store_word :: "'m arm" where
  "exec_store_word trap i pcAfter m =
     (let tmp = reg (rs i) m + extra i in
      if opCode i = OP_SW then put trap tmp 4 (reg (rt i) m) pcAfter m
      else if opCode i = OP_SWL then
        bindO (Some (assertR (tmp AND 3 = 0))) (\<lambda>_.
        fetch trap (tmp AND NOT 3) 4 m (\<lambda>v m.
          let v = (if tmp AND 3 = 0 then reg (rt i) m
                   else if tmp AND 3 = 1 then (v AND 0xff000000) OR (signed_drop_bit 8 (reg (rt i) m) AND 0xffffff)
                   else if tmp AND 3 = 2 then (v AND 0xffff0000) OR (signed_drop_bit 16 (reg (rt i) m) AND 0xffff)
                   else (v AND 0xffffff00) OR (signed_drop_bit 24 (reg (rt i) m) AND 0xff))
          in put trap (tmp AND NOT 3) 4 v pcAfter m))
      else if opCode i = OP_SWR then
        bindO (Some (assertR (tmp AND 3 = 0))) (\<lambda>_.
        fetch trap (tmp AND NOT 3) 4 m (\<lambda>v m.
          let v = (if tmp AND 3 = 0 then (v AND 0xffffff) OR push_bit 24 (reg (rt i) m)
                   else if tmp AND 3 = 1 then (v AND 0xffff) OR push_bit 16 (reg (rt i) m)
                   else if tmp AND 3 = 2 then (v AND 0xff) OR push_bit 8 (reg (rt i) m)
                   else reg (rt i) m)
          in put trap (tmp AND NOT 3) 4 v pcAfter m))
      else Some (Inl AssertFail))"

definition exec_other :: "'m arm" where
  "exec_other trap i pcAfter m =
     (if opCode i = OP_SYSCALL then (raise trap SyscallException 0 m)
      else if opCode i = OP_XOR then (go (set_reg (rd i) (reg (rs i) m XOR reg (rt i) m) m) pcAfter)
      else if opCode i = OP_XORI then (go (set_reg (rt i) (reg (rs i) m XOR (extra i AND 0xffff)) m) pcAfter)
      else if opCode i = OP_RES then (raise trap IllegalInstrException 0 m)
      else if opCode i = OP_UNIMP then (raise trap IllegalInstrException 0 m)
      else Some (Inl AssertFail))"

definition execute :: "'m arm" where
  "execute trap i pcAfter m =
     (if opCode i \<in> set [OP_ADD, OP_ADDI, OP_ADDIU, OP_ADDU, OP_AND, OP_ANDI] then exec_add trap i pcAfter m
      else if opCode i \<in> set [OP_BEQ, OP_BGEZAL, OP_BGEZ, OP_BGTZ, OP_BLEZ, OP_BLTZAL, OP_BLTZ, OP_BNE]
        then exec_branch trap i pcAfter m
      else if opCode i \<in> set [OP_DIV, OP_DIVU] then exec_div trap i pcAfter m
      else if opCode i \<in> set [OP_JAL, OP_J, OP_JALR, OP_JR] then exec_jump trap i pcAfter m
      else if opCode i \<in> set [OP_LB, OP_LBU, OP_LH, OP_LHU, OP_LUI, OP_LW] then exec_load trap i pcAfter m
      else if opCode i \<in> set [OP_LWL, OP_LWR] then exec_load_unaligned trap i pcAfter m
      else if opCode i \<in> set [OP_MFHI, OP_MFLO, OP_MTHI, OP_MTLO, OP_MULT, OP_MULTU] then exec_hilo trap i pcAfter m
      else if opCode i \<in> set [OP_NOR, OP_OR, OP_ORI] then exec_or trap i pcAfter m
      else if opCode i \<in> set [OP_SB, OP_SH] then exec_store trap i pcAfter m
      else if opCode i \<in> set [OP_SLL, OP_SLLV, OP_SLT, OP_SLTI, OP_SLTIU, OP_SLTU, OP_SRA, OP_SRAV, OP_SRL, OP_SRLV]
        then exec_shift trap i pcAfter m
      else if opCode i \<in> set [OP_SUB, OP_SUBU] then exec_sub trap i pcAfter m
      else if opCode i \<in> set [OP_SW, OP_SWL, OP_SWR] then exec_store_word trap i pcAfter m
      else exec_other trap i pcAfter m)"

text \<open>The end of the routine: the delayed load and the program counters.\<close>

definition commit :: "32 word \<Rightarrow> 32 word \<Rightarrow> 32 word \<Rightarrow> 'm Machine_scheme \<Rightarrow> 'm Machine_scheme res option" where
  "commit pcAfter nextLoadReg nextLoadValue m =
     bindO (Some (DelayedLoad nextLoadReg nextLoadValue m)) (\<lambda>m.
       let m = set_reg PrevPCReg (reg PCReg m) m;
           m = set_reg PCReg (reg NextPCReg m) m
       in Some (Inr (set_reg NextPCReg pcAfter m)))"

definition finish :: "'m Machine_scheme exec \<Rightarrow> 'm Machine_scheme res option" where
  "finish x = (case x of
     Stop m \<Rightarrow> Some (Inr m)
   | Go m pcAfter nextLoadReg nextLoadValue \<Rightarrow> commit pcAfter nextLoadReg nextLoadValue m)"

definition OneInstruction :: "'m trap \<Rightarrow> 'm Machine_scheme \<Rightarrow> 'm Machine_scheme res option" where
  "OneInstruction trap m =
     bindO (ReadMem trap (reg PCReg m) 4 m) (\<lambda>(r, m).
       case r of
         None \<Rightarrow> Some (Inr m)
       | Some raw \<Rightarrow> bindO (execute trap (Decode raw) (reg NextPCReg m + 4) m) finish)"

section \<open>Correctness of the multiplication\<close>

definition val64 :: "32 word \<Rightarrow> 32 word \<Rightarrow> nat" where
  "val64 hi lo = unat hi * 2 ^ 32 + unat lo"

lemma unat32_less: "unat (w::32 word) < 4294967296"
  using unsigned_less [of w] by simp

lemma add_carry:
  "unat ((a::32 word) + b) = (if a + b < b then unat a + unat b - 2 ^ 32 else unat a + unat b)"
  "a + b < b \<longleftrightarrow> 2 ^ 32 \<le> unat a + unat b"
proof -
  have l: "unat a < 4294967296" "unat b < 4294967296" by (rule unat32_less)+
  have s: "unat (a + b) = (if 4294967296 \<le> unat a + unat b then unat a + unat b - 4294967296 else unat a + unat b)"
    using l by (auto simp: unat_word_ariths mod_if)
  then show iff: "a + b < b \<longleftrightarrow> 2 ^ 32 \<le> unat a + unat b"
    using l by (auto simp: word_less_nat_alt)
  show "unat (a + b) = (if a + b < b then unat a + unat b - 2 ^ 32 else unat a + unat b)"
    using s iff by simp
qed

lemma unat_add_exact: "unat (a::32 word) + unat b < 2 ^ 32 \<Longrightarrow> unat (a + b) = unat a + unat b"
  by (simp add: unat_word_ariths)

lemma val64_add:
  assumes "val64 hi lo + val64 bHi bLo < 2 ^ 64"
  shows "val64 ((if lo + bLo < bLo then hi + 1 else hi) + bHi) (lo + bLo) = val64 hi lo + val64 bHi bLo"
proof (cases "lo + bLo < bLo")
  case True
  then have c: "2 ^ 32 \<le> unat lo + unat bLo" by (simp add: add_carry(2))
  have sum: "unat hi + unat bHi + 1 < 2 ^ 32" using assms c by (simp add: val64_def)
  then have "unat (hi + 1) = unat hi + 1" by (subst unat_add_exact) simp_all
  then have "unat (hi + 1 + bHi) = unat hi + 1 + unat bHi" using sum by (subst unat_add_exact) simp_all
  then show ?thesis using True c by (simp add: val64_def add_carry(1))
next
  case False
  have "unat (hi + bHi) = unat hi + unat bHi" using assms by (intro unat_add_exact) (simp add: val64_def)
  moreover have "unat (lo + bLo) = unat lo + unat bLo" using False by (simp add: add_carry(1))
  ultimately show ?thesis using False by (simp add: val64_def)
qed

lemma and_top: "(b::32 word) AND 0x80000000 \<noteq> 0 \<longleftrightarrow> bit b 31"
proof -
  have "(0x80000000::32 word) = push_bit 31 1" by simp
  then show ?thesis by (simp only: and_exp_eq_0_iff_not_bit push_bit_of_1) auto
qed

lemma top_bit: "(b::32 word) AND 0x80000000 \<noteq> 0 \<longleftrightarrow> 2 ^ 31 \<le> unat b"
proof -
  have "b AND 0x80000000 \<noteq> 0 \<longleftrightarrow> bit b 31" by (rule and_top)
  also have "\<dots> \<longleftrightarrow> 2 ^ 31 \<le> unat b"
  proof -
    have "bit b 31 \<longleftrightarrow> odd (unat b div 2 ^ 31)"
      by (simp add: bit_iff_odd [symmetric] bit_unsigned_iff del: power_numeral)
    moreover have "unat b div 2 ^ 31 = (if 2 ^ 31 \<le> unat b then 1 else 0)"
      using unat32_less [of b] by (auto intro: div_nat_eqI)
    ultimately show ?thesis by simp
  qed
  finally show ?thesis .
qed

lemma val64_shift:
  assumes "2 * val64 bHi bLo < 2 ^ 64"
  shows "val64 (if bLo AND 0x80000000 \<noteq> 0 then push_bit 1 bHi OR 1 else push_bit 1 bHi) (push_bit 1 bLo) = 2 * val64 bHi bLo"
proof -
  have hi: "unat (push_bit 1 bHi) = 2 * unat bHi"
    using assms by (simp add: val64_def push_bit_eq_mult unat_word_ariths)
  have "even (push_bit 1 bHi)" by simp
  then have or1: "push_bit 1 bHi OR 1 = push_bit 1 bHi + 1" by (simp add: or_one_eq)
  have "unat (push_bit 1 bHi + 1) = 2 * unat bHi + 1"
  proof -
    have "unat bHi < 2147483648" using assms by (simp add: val64_def)
    then show ?thesis using hi by (subst unat_add_exact) simp_all
  qed
  moreover have "unat (push_bit 1 bLo) = (if 2 ^ 31 \<le> unat bLo then 2 * unat bLo - 2 ^ 32 else 2 * unat bLo)"
    using unat32_less [of bLo] by (simp add: push_bit_eq_mult unat_word_ariths mod_if mult.commute)
  ultimately show ?thesis unfolding or1 val64_def top_bit using hi by simp
qed

lemma mod_step: "(A::nat) mod 2 ^ Suc i = A mod 2 ^ i + (if bit A i then 2 ^ i else 0)"
  using take_bit_Suc_from_most [of i A] by (simp add: take_bit_eq_mod)

lemma bit_shifted: "i < 32 \<Longrightarrow> bit (signed_drop_bit i (a::32 word)) 0 \<longleftrightarrow> bit (unat a) i"
  by (simp add: bit_signed_drop_bit_iff bit_unsigned_iff)

lemma last_bit:
  assumes "i < 32" and "signed_drop_bit i a AND 0xfffffffe = (0::32 word)"
  shows "unat a mod 2 ^ Suc i = unat a"
proof -
  have "\<not> bit (unat a) n" if n: "Suc i \<le> n" for n
  proof (cases "n < 32")
    case True
    have m: "(0xfffffffe::32 word) = NOT 1" by simp
    have "\<not> bit (signed_drop_bit i a AND NOT 1) (n - i)"
      using assms(2) unfolding m by simp
    moreover have "bit (NOT 1 :: 32 word) (n - i)" using n True by (simp add: bit_not_iff bit_1_iff)
    ultimately have "\<not> bit (signed_drop_bit i a) (n - i)" by (simp only: bit_and_iff simp_thms)
    then show ?thesis using n True by (simp add: bit_signed_drop_bit_iff bit_unsigned_iff split: if_splits)
  next
    case False
    then show ?thesis by (auto simp: bit_unsigned_iff dest: bit_imp_le_length)
  qed
  then have "take_bit (Suc i) (unat a) = unat a"
    by (intro bit_eqI) (metis bit_take_bit_iff not_less)
  then show ?thesis by (simp add: take_bit_eq_mod)
qed

lemma Mult_loop_correct:
  "i \<le> 32 \<Longrightarrow> a = signed_drop_bit i a0 \<Longrightarrow> val64 bHi bLo = unat (b::32 word) * 2 ^ i \<Longrightarrow>
   val64 hi lo = unat b * (unat a0 mod 2 ^ i) \<Longrightarrow>
   Mult_loop i a bLo bHi lo hi = (h, l) \<Longrightarrow> val64 h l = unat b * unat a0"
proof (induction i a bLo bHi lo hi rule: Mult_loop.induct)
  case (1 i a bLo bHi lo hi)
  note a = "1.prems"(2) and shifted = "1.prems"(3) and acc = "1.prems"(4) and result = "1.prems"(5)
  show ?case
  proof (cases "i < 32")
    case False
    then have "(h, l) = (hi, lo)" using result by (subst (asm) Mult_loop.simps) simp
    then show ?thesis using False "1.prems"(1) acc unat32_less [of a0] by simp
  next
    case True
    define odd where "odd \<longleftrightarrow> a AND 1 \<noteq> 0"
    define lo' where "lo' = (if odd then lo + bLo else lo)"
    define hi' where "hi' = (if odd then (if lo' < bLo then hi + 1 else hi) + bHi else hi)"
    define bHi' where "bHi' = (if bLo AND 0x80000000 \<noteq> 0 then push_bit 1 bHi OR 1 else push_bit 1 bHi)"
    have loop: "(h, l) = (if odd \<and> a AND 0xfffffffe = 0 then (hi', lo')
        else Mult_loop (i + 1) (signed_drop_bit 1 a) (push_bit 1 bLo) bHi' lo' hi')"
      unfolding result [symmetric]
      by (subst Mult_loop.simps) (simp only: True if_True Let_def odd_def lo'_def hi'_def bHi'_def)
    have bit_i: "odd \<longleftrightarrow> bit (unat a0) i"
      using True a by (simp add: odd_def bit_shifted [symmetric] bit_0 and_one_eq odd_iff_mod_2_eq_one)
    have le: "unat b * 2 ^ Suc i \<le> unat b * 2 ^ 32" using True by (intro mult_left_mono power_increasing) auto
    have small: "unat b * 2 ^ 32 < 2 ^ 64" "unat b * (unat a0 mod 2 ^ Suc i) < 2 ^ 64"
    proof -
      show "unat b * 2 ^ 32 < 2 ^ 64" using unat32_less [of b] by simp
      have "unat b * (unat a0 mod 2 ^ Suc i) \<le> unat b * 2 ^ 32"
      proof (rule mult_left_mono)
        show "unat a0 mod 2 ^ Suc i \<le> 2 ^ 32"
          by (rule order_trans [OF mod_less_eq_dividend]) (use unat32_less [of a0] in simp)
      qed simp
      then show "unat b * (unat a0 mod 2 ^ Suc i) < 2 ^ 64" using \<open>unat b * 2 ^ 32 < 2 ^ 64\<close> by linarith
    qed
    have acc': "val64 hi' lo' = unat b * (unat a0 mod 2 ^ Suc i)"
    proof (cases odd)
      case odd: True
      then have "val64 hi lo + val64 bHi bLo = unat b * (unat a0 mod 2 ^ Suc i)"
        using bit_i acc shifted mod_step [of "unat a0" i] by (simp add: distrib_left)
      then show ?thesis using odd small(2) by (simp add: hi'_def lo'_def val64_add)
    next
      case False
      then show ?thesis using bit_i acc mod_step [of "unat a0" i] by (simp add: hi'_def lo'_def)
    qed
    show ?thesis
    proof (cases "odd \<and> a AND 0xfffffffe = 0")
      case True
      then show ?thesis using loop acc' last_bit [of i a0] a \<open>i < 32\<close> by simp
    next
      case False
      have shifted': "val64 bHi' (push_bit 1 bLo) = unat b * 2 ^ (i + 1)"
      proof -
        have "2 * val64 bHi bLo = unat b * 2 ^ Suc i" unfolding shifted by simp
        moreover from this have "2 * val64 bHi bLo < 2 ^ 64" using le small(1) by linarith
        ultimately show ?thesis unfolding bHi'_def by (simp only: val64_shift Suc_eq_plus1)
      qed
      have "signed_drop_bit 1 a = signed_drop_bit (i + 1) a0"
        by (simp add: a signed_drop_bit_signed_drop_bit add.commute)
      then show ?thesis
        using "1.IH" [OF True odd_def lo'_def hi'_def False refl bHi'_def] loop False True shifted' acc' by simp
    qed
  qed
qed

lemma Mult_loop_product: "Mult_loop 0 a b 0 0 0 = (h, l) \<Longrightarrow> val64 h l = unat a * unat b"
  using Mult_loop_correct [of 0 a a 0 b b 0 0 h l] by (simp add: val64_def mult.commute)

lemma Mult_unsigned: "Mult a b False = (h, l) \<Longrightarrow> val64 h l = unat a * unat b"
  by (auto simp: Mult_def val64_def [of 0 0] split: if_splits prod.splits intro: Mult_loop_product)

lemma uint32: "0 \<le> uint (w::32 word)" "uint w < 4294967296" "int (unat w) = uint w"
  using uint_lt2p [of w] by simp_all

lemma sint32: "sint (w::32 word) = (if 2147483648 \<le> uint w then uint w - 4294967296 else uint w)"
proof -
  have b: "- 2147483648 \<le> sint w" "sint w < 2147483648" using sint_ge [of w] sint_lt [of w] by simp_all
  have "uint w = sint w mod 4294967296" using uint_sint [of w] by (simp add: take_bit_eq_mod)
  also have "\<dots> = (if 0 \<le> sint w then sint w else sint w + 4294967296)"
  proof (cases "0 \<le> sint w")
    case False
    then have "(sint w + 4294967296) mod 4294967296 = sint w + 4294967296" using b by (intro mod_pos_pos_trivial) linarith+
    then show ?thesis using False by simp
  qed (use b in simp)
  finally show ?thesis using b by (auto split: if_splits)
qed

lemma sless_zero: "(w::32 word) <s 0 \<longleftrightarrow> 2147483648 \<le> uint w"
  using uint32 [of w] by (simp add: word_sless_alt sint32)

lemma uint_neg: "(w::32 word) \<noteq> 0 \<Longrightarrow> uint (- w) = 4294967296 - uint w"
proof -
  assume "w \<noteq> 0"
  then have "0 < uint w" using uint32(1) [of w] by (metis order_le_less uint_0_iff)
  then have "(- uint w) mod 4294967296 = 4294967296 - uint w"
    using uint32(2) [of w] by (simp add: zmod_zminus1_eq_if)
  then show ?thesis by (simp add: uint_word_ariths)
qed

lemma uint_abs: "uint (if w <s 0 then - w else (w::32 word)) = \<bar>sint w\<bar>"
proof (cases "2147483648 \<le> uint w")
  case True
  then have "w \<noteq> 0" by auto
  then show ?thesis using True uint32(2) [of w] by (simp add: sless_zero sint32 uint_neg)
next
  case False
  then show ?thesis using uint32(1) [of w] by (simp add: sless_zero sint32)
qed

lemma uint_not: "uint (NOT (w::32 word)) = 4294967295 - uint w"
proof -
  have n: "NOT w = - (w + 1)" by (simp add: not_eq_complement)
  have u: "uint (w + 1) = (if uint w = 4294967295 then 0 else uint w + 1)"
    using uint32 [of w] by (simp add: uint_word_ariths mod_if)
  show ?thesis
  proof (cases "w + 1 = 0")
    case True
    then have "uint (w + 1) = 0" by simp
    moreover have "uint w + 1 \<noteq> 0" using uint32(1) [of w] by linarith
    ultimately have "uint w = 4294967295" using u by (simp split: if_splits)
    then show ?thesis unfolding n True by simp
  next
    case False
    then have "uint (w + 1) \<noteq> 0" by (simp add: uint_0_iff)
    then show ?thesis unfolding n uint_neg [OF False] using u by (simp split: if_splits)
  qed
qed

lemma uint64_neg:
  assumes "0 < uint hi * 4294967296 + uint lo" and "uint hi \<le> 1073741824"
  shows "sint (if NOT lo + 1 = 0 then NOT hi + 1 else NOT (hi::32 word)) * 4294967296 + uint (NOT (lo::32 word) + 1) =
    - (uint hi * 4294967296 + uint lo)"
proof -
  have lo: "uint (NOT lo + 1) = (if lo = 0 then 0 else 4294967296 - uint lo)"
    by (simp add: not_eq_complement uint_neg)
  have iff: "NOT lo + 1 = 0 \<longleftrightarrow> lo = 0" by (simp add: not_eq_complement)
  show ?thesis
  proof (cases "lo = 0")
    case True
    then have "hi \<noteq> 0" using assms(1) by auto
    then have "uint (NOT hi + 1) = 4294967296 - uint hi" by (simp add: not_eq_complement uint_neg)
    then have "sint (NOT hi + 1) = - uint hi" using assms(2) by (simp add: sint32)
    then show ?thesis using True iff lo by simp
  next
    case False
    have "sint (NOT hi) = - 1 - uint hi" using assms(2) by (simp add: sint32 uint_not)
    then show ?thesis using False iff lo by (simp add: algebra_simps)
  qed
qed

lemma Mult_signed:
  assumes "Mult a b True = (h, l)"
  shows "sint h * 2 ^ 32 + uint l = sint a * sint b"
proof (cases "a = 0 \<or> b = 0")
  case True
  then show ?thesis using assms by (auto simp: Mult_def)
next
  case False
  define a' where "a' = (if a <s 0 then - a else a)"
  define b' where "b' = (if b <s 0 then - b else b)"
  obtain hi lo where loop: "Mult_loop 0 a' b' 0 0 0 = (hi, lo)" by force
  let ?v = "\<bar>sint a\<bar> * \<bar>sint b\<bar>"
  have v: "uint hi * 4294967296 + uint lo = ?v"
  proof -
    have "int (val64 hi lo) = uint a' * uint b'" using Mult_loop_product [OF loop] by simp
    then show ?thesis by (simp add: val64_def a'_def b'_def uint_abs)
  qed
  have nz: "sint a \<noteq> 0" "sint b \<noteq> 0" using False by (simp_all add: signed_eq_0_iff)
  have "\<bar>sint a\<bar> \<le> 2147483648" "\<bar>sint b\<bar> \<le> 2147483648"
    using sint_ge [of a] sint_lt [of a] sint_ge [of b] sint_lt [of b] by (simp_all add: abs_if)
  then have "?v \<le> 2147483648 * 2147483648" by (intro mult_mono) simp_all
  then have "uint hi \<le> 1073741824" using v uint32(1) [of lo] by linarith
  moreover have "0 < ?v" using nz by simp
  ultimately have hi: "uint hi \<le> 1073741824" "0 < ?v" .
  have "(h, l) = (if (a <s 0) \<noteq> (b <s 0) then (if NOT lo + 1 = 0 then NOT hi + 1 else NOT hi, NOT lo + 1) else (hi, lo))"
    unfolding assms [symmetric] using False loop
    by (cases "a <s 0"; cases "b <s 0") (simp_all add: Mult_def a'_def b'_def Let_def)
  moreover have "sint a * sint b = (if (a <s 0) \<noteq> (b <s 0) then - ?v else ?v)"
    by (auto simp: word_sless_alt abs_if)
  moreover have "sint hi * 4294967296 + uint lo = ?v" using hi v by (simp add: sint32)
  moreover have "sint (if NOT lo + 1 = 0 then NOT hi + 1 else NOT hi) * 4294967296 + uint (NOT lo + 1) = - ?v"
    using uint64_neg [of hi lo] v hi by simp
  ultimately show ?thesis by (auto split: if_splits)
qed

section \<open>Signed overflow\<close>

lemma sign_bit: "w AND SIGN_BIT \<noteq> 0 \<longleftrightarrow> sint w < 0"
proof -
  have "2147483648 \<le> unat w \<longleftrightarrow> int 2147483648 \<le> int (unat w)" by (simp only: of_nat_le_iff)
  then have "2147483648 \<le> unat w \<longleftrightarrow> 2147483648 \<le> uint w" by (simp only: uint32(3) of_nat_numeral)
  moreover have "w AND SIGN_BIT \<noteq> 0 \<longleftrightarrow> 2147483648 \<le> unat w"
    using top_bit [of w] by (simp add: SIGN_BIT_def)
  moreover have "sint w < 0 \<longleftrightarrow> 2147483648 \<le> uint w" using sless_zero [of w] by (simp add: word_sless_alt)
  ultimately show ?thesis by simp
qed

lemma sign_xor: "(a XOR b) AND SIGN_BIT = 0 \<longleftrightarrow> (sint a < 0) = (sint b < 0)"
proof -
  have "(a XOR b) AND SIGN_BIT = 0 \<longleftrightarrow> (a AND SIGN_BIT \<noteq> 0) = (b AND SIGN_BIT \<noteq> 0)"
    using and_top [of "a XOR b"] and_top [of a] and_top [of b] unfolding SIGN_BIT_def bit_xor_iff by blast
  then show ?thesis by (simp only: sign_bit)
qed

lemma mod32_cases:
  assumes "- 4294967296 \<le> t" and "t < 8589934592"
  shows "(t::int) mod 4294967296 = (if t < 0 then t + 4294967296 else if t < 4294967296 then t else t - 4294967296)"
proof -
  have "(t + 4294967296) mod 4294967296 = t + 4294967296" if "t < 0"
    using assms that by (intro mod_pos_pos_trivial) linarith+
  moreover have "(t - 4294967296) mod 4294967296 = t - 4294967296" if "4294967296 \<le> t"
    using assms that by (intro mod_pos_pos_trivial) linarith+
  ultimately show ?thesis by (auto simp: mod_pos_pos_trivial)
qed

text \<open>The wrap-around of a signed sum and difference.\<close>

definition wrap_sint :: "int \<Rightarrow> int" where
  "wrap_sint t = (if 2147483648 \<le> t then t - 4294967296 else if t < - 2147483648 then t + 4294967296 else t)"

definition signed_of :: "int \<Rightarrow> int" where
  "signed_of x = (if 2147483648 \<le> x then x - 4294967296 else x)"

lemma sint_signed_of: "sint (w::32 word) = signed_of (uint w)"
  unfolding signed_of_def by (rule sint32)

lemma wrap_add:
  "0 \<le> x \<Longrightarrow> x < 4294967296 \<Longrightarrow> 0 \<le> y \<Longrightarrow> y < 4294967296 \<Longrightarrow>
   signed_of ((x + y) mod 4294967296) = wrap_sint (signed_of x + signed_of y)"
  using mod32_cases [of "x + y"] by (auto simp: signed_of_def wrap_sint_def)

lemma wrap_sub:
  "0 \<le> x \<Longrightarrow> x < 4294967296 \<Longrightarrow> 0 \<le> y \<Longrightarrow> y < 4294967296 \<Longrightarrow>
   signed_of ((x - y) mod 4294967296) = wrap_sint (signed_of x - signed_of y)"
  using mod32_cases [of "x - y"] by (auto simp: signed_of_def wrap_sint_def)

lemma sint_add32: "sint ((a::32 word) + b) = wrap_sint (sint a + sint b)"
  unfolding sint_signed_of uint_word_ariths using wrap_add [OF uint32(1,2) uint32(1,2)] by simp

lemma sint_sub32: "sint ((a::32 word) - b) = wrap_sint (sint a - sint b)"
  unfolding sint_signed_of uint_word_ariths using wrap_sub [OF uint32(1,2) uint32(1,2)] by simp

definition in_range :: "int \<Rightarrow> bool" where "in_range t \<longleftrightarrow> - 2147483648 \<le> t \<and> t < 2147483648"

lemma sint_range: "in_range (sint (w::32 word))"
  using sint_ge [of w] sint_lt [of w] by (simp add: in_range_def)

lemma wrap_in_range: "in_range t \<Longrightarrow> wrap_sint t = t"
  by (simp add: in_range_def wrap_sint_def)

lemma add_overflow:
  "((a XOR b) AND SIGN_BIT = 0 \<and> (a XOR (a + b)) AND SIGN_BIT \<noteq> 0) \<longleftrightarrow> \<not> in_range (sint a + sint b)"
  using sint_range [of a] sint_range [of b]
  by (simp add: sign_xor sint_add32) (auto simp: in_range_def wrap_sint_def split: if_splits)

lemma sub_overflow:
  "((a XOR b) AND SIGN_BIT \<noteq> 0 \<and> (a XOR (a - b)) AND SIGN_BIT \<noteq> 0) \<longleftrightarrow> \<not> in_range (sint a - sint b)"
  using sint_range [of a] sint_range [of b]
  by (simp add: sign_xor sint_sub32) (auto simp: in_range_def wrap_sint_def split: if_splits)

section \<open>What one instruction keeps\<close>

text \<open>The register file and the memory have their sizes, the page table is in place and the pending load names a general
  register; \<open>cpu_ok\<close> adds that register 0 holds zero, which may fail only inside an instruction.\<close>

definition cpu_wf :: "'m Machine_scheme \<Rightarrow> bool" where
  "cpu_wf m \<longleftrightarrow> length (registers m) = NumTotalRegs \<and> length (mainMemory m) = MemorySize \<and> paging_wf m \<and>
     unat (reg LoadReg m) < NumGPRegs"

definition cpu_ok :: "'m Machine_scheme \<Rightarrow> bool" where
  "cpu_ok m \<longleftrightarrow> cpu_wf m \<and> reg 0 m = 0"

text \<open>A stop of the simulator: by one of its own assertions, by a division the host traps on, or in one of the ways \<open>F\<close> in which the trap handler does not come back. An access outside an array or through a bad pointer is none.\<close>

definition clean :: "fault set \<Rightarrow> fault \<Rightarrow> bool" where
  "clean F f \<longleftrightarrow> f \<in> F \<union> {AssertFail, ArithmeticTrap}"

definition ends_in :: "fault set \<Rightarrow> ('a \<Rightarrow> bool) \<Rightarrow> 'a res option \<Rightarrow> bool" where
  "ends_in F P r = (case r of None \<Rightarrow> True | Some (Inl f) \<Rightarrow> clean F f | Some (Inr x) \<Rightarrow> P x)"

lemma ends_in_simps [simp]:
  "ends_in F P None" "ends_in F P (Some (Inl f)) = clean F f" "ends_in F P (Some (Inr x)) = P x"
  by (simp_all add: ends_in_def)

lemma ends_in_bindO:
  "ends_in F Q m \<Longrightarrow> (\<And>x. Q x \<Longrightarrow> ends_in F P (f x)) \<Longrightarrow> ends_in F P (bindO m f)"
  by (cases m; cases "the m") auto

lemma clean_assert [simp]: "ends_in F (\<lambda>_. True) (Some (assertR b))"
  by (cases b) (simp_all add: clean_def)

definition safe_trap :: "fault set \<Rightarrow> 'm trap \<Rightarrow> bool" where
  "safe_trap F trap \<longleftrightarrow> (\<forall>e m. cpu_ok m \<longrightarrow> ends_in F cpu_ok (trap e m))"

lemma reg_set_reg: "i < length (registers m) \<Longrightarrow> reg j (set_reg i v m) = (if i = j then v else reg j m)"
  by (simp add: reg_def set_reg_def)

lemma set_reg_frame [simp]:
  "length (registers (set_reg i v m)) = length (registers m)" "mainMemory (set_reg i v m) = mainMemory m"
  "paging_wf (set_reg i v m) = paging_wf m"
  by (simp_all add: set_reg_def paging_wf_def)

lemma cpu_wf_set_reg: "cpu_wf m \<Longrightarrow> i \<noteq> LoadReg \<Longrightarrow> cpu_wf (set_reg i v m)"
  by (cases "i < length (registers m)") (auto simp: cpu_wf_def reg_set_reg reg_def set_reg_def paging_wf_def)

lemma cpu_wf_setStatus [simp]: "cpu_wf (setStatus s m) = cpu_wf m" "cpu_ok (setStatus s m) = cpu_ok m"
  by (simp_all add: cpu_ok_def cpu_wf_def setStatus_def reg_def paging_wf_def)

lemma DelayedLoad_ok:
  assumes "cpu_wf m" and "unat r < NumGPRegs"
  shows "\<exists>m'. DelayedLoad r v m = Inr m' \<and> cpu_ok m'"
  using assms by (auto simp: DelayedLoad_def Let_def cpu_ok_def cpu_wf_def reg_set_reg)

lemma RaiseException_ok:
  assumes "safe_trap F trap" and "cpu_wf m"
  shows "ends_in F cpu_ok (RaiseException trap e a m)"
proof -
  obtain m1 where m1: "DelayedLoad 0 0 (set_reg BadVAddrReg a m) = Inr m1" "cpu_ok m1"
    using DelayedLoad_ok [OF cpu_wf_set_reg [OF assms(2), of BadVAddrReg a], of 0 0] by auto
  have "ends_in F cpu_ok (trap e (setStatus SystemMode m1))" using assms(1) m1(2) by (simp add: safe_trap_def)
  then show ?thesis unfolding RaiseException_def Let_def m1(1) bindO_simps by (rule ends_in_bindO) simp
qed

lemma cpu_wf_memory: "cpu_wf m \<Longrightarrow> cpu_wf (mark_entry i w m)" "cpu_wf m \<Longrightarrow> cpu_wf (store_mem pa sz v m)"
  by (simp_all add: cpu_wf_def reg_def mark_entry_def Let_def)

lemma ReadMem_ok:
  assumes "safe_trap F trap" and "cpu_wf m" and "sz \<in> {1, 2, 4}"
  shows "ends_in F (\<lambda>(r, m'). case r of None \<Rightarrow> cpu_ok m' | Some _ \<Rightarrow> cpu_wf m') (ReadMem trap a sz m)"
proof -
  have wf: "paging_wf m" using assms(2) by (simp add: cpu_wf_def)
  show ?thesis
    unfolding ReadMem_access [OF wf assms(3)] using assms(2)
    by (auto simp: Let_def cpu_wf_memory split: sum.splits intro!: ends_in_bindO [OF RaiseException_ok [OF assms(1,2)]])
qed

lemma WriteMem_ok:
  assumes "safe_trap F trap" and "cpu_wf m" and "sz \<in> {1, 2, 4}"
  shows "ends_in F (\<lambda>(ok, m'). if ok then cpu_wf m' else cpu_ok m') (WriteMem trap a sz v m)"
proof -
  have wf: "paging_wf m" using assms(2) by (simp add: cpu_wf_def)
  show ?thesis
    unfolding WriteMem_access [OF wf assms(3)] using assms(2)
    by (auto simp: cpu_wf_memory split: sum.splits intro!: ends_in_bindO [OF RaiseException_ok [OF assms(1,2)]])
qed

text \<open>What an arm of the switch leaves behind.\<close>

definition arm_ok :: "'m Machine_scheme exec \<Rightarrow> bool" where
  "arm_ok x = (case x of Stop m \<Rightarrow> cpu_ok m | Go m pc r v \<Rightarrow> cpu_wf m \<and> unat r < NumGPRegs)"

definition instr_wf :: "Instruction \<Rightarrow> bool" where
  "instr_wf i \<longleftrightarrow> rs i < NumGPRegs \<and> rt i < NumGPRegs \<and> rd i < NumGPRegs"

lemma go_ok: "cpu_wf m \<Longrightarrow> ends_in F arm_ok (go m pc)"
  by (simp add: go_def arm_ok_def)

lemma raise_ok: "safe_trap F trap \<Longrightarrow> cpu_wf m \<Longrightarrow> ends_in F arm_ok (raise trap e a m)"
  unfolding raise_def by (rule ends_in_bindO [OF RaiseException_ok]) (simp_all add: arm_ok_def)

lemma fetch_ok:
  assumes "safe_trap F trap" and "cpu_wf m" and "sz \<in> {1, 2, 4}" and "\<And>v m. cpu_wf m \<Longrightarrow> ends_in F arm_ok (k v m)"
  shows "ends_in F arm_ok (fetch trap a sz m k)"
  unfolding fetch_def using assms(4)
  by (intro ends_in_bindO [OF ReadMem_ok [OF assms(1-3)]]) (auto simp: arm_ok_def split: option.splits)

lemma put_ok:
  "safe_trap F trap \<Longrightarrow> cpu_wf m \<Longrightarrow> sz \<in> {1, 2, 4} \<Longrightarrow> ends_in F arm_ok (put trap a sz v pc m)"
  unfolding put_def by (rule ends_in_bindO [OF WriteMem_ok]) (auto simp: arm_ok_def go_def split: if_splits)

lemma load_ok: "cpu_wf m \<Longrightarrow> instr_wf i \<Longrightarrow> ends_in F arm_ok (Some (Inr (Go m pc (of_nat (rt i)) v)))"
  by (simp add: arm_ok_def instr_wf_def unat_of_nat)

lemma assert_ok:
  "ends_in F arm_ok r \<Longrightarrow> ends_in F arm_ok (bindO (Some (assertR b)) (\<lambda>_. r))"
  by (cases b) (simp_all add: clean_def)

lemma abort_ok: "ends_in F arm_ok (Some (Inl AssertFail))" "ends_in F arm_ok (Some (Inl ArithmeticTrap))"
  by (simp_all add: clean_def)

lemma branch_ok: "ends_in F P a \<Longrightarrow> ends_in F P b \<Longrightarrow> ends_in F P (if c then a else b)"
  by simp

lemma pair_ok: "(\<And>a b. ends_in F P (f a b)) \<Longrightarrow> ends_in F P (case x of (a, b) \<Rightarrow> f a b)"
  by (cases x) simp

lemmas arm_rules = branch_ok pair_ok go_ok raise_ok fetch_ok put_ok load_ok assert_ok abort_ok cpu_wf_set_reg

lemma instr_regs: "instr_wf i \<Longrightarrow> rs i \<noteq> LoadReg \<and> rt i \<noteq> LoadReg \<and> rd i \<noteq> LoadReg"
  by (auto simp: instr_wf_def)

lemma add_arm_ok:
  assumes "safe_trap F trap" and "cpu_wf m" and "instr_wf i"
  shows "ends_in F arm_ok (exec_add trap i pc m)"
  unfolding exec_add_def Let_def
  by (intro arm_rules assms; use instr_regs [OF assms(3)] in simp)

lemma branch_arm_ok:
  assumes "safe_trap F trap" and "cpu_wf m" and "instr_wf i"
  shows "ends_in F arm_ok (exec_branch trap i pc m)"
  unfolding exec_branch_def Let_def
  by (intro arm_rules assms; use instr_regs [OF assms(3)] in simp)

lemma div_arm_ok:
  assumes "safe_trap F trap" and "cpu_wf m" and "instr_wf i"
  shows "ends_in F arm_ok (exec_div trap i pc m)"
  unfolding exec_div_def Let_def
  by (intro arm_rules assms; use instr_regs [OF assms(3)] in simp)

lemma jump_arm_ok:
  assumes "safe_trap F trap" and "cpu_wf m" and "instr_wf i"
  shows "ends_in F arm_ok (exec_jump trap i pc m)"
  unfolding exec_jump_def Let_def
  by (intro arm_rules assms; use instr_regs [OF assms(3)] in simp)

lemma load_arm_ok:
  assumes "safe_trap F trap" and "cpu_wf m" and "instr_wf i"
  shows "ends_in F arm_ok (exec_load trap i pc m)"
  unfolding exec_load_def Let_def
  by (intro arm_rules assms; use instr_regs [OF assms(3)] in simp)

lemma load_unaligned_arm_ok:
  assumes "safe_trap F trap" and "cpu_wf m" and "instr_wf i"
  shows "ends_in F arm_ok (exec_load_unaligned trap i pc m)"
  unfolding exec_load_unaligned_def Let_def
  by (intro arm_rules assms; use instr_regs [OF assms(3)] in simp)

lemma hilo_arm_ok:
  assumes "safe_trap F trap" and "cpu_wf m" and "instr_wf i"
  shows "ends_in F arm_ok (exec_hilo trap i pc m)"
  unfolding exec_hilo_def Let_def
  by (intro arm_rules assms; use instr_regs [OF assms(3)] in simp)

lemma or_arm_ok:
  assumes "safe_trap F trap" and "cpu_wf m" and "instr_wf i"
  shows "ends_in F arm_ok (exec_or trap i pc m)"
  unfolding exec_or_def Let_def
  by (intro arm_rules assms; use instr_regs [OF assms(3)] in simp)

lemma store_arm_ok:
  assumes "safe_trap F trap" and "cpu_wf m" and "instr_wf i"
  shows "ends_in F arm_ok (exec_store trap i pc m)"
  unfolding exec_store_def Let_def
  by (intro arm_rules assms; use instr_regs [OF assms(3)] in simp)

lemma shift_arm_ok:
  assumes "safe_trap F trap" and "cpu_wf m" and "instr_wf i"
  shows "ends_in F arm_ok (exec_shift trap i pc m)"
  unfolding exec_shift_def Let_def
  by (intro arm_rules assms; use instr_regs [OF assms(3)] in simp)

lemma sub_arm_ok:
  assumes "safe_trap F trap" and "cpu_wf m" and "instr_wf i"
  shows "ends_in F arm_ok (exec_sub trap i pc m)"
  unfolding exec_sub_def Let_def
  by (intro arm_rules assms; use instr_regs [OF assms(3)] in simp)

lemma store_word_arm_ok:
  assumes "safe_trap F trap" and "cpu_wf m" and "instr_wf i"
  shows "ends_in F arm_ok (exec_store_word trap i pc m)"
  unfolding exec_store_word_def Let_def
  by (intro arm_rules assms; use instr_regs [OF assms(3)] in simp)

lemma other_arm_ok:
  assumes "safe_trap F trap" and "cpu_wf m" and "instr_wf i"
  shows "ends_in F arm_ok (exec_other trap i pc m)"
  unfolding exec_other_def Let_def
  by (intro arm_rules assms; use instr_regs [OF assms(3)] in simp)

lemmas arms_ok = add_arm_ok branch_arm_ok div_arm_ok jump_arm_ok load_arm_ok load_unaligned_arm_ok hilo_arm_ok or_arm_ok store_arm_ok shift_arm_ok sub_arm_ok store_word_arm_ok other_arm_ok

lemma execute_ok:
  assumes "safe_trap F trap" and "cpu_wf m" and "instr_wf i"
  shows "ends_in F arm_ok (execute trap i pc m)"
  unfolding execute_def using arms_ok [OF assms] by (simp del: op_codes)

lemma five_bits: "unat ((w::32 word) AND 0x1f) < 32"
proof -
  have "w AND 0x1f \<le> 0x1f" by (rule word_and_le1)
  then show ?thesis by (simp add: word_le_nat_alt)
qed

lemma Decode_wf: "instr_wf (Decode v)"
  by (simp add: instr_wf_def Decode_def Let_def five_bits)

lemma cpu_ok_set_reg: "cpu_ok m \<Longrightarrow> j \<noteq> LoadReg \<Longrightarrow> j \<noteq> 0 \<Longrightarrow> cpu_ok (set_reg j w m)"
  using cpu_wf_set_reg [of m j w] by (cases "j < length (registers m)") (auto simp: cpu_ok_def reg_def set_reg_def)

lemma commit_ok:
  assumes "cpu_wf m" and "unat r < NumGPRegs"
  shows "ends_in F cpu_ok (commit pc r v m)"
proof -
  obtain m1 where "DelayedLoad r v m = Inr m1" "cpu_ok m1" using DelayedLoad_ok [OF assms] by blast
  then show ?thesis by (simp add: commit_def Let_def cpu_ok_set_reg)
qed

lemma finish_ok: "arm_ok x \<Longrightarrow> ends_in F cpu_ok (finish x)"
  by (cases x) (simp_all add: arm_ok_def finish_def commit_ok)

lemma OneInstruction_ok:
  assumes "safe_trap F trap" and "cpu_ok m"
  shows "ends_in F cpu_ok (OneInstruction trap m)"
proof -
  have wf: "cpu_wf m" using assms(2) by (simp add: cpu_ok_def)
  show ?thesis
    unfolding OneInstruction_def
  proof (rule ends_in_bindO [OF ReadMem_ok [OF assms(1) wf, of 4]], simp)
    fix x :: "32 word option \<times> 'a Machine_scheme"
    assume x: "case x of (r, m') \<Rightarrow> case r of None \<Rightarrow> cpu_ok m' | Some _ \<Rightarrow> cpu_wf m'"
    have "ends_in F cpu_ok (bindO (execute trap (Decode raw) pc (snd x)) finish)" if "fst x = Some raw" for raw pc
      using that x by (intro ends_in_bindO [OF execute_ok [OF assms(1) _ Decode_wf]] finish_ok) (auto split: prod.splits)
    then show "ends_in F cpu_ok (case x of (r, m) \<Rightarrow> case r of None \<Rightarrow> Some (Inr m) | Some raw \<Rightarrow>
        bindO (execute trap (Decode raw) (reg NextPCReg m + 4) m) finish)"
      using x by (cases x) (auto split: option.splits)
  qed
qed

section \<open>Properties\<close>

text \<open>C26. The shift-and-add multiplication of the simulator is exact for every pair of operands, the most negative one included:
  read as a 64-bit number, the high and the low word are the unsigned product for \<open>MULTU\<close> and the signed product for
  \<open>MULT\<close>.\<close>

theorem Mult_product:
  "(case Mult a b False of (hi, lo) \<Rightarrow> uint hi * 2 ^ 32 + uint lo = uint a * uint b) \<and>
   (case Mult a b True of (hi, lo) \<Rightarrow> sint hi * 2 ^ 32 + uint lo = sint a * sint b)"
proof -
  obtain h l h' l' where m: "Mult a b False = (h, l)" "Mult a b True = (h', l')" by force
  have "int (val64 h l) = uint a * uint b" using Mult_unsigned [OF m(1)] by simp
  then show ?thesis using m Mult_signed [OF m(2)] by (simp add: val64_def)
qed

text \<open>C21. Whatever word is fetched as an instruction, executing it keeps the processor state well formed: the register file and
  the memory keep their sizes, no access leaves them, the pending load names a general register and register 0 is zero
  again at the end. The trap handler is assumed to leave the state well formed when it returns; \<open>F\<close> are the ways in which it may not return (the thread finishes, the machine halts, the kernel stops). The
  simulator adds two to them: its own assertions, such as those against unaligned \<open>LWL\<close>, \<open>LWR\<close>, \<open>SWL\<close> and \<open>SWR\<close>, and the division the host traps on.\<close>

theorem OneInstruction_safe:
  assumes "\<forall>e m. cpu_ok m \<longrightarrow> (case trap e m of None \<Rightarrow> True | Some (Inl f) \<Rightarrow> f \<in> F | Some (Inr m') \<Rightarrow> cpu_ok m')" and "cpu_ok m"
  shows "case OneInstruction trap m of
      None \<Rightarrow> True
    | Some (Inl f) \<Rightarrow> f \<in> F \<or> f = AssertFail \<or> f = ArithmeticTrap
    | Some (Inr m') \<Rightarrow> length (registers m') = NumTotalRegs \<and> length (mainMemory m') = MemorySize \<and>
        unat (reg LoadReg m') < NumGPRegs \<and> reg 0 m' = 0 \<and> paging_wf m'"
proof -
  have "safe_trap F trap" using assms(1) by (fastforce simp: safe_trap_def ends_in_def clean_def split: option.splits sum.splits)
  then have "ends_in F cpu_ok (OneInstruction trap m)" by (rule OneInstruction_ok [OF _ assms(2)])
  then show ?thesis by (auto simp: ends_in_def clean_def cpu_ok_def cpu_wf_def split: option.splits sum.splits)
qed

lemma example_machine_ok: "cpu_ok example_machine"
  using example_machine_fields
  by (simp add: cpu_ok_def cpu_wf_def reg_def example_machine_def Machine_new_def isys.defs Machine.defs)

text \<open>A handler that ends the thread, as that of the kernel does on every exception but system calls and page faults.\<close>

theorem OneInstruction_safe_witness:
  "cpu_ok example_machine \<and>
   (case OneInstruction (\<lambda>e m. Some (Inl ThreadFinished)) example_machine of
      None \<Rightarrow> True
    | Some (Inl f) \<Rightarrow> f \<in> {ThreadFinished} \<or> f = AssertFail \<or> f = ArithmeticTrap
    | Some (Inr m') \<Rightarrow> length (registers m') = NumTotalRegs \<and> length (mainMemory m') = MemorySize \<and>
        unat (reg LoadReg m') < NumGPRegs \<and> reg 0 m' = 0 \<and> paging_wf m')"
  using OneInstruction_safe [where trap = "\<lambda>e m. Some (Inl ThreadFinished)" and F = "{ThreadFinished}" and m = example_machine] example_machine_ok by simp

text \<open>C33. Overflow detection: \<open>ADD\<close>, \<open>ADDI\<close> and \<open>SUB\<close> raise the overflow exception exactly when the exact signed result does not fit in 32
  bits, before any register is written; otherwise the destination receives the exact result.\<close>

theorem overflow_exact:
  "(opCode i = OP_ADD \<longrightarrow> exec_add trap i pc m =
      (if - (2 ^ 31) \<le> sint (reg (rs i) m) + sint (reg (rt i) m) \<and> sint (reg (rs i) m) + sint (reg (rt i) m) < 2 ^ 31
       then go (set_reg (rd i) (word_of_int (sint (reg (rs i) m) + sint (reg (rt i) m))) m) pc
       else raise trap OverflowException 0 m)) \<and>
   (opCode i = OP_ADDI \<longrightarrow> exec_add trap i pc m =
      (if - (2 ^ 31) \<le> sint (reg (rs i) m) + sint (extra i) \<and> sint (reg (rs i) m) + sint (extra i) < 2 ^ 31
       then go (set_reg (rt i) (word_of_int (sint (reg (rs i) m) + sint (extra i))) m) pc
       else raise trap OverflowException 0 m)) \<and>
   (opCode i = OP_SUB \<longrightarrow> exec_sub trap i pc m =
      (if - (2 ^ 31) \<le> sint (reg (rs i) m) - sint (reg (rt i) m) \<and> sint (reg (rs i) m) - sint (reg (rt i) m) < 2 ^ 31
       then go (set_reg (rd i) (word_of_int (sint (reg (rs i) m) - sint (reg (rt i) m))) m) pc
       else raise trap OverflowException 0 m))"
proof -
  have addi: "((a XOR e) AND SIGN_BIT = 0 \<and> (e XOR (a + e)) AND SIGN_BIT \<noteq> 0) \<longleftrightarrow> \<not> in_range (sint a + sint e)" for a e :: "32 word"
    using add_overflow [of e a] by (simp add: add.commute xor.commute)
  have w: "a + b = word_of_int (sint a + sint b)" "a - b = word_of_int (sint a - sint b)" for a b :: "32 word"
    by simp_all
  show ?thesis
    using add_overflow [of "reg (rs i) m" "reg (rt i) m"] addi [of "reg (rs i) m" "extra i"] sub_overflow [of "reg (rs i) m" "reg (rt i) m"]
    by (auto simp: exec_add_def exec_sub_def Let_def in_range_def)
qed

theorem overflow_exact_witness:
  "exec_sub (\<lambda>e m. None) (Decode 0x00011022) 8 example_machine = go (set_reg 2 (word_of_int 0) example_machine) 8"
proof -
  have i: "opCode (Decode 0x00011022) = OP_SUB" "rs (Decode 0x00011022) = 0" "rt (Decode 0x00011022) = 1" "rd (Decode 0x00011022) = 2"
    by (simp_all add: Decode_def opTable_def specialTable_def Let_def)
  have r: "reg 0 example_machine = 0" "reg 1 example_machine = 0"
    by (simp_all add: reg_def example_machine_def Machine_new_def isys.defs Machine.defs)
  show ?thesis
    using overflow_exact [of "Decode 0x00011022" "\<lambda>e m. None" 8 example_machine] unfolding i r by simp
qed

lemma signed_shift_logical: "signed_drop_bit n (b :: 32 word) = word_of_int (uint b div 2 ^ n) \<longleftrightarrow> 0 \<le> sint b \<or> n = 0"
proof -
  have l: "word_of_int (uint b div 2 ^ n) = drop_bit n b" by (transfer fixing: n) (simp add: drop_bit_eq_div)
  have top: "0 \<le> sint b \<longleftrightarrow> \<not> bit b 31" using bit_last_iff [of b] by (simp add: not_less)
  have sb: "bit (signed_drop_bit n b) j \<longleftrightarrow> (if 32 - n \<le> j \<and> j < 32 then bit b 31 else bit b (n + j))" for j by (simp add: bit_signed_drop_bit_iff)
  have out: "\<not> bit b (n + j)" if "32 \<le> n + j" for j using bit_imp_le_length [of b "n + j"] that by auto
  show ?thesis
  proof (cases "\<not> bit b 31 \<or> n = 0")
    case True
    then have "bit (signed_drop_bit n b) j = bit (drop_bit n b) j" if "j < 32" for j using out [of j] that by (auto simp: sb bit_drop_bit_eq)
    then have "signed_drop_bit n b = drop_bit n b" by (auto intro: bit_word_eqI)
    then show ?thesis using True top l by simp
  next
    case False
    then have "bit (signed_drop_bit n b) 31" "\<not> bit (drop_bit n b) 31" using out [of 31] by (auto simp: sb bit_drop_bit_eq)
    then show ?thesis using False top l by auto
  qed
qed

lemma set_reg_inject: "i < length (registers m) \<Longrightarrow> set_reg i v m = set_reg i w m \<longleftrightarrow> v = w"
  using reg_set_reg [of i m i v] reg_set_reg [of i m i w] by metis

text \<open>C34. Where two instructions of the simulator differ from the MIPS manual. \<open>OR\<close> copies its first operand: its result is the bitwise or of the operands exactly when the second one has no bit that the first one lacks.
  The logical right shifts \<open>SRL\<close> and \<open>SRLV\<close> drag the sign along: their result is the unsigned quotient by the power of two exactly when the top bit of the operand is clear or the shift count is 0.\<close>

theorem OR_and_SRL_as_executed:
  assumes "length (registers m) = NumTotalRegs" and "rd i < NumGPRegs"
  shows "(opCode i = OP_OR \<longrightarrow>
      (exec_or trap i pc m = go (set_reg (rd i) (reg (rs i) m OR reg (rt i) m) m) pc \<longleftrightarrow> reg (rt i) m AND NOT (reg (rs i) m) = 0)) \<and>
    (opCode i = OP_SRL \<longrightarrow>
      (exec_shift trap i pc m = go (set_reg (rd i) (word_of_int (uint (reg (rt i) m) div 2 ^ unat (extra i))) m) pc \<longleftrightarrow> 0 \<le> sint (reg (rt i) m) \<or> extra i = 0)) \<and>
    (opCode i = OP_SRLV \<longrightarrow>
      (exec_shift trap i pc m = go (set_reg (rd i) (word_of_int (uint (reg (rt i) m) div 2 ^ unat (reg (rs i) m AND 0x1f))) m) pc \<longleftrightarrow>
       0 \<le> sint (reg (rt i) m) \<or> reg (rs i) m AND 0x1f = 0))"
proof -
  have go: "go (set_reg (rd i) v m) pc = go (set_reg (rd i) w m) pc \<longleftrightarrow> v = w" for v w using set_reg_inject [of "rd i" m v w] assms by (simp add: go_def)
  have "a = a OR b \<longleftrightarrow> b AND NOT a = 0" for a b :: "32 word" by (auto simp: bit_eq_iff bit_simps)
  then show ?thesis by (auto simp: exec_or_def exec_shift_def go signed_shift_logical unat_eq_zero Let_def)
qed

theorem OR_and_SRL_as_executed_witness:
  "exec_or (\<lambda>e m. None) (Decode 0x00011025) 8 (set_reg 1 5 example_machine) \<noteq>
     go (set_reg 2 (reg 0 (set_reg 1 5 example_machine) OR reg 1 (set_reg 1 5 example_machine)) (set_reg 1 5 example_machine)) 8"
proof -
  have i: "opCode (Decode 0x00011025) = OP_OR" "rs (Decode 0x00011025) = 0" "rt (Decode 0x00011025) = 1" "rd (Decode 0x00011025) = 2"
    by (simp_all add: Decode_def opTable_def specialTable_def Let_def)
  have r: "reg 0 (set_reg 1 5 example_machine) = 0" "reg 1 (set_reg 1 5 example_machine) = 5" "length (registers (set_reg 1 5 example_machine)) = NumTotalRegs"
    by (simp_all add: reg_def set_reg_def example_machine_def Machine_new_def isys.defs Machine.defs)
  show ?thesis
    using OR_and_SRL_as_executed [of "set_reg 1 5 example_machine" "Decode 0x00011025" "\<lambda>e m. None" 8] unfolding i r by simp
qed

end
