(* ===== verification/Threads.thy ===== *)
theory Threads
  imports Mips
begin

text \<open>
  Threads and the scheduler (\<^verbatim>\<open>src/code/threads/thread.cc\<close>, \<^verbatim>\<open>scheduler.cc\<close>).

  The record \<open>kernel\<close> extends the machine with the thread control blocks (a map from pointers), the running thread, the ready list
  and the thread waiting to be destroyed. A context switch is seen from the processor: \<open>Run\<close> ends with the processor in the
  thread it switched to. That thread continues in one of two places: after the \<open>SWITCH\<close> of its own earlier call of \<open>Run\<close>
  (\<open>t_started\<close>), and then executes the rest of \<open>Run\<close>, or, on its first run, at \<open>ThreadRoot\<close>. All routines here
  run with interrupts off, so each is atomic. \<open>SWITCH\<close> itself is assembly code and changes nothing but the stack.

  \<open>sched_wf\<close> is the scheduler's invariant: the running thread is the only one with status \<open>RUNNING\<close>, and the ready list holds
  each thread with status \<open>READY\<close> exactly once, in the order of the keys.
\<close>

section \<open>State\<close>

datatype ThreadStatus = JUST_CREATED | RUNNING | READY | BLOCKED

record Thread =
  t_name :: string
  t_status :: ThreadStatus
  t_stack :: "32 word option"
  t_started :: bool
  priority :: int
  joinValue :: int
  pipeValue :: int
  inPipe :: "nat option"
  outPipe :: "nat option"
  isForked :: int
  "join" :: int
  readyToJoin :: int
  t_cv :: nat
  t_lock :: nat
  userRegisters :: "32 word list"
  t_space :: "nat option"

text \<open>The state of an address space (\<^verbatim>\<open>src/code/userprog/addrspace.h\<close>).\<close>

record AddrSpace =
  sp_pageTable :: "nat option"
  sp_numPages :: "32 word"
  sp_argc :: int
  sp_argv :: "8 word list list"
  currentExecutable :: nat
  threadCount :: int
  backingStore :: "nat option"
  sp_storeID :: int

record kernel = Machine +
  threads :: "nat \<Rightarrow> Thread option"
  currentThread :: nat
  readyList :: "(int \<times> nat) list"
  threadToBeDestroyed :: "nat option"
  spaces :: "nat \<Rightarrow> AddrSpace option"

definition STACK_FENCEPOST :: "32 word" where "STACK_FENCEPOST = 0xdeadbeef"

section \<open>Thread control blocks\<close>

text \<open>\<open>Thread::Thread\<close> leaves several fields as the memory had them: \<open>junk\<close>.\<close>

definition Thread_new :: "Thread \<Rightarrow> string \<Rightarrow> int \<Rightarrow> nat \<Rightarrow> nat \<Rightarrow> Thread" where
  "Thread_new junk threadName Pjoin l c =
     junk\<lparr>t_name := threadName, t_stack := None, t_started := False, t_status := JUST_CREATED, t_space := None,
          t_lock := l, t_cv := c, join := Pjoin, readyToJoin := 0, priority := 0\<rparr>"

definition get_thread :: "nat \<Rightarrow> 'm kernel_scheme \<Rightarrow> Thread res" where
  "get_thread t k = (case threads k t of None \<Rightarrow> Inl DanglingPointer | Some th \<Rightarrow> Inr th)"

definition update_thread :: "nat \<Rightarrow> (Thread \<Rightarrow> Thread) \<Rightarrow> 'm kernel_scheme \<Rightarrow> 'm kernel_scheme res" where
  "update_thread t f k = bindR (get_thread t k) (\<lambda>th. Inr (k\<lparr>threads := (threads k)(t \<mapsto> f th)\<rparr>))"

definition thread_setStatus :: "ThreadStatus \<Rightarrow> nat \<Rightarrow> 'm kernel_scheme \<Rightarrow> 'm kernel_scheme res" where
  "thread_setStatus st t = update_thread t (t_status_update (\<lambda>_. st))"

definition setPriority :: "int \<Rightarrow> nat \<Rightarrow> 'm kernel_scheme \<Rightarrow> 'm kernel_scheme res" where
  "setPriority newPriority t = update_thread t (priority_update (\<lambda>_. newPriority))"

definition getPriority :: "nat \<Rightarrow> 'm kernel_scheme \<Rightarrow> int res" where
  "getPriority t k = bindR (get_thread t k) (\<lambda>th. Inr (priority th))"

definition getJoinValue :: "nat \<Rightarrow> 'm kernel_scheme \<Rightarrow> int res" where
  "getJoinValue t k = bindR (get_thread t k) (\<lambda>th. Inr (joinValue th))"

definition setJoinValue :: "int \<Rightarrow> nat \<Rightarrow> 'm kernel_scheme \<Rightarrow> 'm kernel_scheme res" where
  "setJoinValue v t = update_thread t (joinValue_update (\<lambda>_. v))"

definition getPipeValue :: "nat \<Rightarrow> 'm kernel_scheme \<Rightarrow> int res" where
  "getPipeValue t k = bindR (get_thread t k) (\<lambda>th. Inr (pipeValue th))"

definition setPipeValue :: "int \<Rightarrow> nat \<Rightarrow> 'm kernel_scheme \<Rightarrow> 'm kernel_scheme res" where
  "setPipeValue v t = update_thread t (pipeValue_update (\<lambda>_. v))"

definition setInPipe :: "nat option \<Rightarrow> nat \<Rightarrow> 'm kernel_scheme \<Rightarrow> 'm kernel_scheme res" where
  "setInPipe v t = update_thread t (inPipe_update (\<lambda>_. v))"

definition getInPipe :: "nat \<Rightarrow> 'm kernel_scheme \<Rightarrow> nat option res" where
  "getInPipe t k = bindR (get_thread t k) (\<lambda>th. Inr (inPipe th))"

definition setOutPipe :: "nat option \<Rightarrow> nat \<Rightarrow> 'm kernel_scheme \<Rightarrow> 'm kernel_scheme res" where
  "setOutPipe v t = update_thread t (outPipe_update (\<lambda>_. v))"

definition getOutPipe :: "nat \<Rightarrow> 'm kernel_scheme \<Rightarrow> nat option res" where
  "getOutPipe t k = bindR (get_thread t k) (\<lambda>th. Inr (outPipe th))"

definition canJoin :: "nat \<Rightarrow> 'm kernel_scheme \<Rightarrow> int res" where
  "canJoin t k = bindR (get_thread t k) (\<lambda>th. Inr (join th))"

definition CheckOverflow :: "nat \<Rightarrow> 'm kernel_scheme \<Rightarrow> unit res" where
  "CheckOverflow t k = bindR (get_thread t k) (\<lambda>th.
     case t_stack th of None \<Rightarrow> Inr () | Some w \<Rightarrow> assertR (w = STACK_FENCEPOST))"

text \<open>\<open>StackAllocate\<close> writes the fence post; the frame it builds makes the first switch to the thread enter
  \<open>ThreadRoot\<close>.\<close>

definition StackAllocate :: "nat \<Rightarrow> 'm kernel_scheme \<Rightarrow> 'm kernel_scheme res" where
  "StackAllocate t = update_thread t (\<lambda>th. th\<lparr>t_stack := Some STACK_FENCEPOST, t_started := False\<rparr>)"

text \<open>The destructor. The lock and the condition variable of the thread live in the tables of \<open>Synch\<close>; deleting them, with the assertions of their destructors, is \<open>Thread_destroy\<close> of \<open>Syscalls\<close>.
  Where \<open>Run\<close> deletes a finished thread the two objects stay in those tables, and no control block names them any more.\<close>

definition Thread_delete :: "nat \<Rightarrow> 'm kernel_scheme \<Rightarrow> 'm kernel_scheme res" where
  "Thread_delete t k = bindR (assertR (t \<noteq> currentThread k)) (\<lambda>_.
     bindR (get_thread t k) (\<lambda>_. Inr (k\<lparr>threads := (threads k)(t := None)\<rparr>)))"

text \<open>The loops of \<open>SaveUserState\<close> and \<open>RestoreUserState\<close> copy all \<open>NumTotalRegs\<close> registers.\<close>

definition SaveUserState :: "nat \<Rightarrow> 'm kernel_scheme \<Rightarrow> 'm kernel_scheme res" where
  "SaveUserState t k = update_thread t (userRegisters_update (\<lambda>_. registers k)) k"

definition RestoreUserState :: "nat \<Rightarrow> 'm kernel_scheme \<Rightarrow> 'm kernel_scheme res" where
  "RestoreUserState t k = bindR (get_thread t k) (\<lambda>th.
     let k = k\<lparr>registers := userRegisters th\<rparr> in
     bindR (get_thread (currentThread k) k) (\<lambda>cur.
     case t_space cur of None \<Rightarrow> Inl NullPointer
     | Some a \<Rightarrow> (case spaces k a of None \<Rightarrow> Inl DanglingPointer
        | Some sp \<Rightarrow> Inr (k\<lparr>pageTable := sp_pageTable sp, pageTableSize := sp_numPages sp\<rparr>))))"

text \<open>\<open>AddrSpace::SaveState\<close> is empty; \<open>AddrSpace::RestoreState\<close> gives the machine the page table.\<close>

definition AddrSpace_SaveState :: "nat \<Rightarrow> 'm kernel_scheme \<Rightarrow> 'm kernel_scheme res" where
  "AddrSpace_SaveState a k = Inr k"

definition AddrSpace_RestoreState :: "nat \<Rightarrow> 'm kernel_scheme \<Rightarrow> 'm kernel_scheme res" where
  "AddrSpace_RestoreState a k = (case spaces k a of None \<Rightarrow> Inl DanglingPointer
     | Some sp \<Rightarrow> Inr (k\<lparr>pageTable := sp_pageTable sp, pageTableSize := sp_numPages sp\<rparr>))"

section \<open>Scheduler\<close>

definition ReadyToRun :: "nat \<Rightarrow> 'm kernel_scheme \<Rightarrow> 'm kernel_scheme res" where
  "ReadyToRun t k =
     bindR (thread_setStatus READY t k) (\<lambda>k.
     bindR (getPriority t k) (\<lambda>p.
       let p = c_int (p * - 1)
       in Inr (k\<lparr>readyList := sorted_insert p t (readyList k)\<rparr>)))"

definition FindNextToRun :: "'m kernel_scheme \<Rightarrow> nat option \<times> 'm kernel_scheme" where
  "FindNextToRun k = (case readyList k of [] \<Rightarrow> (None, k) | (_, t) # r \<Rightarrow> (Some t, k\<lparr>readyList := r\<rparr>))"

definition save_user :: "nat \<Rightarrow> 'm kernel_scheme \<Rightarrow> 'm kernel_scheme res" where
  "save_user t k = bindR (get_thread t k) (\<lambda>th.
     case t_space th of None \<Rightarrow> Inr k
     | Some a \<Rightarrow> bindR (SaveUserState t k) (AddrSpace_SaveState a))"

definition restore_user :: "nat \<Rightarrow> 'm kernel_scheme \<Rightarrow> 'm kernel_scheme res" where
  "restore_user t k = bindR (get_thread t k) (\<lambda>th.
     case t_space th of None \<Rightarrow> Inr k
     | Some a \<Rightarrow> bindR (RestoreUserState t k) (AddrSpace_RestoreState a))"

text \<open>\<open>Run\<close> up to the \<open>SWITCH\<close>, and after it.\<close>

definition Run_before :: "nat \<Rightarrow> 'm kernel_scheme \<Rightarrow> 'm kernel_scheme res" where
  "Run_before nextThread k =
     (let oldThread = currentThread k in
      bindR (save_user oldThread k) (\<lambda>k.
      bindR (CheckOverflow oldThread k) (\<lambda>_.
      thread_setStatus RUNNING nextThread (k\<lparr>currentThread := nextThread\<rparr>))))"

definition Run_after :: "'m kernel_scheme \<Rightarrow> 'm kernel_scheme res" where
  "Run_after k =
     bindR (case threadToBeDestroyed k of None \<Rightarrow> Inr k
            | Some t \<Rightarrow> bindR (Thread_delete t k) (\<lambda>k. Inr (k\<lparr>threadToBeDestroyed := None\<rparr>)))
       (\<lambda>k. restore_user (currentThread k) k)"

definition Run :: "nat \<Rightarrow> 'm kernel_scheme \<Rightarrow> 'm kernel_scheme res" where
  "Run nextThread k =
     bindR (Run_before nextThread k) (\<lambda>k.
     bindR (get_thread nextThread k) (\<lambda>th.
       if t_started th then Run_after k
       else update_thread nextThread (t_started_update (\<lambda>_. True)) k))"

section \<open>Yield, Sleep, Fork\<close>

text \<open>\<open>Yield\<close> between its two calls of \<open>SetLevel\<close>.\<close>

definition Yield :: "'m kernel_scheme \<Rightarrow> 'm kernel_scheme res" where
  "Yield k =
     (let this = currentThread k in
      case FindNextToRun k of
        (None, k) \<Rightarrow> Inr k
      | (Some nextThread, k) \<Rightarrow> bindR (ReadyToRun this k) (Run nextThread))"

definition Sleep_begin :: "'m kernel_scheme \<Rightarrow> 'm kernel_scheme res" where
  "Sleep_begin k = bindR (assertR (level k = IntOff)) (\<lambda>_. thread_setStatus BLOCKED (currentThread k) k)"

text \<open>The waiting loop; \<open>idle\<close> is \<open>interrupt->Idle()\<close>.\<close>

partial_function (option) Sleep_loop ::
    "('m kernel_scheme \<Rightarrow> 'm kernel_scheme res option) \<Rightarrow> 'm kernel_scheme \<Rightarrow> 'm kernel_scheme res option" where
  "Sleep_loop idle k =
     (case FindNextToRun k of
        (None, k) \<Rightarrow> bindO (idle k) (Sleep_loop idle)
      | (Some nextThread, k) \<Rightarrow> Some (Run nextThread k))"

definition Sleep :: "('m kernel_scheme \<Rightarrow> 'm kernel_scheme res option) \<Rightarrow> 'm kernel_scheme \<Rightarrow> 'm kernel_scheme res option" where
  "Sleep idle k = bindO (Some (Sleep_begin k)) (Sleep_loop idle)"

text \<open>\<open>Fork\<close> up to its second call of \<open>SetLevel\<close>.\<close>

definition Fork :: "nat \<Rightarrow> 'm kernel_scheme \<Rightarrow> 'm kernel_scheme res" where
  "Fork t k =
     bindR (StackAllocate t k) (\<lambda>k.
     bindR (update_thread t (isForked_update (\<lambda>_. 1)) k) (\<lambda>k.
     ReadyToRun t k))"

text \<open>The last statements of \<open>Finish\<close>, when the joining protocol is over.\<close>

definition Finish_end :: "('m kernel_scheme \<Rightarrow> 'm kernel_scheme res option) \<Rightarrow> 'm kernel_scheme \<Rightarrow> 'm kernel_scheme res option" where
  "Finish_end idle k = Sleep idle (k\<lparr>threadToBeDestroyed := Some (currentThread k)\<rparr>)"

section \<open>The scheduler's invariant\<close>

definition st :: "'m kernel_scheme \<Rightarrow> nat \<Rightarrow> ThreadStatus option" where
  "st k t = map_option t_status (threads k t)"

definition ready :: "'m kernel_scheme \<Rightarrow> nat set" where
  "ready k = snd ` set (readyList k)"

text \<open>Stacks are intact and address spaces exist.\<close>

definition static_ok :: "'m kernel_scheme \<Rightarrow> bool" where
  "static_ok k \<longleftrightarrow> (\<forall>t th. threads k t = Some th \<longrightarrow>
     (t_stack th = None \<or> t_stack th = Some STACK_FENCEPOST) \<and> (\<forall>a. t_space th = Some a \<longrightarrow> spaces k a \<noteq> None))"

definition ready_wf :: "'m kernel_scheme \<Rightarrow> bool" where
  "ready_wf k \<longleftrightarrow> distinct (map snd (readyList k)) \<and> sorted (map fst (readyList k)) \<and>
     (\<forall>t. st k t = Some READY \<longleftrightarrow> t \<in> ready k)"

text \<open>The part that holds also while the running thread is on its way to sleep.\<close>

definition sched_core :: "'m kernel_scheme \<Rightarrow> bool" where
  "sched_core k \<longleftrightarrow> ready_wf k \<and> static_ok k \<and> st k (currentThread k) \<noteq> None \<and>
     (\<forall>t. st k t = Some RUNNING \<longrightarrow> t = currentThread k) \<and>
     (\<forall>t. threadToBeDestroyed k = Some t \<longrightarrow> st k t = Some BLOCKED)"

definition sched_wf :: "'m kernel_scheme \<Rightarrow> bool" where
  "sched_wf k \<longleftrightarrow> sched_core k \<and> st k (currentThread k) = Some RUNNING"

lemma st_exists: "st k t \<noteq> None \<longleftrightarrow> (\<exists>th. threads k t = Some th)"
  by (simp add: st_def)

lemma update_thread_eq:
  "threads k t = Some th \<Longrightarrow> update_thread t f k = Inr (k\<lparr>threads := (threads k)(t \<mapsto> f th)\<rparr>)"
  by (simp add: update_thread_def get_thread_def)

lemma static_ok_update:
  assumes "static_ok k" and "threads k t = Some th" and "t_stack th' \<in> {t_stack th, Some STACK_FENCEPOST}"
    and "t_space th' = t_space th"
  shows "static_ok (k\<lparr>threads := (threads k)(t \<mapsto> th')\<rparr>)"
proof -
  have "t_stack th' = None \<or> t_stack th' = Some STACK_FENCEPOST"
    using assms(1-3) unfolding static_ok_def by (metis insertE singletonD)
  then show ?thesis using assms(1,2,4) by (auto simp: static_ok_def)
qed

lemma static_ok_frame [simp]:
  "static_ok (k\<lparr>readyList := r\<rparr>) = static_ok k" "static_ok (k\<lparr>currentThread := c\<rparr>) = static_ok k"
  "static_ok (k\<lparr>threadToBeDestroyed := d\<rparr>) = static_ok k"
  by (simp_all add: static_ok_def)

lemma st_frame [simp]:
  "st (k\<lparr>readyList := r\<rparr>) = st k" "st (k\<lparr>currentThread := c\<rparr>) = st k" "st (k\<lparr>threadToBeDestroyed := d\<rparr>) = st k"
  "st (k\<lparr>threads := (threads k)(t \<mapsto> th)\<rparr>) = (st k)(t \<mapsto> t_status th)"
  "st (k\<lparr>threads := (threads k)(t := None)\<rparr>) = (st k)(t := None)"
  by (simp_all add: st_def fun_eq_iff)

text \<open>\<open>ReadyToRun\<close> marks the thread and queues it behind every thread of at least its priority.\<close>

lemma ReadyToRun_correct:
  assumes "threads k t = Some th"
  shows "ReadyToRun t k = Inr (k\<lparr>threads := (threads k)(t \<mapsto> th\<lparr>t_status := READY\<rparr>),
      readyList := sorted_insert (c_int (- priority th)) t (readyList k)\<rparr>)"
  using assms
  by (simp add: ReadyToRun_def thread_setStatus_def update_thread_eq getPriority_def get_thread_def Let_def)

lemma ready_sorted_insert: "snd ` set (sorted_insert p t xs) = insert t (snd ` set xs)"
  by simp

lemma distinct_sorted_insert:
  "distinct (map snd (sorted_insert p t xs)) \<longleftrightarrow> t \<notin> snd ` set xs \<and> distinct (map snd xs)"
proof -
  have "mset (map snd (sorted_insert p t xs)) = mset (t # map snd xs)" by (simp add: mset_sorted_insert)
  then have "distinct (map snd (sorted_insert p t xs)) \<longleftrightarrow> distinct (t # map snd xs)" by (rule mset_eq_imp_distinct_iff)
  then show ?thesis by simp
qed

lemma ReadyToRun_ready_wf:
  assumes "ready_wf k" and "threads k t = Some th" and "t_status th \<noteq> READY"
  shows "\<exists>k'. ReadyToRun t k = Inr k' \<and> ready_wf k'"
proof -
  have "st k t \<noteq> Some READY" using assms(2,3) by (simp add: st_def)
  then have "t \<notin> ready k" using assms(1) by (simp add: ready_wf_def)
  then show ?thesis
    using assms sorted_sorted_insert [of "readyList k"] ReadyToRun_correct [OF assms(2)]
    by (auto simp: ready_wf_def ready_def distinct_sorted_insert)
qed

section \<open>The context switch\<close>

text \<open>What the two halves of \<open>Run\<close> do, on a state where no check fails.\<close>

definition saved :: "'m kernel_scheme \<Rightarrow> nat \<Rightarrow> Thread option" where
  "saved k = (let c = currentThread k in (threads k)(c := map_option
     (\<lambda>th. if t_space th = None then th else th\<lparr>userRegisters := registers k\<rparr>) (threads k c)))"

lemma saved_other [simp]: "t \<noteq> currentThread k \<Longrightarrow> saved k t = threads k t"
  by (simp add: saved_def Let_def)

lemma saved_None [simp]: "saved k t = None \<longleftrightarrow> threads k t = None"
  by (simp add: saved_def Let_def)

lemma Run_before_correct:
  assumes "static_ok k" and "threads k (currentThread k) = Some old" and n: "saved k n = Some th"
  shows "Run_before n k = Inr (k\<lparr>currentThread := n, threads := (saved k)(n \<mapsto> th\<lparr>t_status := RUNNING\<rparr>)\<rparr>)"
proof -
  let ?k1 = "k\<lparr>threads := saved k\<rparr>"
  obtain old' where old': "saved k (currentThread k) = Some old'" "t_stack old' = t_stack old"
    using assms(2) by (auto simp: saved_def Let_def)
  have "t_stack old = None \<or> t_stack old = Some STACK_FENCEPOST"
    using assms(1,2) unfolding static_ok_def by blast
  then have "CheckOverflow (currentThread k) ?k1 = Inr ()"
    using old' by (auto simp: CheckOverflow_def get_thread_def)
  moreover have "save_user (currentThread k) k = Inr ?k1"
  proof (cases "t_space old")
    case None
    then have "saved k = threads k" using assms(2) by (simp add: saved_def fun_eq_iff)
    then show ?thesis using None assms(2) by (simp add: save_user_def get_thread_def)
  next
    case (Some a)
    then have "saved k = (threads k)(currentThread k \<mapsto> old\<lparr>userRegisters := registers k\<rparr>)"
      using assms(2) by (simp add: saved_def fun_eq_iff)
    then show ?thesis using Some assms(2)
      by (simp add: save_user_def get_thread_def SaveUserState_def AddrSpace_SaveState_def update_thread_def)
  qed
  ultimately show ?thesis using n by (simp add: Run_before_def thread_setStatus_def update_thread_def get_thread_def)
qed

definition loaded :: "Thread \<Rightarrow> 'm kernel_scheme \<Rightarrow> 'm kernel_scheme" where
  "loaded th k = (case t_space th of None \<Rightarrow> k
     | Some a \<Rightarrow> let sp = the (spaces k a) in
         k\<lparr>registers := userRegisters th, pageTable := sp_pageTable sp, pageTableSize := sp_numPages sp\<rparr>)"

definition buried :: "'m kernel_scheme \<Rightarrow> 'm kernel_scheme" where
  "buried k = (case threadToBeDestroyed k of None \<Rightarrow> k
     | Some d \<Rightarrow> k\<lparr>threads := (threads k)(d := None), threadToBeDestroyed := None\<rparr>)"

lemma restore_user_correct:
  assumes "static_ok k" and "threads k (currentThread k) = Some th"
  shows "restore_user (currentThread k) k = Inr (loaded th k)"
proof (cases "t_space th")
  case None
  then show ?thesis using assms(2) by (simp add: restore_user_def get_thread_def loaded_def)
next
  case (Some a)
  then obtain sp where "spaces k a = Some sp" using assms unfolding static_ok_def by blast
  then show ?thesis using Some assms(2)
    by (simp add: restore_user_def get_thread_def loaded_def RestoreUserState_def AddrSpace_RestoreState_def Let_def)
qed

lemma buried_fields [simp]:
  "currentThread (buried k) = currentThread k" "readyList (buried k) = readyList k" "spaces (buried k) = spaces k"
  "registers (buried k) = registers k" "threadToBeDestroyed (buried k) = None" "level (buried k) = level k"
  "threads (buried k) = (case threadToBeDestroyed k of None \<Rightarrow> threads k | Some d \<Rightarrow> (threads k)(d := None))"
  by (simp_all add: buried_def split: option.split)

lemma loaded_fields [simp]:
  "currentThread (loaded th k) = currentThread k" "readyList (loaded th k) = readyList k" "spaces (loaded th k) = spaces k"
  "threadToBeDestroyed (loaded th k) = threadToBeDestroyed k" "threads (loaded th k) = threads k" "level (loaded th k) = level k"
  by (simp_all add: loaded_def Let_def split: option.split)

lemma Run_after_correct:
  assumes "static_ok k" and "threads k (currentThread k) = Some th"
    and "\<And>d. threadToBeDestroyed k = Some d \<Longrightarrow> d \<noteq> currentThread k \<and> threads k d \<noteq> None"
  shows "Run_after k = Inr (loaded th (buried k))"
proof -
  have ok: "static_ok (buried k)" "threads (buried k) (currentThread (buried k)) = Some th"
    using assms by (auto simp: static_ok_def split: option.splits)
  have "Run_after k = restore_user (currentThread k) (buried k)"
    using assms(3)
    by (auto simp: Run_after_def Thread_delete_def get_thread_def buried_def split: option.split)
  then show ?thesis using restore_user_correct [OF ok] by simp
qed

lemma static_ok_saved:
  assumes "static_ok k" and "saved k n = Some th" and "t_stack th' = t_stack th" and "t_space th' = t_space th"
  shows "static_ok (k\<lparr>threads := (saved k)(n \<mapsto> th')\<rparr>)"
proof -
  have "(t_stack x = None \<or> t_stack x = Some STACK_FENCEPOST) \<and> (\<forall>a. t_space x = Some a \<longrightarrow> spaces k a \<noteq> None)"
    if x: "saved k t = Some x" for t x
  proof -
    obtain y where "threads k t = Some y" "t_stack x = t_stack y" "t_space x = t_space y"
      using x by (auto simp: saved_def Let_def split: if_splits)
    then show ?thesis using assms(1) unfolding static_ok_def by metis
  qed
  then show ?thesis using assms(2-4) unfolding static_ok_def by auto
qed

lemma Run_correct:
  assumes ok: "static_ok k" and cur: "threads k (currentThread k) = Some old" and n: "saved k n = Some th"
    and dead: "\<And>d. threadToBeDestroyed k = Some d \<Longrightarrow> d \<noteq> n \<and> threads k d \<noteq> None"
  shows "Run n k = Inr (
    let k1 = k\<lparr>currentThread := n, threads := (saved k)(n \<mapsto> th\<lparr>t_status := RUNNING, t_started := True\<rparr>)\<rparr>
    in if t_started th then loaded th (buried k1) else k1)"
proof -
  let ?k1 = "k\<lparr>currentThread := n, threads := (saved k)(n \<mapsto> th\<lparr>t_status := RUNNING\<rparr>)\<rparr>"
  have "static_ok ?k1" using static_ok_saved [OF ok n, of "th\<lparr>t_status := RUNNING\<rparr>"] by (simp add: static_ok_def)
  moreover have "threads ?k1 (currentThread ?k1) = Some (th\<lparr>t_status := RUNNING\<rparr>)" by simp
  moreover have "d \<noteq> currentThread ?k1 \<and> threads ?k1 d \<noteq> None" if "threadToBeDestroyed ?k1 = Some d" for d
    using dead [of d] that by auto
  ultimately have after: "Run_after ?k1 = Inr (loaded (th\<lparr>t_status := RUNNING\<rparr>) (buried ?k1))" by (rule Run_after_correct)
  have "loaded (th\<lparr>t_status := RUNNING\<rparr>) k' = loaded th k'" for k' :: "'a kernel_scheme"
    by (simp add: loaded_def split: option.split)
  note load = this
  show ?thesis
  proof (cases "t_started th")
    case True
    then have e: "th\<lparr>t_status := RUNNING, t_started := True\<rparr> = th\<lparr>t_status := RUNNING\<rparr>" by (cases th) simp
    show ?thesis using True after load Run_before_correct [OF ok cur n] by (simp add: Run_def get_thread_def Let_def e)
  next
    case False
    then show ?thesis using Run_before_correct [OF ok cur n]
      by (simp add: Run_def get_thread_def update_thread_def Let_def)
  qed
qed

lemma st_saved: "map_option t_status (saved k t) = st k t"
  by (auto simp: saved_def st_def Let_def option.map_comp comp_def intro: option.map_cong)

lemma st_Run:
  assumes "static_ok k" and "threads k (currentThread k) = Some old" and "saved k n = Some th"
    and "\<And>d. threadToBeDestroyed k = Some d \<Longrightarrow> d \<noteq> n \<and> threads k d \<noteq> None"
  shows "\<exists>k'. Run n k = Inr k' \<and> currentThread k' = n \<and> readyList k' = readyList k \<and> static_ok k' \<and> level k' = level k \<and>
    (\<forall>t. st k' t = (if t = n then Some RUNNING else if t_started th \<and> threadToBeDestroyed k = Some t then None else st k t)) \<and>
    threadToBeDestroyed k' = (if t_started th then None else threadToBeDestroyed k)"
proof -
  let ?k1 = "k\<lparr>currentThread := n, threads := (saved k)(n \<mapsto> th\<lparr>t_status := RUNNING, t_started := True\<rparr>)\<rparr>"
  let ?k' = "if t_started th then loaded th (buried ?k1) else ?k1"
  have ok1: "static_ok ?k1"
    using static_ok_saved [OF assms(1,3), of "th\<lparr>t_status := RUNNING, t_started := True\<rparr>"] by (simp add: static_ok_def)
  then have "static_ok ?k'" unfolding static_ok_def by (auto split: option.splits if_splits)
  moreover have "st ?k1 t = (if t = n then Some RUNNING else st k t)" for t
    using st_saved [of k t] by (simp add: st_def)
  then have "st ?k' t = (if t = n then Some RUNNING else if t_started th \<and> threadToBeDestroyed k = Some t then None else st k t)" for t
    using assms(4) by (auto simp: st_def st_saved [unfolded st_def] split: option.splits)
  ultimately show ?thesis
    using Run_correct [OF assms] by (intro exI [of _ ?k']) (simp add: Let_def)
qed

lemma switch_status:
  assumes rdy: "\<And>t. s t = Some READY \<longleftrightarrow> t = n \<or> t \<in> R" and "n \<notin> R" and run: "\<And>t. s t \<noteq> Some RUNNING"
    and dead: "\<And>d. D = Some d \<Longrightarrow> s d = Some BLOCKED"
    and s': "\<And>t. s' t = (if t = n then Some RUNNING else if b \<and> D = Some t then None else s t)"
  shows "(s' t = Some READY \<longleftrightarrow> t \<in> R) \<and> (s' t = Some RUNNING \<longrightarrow> t = n) \<and>
    ((if b then None else D) = Some t \<longrightarrow> s' t = Some BLOCKED)"
proof (cases "D = Some t")
  case True
  then have "s t = Some BLOCKED" "t \<noteq> n" "t \<notin> R" using dead [of t] rdy [of t] by auto
  then show ?thesis using True s' [of t] by simp
next
  case False
  then have "s' t = (if t = n then Some RUNNING else s t)" using s' [of t] by simp
  then show ?thesis using False rdy [of t] run [of t] assms(2) by auto
qed

text \<open>The dispatch: switching to a ready thread that has been taken off the ready list establishes the invariant.\<close>

definition can_switch :: "nat \<Rightarrow> 'm kernel_scheme \<Rightarrow> bool" where
  "can_switch n k \<longleftrightarrow> static_ok k \<and> distinct (map snd (readyList k)) \<and> sorted (map fst (readyList k)) \<and> n \<notin> ready k \<and>
     (\<forall>t. st k t = Some READY \<longleftrightarrow> t = n \<or> t \<in> ready k) \<and> st k (currentThread k) \<noteq> None \<and>
     (\<forall>t. st k t \<noteq> Some RUNNING) \<and> (\<forall>d. threadToBeDestroyed k = Some d \<longrightarrow> st k d = Some BLOCKED)"

lemma dispatch_wf:
  assumes sw: "can_switch n k" and n: "saved k n = Some th"
  shows "\<exists>k'. Run n k = Inr k' \<and> sched_wf k' \<and> currentThread k' = n \<and> readyList k' = readyList k \<and> level k' = level k \<and>
    (\<forall>t. st k' t = (if t = n then Some RUNNING else if t_started th \<and> threadToBeDestroyed k = Some t then None else st k t)) \<and>
    threadToBeDestroyed k' = (if t_started th then None else threadToBeDestroyed k)"
proof -
  have ok: "static_ok k" and list: "distinct (map snd (readyList k))" "sorted (map fst (readyList k))" "n \<notin> ready k"
    and rdy: "\<And>t. st k t = Some READY \<longleftrightarrow> t = n \<or> t \<in> ready k"
    and cur: "st k (currentThread k) \<noteq> None" and run: "\<And>t. st k t \<noteq> Some RUNNING"
    and dead: "\<And>d. threadToBeDestroyed k = Some d \<Longrightarrow> st k d = Some BLOCKED"
    using sw unfolding can_switch_def by blast+
  obtain old where old: "threads k (currentThread k) = Some old" using cur by (auto simp: st_def)
  have "d \<noteq> n \<and> threads k d \<noteq> None" if "threadToBeDestroyed k = Some d" for d
    using dead [OF that] rdy [of n] by (auto simp: st_def)
  then obtain k' where k': "Run n k = Inr k'" "currentThread k' = n" "readyList k' = readyList k" "static_ok k'" "level k' = level k"
    "\<forall>t. st k' t = (if t = n then Some RUNNING else if t_started th \<and> threadToBeDestroyed k = Some t then None else st k t)"
    "threadToBeDestroyed k' = (if t_started th then None else threadToBeDestroyed k)"
    using st_Run [OF ok old n] by blast
  have sw: "(st k' t = Some READY \<longleftrightarrow> t \<in> ready k) \<and> (st k' t = Some RUNNING \<longrightarrow> t = n) \<and>
      (threadToBeDestroyed k' = Some t \<longrightarrow> st k' t = Some BLOCKED)" for t
    using switch_status [of "st k", OF rdy list(3) run dead k'(6) [rule_format], of t] unfolding k'(7) by blast
  have "st k' n = Some RUNNING" using k'(6) by simp
  moreover have "ready k' = ready k" by (simp add: ready_def k'(3))
  ultimately have "sched_wf k'"
    using sw k'(2,3,4) list(1,2) unfolding sched_wf_def sched_core_def ready_wf_def
    by (metis option.distinct(1) option.inject ThreadStatus.distinct(7))
  then show ?thesis using k' by blast
qed

text \<open>The state in which a yielding thread leaves the processor.\<close>

definition requeued :: "Thread \<Rightarrow> (int \<times> nat) list \<Rightarrow> 'm kernel_scheme \<Rightarrow> 'm kernel_scheme" where
  "requeued th rest k = k\<lparr>threads := (threads k)(currentThread k \<mapsto> th\<lparr>t_status := READY\<rparr>),
     readyList := sorted_insert (c_int (- priority th)) (currentThread k) rest\<rparr>"

lemma requeued_fields [simp]:
  "currentThread (requeued th rest k) = currentThread k" "level (requeued th rest k) = level k"
  "readyList (requeued th rest k) = sorted_insert (c_int (- priority th)) (currentThread k) rest"
  "threadToBeDestroyed (requeued th rest k) = threadToBeDestroyed k"
  "st (requeued th rest k) = (st k)(currentThread k \<mapsto> READY)"
  "threads (requeued th rest k) = (threads k)(currentThread k \<mapsto> th\<lparr>t_status := READY\<rparr>)"
  "registers (requeued th rest k) = registers k" "spaces (requeued th rest k) = spaces k"
  by (simp_all add: requeued_def st_def fun_eq_iff)

lemma requeued_can_switch:
  assumes wf: "sched_wf k" and th: "threads k (currentThread k) = Some th" and head: "readyList k = (p, n) # rest"
  shows "can_switch n (requeued th rest k)"
proof -
  let ?c = "currentThread k" and ?k1 = "requeued th rest k"
  have core: "sched_core k" and run: "st k ?c = Some RUNNING" using wf by (simp_all add: sched_wf_def)
  have rdy: "st k t = Some READY \<longleftrightarrow> t = n \<or> t \<in> snd ` set rest" for t
    using core head by (simp add: sched_core_def ready_wf_def ready_def)
  have list: "n \<notin> snd ` set rest" "sorted (map fst rest)" "distinct (map snd rest)"
    using core head by (simp_all add: sched_core_def ready_wf_def)
  have c: "n \<noteq> ?c" "?c \<notin> snd ` set rest" using rdy [of ?c] run by auto
  have "static_ok (k\<lparr>threads := (threads k)(?c \<mapsto> th\<lparr>t_status := READY\<rparr>)\<rparr>)"
    by (rule static_ok_update [OF _ th]) (use core in \<open>simp_all add: sched_core_def\<close>)
  then have "static_ok ?k1" by (simp add: static_ok_def requeued_def)
  moreover have "st ?k1 t = Some READY \<longleftrightarrow> t = n \<or> t \<in> ready ?k1" for t
    using rdy [of t] by (cases "t = ?c") (simp_all add: ready_def)
  moreover have "st ?k1 t \<noteq> Some RUNNING" for t
    using core unfolding requeued_fields sched_core_def by (cases "t = ?c") auto
  moreover have "st ?k1 e = Some BLOCKED" if "threadToBeDestroyed ?k1 = Some e" for e
  proof -
    have "st k e = Some BLOCKED" using core that by (simp add: sched_core_def)
    moreover from this have "e \<noteq> ?c" using run by auto
    ultimately show ?thesis by simp
  qed
  moreover have "n \<notin> ready ?k1" "distinct (map snd (readyList ?k1))" "sorted (map fst (readyList ?k1))"
    "st ?k1 (currentThread ?k1) \<noteq> None"
    using list c sorted_sorted_insert [OF list(2)] by (simp_all add: ready_def distinct_sorted_insert)
  ultimately show ?thesis unfolding can_switch_def by blast
qed

lemma sched_wf_current: "sched_wf k \<Longrightarrow> \<exists>th. threads k (currentThread k) = Some th \<and> t_status th = RUNNING"
  by (auto simp: sched_wf_def st_def)

lemma head_ready: "sched_wf k \<Longrightarrow> readyList k = (p, n) # rest \<Longrightarrow> st k n = Some READY"
  by (simp add: sched_wf_def sched_core_def ready_wf_def ready_def)

lemma head_neq: "sched_wf k \<Longrightarrow> readyList k = (p, n) # rest \<Longrightarrow> n \<noteq> currentThread k"
  using head_ready [of k p n rest] by (auto simp: sched_wf_def)

lemma requeued_saved:
  assumes "sched_wf k" and "readyList k = (p, n) # rest"
  shows "\<exists>thn. threads k n = Some thn \<and> saved (requeued th rest k) n = Some thn"
  using head_ready [OF assms] head_neq [OF assms] by (auto simp: st_def)

text \<open>\<open>Yield\<close>: the head of the ready list runs next, the yielding thread is queued behind every ready thread of at least its
  priority, and the invariant is kept.\<close>

lemma Yield_none: "readyList k = [] \<Longrightarrow> Yield k = Inr k"
  by (simp add: Yield_def FindNextToRun_def)

lemma Yield_Run:
  "threads k (currentThread k) = Some th \<Longrightarrow> readyList k = (p, n) # rest \<Longrightarrow> Yield k = Run n (requeued th rest k)"
  by (simp add: Yield_def FindNextToRun_def ReadyToRun_correct requeued_def)

lemma Yield_correct:
  assumes wf: "sched_wf k" and th: "threads k (currentThread k) = Some th" and head: "readyList k = (p, n) # rest"
  shows "\<exists>k'. Yield k = Inr k' \<and> sched_wf k' \<and> currentThread k' = n \<and> level k' = level k \<and>
    readyList k' = sorted_insert (c_int (- priority th)) (currentThread k) rest"
proof -
  have sw: "can_switch n (requeued th rest k)" by (rule requeued_can_switch [OF wf th head])
  obtain thn where thn: "saved (requeued th rest k) n = Some thn" using requeued_saved [OF wf head] by blast
  show ?thesis using dispatch_wf [OF sw thn] Yield_Run [OF th head] by auto
qed

section \<open>Sleep, Fork, Finish\<close>

text \<open>The state in which a sleeping thread leaves the processor. \<open>d\<close> is the thread marked for destruction: the one marked
  before, or the sleeper itself when it is finishing.\<close>

definition asleep :: "Thread \<Rightarrow> nat option \<Rightarrow> (int \<times> nat) list \<Rightarrow> 'm kernel_scheme \<Rightarrow> 'm kernel_scheme" where
  "asleep th d rest k = k\<lparr>threadToBeDestroyed := d, threads := (threads k)(currentThread k \<mapsto> th\<lparr>t_status := BLOCKED\<rparr>), readyList := rest\<rparr>"

lemma asleep_fields [simp]:
  "currentThread (asleep th d rest k) = currentThread k" "readyList (asleep th d rest k) = rest" "level (asleep th d rest k) = level k"
  "threadToBeDestroyed (asleep th d rest k) = d" "st (asleep th d rest k) = (st k)(currentThread k \<mapsto> BLOCKED)"
  "threads (asleep th d rest k) = (threads k)(currentThread k \<mapsto> th\<lparr>t_status := BLOCKED\<rparr>)"
  by (simp_all add: asleep_def st_def fun_eq_iff)

lemma asleep_can_switch:
  assumes wf: "sched_wf k" and th: "threads k (currentThread k) = Some th" and head: "readyList k = (p, n) # rest"
    and d: "d = threadToBeDestroyed k \<or> d = Some (currentThread k)"
  shows "can_switch n (asleep th d rest k)"
proof -
  let ?c = "currentThread k" and ?k1 = "asleep th d rest k"
  have core: "sched_core k" and run: "st k ?c = Some RUNNING" using wf by (simp_all add: sched_wf_def)
  have rdy: "st k t = Some READY \<longleftrightarrow> t = n \<or> t \<in> snd ` set rest" for t
    using core head by (simp add: sched_core_def ready_wf_def ready_def)
  have list: "n \<notin> snd ` set rest" "sorted (map fst rest)" "distinct (map snd rest)"
    using core head by (simp_all add: sched_core_def ready_wf_def)
  have c: "n \<noteq> ?c" "?c \<notin> snd ` set rest" using rdy [of ?c] run by auto
  have "static_ok (k\<lparr>threads := (threads k)(?c \<mapsto> th\<lparr>t_status := BLOCKED\<rparr>)\<rparr>)"
    by (rule static_ok_update [OF _ th]) (use core in \<open>simp_all add: sched_core_def\<close>)
  then have "static_ok ?k1" by (simp add: static_ok_def asleep_def)
  moreover have "st ?k1 t = Some READY \<longleftrightarrow> t = n \<or> t \<in> ready ?k1" for t
    using rdy [of t] c by (simp add: ready_def)
  moreover have "st ?k1 t \<noteq> Some RUNNING" for t
    using core unfolding asleep_fields sched_core_def by (cases "t = ?c") auto
  moreover have "st ?k1 e = Some BLOCKED" if "threadToBeDestroyed ?k1 = Some e" for e
    using core that d unfolding asleep_fields sched_core_def by (cases "e = ?c") auto
  moreover have "n \<notin> ready ?k1" "distinct (map snd (readyList ?k1))" "sorted (map fst (readyList ?k1))"
    "st ?k1 (currentThread ?k1) \<noteq> None"
    using list c by (simp_all add: ready_def)
  ultimately show ?thesis unfolding can_switch_def by blast
qed

text \<open>\<open>Sleep\<close> with a thread ready: the sleeper is blocked, the head of the ready list runs.\<close>

lemma Sleep_correct:
  assumes wf: "sched_wf k" and off: "level k = IntOff" and head: "readyList k = (p, n) # rest" and thn: "threads k n = Some thn"
    and d: "d = threadToBeDestroyed k \<or> d = Some (currentThread k)"
  shows "\<exists>k'. Sleep idle (k\<lparr>threadToBeDestroyed := d\<rparr>) = Some (Inr k') \<and> sched_wf k' \<and> currentThread k' = n \<and>
    readyList k' = rest \<and> level k' = IntOff \<and>
    (\<forall>t. t \<noteq> n \<longrightarrow> st k' t = (if t_started thn \<and> d = Some t then None else if t = currentThread k then Some BLOCKED else st k t)) \<and>
    threadToBeDestroyed k' = (if t_started thn then None else d)"
proof -
  let ?c = "currentThread k"
  obtain th where th: "threads k ?c = Some th" using sched_wf_current [OF wf] by blast
  let ?k1 = "asleep th d rest k"
  have sw: "can_switch n ?k1" by (rule asleep_can_switch [OF wf th head d])
  have "saved ?k1 n = Some thn" using thn head_neq [OF wf head] by simp
  from dispatch_wf [OF sw this] obtain k' where k': "Run n ?k1 = Inr k'" "sched_wf k'" "currentThread k' = n" "readyList k' = rest"
    "level k' = level k" "\<forall>t. st k' t = (if t = n then Some RUNNING else if t_started thn \<and> d = Some t then None else st ?k1 t)"
    "threadToBeDestroyed k' = (if t_started thn then None else d)" by auto
  have "Sleep idle (k\<lparr>threadToBeDestroyed := d\<rparr>) = Some (Run n ?k1)"
    using off th head
    by (simp add: Sleep_def Sleep_begin_def thread_setStatus_def update_thread_eq Sleep_loop.simps FindNextToRun_def asleep_def)
  then show ?thesis using k' off by simp
qed

section \<open>Threads of equal priority\<close>

definition key :: "'m kernel_scheme \<Rightarrow> nat \<Rightarrow> int option" where
  "key k t = map_option (\<lambda>th. c_int (- priority th)) (threads k t)"

lemma Run_threads:
  assumes "can_switch n k" and "saved k n = Some th"
  shows "\<exists>k'. Run n k = Inr k' \<and> threads k' = (\<lambda>t. if t \<noteq> n \<and> t_started th \<and> threadToBeDestroyed k = Some t then None
    else if t = n then Some (th\<lparr>t_status := RUNNING, t_started := True\<rparr>) else saved k t) \<and>
    registers k' = (if t_started th \<and> t_space th \<noteq> None then userRegisters th else registers k) \<and> spaces k' = spaces k \<and>
    (t_started th \<longrightarrow> (\<forall>a sp. t_space th = Some a \<longrightarrow> spaces k a = Some sp \<longrightarrow>
       pageTable k' = sp_pageTable sp \<and> pageTableSize k' = sp_numPages sp))"
proof -
  obtain old where old: "threads k (currentThread k) = Some old" and ok: "static_ok k"
    using assms(1) by (auto simp: can_switch_def st_def)
  have dead: "d \<noteq> n \<and> threads k d \<noteq> None" if "threadToBeDestroyed k = Some d" for d
  proof -
    have "st k d = Some BLOCKED" "st k n = Some READY" using assms(1) that by (auto simp: can_switch_def)
    then show ?thesis by (auto simp: st_def)
  qed
  let ?k1 = "k\<lparr>currentThread := n, threads := (saved k)(n \<mapsto> th\<lparr>t_status := RUNNING, t_started := True\<rparr>)\<rparr>"
  have "Run n k = Inr (if t_started th then loaded th (buried ?k1) else ?k1)"
    using Run_correct [OF ok old assms(2) dead] by (simp add: Let_def)
  moreover have "pageTable (loaded th k2) = sp_pageTable sp \<and> pageTableSize (loaded th k2) = sp_numPages sp"
    if "t_space th = Some a" "spaces k2 a = Some sp" for a sp and k2 :: "'a kernel_scheme"
    using that by (simp add: loaded_def)
  moreover have "registers (loaded th k2) = (if t_space th \<noteq> None then userRegisters th else registers k2)" for k2 :: "'a kernel_scheme"
    by (auto simp: loaded_def Let_def split: option.split)
  ultimately show ?thesis
    by (intro exI [of _ "if t_started th then loaded th (buried ?k1) else ?k1"])
       (auto simp: fun_eq_iff dest: dead split: option.split)
qed

lemma key_saved: "map_option (\<lambda>th. c_int (- priority th)) (saved k t) = key k t"
  by (auto simp: saved_def key_def Let_def option.map_comp comp_def intro: option.map_cong)

lemma Yield_key:
  assumes "sched_wf k" and "threads k (currentThread k) = Some th" and "readyList k = (p, n) # rest" and "Yield k = Inr k'"
    and "st k' t \<noteq> None"
  shows "key k' t = key k t"
proof -
  have sw: "can_switch n (requeued th rest k)" by (rule requeued_can_switch [OF assms(1-3)])
  obtain thn where thn: "saved (requeued th rest k) n = Some thn" using requeued_saved [OF assms(1,3)] by blast
  have key1: "key (requeued th rest k) = key k" using assms(2) by (auto simp: key_def fun_eq_iff)
  obtain k2 where k2: "Run n (requeued th rest k) = Inr k2" "threads k2 = (\<lambda>t. if t \<noteq> n \<and> t_started thn \<and> threadToBeDestroyed k = Some t
      then None else if t = n then Some (thn\<lparr>t_status := RUNNING, t_started := True\<rparr>) else saved (requeued th rest k) t)"
    using Run_threads [OF sw thn] by auto
  then have "k2 = k'" using assms(4) Yield_Run [OF assms(2,3)] by simp
  then have "threads k' t \<noteq> None" "key k' t = key (requeued th rest k) t"
    using assms(5) k2(2) thn key_saved [of "requeued th rest k" t]
    by (auto simp: key_def st_def split: if_splits)
  then show ?thesis by (simp add: key1)
qed

text \<open>The run queue: the running thread, then the ready ones. All of them have the same priority.\<close>

definition run_queue :: "'m kernel_scheme \<Rightarrow> nat list" where
  "run_queue k = currentThread k # map snd (readyList k)"

definition uniform :: "int \<Rightarrow> 'm kernel_scheme \<Rightarrow> bool" where
  "uniform q k \<longleftrightarrow> (\<forall>t \<in> set (run_queue k). key k t = Some q) \<and> (\<forall>e \<in> set (readyList k). fst e = q)"

lemma sorted_insert_uniform: "\<forall>e \<in> set xs. fst e = q \<Longrightarrow> sorted_insert q x xs = xs @ [(q, x)]"
  by (induction xs) (auto simp: sorted_insert_Cons)

lemma run_queue_st: "sched_wf k \<Longrightarrow> t \<in> set (run_queue k) \<Longrightarrow> st k t \<noteq> None"
  by (auto simp: run_queue_def sched_wf_def sched_core_def ready_wf_def ready_def)

lemma Yield_rotates:
  assumes wf: "sched_wf k" and u: "uniform q k"
  shows "\<exists>k'. Yield k = Inr k' \<and> sched_wf k' \<and> uniform q k' \<and> run_queue k' = rotate1 (run_queue k)"
proof (cases "readyList k")
  case Nil
  then show ?thesis using wf u by (simp add: Yield_none run_queue_def)
next
  case (Cons e rest)
  obtain p n where e: "e = (p, n)" by force
  obtain th where th: "threads k (currentThread k) = Some th" using sched_wf_current [OF wf] by blast
  have q: "c_int (- priority th) = q" using u th by (simp add: uniform_def run_queue_def key_def)
  obtain k' where k': "Yield k = Inr k'" "sched_wf k'" "currentThread k' = n"
    "readyList k' = sorted_insert (c_int (- priority th)) (currentThread k) rest"
    using Yield_correct [OF wf th] Cons e by blast
  have list: "readyList k' = rest @ [(q, currentThread k)]"
    using k'(4) u Cons q by (simp add: uniform_def sorted_insert_uniform)
  have rot: "run_queue k' = rotate1 (run_queue k)" using k'(3) list Cons e by (simp add: run_queue_def)
  have "key k' t = Some q" if "t \<in> set (run_queue k')" for t
    using Yield_key [OF wf th _ k'(1) run_queue_st [OF k'(2) that]] u that Cons e rot
    by (simp add: uniform_def)
  then have "uniform q k'" using u list Cons by (auto simp: uniform_def)
  then show ?thesis using k'(1,2) rot by blast
qed

fun yields :: "nat \<Rightarrow> 'm kernel_scheme \<Rightarrow> 'm kernel_scheme res" where
  "yields 0 k = Inr k"
| "yields (Suc i) k = bindR (Yield k) (yields i)"

lemma yields_rotate:
  "sched_wf k \<Longrightarrow> uniform q k \<Longrightarrow>
   \<exists>k'. yields i k = Inr k' \<and> sched_wf k' \<and> uniform q k' \<and> run_queue k' = rotate i (run_queue k)"
proof (induction i arbitrary: k)
  case (Suc i)
  obtain k1 where k1: "Yield k = Inr k1" "sched_wf k1" "uniform q k1" "run_queue k1 = rotate1 (run_queue k)"
    using Yield_rotates [OF Suc.prems] by blast
  obtain k2 where "yields i k1 = Inr k2" "sched_wf k2" "uniform q k2" "run_queue k2 = rotate i (run_queue k1)"
    using Suc.IH [OF k1(2,3)] by blast
  then show ?case using k1 by (simp add: rotate1_rotate_swap)
qed simp

section \<open>Frame\<close>

lemma sched_wf_not_dead: "sched_wf k \<Longrightarrow> threadToBeDestroyed k \<noteq> Some (currentThread k)"
  unfolding sched_wf_def sched_core_def by (metis option.inject ThreadStatus.distinct(9))

lemma sched_wf_user_frame [simp]:
  "sched_wf (k\<lparr>registers := r, mainMemory := mm, pageTable := pt, pageTableSize := ps\<rparr>) = sched_wf k"
  by (simp add: sched_wf_def sched_core_def ready_wf_def static_ok_def st_def ready_def)

section \<open>Properties\<close>

text \<open>C20. \<open>Yield\<close> keeps the scheduler's invariant (one running thread, every ready thread queued exactly once, the queue in the order of the
  keys) and never stops. With no thread ready it changes nothing; otherwise the processor goes to the head of the ready list, always another thread
  than the caller, whatever their priorities, and the caller is queued behind every ready thread of its own or a higher
  priority and in front of those of a lower one.\<close>

theorem Yield_scheduling:
  assumes "sched_wf k" and "threads k (currentThread k) = Some th"
  shows "case readyList k of
      [] \<Rightarrow> Yield k = Inr k
    | (p, n) # rest \<Rightarrow> \<exists>k'. Yield k = Inr k' \<and> sched_wf k' \<and> currentThread k' = n \<and> n \<noteq> currentThread k \<and>
        readyList k' = takeWhile (\<lambda>e. fst e \<le> c_int (- priority th)) rest @ [(c_int (- priority th), currentThread k)] @
          dropWhile (\<lambda>e. fst e \<le> c_int (- priority th)) rest"
proof (cases "readyList k")
  case Nil
  then show ?thesis by (simp add: Yield_none)
next
  case (Cons e rest)
  obtain p n where e: "e = (p, n)" by force
  then have head: "readyList k = (p, n) # rest" using Cons by simp
  have "n \<noteq> currentThread k" by (rule head_neq [OF assms(1) head])
  then show ?thesis using Yield_correct [OF assms head] head by (auto simp: sorted_insert_def case_prod_beta')
qed

definition two_threads :: kernel where
  "two_threads = Machine.extend (Machine_new (Interrupt_new (\<lambda>n. 0)) 0 0 False)
     (kernel.fields [0 \<mapsto> \<lparr>t_name = [], t_status = RUNNING, t_stack = None, t_started = True, priority = 0, joinValue = 0,
          pipeValue = 0, inPipe = None, outPipe = None, isForked = 0, join = 0, readyToJoin = 0, t_cv = 0, t_lock = 0,
          userRegisters = replicate 40 0, t_space = Some 0\<rparr>,
        1 \<mapsto> \<lparr>t_name = [], t_status = READY, t_stack = Some STACK_FENCEPOST, t_started = False, priority = 0, joinValue = 0,
          pipeValue = 0, inPipe = None, outPipe = None, isForked = 1, join = 0, readyToJoin = 0, t_cv = 1, t_lock = 1,
          userRegisters = [], t_space = None\<rparr>]
      0 [(0, 1)] None
      [0 \<mapsto> \<lparr>sp_pageTable = Some 7, sp_numPages = 3, sp_argc = 0, sp_argv = [], currentExecutable = 0, threadCount = 1,
          backingStore = None, sp_storeID = 0\<rparr>])"

lemma two_threads_fields:
  "currentThread two_threads = 0" "readyList two_threads = [(0, 1)]" "threadToBeDestroyed two_threads = None"
  "level two_threads = IntOff" "sched_wf two_threads" "key two_threads 0 = Some 0" "key two_threads 1 = Some 0"
  "\<exists>th. threads two_threads 0 = Some th \<and> priority th = 0 \<and> t_space th = Some 0 \<and> t_started th"
  "\<exists>th. threads two_threads 1 = Some th \<and> \<not> t_started th" "\<exists>sp. spaces two_threads 0 = Some sp \<and> sp_pageTable sp = Some 7"
proof -
  note [simp] = two_threads_def Machine_new_def Interrupt_new_def isys.defs Machine.defs kernel.defs
  show "currentThread two_threads = 0" "readyList two_threads = [(0, 1)]" "threadToBeDestroyed two_threads = None"
    "level two_threads = IntOff" by simp_all
  show "key two_threads 0 = Some 0" "key two_threads 1 = Some 0" by (simp_all add: key_def c_int_def)
  show "\<exists>th. threads two_threads 0 = Some th \<and> priority th = 0 \<and> t_space th = Some 0 \<and> t_started th"
    "\<exists>th. threads two_threads 1 = Some th \<and> \<not> t_started th" "\<exists>sp. spaces two_threads 0 = Some sp \<and> sp_pageTable sp = Some 7" by simp_all
  show "sched_wf two_threads"
    by (auto simp: sched_wf_def sched_core_def ready_wf_def static_ok_def st_def ready_def split: if_splits)
qed

theorem Yield_scheduling_witness:
  "\<exists>k'. Yield two_threads = Inr k' \<and> sched_wf k' \<and> currentThread k' = 1 \<and> readyList k' = [(0, 0)]"
proof -
  obtain th where th: "threads two_threads (currentThread two_threads) = Some th" "priority th = 0"
    using two_threads_fields by auto
  show ?thesis
    using Yield_scheduling [OF two_threads_fields(5) th(1)] th(2) by (simp add: two_threads_fields c_int_def)
qed

text \<open>C36. Round robin: when the running thread and all ready threads have the same priority, \<open>i\<close> successive calls of \<open>Yield\<close> rotate the run
  queue by \<open>i\<close> places, so that each of the \<open>n\<close> threads has the processor exactly once in \<open>n\<close> calls and none waits
  longer.\<close>

theorem Yield_round_robin:
  assumes "sched_wf k" and "uniform q k"
  shows "\<exists>k'. yields i k = Inr k' \<and> sched_wf k' \<and> run_queue k' = rotate i (run_queue k) \<and>
    currentThread k' = run_queue k ! (i mod length (run_queue k))"
proof -
  obtain k' where k': "yields i k = Inr k'" "sched_wf k'" "run_queue k' = rotate i (run_queue k)"
    using yields_rotate [OF assms] by blast
  have "currentThread k' = hd (run_queue k')" by (simp add: run_queue_def)
  also have "\<dots> = run_queue k ! (i mod length (run_queue k))"
    unfolding k'(3) by (rule hd_rotate_conv_nth) (simp add: run_queue_def)
  finally show ?thesis using k' by blast
qed

theorem Yield_round_robin_witness: "\<exists>k'. yields 5 two_threads = Inr k' \<and> currentThread k' = 1"
proof -
  have "uniform 0 two_threads" by (simp add: uniform_def run_queue_def two_threads_fields del: One_nat_def)
  from Yield_round_robin [OF two_threads_fields(5) this, of 5] show ?thesis
    by (auto simp: run_queue_def two_threads_fields numeral_eq_Suc)
qed

text \<open>\<open>Sleep\<close> with a thread ready, called with interrupts off: it returns on the processor in the head of the ready list with the scheduler's
  invariant re-established, interrupts still off and the caller blocked, so that only a later \<open>ReadyToRun\<close> can make it
  run again. When the caller is finishing, its control block is freed by the thread switched to if that thread has run before.\<close>

theorem Sleep_dispatches:
  assumes "sched_wf k" and "level k = IntOff" and "readyList k = (p, n) # rest" and "threads k n = Some thn"
  shows "(\<exists>k'. Sleep idle k = Some (Inr k') \<and> sched_wf k' \<and> currentThread k' = n \<and> readyList k' = rest \<and>
      level k' = IntOff \<and> st k' (currentThread k) = Some BLOCKED) \<and>
    (\<exists>k'. Finish_end idle k = Some (Inr k') \<and> sched_wf k' \<and> currentThread k' = n \<and> readyList k' = rest \<and>
      st k' (currentThread k) = (if t_started thn then None else Some BLOCKED) \<and>
      threadToBeDestroyed k' = (if t_started thn then None else Some (currentThread k)))"
proof -
  obtain th where th: "threads k (currentThread k) = Some th" using sched_wf_current [OF assms(1)] by blast
  have neq: "currentThread k \<noteq> n" using head_neq [OF assms(1,3)] by simp
  have live: "threadToBeDestroyed k \<noteq> Some (currentThread k)" by (rule sched_wf_not_dead [OF assms(1)])
  show ?thesis
    using Sleep_correct [OF assms, of "threadToBeDestroyed k" idle] Sleep_correct [OF assms, of "Some (currentThread k)" idle] neq live
    by (auto simp: Finish_end_def)
qed

theorem Sleep_dispatches_witness:
  "\<exists>k'. Sleep (\<lambda>k. None) two_threads = Some (Inr k') \<and> currentThread k' = 1 \<and> st k' 0 = Some BLOCKED"
proof -
  obtain thn where thn: "threads two_threads 1 = Some thn" using two_threads_fields(9) by blast
  show ?thesis
    using Sleep_dispatches [OF two_threads_fields(5,4,2) thn, of "\<lambda>k. None"] by (auto simp: two_threads_fields)
qed

definition three_threads :: kernel where
  "three_threads = two_threads\<lparr>threads := (threads two_threads)(2 := threads two_threads 1), readyList := [(0, 1), (0, 2)]\<rparr>"

lemma three_threads_fields:
  "sched_wf three_threads" "level three_threads = IntOff" "readyList three_threads = [(0, 1), (0, 2)]" "currentThread three_threads = 0"
  "\<exists>th. threads three_threads 1 = Some th \<and> \<not> t_started th"
proof -
  show "level three_threads = IntOff" "readyList three_threads = [(0, 1), (0, 2)]" "currentThread three_threads = 0"
    "\<exists>th. threads three_threads 1 = Some th \<and> \<not> t_started th"
    using two_threads_fields by (simp_all add: three_threads_def)
  show "sched_wf three_threads"
    by (auto simp: three_threads_def two_threads_def Machine_new_def Interrupt_new_def isys.defs Machine.defs kernel.defs
        sched_wf_def sched_core_def ready_wf_def static_ok_def st_def ready_def split: if_splits)
qed

text \<open>C35. A finishing thread can be leaked: when thread \<open>a\<close> finishes and the next thread \<open>b\<close> is new, \<open>b\<close> starts at \<open>ThreadRoot\<close> and skips
  the deletion at the end of \<open>Run\<close>; when \<open>b\<close> finishes before any other switch it overwrites \<open>threadToBeDestroyed\<close>. The control block of
  \<open>a\<close> then stays allocated and is no longer marked for destruction.\<close>

theorem Finish_leaks_thread:
  assumes "sched_wf k" and "level k = IntOff" and "readyList k = (p, b) # (q, c) # rest"
    and "threads k b = Some thb" and "\<not> t_started thb" and "Finish_end idle k = Some (Inr k1)" and "Finish_end idle k1 = Some (Inr k2)"
  shows "threads k2 (currentThread k) \<noteq> None \<and> threadToBeDestroyed k2 \<noteq> Some (currentThread k)"
proof -
  let ?a = "currentThread k"
  have k1: "sched_wf k1" "currentThread k1 = b" "readyList k1 = (q, c) # rest" "level k1 = IntOff" "threadToBeDestroyed k1 = Some ?a"
    "?a \<noteq> b \<longrightarrow> st k1 ?a = Some BLOCKED"
    using Sleep_correct [OF assms(1-4), of "Some ?a" idle] assms(5,6) by (auto simp: Finish_end_def)
  have ab: "?a \<noteq> b" using sched_wf_not_dead [OF k1(1)] k1(2,5) by auto
  have "st k1 c = Some READY" by (rule head_ready [OF k1(1,3)])
  moreover from this have ac: "?a \<noteq> c" using k1(6) ab by auto
  ultimately obtain thc where thc: "threads k1 c = Some thc" by (auto simp: st_def)
  obtain k' where k': "Finish_end idle k1 = Some (Inr k')" "st k' ?a = Some BLOCKED"
    "threadToBeDestroyed k' = (if t_started thc then None else Some b)"
    using Sleep_correct [OF k1(1,4,3) thc, of "Some b" idle] k1(2,6) ab ac by (auto simp: Finish_end_def)
  then have "k' = k2" using assms(7) by simp
  then show ?thesis using k' ab by (auto simp: st_def)
qed

theorem Finish_leaks_thread_witness:
  "\<exists>k1 k2. Finish_end (\<lambda>k. None) three_threads = Some (Inr k1) \<and> Finish_end (\<lambda>k. None) k1 = Some (Inr k2) \<and>
     threads k2 0 \<noteq> None \<and> threadToBeDestroyed k2 \<noteq> Some 0"
proof -
  obtain thb where thb: "threads three_threads 1 = Some thb" "\<not> t_started thb" using three_threads_fields(5) by blast
  obtain k1 where k1: "Finish_end (\<lambda>k. None) three_threads = Some (Inr k1)" "sched_wf k1" "readyList k1 = [(0, 2)]" "level k1 = IntOff"
    "currentThread k1 = 1"
    using Sleep_correct [OF three_threads_fields(1,2,3) thb(1), of "Some (currentThread three_threads)" "\<lambda>k. None"]
    by (auto simp: Finish_end_def)
  have "st k1 2 = Some READY" by (rule head_ready [OF k1(2,3)])
  then obtain thc where "threads k1 2 = Some thc" by (auto simp: st_def)
  then obtain k2 where k2: "Finish_end (\<lambda>k. None) k1 = Some (Inr k2)"
    using Sleep_correct [OF k1(2,4,3), of thc "Some (currentThread k1)" "\<lambda>k. None"] by (auto simp: Finish_end_def)
  show ?thesis
    using Finish_leaks_thread [OF three_threads_fields(1,2,3) thb k1(1) k2] k1(1) k2 by (auto simp: three_threads_fields)
qed

end
