(* ===== verification/Synch.thy ===== *)
theory Synch
  imports Threads
begin

text \<open>
  Semaphores, locks and condition variables (\<^verbatim>\<open>src/code/threads/synch.cc\<close>).

  Each routine of the source runs with interrupts off, so it is atomic up to the point where it calls \<open>Sleep\<close>. A routine
  that may sleep inside a loop (\<open>Semaphore::P\<close>, \<open>Lock::Acquire\<close>) is given as one round of that loop, from the test of the
  condition on: the round either ends the routine (\<open>True\<close>), or queues the thread and marks it blocked (\<open>False\<close>), and the
  thread executes the next round when it has been made ready and dispatched again. \<open>Condition::Wait\<close> is the part before the
  sleep, followed by the rounds of \<open>Acquire\<close>.

  The step relation \<open>kstep\<close> interleaves these rounds for all threads in every order the scheduler can produce; its state pairs
  the kernel with the place each thread has in its current routine. The invariant of the reachable states gives mutual
  exclusion, the counting law of semaphores and the absence of lost wake-ups.
\<close>

section \<open>State\<close>

record Semaphore =
  "value" :: int
  s_queue :: "(int \<times> nat) list"

record Lock =
  locked :: int
  l_queue :: "(int \<times> nat) list"
  threadHeld :: "nat option"

record Condition =
  waitQ :: "(int \<times> nat) list"

record synch = kernel +
  sems :: "nat \<Rightarrow> Semaphore option"
  locks :: "nat \<Rightarrow> Lock option"
  conds :: "nat \<Rightarrow> Condition option"

definition Semaphore_new :: "int \<Rightarrow> Semaphore" where "Semaphore_new initialValue = \<lparr>value = initialValue, s_queue = []\<rparr>"
definition Lock_new :: Lock where "Lock_new = \<lparr>locked = 0, l_queue = [], threadHeld = None\<rparr>"
definition Condition_new :: Condition where "Condition_new = \<lparr>waitQ = []\<rparr>"

definition get_sem :: "nat \<Rightarrow> 'm synch_scheme \<Rightarrow> Semaphore res" where
  "get_sem s k = (case sems k s of None \<Rightarrow> Inl DanglingPointer | Some x \<Rightarrow> Inr x)"

definition get_lock :: "nat \<Rightarrow> 'm synch_scheme \<Rightarrow> Lock res" where
  "get_lock l k = (case locks k l of None \<Rightarrow> Inl DanglingPointer | Some x \<Rightarrow> Inr x)"

definition get_cond :: "nat \<Rightarrow> 'm synch_scheme \<Rightarrow> Condition res" where
  "get_cond c k = (case conds k c of None \<Rightarrow> Inl DanglingPointer | Some x \<Rightarrow> Inr x)"

definition put_sem :: "nat \<Rightarrow> Semaphore \<Rightarrow> 'm synch_scheme \<Rightarrow> 'm synch_scheme" where
  "put_sem s x k = k\<lparr>sems := (sems k)(s \<mapsto> x)\<rparr>"

definition put_lock :: "nat \<Rightarrow> Lock \<Rightarrow> 'm synch_scheme \<Rightarrow> 'm synch_scheme" where
  "put_lock l x k = k\<lparr>locks := (locks k)(l \<mapsto> x)\<rparr>"

definition put_cond :: "nat \<Rightarrow> Condition \<Rightarrow> 'm synch_scheme \<Rightarrow> 'm synch_scheme" where
  "put_cond c x k = k\<lparr>conds := (conds k)(c \<mapsto> x)\<rparr>"

text \<open>The key a thread queues itself with: \<open>currentThread->getPriority() * -1\<close>.\<close>

definition current_key :: "'m synch_scheme \<Rightarrow> int res" where
  "current_key k = bindR (getPriority (currentThread k) k) (\<lambda>p. Inr (c_int (p * - 1)))"

text \<open>\<open>queue->Remove()\<close> followed by \<open>ReadyToRun\<close> of the thread removed, if any.\<close>

definition wake :: "(int \<times> nat) list \<Rightarrow> 'm synch_scheme \<Rightarrow> ((int \<times> nat) list \<times> 'm synch_scheme) res" where
  "wake q k = (case q of [] \<Rightarrow> Inr ([], k) | (_, t) # r \<Rightarrow> bindR (ReadyToRun t k) (\<lambda>k. Inr (r, k)))"

section \<open>Semaphore\<close>

definition Semaphore_P :: "nat \<Rightarrow> 'm synch_scheme \<Rightarrow> (bool \<times> 'm synch_scheme) res" where
  "Semaphore_P s k =
     bindR (get_sem s k) (\<lambda>x.
       if value x = 0
       then bindR (current_key k) (\<lambda>q.
            let k = put_sem s (x\<lparr>s_queue := sorted_insert q (currentThread k) (s_queue x)\<rparr>) k
            in bindR (Sleep_begin k) (\<lambda>k. Inr (False, k)))
       else Inr (True, put_sem s (x\<lparr>value := value x - 1\<rparr>) k))"

definition Semaphore_V :: "nat \<Rightarrow> 'm synch_scheme \<Rightarrow> 'm synch_scheme res" where
  "Semaphore_V s k =
     bindR (get_sem s k) (\<lambda>x.
     bindR (wake (s_queue x) k) (\<lambda>(q, k).
       Inr (put_sem s (x\<lparr>s_queue := q, value := value x + 1\<rparr>) k)))"

definition Semaphore_delete :: "nat \<Rightarrow> 'm synch_scheme \<Rightarrow> 'm synch_scheme res" where
  "Semaphore_delete s k = bindR (get_sem s k) (\<lambda>_. Inr (k\<lparr>sems := (sems k)(s := None)\<rparr>))"

section \<open>Lock\<close>

definition isHeldByCurrentThread :: "Lock \<Rightarrow> 'm synch_scheme \<Rightarrow> bool" where
  "isHeldByCurrentThread x k \<longleftrightarrow> threadHeld x = Some (currentThread k)"

text \<open>\<open>Acquire\<close>: the assertion on entry, and the round of the loop.\<close>

definition Acquire_entry :: "nat \<Rightarrow> 'm synch_scheme \<Rightarrow> unit res" where
  "Acquire_entry l k = bindR (get_lock l k) (\<lambda>x. assertR (locked x = 0 \<or> \<not> isHeldByCurrentThread x k))"

definition Acquire_round :: "nat \<Rightarrow> 'm synch_scheme \<Rightarrow> (bool \<times> 'm synch_scheme) res" where
  "Acquire_round l k =
     bindR (get_lock l k) (\<lambda>x.
       if locked x = 1
       then bindR (current_key k) (\<lambda>q.
            let k = put_lock l (x\<lparr>l_queue := sorted_insert q (currentThread k) (l_queue x)\<rparr>) k
            in bindR (Sleep_begin k) (\<lambda>k. Inr (False, k)))
       else Inr (True, put_lock l (x\<lparr>locked := 1, threadHeld := Some (currentThread k)\<rparr>) k))"

definition Acquire :: "nat \<Rightarrow> 'm synch_scheme \<Rightarrow> (bool \<times> 'm synch_scheme) res" where
  "Acquire l k = bindR (Acquire_entry l k) (\<lambda>_. Acquire_round l k)"

definition Release :: "nat \<Rightarrow> 'm synch_scheme \<Rightarrow> 'm synch_scheme res" where
  "Release l k =
     bindR (get_lock l k) (\<lambda>x.
     bindR (assertR (locked x = 1)) (\<lambda>_.
     bindR (assertR (isHeldByCurrentThread x k)) (\<lambda>_.
     bindR (wake (l_queue x) k) (\<lambda>(q, k).
       Inr (put_lock l (x\<lparr>l_queue := q, locked := 0, threadHeld := None\<rparr>) k)))))"

definition Lock_delete :: "nat \<Rightarrow> 'm synch_scheme \<Rightarrow> 'm synch_scheme res" where
  "Lock_delete l k =
     bindR (get_lock l k) (\<lambda>x.
     bindR (assertR (locked x \<noteq> 1)) (\<lambda>_.
     bindR (assertR (l_queue x = [])) (\<lambda>_. Inr (k\<lparr>locks := (locks k)(l := None)\<rparr>))))"

section \<open>Condition\<close>

definition Wait :: "nat \<Rightarrow> nat \<Rightarrow> 'm synch_scheme \<Rightarrow> 'm synch_scheme res" where
  "Wait c conditionLock k =
     bindR (get_lock conditionLock k) (\<lambda>x.
     bindR (assertR (isHeldByCurrentThread x k)) (\<lambda>_.
     bindR (Release conditionLock k) (\<lambda>k.
     bindR (get_cond c k) (\<lambda>y.
     bindR (current_key k) (\<lambda>q.
       Sleep_begin (put_cond c (y\<lparr>waitQ := sorted_insert q (currentThread k) (waitQ y)\<rparr>) k))))))"

definition Signal :: "nat \<Rightarrow> nat \<Rightarrow> 'm synch_scheme \<Rightarrow> 'm synch_scheme res" where
  "Signal c conditionLock k =
     bindR (get_lock conditionLock k) (\<lambda>x.
     bindR (assertR (isHeldByCurrentThread x k)) (\<lambda>_.
     bindR (get_cond c k) (\<lambda>y.
     bindR (wake (waitQ y) k) (\<lambda>(q, k). Inr (put_cond c (y\<lparr>waitQ := q\<rparr>) k)))))"

text \<open>The loop of \<open>Broadcast\<close>.\<close>

fun wake_all :: "(int \<times> nat) list \<Rightarrow> 'm synch_scheme \<Rightarrow> 'm synch_scheme res" where
  "wake_all [] k = Inr k"
| "wake_all ((_, t) # r) k = bindR (ReadyToRun t k) (wake_all r)"

definition Broadcast :: "nat \<Rightarrow> nat \<Rightarrow> 'm synch_scheme \<Rightarrow> 'm synch_scheme res" where
  "Broadcast c conditionLock k =
     bindR (get_lock conditionLock k) (\<lambda>x.
     bindR (assertR (isHeldByCurrentThread x k)) (\<lambda>_.
     bindR (get_cond c k) (\<lambda>y.
     bindR (wake_all (waitQ y) k) (\<lambda>k. Inr (put_cond c (y\<lparr>waitQ := []\<rparr>) k)))))"

definition Condition_delete :: "nat \<Rightarrow> 'm synch_scheme \<Rightarrow> 'm synch_scheme res" where
  "Condition_delete c k =
     bindR (get_cond c k) (\<lambda>y.
     bindR (assertR (waitQ y = [])) (\<lambda>_. Inr (k\<lparr>conds := (conds k)(c := None)\<rparr>)))"

section \<open>Interleaving\<close>

text \<open>Where a thread is: outside the routines of this file, in the loop of \<open>P\<close> or \<open>Acquire\<close>, asleep in \<open>Wait\<close>, or in the last
  sleep of \<open>Finish\<close>. Each wait queue has a name, and a thread that is in a routine waits, or has waited, in one of them.\<close>

datatype place = Free | InP nat | InAcquire nat | InWait nat nat | Gone

datatype queue_name = SemQ nat | LockQ nat | CondQ nat

fun waits_in :: "place \<Rightarrow> queue_name option" where
  "waits_in (InP s) = Some (SemQ s)"
| "waits_in (InAcquire l) = Some (LockQ l)"
| "waits_in (InWait c l) = Some (CondQ c)"
| "waits_in Free = None"
| "waits_in Gone = None"

text \<open>What a step does to a semaphore or a lock: it takes it (\<open>P\<close> or \<open>Acquire\<close> completes), gives it back (\<open>V\<close>, \<open>Release\<close>, and
  \<open>Wait\<close> for its lock), or neither.\<close>

datatype event = Took queue_name | Gave queue_name | Tau

text \<open>One step of the kernel. Every rule but \<open>V\<close>, \<open>create\<close> and \<open>dispatch\<close> is executed by the running thread; \<open>V\<close> is also called by interrupt
  handlers, while the processor idles in the loop of \<open>Sleep\<close> too. \<open>dispatch\<close> is the end of that loop.\<close>

inductive kstep :: "'m synch_scheme \<times> (nat \<Rightarrow> place) \<Rightarrow> event \<Rightarrow> 'm synch_scheme \<times> (nat \<Rightarrow> place) \<Rightarrow> bool" where
  P_done: "st k (currentThread k) = Some RUNNING \<Longrightarrow> pc (currentThread k) \<in> {Free, InP s} \<Longrightarrow>
     Semaphore_P s k = Inr (True, k') \<Longrightarrow> kstep (k, pc) (Took (SemQ s)) (k', pc(currentThread k := Free))"
| P_blocks: "st k (currentThread k) = Some RUNNING \<Longrightarrow> pc (currentThread k) \<in> {Free, InP s} \<Longrightarrow>
     Semaphore_P s k = Inr (False, k') \<Longrightarrow> kstep (k, pc) Tau (k', pc(currentThread k := InP s))"
| V: "Semaphore_V s k = Inr k' \<Longrightarrow> kstep (k, pc) (Gave (SemQ s)) (k', pc)"
| Acquire_done: "st k (currentThread k) = Some RUNNING \<Longrightarrow> pc (currentThread k) = Free \<or> pc (currentThread k) = InWait c l \<Longrightarrow>
     Acquire l k = Inr (True, k') \<Longrightarrow> kstep (k, pc) (Took (LockQ l)) (k', pc(currentThread k := Free))"
| Acquire_blocks: "st k (currentThread k) = Some RUNNING \<Longrightarrow> pc (currentThread k) = Free \<or> pc (currentThread k) = InWait c l \<Longrightarrow>
     Acquire l k = Inr (False, k') \<Longrightarrow> kstep (k, pc) Tau (k', pc(currentThread k := InAcquire l))"
| Again_done: "st k (currentThread k) = Some RUNNING \<Longrightarrow> pc (currentThread k) = InAcquire l \<Longrightarrow>
     Acquire_round l k = Inr (True, k') \<Longrightarrow> kstep (k, pc) (Took (LockQ l)) (k', pc(currentThread k := Free))"
| Again_blocks: "st k (currentThread k) = Some RUNNING \<Longrightarrow> pc (currentThread k) = InAcquire l \<Longrightarrow>
     Acquire_round l k = Inr (False, k') \<Longrightarrow> kstep (k, pc) Tau (k', pc(currentThread k := InAcquire l))"
| Release: "st k (currentThread k) = Some RUNNING \<Longrightarrow> pc (currentThread k) = Free \<Longrightarrow> Release l k = Inr k' \<Longrightarrow>
     kstep (k, pc) (Gave (LockQ l)) (k', pc)"
| Wait: "st k (currentThread k) = Some RUNNING \<Longrightarrow> pc (currentThread k) = Free \<Longrightarrow> Wait c l k = Inr k' \<Longrightarrow>
     kstep (k, pc) (Gave (LockQ l)) (k', pc(currentThread k := InWait c l))"
| Signal: "st k (currentThread k) = Some RUNNING \<Longrightarrow> pc (currentThread k) = Free \<Longrightarrow> Signal c l k = Inr k' \<Longrightarrow>
     kstep (k, pc) Tau (k', pc)"
| Broadcast: "st k (currentThread k) = Some RUNNING \<Longrightarrow> pc (currentThread k) = Free \<Longrightarrow> Broadcast c l k = Inr k' \<Longrightarrow>
     kstep (k, pc) Tau (k', pc)"
| create: "threads k t = None \<Longrightarrow>
     kstep (k, pc) Tau (k\<lparr>threads := (threads k)(t \<mapsto> Thread_new junk nm j l c)\<rparr>, pc(t := Free))"
| fork: "st k (currentThread k) = Some RUNNING \<Longrightarrow> st k t = Some JUST_CREATED \<Longrightarrow> Fork t k = Inr k' \<Longrightarrow> kstep (k, pc) Tau (k', pc)"
| yield: "st k (currentThread k) = Some RUNNING \<Longrightarrow> Yield k = Inr k' \<Longrightarrow> kstep (k, pc) Tau (k', pc)"
| finish: "st k (currentThread k) = Some RUNNING \<Longrightarrow> pc (currentThread k) = Free \<Longrightarrow>
     Sleep_begin (k\<lparr>threadToBeDestroyed := Some (currentThread k)\<rparr>) = Inr k' \<Longrightarrow>
     kstep (k, pc) Tau (k', pc(currentThread k := Gone))"
| dispatch: "st k (currentThread k) \<noteq> Some RUNNING \<Longrightarrow> FindNextToRun k = (Some n, k1) \<Longrightarrow> Run n k1 = Inr k' \<Longrightarrow>
     kstep (k, pc) Tau (k', pc)"

text \<open>The wait queues and what is available of the object each belongs to: the value of a semaphore, whether a lock is free. Condition
  variables keep nothing.\<close>

definition queue_of :: "'m synch_scheme \<Rightarrow> queue_name \<Rightarrow> (int \<times> nat) list" where
  "queue_of k i = (case i of
     SemQ s \<Rightarrow> (case sems k s of None \<Rightarrow> [] | Some x \<Rightarrow> s_queue x)
   | LockQ l \<Rightarrow> (case locks k l of None \<Rightarrow> [] | Some x \<Rightarrow> l_queue x)
   | CondQ c \<Rightarrow> (case conds k c of None \<Rightarrow> [] | Some x \<Rightarrow> waitQ x))"

definition available :: "'m synch_scheme \<Rightarrow> queue_name \<Rightarrow> int" where
  "available k i = (case i of
     SemQ s \<Rightarrow> (case sems k s of None \<Rightarrow> 0 | Some x \<Rightarrow> value x)
   | LockQ l \<Rightarrow> (case locks k l of None \<Rightarrow> 0 | Some x \<Rightarrow> 1 - locked x)
   | CondQ c \<Rightarrow> 0)"

definition holder :: "'m synch_scheme \<Rightarrow> nat \<Rightarrow> nat option" where
  "holder k l = (case locks k l of None \<Rightarrow> None | Some x \<Rightarrow> threadHeld x)"

section \<open>The abstract queues\<close>

text \<open>The abstract state: the status of the threads, their places, the wait queues and what is available. A queue's waiters are blocked in it and
  all threads blocked in a routine are in its queue, by priority; whenever threads wait for something that is available, at least as many awake
  threads are on their way to take it as there are units of it: no wake-up is lost.\<close>

type_synonym view = "(nat \<Rightarrow> ThreadStatus option) \<times> (nat \<Rightarrow> place) \<times> (queue_name \<Rightarrow> (int \<times> nat) list) \<times> (queue_name \<Rightarrow> int)"

definition awake :: "(nat \<Rightarrow> ThreadStatus option) \<Rightarrow> (nat \<Rightarrow> place) \<Rightarrow> queue_name \<Rightarrow> nat set" where
  "awake S pc i = {t. waits_in (pc t) = Some i \<and> (S t = Some READY \<or> S t = Some RUNNING)}"

fun queues_ok :: "view \<Rightarrow> bool" where
  "queues_ok (S, pc, Q, av) \<longleftrightarrow>
     (\<forall>i. distinct (map snd (Q i)) \<and> sorted (map fst (Q i)) \<and>
          (\<forall>t. t \<in> snd ` set (Q i) \<longleftrightarrow> S t = Some BLOCKED \<and> waits_in (pc t) = Some i))"

fun tokens_ok :: "view \<Rightarrow> bool" where
  "tokens_ok (S, pc, Q, av) \<longleftrightarrow>
     finite {t. S t = Some READY \<or> S t = Some RUNNING} \<and> (\<forall>c. av (CondQ c) = 0) \<and>
     (\<forall>i. 0 \<le> av i \<and> (Q i \<noteq> [] \<longrightarrow> av i \<le> int (card (awake S pc i))))"

inductive vstep :: "view \<Rightarrow> event \<Rightarrow> view \<Rightarrow> bool" where
  take: "S t = Some RUNNING \<Longrightarrow> waits_in (pc t) \<in> {None, Some i} \<or> (\<exists>c. waits_in (pc t) = Some (CondQ c)) \<Longrightarrow> 0 < av i \<Longrightarrow>
    vstep (S, pc, Q, av) (Took i) (S, pc(t := Free), Q, av(i := av i - 1))"
| block: "S t = Some RUNNING \<Longrightarrow> waits_in (pc t) \<in> {None, Some i} \<or> (\<exists>c. waits_in (pc t) = Some (CondQ c)) \<Longrightarrow> av i = 0 \<Longrightarrow>
    waits_in pl = Some i \<Longrightarrow>
    vstep (S, pc, Q, av) Tau (S(t \<mapsto> BLOCKED), pc(t := pl), Q(i := sorted_insert p t (Q i)), av)"
| give_nobody: "Q i = [] \<Longrightarrow> (\<forall>c. i \<noteq> CondQ c) \<Longrightarrow> vstep (S, pc, Q, av) (Gave i) (S, pc, Q, av(i := av i + 1))"
| give: "Q i = (p, t) # r \<Longrightarrow> (\<forall>c. i \<noteq> CondQ c) \<Longrightarrow>
    vstep (S, pc, Q, av) (Gave i) (S(t \<mapsto> READY), pc, Q(i := r), av(i := av i + 1))"
| signal: "Q (CondQ c) = (p, t) # r \<Longrightarrow> vstep (S, pc, Q, av) Tau (S(t \<mapsto> READY), pc, Q(CondQ c := r), av)"
| leave: "S t = Some RUNNING \<Longrightarrow> pc t = Free \<Longrightarrow> vstep (S, pc, Q, av) Tau (S(t \<mapsto> BLOCKED), pc(t := Gone), Q, av)"
| appear: "S t = None \<Longrightarrow> vstep (S, pc, Q, av) Tau (S(t \<mapsto> JUST_CREATED), pc(t := Free), Q, av)"
| start: "S t = Some JUST_CREATED \<Longrightarrow> vstep (S, pc, Q, av) Tau (S(t \<mapsto> READY), pc, Q, av)"
| switch: "(\<And>t. S' t = Some BLOCKED \<longleftrightarrow> S t = Some BLOCKED \<and> (D = Some t \<longrightarrow> \<not> b)) \<Longrightarrow> (\<And>t. D = Some t \<Longrightarrow> pc t = Gone) \<Longrightarrow>
    (\<And>t. (S' t = Some READY \<or> S' t = Some RUNNING) = (S t = Some READY \<or> S t = Some RUNNING)) \<Longrightarrow>
    vstep (S, pc, Q, av) Tau (S', pc, Q, av)"

lemma distinct_sorted_insert_snd [simp]:
  "distinct (map snd (sorted_insert p t q)) \<longleftrightarrow> t \<notin> snd ` set q \<and> distinct (map snd q)"
  by (rule distinct_sorted_insert)

lemma queues_okD:
  assumes "queues_ok (S, pc, Q, av)"
  shows "distinct (map snd (Q i))" and "sorted (map fst (Q i))"
    and "t \<in> snd ` set (Q i) \<longleftrightarrow> S t = Some BLOCKED \<and> waits_in (pc t) = Some i"
  using assms by simp_all

lemma queues_head:
  assumes ok: "queues_ok (S, pc, Q, av)" and q: "Q i = (p, t) # r"
  shows "S t = Some BLOCKED" and "waits_in (pc t) = Some i" and "t \<notin> snd ` set r" and "distinct (map snd r)" and "sorted (map fst r)"
  using queues_okD(1,2) [OF ok, of i] queues_okD(3) [OF ok, of t i] q by simp_all

lemma queues_wake:
  assumes ok: "queues_ok (S, pc, Q, av)" and q: "Q i = (p, t) # r"
  shows "queues_ok (S(t \<mapsto> READY), pc, Q(i := r), av')"
proof -
  note h = queues_head [OF ok q]
  have "u \<in> snd ` set ((Q(i := r)) j) \<longleftrightarrow> (S(t \<mapsto> READY)) u = Some BLOCKED \<and> waits_in (pc u) = Some j" for u j
    using h queues_okD(3) [OF ok, of u j] q by (cases "u = t") auto
  then show ?thesis using h(4,5) queues_okD(1,2) [OF ok] by simp
qed

lemma vstep_queues: "vstep v e v' \<Longrightarrow> queues_ok v \<Longrightarrow> queues_ok v'"
proof (induction rule: vstep.induct)
  case (block S t pc i av pl Q p)
  have "t \<notin> snd ` set (Q j)" for j using block by auto
  then show ?case using block sorted_sorted_insert [of "Q i" p t] by auto
next
  case (give Q i p t r S pc av)
  then show ?case by (intro queues_wake)
next
  case (signal Q c p t r S pc av)
  then show ?case by (intro queues_wake)
next
  case (switch S' S D b pc Q av)
  then have "S' t = Some BLOCKED \<and> waits_in (pc t) = Some i \<longleftrightarrow> S t = Some BLOCKED \<and> waits_in (pc t) = Some i" for t i
    by (cases "D = Some t") auto
  then show ?case using switch(4) by simp
qed auto

lemma finite_awake: "tokens_ok (S, pc, Q, av) \<Longrightarrow> finite (awake S pc' i)"
  by (rule finite_subset [of _ "{t. S t = Some READY \<or> S t = Some RUNNING}"]) (auto simp: awake_def)

lemma tokens_okD:
  assumes "tokens_ok (S, pc, Q, av)"
  shows "finite {t. S t = Some READY \<or> S t = Some RUNNING}" and "av (CondQ c) = 0" and "0 \<le> av i"
    and "Q i \<noteq> [] \<Longrightarrow> av i \<le> int (card (awake S pc i))"
  using assms by simp_all

text \<open>The token law for one queue when the awake set changes.\<close>

lemma token_mono:
  assumes "tokens_ok (S, pc, Q, av)" and "awake S pc i \<subseteq> awake S' pc' i" and "finite (awake S' pc' i)" and "Q i \<noteq> []"
  shows "av i \<le> int (card (awake S' pc' i))"
  using tokens_okD(4) [OF assms(1,4)] card_mono [OF assms(3,2)] by linarith

lemma tokens_frame:
  assumes ok: "tokens_ok (S, pc, Q, av)" and fin: "finite {t. S' t = Some READY \<or> S' t = Some RUNNING}"
    and aw: "\<And>i. av i \<noteq> 0 \<Longrightarrow> Q' i \<noteq> [] \<Longrightarrow> Q i \<noteq> [] \<and> awake S pc i \<subseteq> awake S' pc' i"
  shows "tokens_ok (S', pc', Q', av)"
proof -
  have "finite (awake S' pc' i)" for i
    by (rule finite_subset [OF _ fin]) (auto simp: awake_def)
  then have "av i \<le> int (card (awake S' pc' i))" if "Q' i \<noteq> []" for i
    using token_mono [OF ok, of i S' pc'] aw [OF _ that] by (cases "av i = 0") auto
  then show ?thesis using fin tokens_okD(2,3) [OF ok] by simp
qed

lemma tokens_take:
  assumes ok: "tokens_ok (S, pc, Q, av)" and pos: "0 < av i"
    and at: "waits_in (pc t) \<in> {None, Some i} \<or> (\<exists>c. waits_in (pc t) = Some (CondQ c))"
  shows "tokens_ok (S, pc(t := Free), Q, av(i := av i - 1))"
proof -
  have aw: "awake S (pc(t := Free)) j = awake S pc j - {t}" for j by (auto simp: awake_def)
  have "(av(i := av i - 1)) j \<le> int (card (awake S pc j - {t}))" if "Q j \<noteq> []" for j
  proof (cases "j = i")
    case True
    then show ?thesis
      using tokens_okD(4) [OF ok that] card_Diff1_le [of "awake S pc i" t] card_Suc_Diff1 [OF finite_awake [OF ok], of t pc i]
      by (cases "t \<in> awake S pc i") auto
  next
    case False
    then have "(\<exists>c. j = CondQ c) \<or> t \<notin> awake S pc j" using at by (auto simp: awake_def)
    then show ?thesis using False tokens_okD(2) [OF ok] tokens_okD(4) [OF ok that] by auto
  qed
  then show ?thesis using tokens_okD(1,2,3) [OF ok] pos aw by (auto simp: less_le)
qed

lemma awake_wake:
  assumes "waits_in (pc t) = Some i" and "S t = Some BLOCKED"
  shows "awake (S(t \<mapsto> READY)) pc j = (if j = i then insert t (awake S pc i) else awake S pc j)" and "t \<notin> awake S pc j"
  using assms by (auto simp: awake_def)

lemma finite_status_wake:
  "finite {u. S u = Some READY \<or> S u = Some RUNNING} \<Longrightarrow> finite {u. (S(t \<mapsto> s)) u = Some READY \<or> (S(t \<mapsto> s)) u = Some RUNNING}"
  by (rule finite_subset [of _ "insert t {u. S u = Some READY \<or> S u = Some RUNNING}"]) auto

lemma tokens_give:
  assumes ok: "tokens_ok (S, pc, Q, av)" and qs: "queues_ok (S, pc, Q, av)" and q: "Q i = (p, t) # r" and i: "\<forall>c. i \<noteq> CondQ c"
  shows "tokens_ok (S(t \<mapsto> READY), pc, Q(i := r), av(i := av i + 1))"
proof -
  note aw = awake_wake [where S = S and pc = pc, OF queues_head(2,1) [OF qs q]]
  have "(av(i := av i + 1)) j \<le> int (card (awake (S(t \<mapsto> READY)) pc j))" if "(Q(i := r)) j \<noteq> []" for j
    using tokens_okD(4) [OF ok, of j] that q aw finite_awake [OF ok, of pc] by (auto split: if_splits)
  then show ?thesis using finite_status_wake [OF tokens_okD(1) [OF ok], of t READY] tokens_okD(2,3) [OF ok] i
    by (auto simp: add_nonneg_pos less_imp_le)
qed

lemma vstep_tokens: "vstep v e v' \<Longrightarrow> queues_ok v \<Longrightarrow> tokens_ok v \<Longrightarrow> tokens_ok v'"
proof (induction rule: vstep.induct)
  case (take S t pc i av Q)
  then show ?case by (intro tokens_take)
next
  case (block S t pc i av pl Q p)
  show ?case
  proof (rule tokens_frame [OF block(6) finite_status_wake [OF tokens_okD(1) [OF block(6)]]])
    show "Q j \<noteq> [] \<and> awake S pc j \<subseteq> awake (S(t \<mapsto> BLOCKED)) (pc(t := pl)) j"
      if "av j \<noteq> 0" "(Q(i := sorted_insert p t (Q i))) j \<noteq> []" for j
      using block that tokens_okD(2) [OF block(6)] by (auto simp: awake_def split: if_splits)
  qed
next
  case (give Q i p t r S pc av)
  then show ?case by (intro tokens_give)
next
  case (signal Q c p t r S pc av)
  note aw = awake_wake [where S = S and pc = pc, OF queues_head(2,1) [OF signal(2,1)]]
  show ?case
    by (rule tokens_frame [OF signal(3) finite_status_wake [OF tokens_okD(1) [OF signal(3)]]])
       (use aw(2) tokens_okD(2) [OF signal(3)] in \<open>auto simp: awake_def split: if_splits\<close>)
next
  case (leave S t pc Q av)
  show ?case
    by (rule tokens_frame [OF leave(4) finite_status_wake [OF tokens_okD(1) [OF leave(4)]]]) (use leave in \<open>auto simp: awake_def\<close>)
next
  case (appear S t pc Q av)
  show ?case
    by (rule tokens_frame [OF appear(3) finite_status_wake [OF tokens_okD(1) [OF appear(3)]]]) (use appear in \<open>auto simp: awake_def\<close>)
next
  case (start S t pc Q av)
  show ?case
    by (rule tokens_frame [OF start(3) finite_status_wake [OF tokens_okD(1) [OF start(3)]]]) (use start in \<open>auto simp: awake_def\<close>)
next
  case (switch S' S D b pc Q av)
  show ?case
    by (rule tokens_frame [OF switch(5)]) (use switch(3) tokens_okD(1) [OF switch(5)] in \<open>auto simp: awake_def\<close>)
next
  case (give_nobody Q i S pc av)
  then show ?case by (auto simp: add_nonneg_pos less_imp_le)
qed

section \<open>What the routines do to the scheduler's state\<close>

text \<open>The fields of the synchronization objects are the extension of the kernel record: a routine that keeps \<open>kernel.more\<close> keeps them.\<close>

lemma synch_fields_more: "kernel.more k' = kernel.more k \<Longrightarrow> sems k' = sems k \<and> locks k' = locks k \<and> conds k' = conds k"
  by (cases k, cases k') simp

definition keeps :: "'m kernel_scheme \<Rightarrow> 'm kernel_scheme \<Rightarrow> bool" where
  "keeps k k' \<longleftrightarrow> currentThread k' = currentThread k \<and> threadToBeDestroyed k' = threadToBeDestroyed k \<and> level k' = level k \<and>
     kernel.more k' = kernel.more k"

lemma sched_coreD:
  assumes "sched_core k"
  shows "ready_wf k" "static_ok k" "st k (currentThread k) \<noteq> None" "st k t = Some RUNNING \<Longrightarrow> t = currentThread k"
    "threadToBeDestroyed k = Some t \<Longrightarrow> st k t = Some BLOCKED"
  using assms by (simp_all add: sched_core_def)

lemma ReadyToRun_core:
  assumes core: "sched_core k" and t: "threads k t = Some th" "t_status th \<in> {BLOCKED, JUST_CREATED}" and d: "threadToBeDestroyed k \<noteq> Some t"
  shows "\<exists>k'. ReadyToRun t k = Inr k' \<and> sched_core k' \<and> st k' = (st k)(t \<mapsto> READY) \<and> keeps k k'"
proof -
  let ?k1 = "k\<lparr>threads := (threads k)(t \<mapsto> th\<lparr>t_status := READY\<rparr>)\<rparr>"
  let ?k' = "?k1\<lparr>readyList := sorted_insert (c_int (- priority th)) t (readyList k)\<rparr>"
  have r: "ReadyToRun t k = Inr ?k'" using ReadyToRun_correct [OF t(1)] by simp
  have "static_ok ?k1"
    by (rule static_ok_update [OF sched_coreD(2) [OF core] t(1)]) simp_all
  then have "static_ok ?k'" by simp
  moreover have "ready_wf ?k'"
  proof -
    have "t_status th \<noteq> READY" using t(2) by auto
    then show ?thesis using ReadyToRun_ready_wf [OF sched_coreD(1) [OF core] t(1)] r by auto
  qed
  moreover have "st ?k' = (st k)(t \<mapsto> READY)" by simp
  ultimately have "sched_core ?k'" using sched_coreD(3-5) [OF core] d unfolding sched_core_def by auto
  then show ?thesis using r by (auto simp: keeps_def)
qed

lemma Sleep_begin_core:
  assumes wf: "sched_wf k" and r: "Sleep_begin (k\<lparr>threadToBeDestroyed := d\<rparr>) = Inr k'"
    and d: "d = threadToBeDestroyed k \<or> d = Some (currentThread k)"
  shows "sched_core k' \<and> st k' = (st k)(currentThread k \<mapsto> BLOCKED) \<and> keeps (k\<lparr>threadToBeDestroyed := d\<rparr>) k'"
proof -
  have core: "sched_core k" and run: "st k (currentThread k) = Some RUNNING" using wf by (simp_all add: sched_wf_def)
  obtain th where th: "threads k (currentThread k) = Some th" "t_status th = RUNNING" using sched_wf_current [OF wf] by blast
  have k': "k' = k\<lparr>threadToBeDestroyed := d, threads := (threads k)(currentThread k \<mapsto> th\<lparr>t_status := BLOCKED\<rparr>)\<rparr>"
    using r th by (auto simp: Sleep_begin_def thread_setStatus_def update_thread_eq bindR_eq_Inr)
  have "static_ok (k\<lparr>threads := (threads k)(currentThread k \<mapsto> th\<lparr>t_status := BLOCKED\<rparr>)\<rparr>)"
    by (rule static_ok_update [OF sched_coreD(2) [OF core] th(1)]) simp_all
  then have "static_ok k'" unfolding k' by (simp add: static_ok_def)
  moreover have st': "st k' = (st k)(currentThread k \<mapsto> BLOCKED)" unfolding k' by (simp add: st_def fun_eq_iff)
  moreover have "ready_wf k'"
  proof -
    have rdy: "st k t = Some READY \<longleftrightarrow> t \<in> ready k" for t using sched_coreD(1) [OF core] by (simp add: ready_wf_def)
    have "st k' t = Some READY \<longleftrightarrow> t \<in> ready k'" for t
      using rdy [of t] run by (cases "t = currentThread k") (simp_all add: st' [unfolded k'] k' ready_def)
    then show ?thesis using sched_coreD(1) [OF core] by (simp add: ready_wf_def k')
  qed
  moreover have "currentThread k' = currentThread k" "threadToBeDestroyed k' = d" by (simp_all add: k')
  ultimately have "sched_core k'" using sched_coreD(4,5) [OF core] d unfolding sched_core_def by auto
  then show ?thesis using st' by (simp add: keeps_def k')
qed

lemma Fork_core:
  assumes core: "sched_core k" and t: "st k t = Some JUST_CREATED" and r: "Fork t k = Inr k'"
  shows "sched_core k' \<and> st k' = (st k)(t \<mapsto> READY) \<and> keeps k k'"
proof -
  obtain th where th: "threads k t = Some th" "t_status th = JUST_CREATED" using t by (auto simp: st_def)
  let ?th = "th\<lparr>t_stack := Some STACK_FENCEPOST, t_started := False, isForked := 1\<rparr>"
  let ?k1 = "k\<lparr>threads := (threads k)(t \<mapsto> ?th)\<rparr>"
  have f: "Fork t k = ReadyToRun t ?k1"
    using th by (simp add: Fork_def StackAllocate_def update_thread_def get_thread_def)
  have st1: "st ?k1 = st k" using th t by (auto simp: st_def)
  have "static_ok ?k1" by (rule static_ok_update [OF sched_coreD(2) [OF core] th(1)]) simp_all
  then have core1: "sched_core ?k1"
    using sched_coreD(1,3-5) [OF core] unfolding sched_core_def ready_wf_def st1 by (simp add: ready_def)
  have "threadToBeDestroyed ?k1 \<noteq> Some t" using sched_coreD(5) [OF core, of t] t by auto
  then obtain k2 where "ReadyToRun t ?k1 = Inr k2" "sched_core k2" "st k2 = (st k)(t \<mapsto> READY)" "keeps ?k1 k2"
    using ReadyToRun_core [OF core1, of t ?th] th(2) st1 by auto
  then show ?thesis using r f by (simp add: keeps_def)
qed

text \<open>A context switch to the head of the ready list, from a state without a running thread.\<close>

lemma dispatch_can_switch:
  assumes core: "sched_core k" and run: "st k (currentThread k) \<noteq> Some RUNNING" and head: "readyList k = (p, n) # rest"
  shows "can_switch n (k\<lparr>readyList := rest\<rparr>)"
proof -
  have rdy: "distinct (map snd (readyList k))" "sorted (map fst (readyList k))" "\<And>t. st k t = Some READY \<longleftrightarrow> t \<in> ready k"
    using sched_coreD(1) [OF core] by (simp_all add: ready_wf_def)
  have "st k t \<noteq> Some RUNNING" for t using sched_coreD(4) [OF core, of t] run by blast
  then show ?thesis using sched_coreD(2,3,5) [OF core] rdy head by (simp add: can_switch_def ready_def)
qed

lemma Run_more: "Run n k = Inr k' \<Longrightarrow> kernel.more k' = kernel.more k"
  by (auto simp: Run_def Run_before_def Run_after_def save_user_def restore_user_def SaveUserState_def RestoreUserState_def
      AddrSpace_SaveState_def AddrSpace_RestoreState_def update_thread_def get_thread_def thread_setStatus_def Thread_delete_def
      Let_def bindR_eq_Inr split: option.splits if_splits)

section \<open>The kernel implements the abstract queues\<close>

definition view_of :: "'m synch_scheme \<Rightarrow> (nat \<Rightarrow> place) \<Rightarrow> view" where
  "view_of k pc = (st k, pc, queue_of k, available k)"

definition locks_ok :: "'m synch_scheme \<Rightarrow> bool" where
  "locks_ok k \<longleftrightarrow> (\<forall>l x. locks k l = Some x \<longrightarrow> (locked x = 0 \<and> threadHeld x = None) \<or> (locked x = 1 \<and> threadHeld x \<noteq> None))"

definition kinv :: "'m synch_scheme \<Rightarrow> (nat \<Rightarrow> place) \<Rightarrow> bool" where
  "kinv k pc \<longleftrightarrow> sched_core k \<and> (\<forall>d. threadToBeDestroyed k = Some d \<longrightarrow> pc d = Gone) \<and> locks_ok k \<and>
     queues_ok (view_of k pc) \<and> tokens_ok (view_of k pc)"

text \<open>A kernel step is a sequence of abstract steps of which at most one is visible.\<close>

inductive vrun :: "view \<Rightarrow> event \<Rightarrow> view \<Rightarrow> bool" where
  stay: "vrun v Tau v"
| visible: "vrun v Tau v1 \<Longrightarrow> vstep v1 e v2 \<Longrightarrow> vrun v e v2"
| silent: "vrun v e v1 \<Longrightarrow> vstep v1 Tau v2 \<Longrightarrow> vrun v e v2"

lemma vrun_single: "vstep v e v' \<Longrightarrow> vrun v e v'"
  by (rule vrun.visible [OF vrun.stay])

lemma vrun_inv: "vrun v e v' \<Longrightarrow> queues_ok v \<Longrightarrow> tokens_ok v \<Longrightarrow> queues_ok v' \<and> tokens_ok v'"
  by (induction rule: vrun.induct) (auto dest: vstep_queues vstep_tokens)

lemma keeps_synch: "keeps k k' \<Longrightarrow> sems k' = sems k \<and> locks k' = locks k \<and> conds k' = conds k"
  unfolding keeps_def by (metis synch_fields_more)

lemma queue_of_cong: "sems k' = sems k \<Longrightarrow> locks k' = locks k \<Longrightarrow> conds k' = conds k \<Longrightarrow>
   queue_of k' = queue_of k \<and> available k' = available k \<and> locks_ok k' = locks_ok k"
  by (auto simp: queue_of_def available_def locks_ok_def intro!: ext split: queue_name.split)

lemma put_fields [simp]:
  "queue_of (put_sem s x k) = (queue_of k)(SemQ s := s_queue x)" "available (put_sem s x k) = (available k)(SemQ s := value x)"
  "queue_of (put_lock l y k) = (queue_of k)(LockQ l := l_queue y)" "available (put_lock l y k) = (available k)(LockQ l := 1 - locked y)"
  "queue_of (put_cond c z k) = (queue_of k)(CondQ c := waitQ z)" "available (put_cond c z k) = available k"
  by (auto simp: put_sem_def put_lock_def put_cond_def queue_of_def available_def fun_eq_iff split: queue_name.split)

lemma put_sched [simp]:
  "st (put_sem s x k) = st k" "st (put_lock l y k) = st k" "st (put_cond c z k) = st k"
  "currentThread (put_sem s x k) = currentThread k" "currentThread (put_lock l y k) = currentThread k" "currentThread (put_cond c z k) = currentThread k"
  "threadToBeDestroyed (put_sem s x k) = threadToBeDestroyed k" "threadToBeDestroyed (put_lock l y k) = threadToBeDestroyed k"
  "threadToBeDestroyed (put_cond c z k) = threadToBeDestroyed k"
  "sched_core (put_sem s x k) = sched_core k" "sched_core (put_lock l y k) = sched_core k" "sched_core (put_cond c z k) = sched_core k"
  "locks (put_sem s x k) = locks k" "locks (put_lock l y k) = (locks k)(l \<mapsto> y)" "locks (put_cond c z k) = locks k"
  "level (put_sem s x k) = level k" "level (put_lock l y k) = level k" "level (put_cond c z k) = level k"
  "conds (put_lock l y k) = conds k" "conds (put_sem s x k) = conds k" "sems (put_lock l y k) = sems k" "sems (put_cond c z k) = sems k"
  by (auto simp: put_sem_def put_lock_def put_cond_def sched_core_def ready_wf_def static_ok_def st_def ready_def)

lemma kinvD:
  assumes "kinv k pc"
  shows "sched_core k" "threadToBeDestroyed k = Some d \<Longrightarrow> pc d = Gone" "locks_ok k"
    "queues_ok (st k, pc, queue_of k, available k)" "tokens_ok (st k, pc, queue_of k, available k)"
  using assms by (simp_all add: kinv_def view_of_def)

text \<open>The proof obligation of a kernel step.\<close>

lemma kinvI:
  assumes "kinv k pc" and "vrun (view_of k pc) e (view_of k' pc')" and "sched_core k'" and "locks_ok k'"
    and "\<And>d. threadToBeDestroyed k' = Some d \<Longrightarrow> pc' d = Gone"
  shows "vrun (view_of k pc) e (view_of k' pc') \<and> kinv k' pc'"
  using assms vrun_inv [OF assms(2)] by (auto simp: kinv_def)

text \<open>\<open>wake\<close> on one of the wait queues.\<close>

definition none_dead :: "'m kernel_scheme \<Rightarrow> (nat \<Rightarrow> place) \<Rightarrow> bool" where
  "none_dead k pc \<longleftrightarrow> (\<forall>d. threadToBeDestroyed k = Some d \<longrightarrow> pc d = Gone)"

lemma keeps_none_dead: "keeps k k' \<Longrightarrow> none_dead k' pc = none_dead k pc"
  by (simp add: keeps_def none_dead_def)

lemma keeps_trans: "keeps k k1 \<Longrightarrow> keeps k1 k2 \<Longrightarrow> keeps k k2"
  by (simp add: keeps_def)

lemma head_wakes:
  assumes core: "sched_core k" and dead: "none_dead k pc" and ok: "queues_ok (st k, pc, Q, av)" and q: "Q i = (p, t) # r"
  shows "\<exists>k'. ReadyToRun t k = Inr k' \<and> sched_core k' \<and> st k' = (st k)(t \<mapsto> READY) \<and> keeps k k'"
proof -
  note h = queues_head [OF ok q]
  obtain th where th: "threads k t = Some th" "t_status th = BLOCKED" using h(1) by (auto simp: st_def)
  have "threadToBeDestroyed k \<noteq> Some t" using h(2) dead by (auto simp: none_dead_def)
  then show ?thesis using ReadyToRun_core [OF core th(1)] th(2) by auto
qed

lemma wake_gives:
  assumes core: "sched_core k" and dead: "none_dead k pc" and ok: "queues_ok (st k, pc, Q, av)"
  shows "\<exists>r k'. wake (Q i) k = Inr (r, k') \<and> sched_core k' \<and> keeps k k' \<and> (\<forall>u. st k u \<noteq> Some BLOCKED \<longrightarrow> st k' u = st k u) \<and>
    ((\<forall>c. i \<noteq> CondQ c) \<longrightarrow> vrun (st k, pc, Q, av) (Gave i) (st k', pc, Q(i := r), av(i := av i + 1))) \<and>
    ((\<exists>c. i = CondQ c) \<longrightarrow> vrun (st k, pc, Q, av) Tau (st k', pc, Q(i := r), av))"
proof (cases "Q i")
  case Nil
  then have "Q(i := []) = Q" by auto
  then show ?thesis using Nil core vstep.give_nobody [of Q i "st k" pc av]
    by (auto simp: wake_def keeps_def intro: vrun_single vrun.stay)
next
  case (Cons e r)
  obtain p t where e: "e = (p, t)" by force
  then have q: "Q i = (p, t) # r" using Cons by simp
  obtain k' where k': "ReadyToRun t k = Inr k'" "sched_core k'" "st k' = (st k)(t \<mapsto> READY)" "keeps k k'"
    using head_wakes [where Q = Q, OF core dead ok q] by blast
  have "wake (Q i) k = Inr (r, k')" using q k'(1) by (simp add: wake_def)
  moreover have "vrun (st k, pc, Q, av) (Gave i) (st k', pc, Q(i := r), av(i := av i + 1))" if "\<forall>c. i \<noteq> CondQ c"
    unfolding k'(3) by (rule vrun_single, rule vstep.give) (use q that in auto)
  moreover have "vrun (st k, pc, Q, av) Tau (st k', pc, Q(i := r), av)" if "\<exists>c. i = CondQ c"
    using that q unfolding k'(3) by (auto intro!: vrun_single vstep.signal)
  moreover have "\<forall>u. st k u \<noteq> Some BLOCKED \<longrightarrow> st k' u = st k u" using queues_head(1) [OF ok q] k'(3) by auto
  ultimately show ?thesis using k'(2,4) by blast
qed

lemma vrun_trans: "vrun v1 e' v2 \<Longrightarrow> e' = Tau \<Longrightarrow> vrun v e v1 \<Longrightarrow> vrun v e v2"
  by (induction rule: vrun.induct) (auto intro: vrun.silent)

lemma wake_all_correct:
  assumes "sched_core k" and "none_dead k pc" and "queues_ok (st k, pc, Q, av)" and "Q (CondQ c) = q"
  shows "\<exists>k'. wake_all q k = Inr k' \<and> sched_core k' \<and> keeps k k' \<and>
    vrun (st k, pc, Q, av) Tau (st k', pc, Q(CondQ c := []), av)"
  using assms
proof (induction q arbitrary: k Q)
  case Nil
  then have "Q(CondQ c := []) = Q" by auto
  then show ?case using Nil by (auto simp: keeps_def intro: vrun.stay)
next
  case (Cons e r)
  obtain p t where e: "e = (p, t)" by force
  obtain k1 where k1: "ReadyToRun t k = Inr k1" "sched_core k1" "st k1 = (st k)(t \<mapsto> READY)" "keeps k k1"
    using head_wakes [where Q = Q, OF Cons.prems(1-3)] Cons.prems(4) e by blast
  have step: "vstep (st k, pc, Q, av) Tau (st k1, pc, Q(CondQ c := r), av)"
    unfolding k1(3) by (rule vstep.signal) (use Cons.prems(4) e in simp)
  have "queues_ok (st k1, pc, Q(CondQ c := r), av)" by (rule vstep_queues [OF step Cons.prems(3)])
  moreover have "none_dead k1 pc" using Cons.prems(2) keeps_none_dead [OF k1(4)] by simp
  ultimately obtain k2 where k2: "wake_all r k1 = Inr k2" "sched_core k2" "keeps k1 k2"
    "vrun (st k1, pc, Q(CondQ c := r), av) Tau (st k2, pc, Q(CondQ c := []), av)"
    using Cons.IH [OF k1(2), of "Q(CondQ c := r)"] by (auto simp del: fun_upd_apply queues_ok.simps simp add: fun_upd_same)
  have "vrun (st k, pc, Q, av) Tau (st k2, pc, Q(CondQ c := []), av)"
    by (rule vrun_trans [OF k2(4) _ vrun_single [OF step]]) simp
  moreover have "wake_all (e # r) k = Inr k2" using e k1(1) k2(1) by simp
  ultimately show ?case using k2(2) keeps_trans [OF k1(4) k2(3)] by blast
qed

section \<open>Each kernel step implements the abstract queues\<close>

lemma no_destroy_change [simp]: "k\<lparr>threadToBeDestroyed := threadToBeDestroyed k\<rparr> = (k :: 'm kernel_scheme)"
  by (cases k) simp

lemma block_step:
  assumes inv: "kinv k pc" and run: "st k (currentThread k) = Some RUNNING"
    and k1: "sched_core k1" "st k1 = st k" "currentThread k1 = currentThread k" "threadToBeDestroyed k1 = threadToBeDestroyed k" "locks_ok k1"
      "queue_of k1 = (queue_of k)(i := sorted_insert q (currentThread k) (queue_of k i))" "available k1 = available k"
    and sl: "Sleep_begin k1 = Inr k'" and i: "available k i = 0" "waits_in pl = Some i"
      "waits_in (pc (currentThread k)) \<in> {None, Some i} \<or> (\<exists>c. waits_in (pc (currentThread k)) = Some (CondQ c))"
  shows "vrun (view_of k pc) Tau (view_of k' (pc(currentThread k := pl))) \<and> kinv k' (pc(currentThread k := pl))"
proof -
  have wf1: "sched_wf k1" using k1(1-3) run by (simp add: sched_wf_def)
  have k': "sched_core k'" "st k' = (st k)(currentThread k \<mapsto> BLOCKED)" "keeps k1 k'"
    using Sleep_begin_core [OF wf1, of "threadToBeDestroyed k1"] sl k1(2,3) by auto
  have q': "queue_of k' = queue_of k1" "available k' = available k1" "locks_ok k' = locks_ok k1"
    using queue_of_cong keeps_synch [OF k'(3)] by auto
  have "vstep (view_of k pc) Tau (view_of k' (pc(currentThread k := pl)))"
    unfolding view_of_def k'(2) q' k1(6,7) by (rule vstep.block) (use run i in auto)
  then show ?thesis
  proof (intro kinvI [OF inv] vrun_single)
    show "locks_ok k'" using q'(3) k1(5) by simp
    show "(pc(currentThread k := pl)) d = Gone" if "threadToBeDestroyed k' = Some d" for d
    proof -
      have d: "threadToBeDestroyed k = Some d" using that k'(3) k1(4) by (simp add: keeps_def)
      then have "d \<noteq> currentThread k" using sched_coreD(5) [OF kinvD(1) [OF inv]] run by auto
      then show ?thesis using kinvD(2) [OF inv d] by simp
    qed
  qed (use k'(1) in auto)
qed

lemma take_step:
  assumes inv: "kinv k pc" and run: "st k (currentThread k) = Some RUNNING"
    and k1: "sched_core k1" "st k1 = st k" "threadToBeDestroyed k1 = threadToBeDestroyed k" "locks_ok k1"
      "queue_of k1 = queue_of k" "available k1 = (available k)(i := available k i - 1)"
    and i: "0 < available k i"
      "waits_in (pc (currentThread k)) \<in> {None, Some i} \<or> (\<exists>c. waits_in (pc (currentThread k)) = Some (CondQ c))"
  shows "vrun (view_of k pc) (Took i) (view_of k1 (pc(currentThread k := Free))) \<and> kinv k1 (pc(currentThread k := Free))"
proof (intro kinvI [OF inv] vrun_single)
  show "vstep (view_of k pc) (Took i) (view_of k1 (pc(currentThread k := Free)))"
    unfolding view_of_def k1(2,5,6) by (rule vstep.take) (use run i in auto)
  show "(pc(currentThread k := Free)) d = Gone" if "threadToBeDestroyed k1 = Some d" for d
  proof -
    have d: "threadToBeDestroyed k = Some d" using that k1(3) by simp
    then have "d \<noteq> currentThread k" using sched_coreD(5) [OF kinvD(1) [OF inv]] run by auto
    then show ?thesis using kinvD(2) [OF inv d] by simp
  qed
qed (use k1 in auto)

text \<open>The results of the routines.\<close>

lemma P_True:
  "Semaphore_P s k = Inr (True, k') \<Longrightarrow>
   \<exists>x. sems k s = Some x \<and> value x \<noteq> 0 \<and> k' = put_sem s (x\<lparr>value := value x - 1\<rparr>) k"
  by (auto simp: Semaphore_P_def get_sem_def bindR_eq_Inr Let_def split: option.splits if_splits)

lemma P_False:
  "Semaphore_P s k = Inr (False, k') \<Longrightarrow>
   \<exists>x q. sems k s = Some x \<and> value x = 0 \<and>
     Sleep_begin (put_sem s (x\<lparr>s_queue := sorted_insert q (currentThread k) (s_queue x)\<rparr>) k) = Inr k'"
  by (auto simp: Semaphore_P_def get_sem_def bindR_eq_Inr Let_def split: option.splits if_splits)

lemma Acquire_round_True:
  "Acquire_round l k = Inr (True, k') \<Longrightarrow>
   \<exists>x. locks k l = Some x \<and> locked x \<noteq> 1 \<and> k' = put_lock l (x\<lparr>locked := 1, threadHeld := Some (currentThread k)\<rparr>) k"
  by (auto simp: Acquire_round_def get_lock_def bindR_eq_Inr Let_def split: option.splits if_splits)

lemma Acquire_round_False:
  "Acquire_round l k = Inr (False, k') \<Longrightarrow>
   \<exists>x q. locks k l = Some x \<and> locked x = 1 \<and>
     Sleep_begin (put_lock l (x\<lparr>l_queue := sorted_insert q (currentThread k) (l_queue x)\<rparr>) k) = Inr k'"
  by (auto simp: Acquire_round_def get_lock_def bindR_eq_Inr Let_def split: option.splits if_splits)

lemma Acquire_Acquire_round: "Acquire l k = Inr r \<Longrightarrow> Acquire_round l k = Inr r"
  by (auto simp: Acquire_def bindR_eq_Inr)

lemma locks_ok_put [simp]:
  "locks_ok (put_sem s y k) = locks_ok k" "locks_ok (put_cond c z k) = locks_ok k"
  "locks_ok k \<Longrightarrow> locks k l = Some x \<Longrightarrow> locks_ok (put_lock l (x\<lparr>l_queue := q\<rparr>) k)"
  "locks_ok k \<Longrightarrow> locks_ok (put_lock l (x\<lparr>locked := 1, threadHeld := Some t\<rparr>) k)"
  "locks_ok k \<Longrightarrow> locks_ok (put_lock l (x\<lparr>l_queue := q, locked := 0, threadHeld := None\<rparr>) k)"
  by (auto simp: locks_ok_def)

lemma P_refines:
  assumes inv: "kinv k pc" and run: "st k (currentThread k) = Some RUNNING" and at: "pc (currentThread k) \<in> {Free, InP s}"
    and r: "Semaphore_P s k = Inr (b, k')"
  shows "vrun (view_of k pc) (if b then Took (SemQ s) else Tau) (view_of k' (pc(currentThread k := if b then Free else InP s))) \<and>
    kinv k' (pc(currentThread k := if b then Free else InP s))"
proof (cases b)
  case True
  then obtain x where x: "sems k s = Some x" "value x \<noteq> 0" "k' = put_sem s (x\<lparr>value := value x - 1\<rparr>) k" using P_True [of s k k'] r by auto
  have "available k (SemQ s) = value x" "queue_of k (SemQ s) = s_queue x" using x(1) by (simp_all add: available_def queue_of_def)
  moreover have "0 \<le> available k (SemQ s)" by (rule tokens_okD(3) [OF kinvD(5) [OF inv]])
  ultimately have "vrun (view_of k pc) (Took (SemQ s)) (view_of k' (pc(currentThread k := Free))) \<and> kinv k' (pc(currentThread k := Free))"
    using x(2) at kinvD(1,3) [OF inv] by (intro take_step [OF inv run]) (auto simp: x(3))
  then show ?thesis using True by simp
next
  case False
  then obtain x q where x: "sems k s = Some x" "value x = 0"
    "Sleep_begin (put_sem s (x\<lparr>s_queue := sorted_insert q (currentThread k) (s_queue x)\<rparr>) k) = Inr k'" using P_False [of s k k'] r by auto
  have "available k (SemQ s) = value x" "queue_of k (SemQ s) = s_queue x" using x(1) by (simp_all add: available_def queue_of_def)
  then have "vrun (view_of k pc) Tau (view_of k' (pc(currentThread k := InP s))) \<and> kinv k' (pc(currentThread k := InP s))"
    using x(2) at kinvD(1,3) [OF inv] by (intro block_step [OF inv run _ _ _ _ _ _ _ x(3), of "SemQ s"]) auto
  then show ?thesis using False by simp
qed

lemma Acquire_refines:
  assumes inv: "kinv k pc" and run: "st k (currentThread k) = Some RUNNING"
    and at: "pc (currentThread k) = Free \<or> pc (currentThread k) = InWait c l \<or> pc (currentThread k) = InAcquire l"
    and r: "Acquire_round l k = Inr (b, k')"
  shows "vrun (view_of k pc) (if b then Took (LockQ l) else Tau) (view_of k' (pc(currentThread k := if b then Free else InAcquire l))) \<and>
    kinv k' (pc(currentThread k := if b then Free else InAcquire l))"
proof (cases b)
  case True
  then obtain x where x: "locks k l = Some x" "locked x \<noteq> 1" "k' = put_lock l (x\<lparr>locked := 1, threadHeld := Some (currentThread k)\<rparr>) k"
    using Acquire_round_True [of l k k'] r by auto
  have "locked x = 0" using kinvD(3) [OF inv] x by (auto simp: locks_ok_def)
  moreover have "available k (LockQ l) = 1 - locked x" "queue_of k (LockQ l) = l_queue x" using x(1) by (simp_all add: available_def queue_of_def)
  ultimately have "vrun (view_of k pc) (Took (LockQ l)) (view_of k' (pc(currentThread k := Free))) \<and> kinv k' (pc(currentThread k := Free))"
    using at kinvD(1,3) [OF inv] by (intro take_step [OF inv run]) (auto simp: x(3))
  then show ?thesis using True by simp
next
  case False
  then obtain x q where x: "locks k l = Some x" "locked x = 1"
    "Sleep_begin (put_lock l (x\<lparr>l_queue := sorted_insert q (currentThread k) (l_queue x)\<rparr>) k) = Inr k'" using Acquire_round_False [of l k k'] r by auto
  have "available k (LockQ l) = 1 - locked x" "queue_of k (LockQ l) = l_queue x" using x(1) by (simp_all add: available_def queue_of_def)
  then have "vrun (view_of k pc) Tau (view_of k' (pc(currentThread k := InAcquire l))) \<and> kinv k' (pc(currentThread k := InAcquire l))"
    using x at kinvD(1,3) [OF inv] by (intro block_step [OF inv run _ _ _ _ _ _ _ x(3), of "LockQ l"]) (auto intro!: ext)
  then show ?thesis using False by simp
qed

lemma none_deadI: "kinv k pc \<Longrightarrow> none_dead k pc"
  by (simp add: kinv_def none_dead_def)

lemma kinv_keeps:
  assumes inv: "kinv k pc" and v: "vrun (view_of k pc) e (view_of k' pc)" and "sched_core k'" and "locks_ok k'"
    and "threadToBeDestroyed k' = threadToBeDestroyed k"
  shows "vrun (view_of k pc) e (view_of k' pc) \<and> kinv k' pc"
  using kinvI [OF inv v] assms(3-5) kinvD(2) [OF inv] by simp

lemma V_refines:
  assumes inv: "kinv k pc" and r: "Semaphore_V s k = Inr k'"
  shows "vrun (view_of k pc) (Gave (SemQ s)) (view_of k' pc) \<and> kinv k' pc"
proof -
  obtain x where x: "sems k s = Some x" using r by (auto simp: Semaphore_V_def get_sem_def split: option.splits)
  have q: "queue_of k (SemQ s) = s_queue x" "available k (SemQ s) = value x" using x by (simp_all add: queue_of_def available_def)
  obtain r k1 where w: "wake (queue_of k (SemQ s)) k = Inr (r, k1)" "sched_core k1" "keeps k k1"
    "vrun (view_of k pc) (Gave (SemQ s)) (st k1, pc, (queue_of k)(SemQ s := r), (available k)(SemQ s := available k (SemQ s) + 1))"
    using wake_gives [where i = "SemQ s", OF kinvD(1) [OF inv] none_deadI [OF inv] kinvD(4) [OF inv]] by (auto simp: view_of_def)
  have k': "k' = put_sem s (x\<lparr>s_queue := r, value := value x + 1\<rparr>) k1"
    using r x w(1) q by (simp add: Semaphore_V_def get_sem_def)
  have c: "queue_of k1 = queue_of k" "available k1 = available k" "locks_ok k1 = locks_ok k"
    using queue_of_cong keeps_synch [OF w(3)] by auto
  have "vrun (view_of k pc) (Gave (SemQ s)) (view_of k' pc)" using w(4) by (simp add: view_of_def k' c q)
  then show ?thesis
    by (rule kinv_keeps [OF inv]) (use w(2,3) c(3) kinvD(3) [OF inv] in \<open>simp_all add: k' keeps_def\<close>)
qed

lemma Release_refines:
  assumes inv: "kinv k pc" and r: "Release l k = Inr k'"
  shows "vrun (view_of k pc) (Gave (LockQ l)) (view_of k' pc) \<and> kinv k' pc \<and> currentThread k' = currentThread k \<and>
    (\<forall>u. st k u \<noteq> Some BLOCKED \<longrightarrow> st k' u = st k u)"
proof -
  obtain x where x: "locks k l = Some x" "locked x = 1" "isHeldByCurrentThread x k"
    using r by (auto simp: Release_def get_lock_def bindR_eq_Inr split: option.splits)
  have q: "queue_of k (LockQ l) = l_queue x" "available k (LockQ l) = 0" using x by (simp_all add: queue_of_def available_def)
  obtain r k1 where w: "wake (queue_of k (LockQ l)) k = Inr (r, k1)" "sched_core k1" "keeps k k1"
    "vrun (view_of k pc) (Gave (LockQ l)) (st k1, pc, (queue_of k)(LockQ l := r), (available k)(LockQ l := available k (LockQ l) + 1))"
    "\<forall>u. st k u \<noteq> Some BLOCKED \<longrightarrow> st k1 u = st k u"
    using wake_gives [where i = "LockQ l", OF kinvD(1) [OF inv] none_deadI [OF inv] kinvD(4) [OF inv]] by (auto simp: view_of_def)
  have k': "k' = put_lock l (x\<lparr>l_queue := r, locked := 0, threadHeld := None\<rparr>) k1"
    using r x w(1) q by (simp add: Release_def get_lock_def)
  have c: "queue_of k1 = queue_of k" "available k1 = available k" "locks_ok k1 = locks_ok k"
    using queue_of_cong keeps_synch [OF w(3)] by auto
  have "vrun (view_of k pc) (Gave (LockQ l)) (view_of k' pc)" using w(4) by (simp add: view_of_def k' c q)
  then have "vrun (view_of k pc) (Gave (LockQ l)) (view_of k' pc) \<and> kinv k' pc"
    by (rule kinv_keeps [OF inv]) (use w(2,3) c(3) kinvD(3) [OF inv] in \<open>simp_all add: k' keeps_def\<close>)
  then show ?thesis using w(3,5) by (simp add: k' keeps_def)
qed

lemma Wait_refines:
  assumes inv: "kinv k pc" and run: "st k (currentThread k) = Some RUNNING" and at: "pc (currentThread k) = Free"
    and r: "Wait c l k = Inr k'"
  shows "vrun (view_of k pc) (Gave (LockQ l)) (view_of k' (pc(currentThread k := InWait c l))) \<and> kinv k' (pc(currentThread k := InWait c l))"
proof -
  obtain k1 y q where k1: "Release l k = Inr k1" and y: "conds k1 c = Some y"
    and sl: "Sleep_begin (put_cond c (y\<lparr>waitQ := sorted_insert q (currentThread k1) (waitQ y)\<rparr>) k1) = Inr k'"
    using r by (auto simp: Wait_def get_cond_def bindR_eq_Inr split: option.splits)
  note rel = Release_refines [OF inv k1]
  have cur: "currentThread k1 = currentThread k" and run1: "st k1 (currentThread k1) = Some RUNNING" and inv1: "kinv k1 pc"
    using rel run by auto
  have "queue_of k1 (CondQ c) = waitQ y" "available k1 (CondQ c) = 0" using y by (simp_all add: queue_of_def available_def)
  then have "vrun (view_of k1 pc) Tau (view_of k' (pc(currentThread k1 := InWait c l))) \<and> kinv k' (pc(currentThread k1 := InWait c l))"
    using at cur kinvD(1,3) [OF inv1] by (intro block_step [OF inv1 run1 _ _ _ _ _ _ _ sl, of "CondQ c"]) auto
  then show ?thesis using rel vrun_trans [OF _ refl] unfolding cur by blast
qed

lemma Signal_refines:
  assumes inv: "kinv k pc" and r: "Signal c l k = Inr k'"
  shows "vrun (view_of k pc) Tau (view_of k' pc) \<and> kinv k' pc"
proof -
  obtain y where y: "conds k c = Some y" using r by (auto simp: Signal_def get_cond_def bindR_eq_Inr split: option.splits)
  have q: "queue_of k (CondQ c) = waitQ y" using y by (simp add: queue_of_def)
  obtain r k1 where w: "wake (queue_of k (CondQ c)) k = Inr (r, k1)" "sched_core k1" "keeps k k1"
    "vrun (view_of k pc) Tau (st k1, pc, (queue_of k)(CondQ c := r), available k)"
    using wake_gives [where i = "CondQ c", OF kinvD(1) [OF inv] none_deadI [OF inv] kinvD(4) [OF inv]] by (auto simp: view_of_def)
  have k': "k' = put_cond c (y\<lparr>waitQ := r\<rparr>) k1"
    using r y w(1) q by (auto simp: Signal_def get_cond_def bindR_eq_Inr)
  have c: "queue_of k1 = queue_of k" "available k1 = available k" "locks_ok k1 = locks_ok k"
    using queue_of_cong keeps_synch [OF w(3)] by auto
  have "vrun (view_of k pc) Tau (view_of k' pc)" using w(4) by (simp add: view_of_def k' c)
  then show ?thesis
    by (rule kinv_keeps [OF inv]) (use w(2,3) c(3) kinvD(3) [OF inv] in \<open>simp_all add: k' keeps_def\<close>)
qed

lemma Broadcast_refines:
  assumes inv: "kinv k pc" and r: "Broadcast c l k = Inr k'"
  shows "vrun (view_of k pc) Tau (view_of k' pc) \<and> kinv k' pc"
proof -
  obtain y where y: "conds k c = Some y" using r by (auto simp: Broadcast_def get_cond_def bindR_eq_Inr split: option.splits)
  have q: "queue_of k (CondQ c) = waitQ y" using y by (simp add: queue_of_def)
  obtain k1 where w: "wake_all (waitQ y) k = Inr k1" "sched_core k1" "keeps k k1"
    "vrun (view_of k pc) Tau (st k1, pc, (queue_of k)(CondQ c := []), available k)"
    using wake_all_correct [OF kinvD(1) [OF inv] none_deadI [OF inv] kinvD(4) [OF inv] q] by (auto simp: view_of_def)
  have k': "k' = put_cond c (y\<lparr>waitQ := []\<rparr>) k1"
    using r y w(1) by (auto simp: Broadcast_def get_cond_def bindR_eq_Inr)
  have c: "queue_of k1 = queue_of k" "available k1 = available k" "locks_ok k1 = locks_ok k"
    using queue_of_cong keeps_synch [OF w(3)] by auto
  have "vrun (view_of k pc) Tau (view_of k' pc)" using w(4) by (simp add: view_of_def k' c)
  then show ?thesis
    by (rule kinv_keeps [OF inv]) (use w(2,3) c(3) kinvD(3) [OF inv] in \<open>simp_all add: k' keeps_def\<close>)
qed

text \<open>The scheduler's own steps.\<close>

lemma switch_refines:
  assumes inv: "kinv k pc" and wf': "sched_wf k'" and more: "kernel.more k' = kernel.more k" and d': "threadToBeDestroyed k' = (if b then None else threadToBeDestroyed k)"
    and st': "\<And>t. st k' t = (if t = n then Some RUNNING else if b \<and> threadToBeDestroyed k = Some t then None
        else if t = currentThread k \<and> st k t = Some RUNNING then Some READY else st k t)"
    and n: "st k n = Some READY"
  shows "vrun (view_of k pc) Tau (view_of k' pc) \<and> kinv k' pc"
proof -
  have c: "queue_of k' = queue_of k" "available k' = available k" "locks_ok k' = locks_ok k"
    using queue_of_cong synch_fields_more [OF more] by auto
  have dead: "st k d = Some BLOCKED" if "threadToBeDestroyed k = Some d" for d using sched_coreD(5) [OF kinvD(1) [OF inv] that] .
  have "vstep (view_of k pc) Tau (view_of k' pc)"
    unfolding view_of_def c
  proof (rule vstep.switch [where D = "threadToBeDestroyed k" and b = b])
    fix t
    show "(st k' t = Some BLOCKED) = (st k t = Some BLOCKED \<and> (threadToBeDestroyed k = Some t \<longrightarrow> \<not> b))"
      using n by (auto simp: st')
    show "(st k' t = Some READY \<or> st k' t = Some RUNNING) = (st k t = Some READY \<or> st k t = Some RUNNING)"
      using n dead by (auto simp: st')
  qed (rule kinvD(2) [OF inv])
  then show ?thesis
    by (intro kinvI [OF inv] vrun_single) (use wf' c(3) kinvD(2,3) [OF inv] d' in \<open>auto simp: sched_wf_def split: if_splits\<close>)
qed

lemma dispatch_refines:
  assumes inv: "kinv k pc" and run: "st k (currentThread k) \<noteq> Some RUNNING" and f: "FindNextToRun k = (Some n, k1)" and r: "Run n k1 = Inr k'"
  shows "vrun (view_of k pc) Tau (view_of k' pc) \<and> kinv k' pc"
proof -
  obtain p rest where head: "readyList k = (p, n) # rest" and k1: "k1 = k\<lparr>readyList := rest\<rparr>"
    using f by (auto simp: FindNextToRun_def split: list.splits prod.splits)
  have sw: "can_switch n k1" unfolding k1 by (rule dispatch_can_switch [OF kinvD(1) [OF inv] run head])
  have n: "st k n = Some READY" using sched_coreD(1) [OF kinvD(1) [OF inv]] head by (simp add: ready_wf_def ready_def)
  then have "saved k1 n \<noteq> None" unfolding saved_None by (auto simp: k1 st_def)
  then obtain th where th: "saved k1 n = Some th" by blast
  obtain k2 where "Run n k1 = Inr k2" "sched_wf k2"
    "\<forall>t. st k2 t = (if t = n then Some RUNNING else if t_started th \<and> threadToBeDestroyed k1 = Some t then None else st k1 t)"
    "threadToBeDestroyed k2 = (if t_started th then None else threadToBeDestroyed k1)"
    using dispatch_wf [OF sw th] by blast
  moreover have "kernel.more k' = kernel.more k" using Run_more [OF r] by (simp add: k1)
  ultimately show ?thesis using r run by (intro switch_refines [OF inv, of _ "t_started th" n] n) (auto simp: k1)
qed

lemma yield_refines:
  assumes inv: "kinv k pc" and run: "st k (currentThread k) = Some RUNNING" and r: "Yield k = Inr k'"
  shows "vrun (view_of k pc) Tau (view_of k' pc) \<and> kinv k' pc"
proof (cases "readyList k")
  case Nil
  then show ?thesis using inv r by (auto simp: Yield_none intro: vrun.stay)
next
  case (Cons e rest)
  obtain p n where e: "e = (p, n)" by force
  then have head: "readyList k = (p, n) # rest" using Cons by simp
  have wf: "sched_wf k" using kinvD(1) [OF inv] run by (simp add: sched_wf_def)
  obtain th where th: "threads k (currentThread k) = Some th" using sched_wf_current [OF wf] by blast
  let ?k1 = "requeued th rest k"
  have r1: "Run n ?k1 = Inr k'" using r Yield_Run [OF th head] by simp
  obtain thn where thn: "saved ?k1 n = Some thn" using requeued_saved [OF wf head] by blast
  obtain k2 where "Run n ?k1 = Inr k2" "sched_wf k2"
    "\<forall>t. st k2 t = (if t = n then Some RUNNING else if t_started thn \<and> threadToBeDestroyed ?k1 = Some t then None else st ?k1 t)"
    "threadToBeDestroyed k2 = (if t_started thn then None else threadToBeDestroyed ?k1)"
    using dispatch_wf [OF requeued_can_switch [OF wf th head] thn] by blast
  moreover have "kernel.more k' = kernel.more k" using Run_more [OF r1] by (simp add: requeued_def)
  ultimately show ?thesis using r1 run
    by (intro switch_refines [OF inv, of _ "t_started thn" n] head_ready [OF wf head]) auto
qed

lemma fork_refines:
  assumes inv: "kinv k pc" and t: "st k t = Some JUST_CREATED" and r: "Fork t k = Inr k'"
  shows "vrun (view_of k pc) Tau (view_of k' pc) \<and> kinv k' pc"
proof -
  have f: "sched_core k'" "st k' = (st k)(t \<mapsto> READY)" "keeps k k'" using Fork_core [OF kinvD(1) [OF inv] t r] by auto
  have c: "queue_of k' = queue_of k" "available k' = available k" "locks_ok k' = locks_ok k"
    using queue_of_cong keeps_synch [OF f(3)] by auto
  have "vstep (view_of k pc) Tau (view_of k' pc)" unfolding view_of_def c f(2) by (rule vstep.start) (rule t)
  then show ?thesis
    by (intro kinv_keeps [OF inv] vrun_single) (use f c(3) kinvD(3) [OF inv] in \<open>auto simp: keeps_def\<close>)
qed

lemma create_refines:
  assumes inv: "kinv k pc" and t: "threads k t = None" and k'_def: "k' = k\<lparr>threads := (threads k)(t \<mapsto> Thread_new junk nm j l c)\<rparr>"
  shows "vrun (view_of k pc) Tau (view_of k' (pc(t := Free))) \<and> kinv k' (pc(t := Free))"
proof -
  have st': "st k' = (st k)(t \<mapsto> JUST_CREATED)" by (simp add: k'_def Thread_new_def)
  have none: "st k t = None" using t by (simp add: st_def)
  have fields: "currentThread k' = currentThread k" "readyList k' = readyList k" "threadToBeDestroyed k' = threadToBeDestroyed k"
    "sems k' = sems k" "locks k' = locks k" "conds k' = conds k" by (simp_all add: k'_def)
  have dead: "d \<noteq> t" if "threadToBeDestroyed k = Some d" for d using sched_coreD(5) [OF kinvD(1) [OF inv] that] none by auto
  have ok: "static_ok k'"
    using sched_coreD(2) [OF kinvD(1) [OF inv]] unfolding static_ok_def by (auto simp: k'_def Thread_new_def)
  have r: "st k u = Some READY \<longleftrightarrow> u \<in> ready k" for u
    using sched_coreD(1) [OF kinvD(1) [OF inv]] by (simp add: ready_wf_def)
  have "st k' u = Some READY \<longleftrightarrow> u \<in> ready k'" for u
    using r [of u] none by (cases "u = t") (simp_all add: st' fields ready_def)
  then have rdy: "ready_wf k'" using sched_coreD(1) [OF kinvD(1) [OF inv]] by (simp add: ready_wf_def fields)
  have core: "sched_core k'"
    unfolding sched_core_def fields st'
    using ok rdy none sched_coreD(3-5) [OF kinvD(1) [OF inv]] dead by auto
  have c: "queue_of k' = queue_of k" "available k' = available k" "locks_ok k' = locks_ok k"
    using queue_of_cong [OF fields(4-6)] by auto
  have "vstep (view_of k pc) Tau (view_of k' (pc(t := Free)))" unfolding view_of_def c st' by (rule vstep.appear) (rule none)
  then show ?thesis
    by (intro kinvI [OF inv] vrun_single) (use core c(3) kinvD(2,3) [OF inv] fields(3) dead in auto)
qed

lemma finish_refines:
  assumes inv: "kinv k pc" and run: "st k (currentThread k) = Some RUNNING" and at: "pc (currentThread k) = Free"
    and r: "Sleep_begin (k\<lparr>threadToBeDestroyed := Some (currentThread k)\<rparr>) = Inr k'"
  shows "vrun (view_of k pc) Tau (view_of k' (pc(currentThread k := Gone))) \<and> kinv k' (pc(currentThread k := Gone))"
proof -
  have wf: "sched_wf k" using kinvD(1) [OF inv] run by (simp add: sched_wf_def)
  have f: "sched_core k'" "st k' = (st k)(currentThread k \<mapsto> BLOCKED)" "keeps (k\<lparr>threadToBeDestroyed := Some (currentThread k)\<rparr>) k'"
    using Sleep_begin_core [OF wf r] by auto
  have c: "queue_of k' = queue_of k" "available k' = available k" "locks_ok k' = locks_ok k"
    using queue_of_cong [of k' k] keeps_synch [OF f(3)] by auto
  have "vstep (view_of k pc) Tau (view_of k' (pc(currentThread k := Gone)))"
    unfolding view_of_def c f(2) by (rule vstep.leave) (use run at in auto)
  then show ?thesis
    by (intro kinvI [OF inv] vrun_single) (use f c(3) kinvD(3) [OF inv] in \<open>auto simp: keeps_def\<close>)
qed

lemma kstep_refines_pair:
  assumes inv: "kinv k pc" and s: "kstep (k, pc) e (k', pc')"
  shows "vrun (view_of k pc) e (view_of k' pc') \<and> kinv k' pc'"
  using s
proof cases
  case (P_done s)
  then show ?thesis using P_refines [OF inv, of s True k'] by (simp del: fun_upd_apply)
next
  case (P_blocks s)
  then show ?thesis using P_refines [OF inv, of s False k'] by (simp del: fun_upd_apply)
next
  case (Acquire_done c l)
  then have at: "pc (currentThread k) = Free \<or> pc (currentThread k) = InWait c l \<or> pc (currentThread k) = InAcquire l" by blast
  show ?thesis
    using Acquire_refines [of k pc, OF inv Acquire_done(3) at Acquire_Acquire_round [OF Acquire_done(5)]]
    by (simp only: if_True Acquire_done(1,2))
next
  case (Acquire_blocks c l)
  then have at: "pc (currentThread k) = Free \<or> pc (currentThread k) = InWait c l \<or> pc (currentThread k) = InAcquire l" by blast
  show ?thesis
    using Acquire_refines [of k pc, OF inv Acquire_blocks(3) at Acquire_Acquire_round [OF Acquire_blocks(5)]]
    by (simp only: if_False Acquire_blocks(1,2))
next
  case (Again_done l)
  then show ?thesis using Acquire_refines [OF inv, of 0 l True k'] by (simp del: fun_upd_apply)
next
  case (Again_blocks l)
  then show ?thesis using Acquire_refines [OF inv, of 0 l False k'] by (simp del: fun_upd_apply)
next
  case (Release l)
  then show ?thesis using Release_refines [OF inv] by blast
next
  case (create t junk nm j l c)
  then show ?thesis using create_refines [OF inv create(4) create(2)] by blast
next
  case (V s)
  show ?thesis unfolding V by (rule V_refines [OF inv V(3)])
next
  case (Wait c l)
  show ?thesis unfolding Wait(1,2) by (rule Wait_refines [OF inv Wait(3-5)])
next
  case (Signal c l)
  show ?thesis unfolding Signal(1,2) by (rule Signal_refines [OF inv Signal(5)])
next
  case (Broadcast c l)
  show ?thesis unfolding Broadcast(1,2) by (rule Broadcast_refines [OF inv Broadcast(5)])
next
  case (fork t)
  show ?thesis unfolding fork(1,2) by (rule fork_refines [OF inv fork(4,5)])
next
  case yield
  show ?thesis unfolding yield(1,2) by (rule yield_refines [OF inv yield(3,4)])
next
  case finish
  show ?thesis unfolding finish(1,2) by (rule finish_refines [OF inv finish(3-5)])
next
  case (dispatch n k1)
  show ?thesis unfolding dispatch(1,2) by (rule dispatch_refines [OF inv dispatch(3-5)])
qed

lemma kstep_refines_aux:
  "kstep s e s' \<Longrightarrow> kinv (fst s) (snd s) \<Longrightarrow>
   vrun (view_of (fst s) (snd s)) e (view_of (fst s') (snd s')) \<and> kinv (fst s') (snd s')"
  using kstep_refines_pair [of "fst s" "snd s" e "fst s'" "snd s'"] by (simp only: prod.collapse)

section \<open>Runs, and what they do to locks and semaphores\<close>

inductive kreach :: "'m synch_scheme \<times> (nat \<Rightarrow> place) \<Rightarrow> event list \<Rightarrow> 'm synch_scheme \<times> (nat \<Rightarrow> place) \<Rightarrow> bool" where
  kreach_start: "kreach s [] s"
| kreach_step: "kreach s es s1 \<Longrightarrow> kstep s1 e s2 \<Longrightarrow> kreach s (es @ [e]) s2"

lemma kreach_inv: "kreach s es s' \<Longrightarrow> kinv (fst s) (snd s) \<Longrightarrow> kinv (fst s') (snd s')"
  by (induction rule: kreach.induct) (auto dest: kstep_refines_aux)

definition change :: "event \<Rightarrow> queue_name \<Rightarrow> int" where
  "change e i = (if e = Gave i then 1 else if e = Took i then - 1 else 0)"

lemma vstep_change: "vstep v e v' \<Longrightarrow> snd (snd (snd v')) i = snd (snd (snd v)) i + change e i"
  by (induction rule: vstep.induct) (simp_all add: change_def)

lemma vrun_change: "vrun v e v' \<Longrightarrow> snd (snd (snd v')) i = snd (snd (snd v)) i + change e i"
  by (induction rule: vrun.induct) (simp_all add: vstep_change change_def)

lemma kreach_change:
  "kreach s es s' \<Longrightarrow> kinv (fst s) (snd s) \<Longrightarrow>
   available (fst s') i = available (fst s) i + (\<Sum>e\<leftarrow>es. change e i)"
proof (induction rule: kreach.induct)
  case (kreach_step s es s1 e s2)
  have "vrun (view_of (fst s1) (snd s1)) e (view_of (fst s2) (snd s2))"
    using kstep_refines_aux [OF kreach_step(2)] kreach_inv [OF kreach_step(1,4)] by blast
  then show ?case using vrun_change [of _ e _ i] kreach_step by (fastforce simp: view_of_def)
qed simp

lemma sum_change: "(\<Sum>e\<leftarrow>es. change e i) = int (count_list es (Gave i)) - int (count_list es (Took i))"
  by (induction es) (simp_all add: change_def)

text \<open>Frame: which routines touch the locks.\<close>

lemma more_frames:
  "Sleep_begin k = Inr k' \<Longrightarrow> kernel.more k' = kernel.more k \<and> currentThread k' = currentThread k"
  "ReadyToRun t k = Inr k' \<Longrightarrow> kernel.more k' = kernel.more k \<and> currentThread k' = currentThread k"
  "Fork t k = Inr k' \<Longrightarrow> kernel.more k' = kernel.more k \<and> currentThread k' = currentThread k"
  by (auto simp: Sleep_begin_def ReadyToRun_def Fork_def StackAllocate_def update_thread_def get_thread_def thread_setStatus_def
      Let_def bindR_eq_Inr split: option.splits)

lemma Yield_more: "Yield k = Inr k' \<Longrightarrow> kernel.more k' = kernel.more k"
  by (auto simp: Yield_def FindNextToRun_def bindR_eq_Inr dest!: Run_more more_frames(2) split: list.splits prod.splits)

lemma wake_more: "wake q k = Inr (r, k') \<Longrightarrow> locks k' = locks k \<and> currentThread k' = currentThread k"
  by (auto simp: wake_def bindR_eq_Inr dest!: more_frames(2) synch_fields_more split: list.splits prod.splits)

lemma ReadyToRun_locks: "ReadyToRun t k = Inr k' \<Longrightarrow> locks k' = locks k \<and> currentThread k' = currentThread k"
  by (auto dest!: more_frames(2) synch_fields_more)

lemma wake_all_more: "wake_all q k = Inr k' \<Longrightarrow> locks k' = locks k \<and> currentThread k' = currentThread k"
  by (induction q k rule: wake_all.induct) (fastforce simp: bindR_eq_Inr dest: ReadyToRun_locks)+

lemma Acquire_round_locks:
  "Acquire_round l k = Inr (b, k') \<Longrightarrow> \<exists>x. locks k l = Some x \<and> (locked x = 1) = (\<not> b) \<and>
     (\<forall>l'. holder k' l' = (if b \<and> l' = l then Some (currentThread k) else holder k l'))"
  by (auto simp: Acquire_round_def get_lock_def bindR_eq_Inr Let_def holder_def put_lock_def split: option.splits if_splits
      dest!: more_frames(1) synch_fields_more)

lemma Release_locks:
  "Release l k = Inr k' \<Longrightarrow> holder k l = Some (currentThread k) \<and> currentThread k' = currentThread k \<and>
     (\<forall>l'. holder k' l' = (if l' = l then None else holder k l'))"
  by (auto simp: Release_def get_lock_def bindR_eq_Inr holder_def put_lock_def isHeldByCurrentThread_def split: option.splits if_splits
      dest!: wake_more)

lemma holder_cong: "locks k' = locks k \<Longrightarrow> holder k' = holder k"
  by (simp add: holder_def fun_eq_iff)

lemma P_locks: "Semaphore_P s k = Inr (b, k') \<Longrightarrow> locks k' = locks k"
  by (auto simp: Semaphore_P_def get_sem_def bindR_eq_Inr Let_def put_sem_def split: option.splits if_splits
      dest!: more_frames(1) synch_fields_more)

lemma V_Signal_Broadcast_locks:
  "Semaphore_V s k = Inr k' \<Longrightarrow> locks k' = locks k"
  "Signal c l k = Inr k' \<Longrightarrow> locks k' = locks k"
  "Broadcast c l k = Inr k' \<Longrightarrow> locks k' = locks k"
  by (auto simp: Semaphore_V_def Signal_def Broadcast_def get_sem_def get_cond_def get_lock_def bindR_eq_Inr put_sem_def put_cond_def
      split: option.splits dest!: wake_more wake_all_more)

lemma Wait_locks:
  assumes "Wait c l k = Inr k'"
  shows "holder k l = Some (currentThread k) \<and> (\<forall>l'. holder k' l' = (if l' = l then None else holder k l'))"
proof -
  obtain k1 y q where k1: "Release l k = Inr k1"
    "Sleep_begin (put_cond c (y\<lparr>waitQ := sorted_insert q (currentThread k1) (waitQ y)\<rparr>) k1) = Inr k'"
    using assms by (auto simp: Wait_def get_cond_def bindR_eq_Inr split: option.splits)
  have "locks k' = locks k1" using more_frames(1) [OF k1(2)] by (auto simp: put_cond_def dest!: synch_fields_more)
  then show ?thesis using Release_locks [OF k1(1)] holder_cong by metis
qed

lemma scheduler_locks:
  "Fork t k = Inr k' \<Longrightarrow> locks k' = locks k"
  "Yield k = Inr k' \<Longrightarrow> locks k' = locks k"
  "Sleep_begin (k\<lparr>threadToBeDestroyed := d\<rparr>) = Inr k' \<Longrightarrow> locks k' = locks k"
  "FindNextToRun k = (Some n, k1) \<Longrightarrow> Run n k1 = Inr k' \<Longrightarrow> locks k' = locks k"
  by (auto simp: FindNextToRun_def dest!: more_frames Yield_more Run_more synch_fields_more split: list.splits prod.splits)

lemma free_holder: "locks_ok k \<Longrightarrow> locks k l = Some x \<Longrightarrow> locked x \<noteq> 1 \<Longrightarrow> holder k l = None"
  unfolding locks_ok_def holder_def by fastforce

lemma kstep_holder:
  "kstep s e s' \<Longrightarrow> locks_ok (fst s) \<Longrightarrow>
   holder (fst s') l = (if e = Took (LockQ l) then Some (currentThread (fst s)) else if e = Gave (LockQ l) then None else holder (fst s) l) \<and>
   (e = Took (LockQ l) \<longrightarrow> holder (fst s) l = None) \<and> (e = Gave (LockQ l) \<longrightarrow> holder (fst s) l = Some (currentThread (fst s)))"
proof (induction rule: kstep.induct)
  case (Acquire_done k pc c l' k')
  then show ?case using Acquire_round_locks [OF Acquire_Acquire_round [OF Acquire_done(3)]]
free_holder [of k] by auto
next
  case (Acquire_blocks k pc c l' k')
  then show ?case using Acquire_round_locks [OF Acquire_Acquire_round [OF Acquire_blocks(3)]] by auto
next
  case (Again_done k pc l' k')
  then show ?case using Acquire_round_locks [OF Again_done(3)] free_holder [of k] by auto
next
  case (Again_blocks k pc l' k')
  then show ?case using Acquire_round_locks [OF Again_blocks(3)] by auto
next
  case (Release k pc l' k')
  then show ?case using Release_locks [OF Release(3)] by auto
next
  case (Wait k pc c l' k')
  then show ?case using Wait_locks [OF Wait(3)] by auto
next
  case (create k t pc junk nm j l c)
  then show ?case by (simp add: holder_def)
qed (simp_all add: holder_cong [OF P_locks] holder_cong [OF V_Signal_Broadcast_locks(1)] holder_cong [OF V_Signal_Broadcast_locks(2)]
      holder_cong [OF V_Signal_Broadcast_locks(3)] holder_cong [OF scheduler_locks(1)] holder_cong [OF scheduler_locks(2)]
      holder_cong [OF scheduler_locks(3)] holder_cong [OF scheduler_locks(4)])

section \<open>An example state\<close>

text \<open>Thread 0 runs, thread 1 is ready; one semaphore with value 0, one free lock, one condition variable.\<close>

definition example_synch :: synch where
  "example_synch = kernel.extend two_threads
     (synch.fields [0 \<mapsto> Semaphore_new 0] [0 \<mapsto> Lock_new] [0 \<mapsto> Condition_new])"

lemma extend_sched:
  "sched_core (kernel.extend k m) = sched_core k" "st (kernel.extend k m) = st k" "currentThread (kernel.extend k m) = currentThread k"
  "readyList (kernel.extend k m) = readyList k" "threadToBeDestroyed (kernel.extend k m) = threadToBeDestroyed k"
  "level (kernel.extend k m) = level k" "ready (kernel.extend k m) = ready k" "threads (kernel.extend k m) = threads k"
  by (cases k; simp add: kernel.defs sched_core_def ready_wf_def static_ok_def st_def ready_def fun_eq_iff)+

lemma example_objects:
  "sems example_synch = [0 \<mapsto> Semaphore_new 0]" "locks example_synch = [0 \<mapsto> Lock_new]" "conds example_synch = [0 \<mapsto> Condition_new]"
  by (simp_all add: example_synch_def kernel.defs synch.defs)

lemma example_queues: "queue_of example_synch = (\<lambda>i. [])" "available example_synch = (\<lambda>i. if i = LockQ 0 then 1 else 0)"
  by (auto simp: queue_of_def available_def example_objects Semaphore_new_def Lock_new_def Condition_new_def fun_eq_iff
      split: queue_name.split)

lemma example_sched:
  "sched_core example_synch" "currentThread example_synch = 0" "readyList example_synch = [(0, 1)]" "level example_synch = IntOff"
  "threadToBeDestroyed example_synch = None" "st example_synch 0 = Some RUNNING" "st example_synch t = Some BLOCKED \<longleftrightarrow> False"
  "finite {t. st example_synch t = Some READY \<or> st example_synch t = Some RUNNING}" "\<exists>th. threads example_synch 0 = Some th"
proof -
  show "sched_core example_synch" "currentThread example_synch = 0" "readyList example_synch = [(0, 1)]" "level example_synch = IntOff"
    "threadToBeDestroyed example_synch = None" "\<exists>th. threads example_synch 0 = Some th"
    using two_threads_fields by (auto simp: example_synch_def extend_sched sched_wf_def)
  have "st example_synch = (\<lambda>t. if t = 0 then Some RUNNING else if t = 1 then Some READY else None)"
    by (simp add: example_synch_def extend_sched)
       (simp add: two_threads_def Machine_new_def Interrupt_new_def isys.defs Machine.defs kernel.defs st_def fun_eq_iff)
  note st = this
  show "st example_synch 0 = Some RUNNING" "st example_synch t = Some BLOCKED \<longleftrightarrow> False" by (simp_all add: st)
  show "finite {t. st example_synch t = Some READY \<or> st example_synch t = Some RUNNING}"
    by (rule finite_subset [of _ "{0, 1}"]) (auto simp: st split: if_splits)
qed

lemma example_kinv: "kinv example_synch (\<lambda>t. Free)"
  using example_sched
  by (simp add: kinv_def view_of_def example_queues locks_ok_def example_objects Lock_new_def)

lemma example_acquire:
  "kstep (example_synch, \<lambda>t. Free) (Took (LockQ 0))
     (put_lock 0 (Lock_new\<lparr>locked := 1, threadHeld := Some 0\<rparr>) example_synch, (\<lambda>t. Free)(currentThread example_synch := Free))"
  by (rule kstep.Acquire_done)
     (simp_all add: example_sched Acquire_def Acquire_entry_def Acquire_round_def get_lock_def example_objects Lock_new_def)

lemma example_V:
  "kstep (example_synch, \<lambda>t. Free) (Gave (SemQ 0)) (put_sem 0 (Semaphore_new 1) example_synch, \<lambda>t. Free)"
  by (rule kstep.V) (simp add: Semaphore_V_def get_sem_def example_objects Semaphore_new_def wake_def)

lemma example_P:
  "\<exists>k'. kstep (example_synch, \<lambda>t. Free) Tau (k', (\<lambda>t. Free)(0 := InP 0)) \<and> st k' 0 = Some BLOCKED"
proof -
  obtain th where th: "threads example_synch 0 = Some th" using example_sched(9) by blast
  have "\<exists>k'. Semaphore_P 0 example_synch = Inr (False, k') \<and> st k' 0 = Some BLOCKED"
    using th example_sched(2,4)
    by (auto simp: Semaphore_P_def get_sem_def example_objects Semaphore_new_def current_key_def getPriority_def Sleep_begin_def Let_def put_sem_def
        thread_setStatus_def update_thread_def get_thread_def st_def)
  then show ?thesis using kstep.P_blocks [of example_synch "\<lambda>t. Free" 0] example_sched(2,6) by fastforce
qed

section \<open>Properties\<close>

text \<open>C1. The synchronization primitives implement the abstract wait queues under every interleaving. Each step of the kernel is a run of the
  abstract queues with the same effect on the semaphore or lock concerned, and it keeps the invariant: the scheduler's lists agree with the
  thread states, every thread blocked in \<open>P\<close>, \<open>Acquire\<close> or \<open>Wait\<close> is in the queue of its object exactly once and nothing else is, queues are in
  the order of the priorities, a lock has a holder exactly when it is locked, semaphore values are never negative.\<close>

theorem kstep_refines:
  assumes "kinv k pc" and "kstep (k, pc) e (k', pc')"
  shows "vrun (view_of k pc) e (view_of k' pc') \<and> kinv k' pc'"
  by (rule kstep_refines_pair [OF assms])

theorem kstep_refines_witness:
  "kinv (put_lock 0 (Lock_new\<lparr>locked := 1, threadHeld := Some 0\<rparr>) example_synch) ((\<lambda>t. Free)(currentThread example_synch := Free))"
  using kstep_refines [OF example_kinv example_acquire] by blast

text \<open>C5. Mutual exclusion. In every run, when \<open>Acquire\<close> of a lock completes nobody holds the lock and the caller becomes its holder; the
  holder keeps it through every step of any thread other than its own \<open>Release\<close> or \<open>Wait\<close> on that lock, so that no other \<open>Acquire\<close>
  completes in between.\<close>

theorem lock_mutual_exclusion:
  assumes "kinv k pc" and "kreach (k, pc) es (k', pc')" and "kstep (k', pc') e (k'', pc'')"
  shows "(e = Took (LockQ l) \<longrightarrow> holder k' l = None \<and> holder k'' l = Some (currentThread k')) \<and>
    (holder k' l = Some t \<longrightarrow> e \<noteq> Took (LockQ l) \<and> (holder k'' l = Some t \<or> e = Gave (LockQ l) \<and> currentThread k' = t)) \<and>
    (e = Gave (LockQ l) \<longrightarrow> holder k' l = Some (currentThread k') \<and> holder k'' l = None)"
proof -
  have "locks_ok k'" using kinvD(3) [OF kreach_inv [OF assms(2)]] assms(1) by simp
  then show ?thesis using kstep_holder [OF assms(3), of l] by auto
qed

theorem lock_mutual_exclusion_witness:
  "holder example_synch 0 = None \<and>
   holder (put_lock 0 (Lock_new\<lparr>locked := 1, threadHeld := Some 0\<rparr>) example_synch) 0 = Some (currentThread example_synch)"
  using lock_mutual_exclusion [OF example_kinv kreach_start example_acquire, of 0 0] by blast

text \<open>C13. The counting law of semaphores: in every run, the value of a semaphore is its initial value plus the number of \<open>V\<close>s minus the number
  of completed \<open>P\<close>s, and never negative; so no more \<open>P\<close>s complete than the initial value and the \<open>V\<close>s allow.\<close>

theorem semaphore_counting:
  assumes "kinv k pc" and "kreach (k, pc) es (k', pc')" and "sems k s = Some x"
  shows "available k' (SemQ s) = value x + int (count_list es (Gave (SemQ s))) - int (count_list es (Took (SemQ s))) \<and>
    int (count_list es (Took (SemQ s))) \<le> value x + int (count_list es (Gave (SemQ s)))"
proof -
  have "available k (SemQ s) = value x" using assms(3) by (simp add: available_def)
  then have "available k' (SemQ s) = value x + int (count_list es (Gave (SemQ s))) - int (count_list es (Took (SemQ s)))"
    using kreach_change [OF assms(2), of "SemQ s"] assms(1) by (simp add: sum_change)
  moreover have "kinv k' pc'" using kreach_inv [OF assms(2)] assms(1) by simp
  then have "0 \<le> available k' (SemQ s)" by (rule tokens_okD(3) [OF kinvD(5)])
  ultimately show ?thesis by linarith
qed

theorem semaphore_counting_witness:
  "available (put_sem 0 (Semaphore_new 1) example_synch) (SemQ 0) = 1"
  using semaphore_counting [OF example_kinv kreach_step [OF kreach_start example_V], of 0 "Semaphore_new 0"]
  by (simp add: example_objects Semaphore_new_def)

text \<open>C8. No lost wake-up: in every reachable state, when a thread is blocked in \<open>P\<close> of a semaphore with a positive value, at least as many
  threads as the value says have been woken and are on their way to retry; and when a thread is blocked in \<open>Acquire\<close> of a lock that is
  free, some woken thread is on its way to take the lock. Such a thread is ready and in the ready list, or it is the running one, and not asleep.\<close>

theorem no_lost_wakeup:
  assumes "kinv k pc" and "kreach (k, pc) es (k', pc')" and "st k' t = Some BLOCKED" and "waits_in (pc' t) = Some i"
  shows "available k' i \<le> int (card {u. waits_in (pc' u) = Some i \<and> (st k' u = Some READY \<and> u \<in> ready k' \<or> st k' u = Some RUNNING \<and> u = currentThread k')})"
proof -
  have inv: "kinv k' pc'" using kreach_inv [OF assms(2)] assms(1) by simp
  have "t \<in> snd ` set (queue_of k' i)" using queues_okD(3) [OF kinvD(4) [OF inv]] assms(3,4) by blast
  then have "available k' i \<le> int (card (awake (st k') pc' i))" using tokens_okD(4) [OF kinvD(5) [OF inv], of i] by fastforce
  moreover have "awake (st k') pc' i = {u. waits_in (pc' u) = Some i \<and> (st k' u = Some READY \<and> u \<in> ready k' \<or> st k' u = Some RUNNING \<and> u = currentThread k')}"
    using sched_coreD(1,4) [OF kinvD(1) [OF inv]] by (auto simp: awake_def ready_wf_def)
  ultimately show ?thesis by simp
qed

text \<open>Two threads have blocked in \<open>P\<close> and the first has been woken: the value is 1, thread 1 sleeps and thread 0 is in the ready list.\<close>

definition woken_synch :: synch where
  "woken_synch = example_synch\<lparr>threads := [0 \<mapsto> (the (threads example_synch 0))\<lparr>t_status := READY\<rparr>, 1 \<mapsto> (the (threads example_synch 1))\<lparr>t_status := BLOCKED\<rparr>],
     readyList := [(0, 0)], currentThread := 1, sems := [0 \<mapsto> \<lparr>value = 1, s_queue = [(0, 1)]\<rparr>]\<rparr>"

definition woken_places :: "nat \<Rightarrow> place" where
  "woken_places = (\<lambda>t. Free)(0 := InP 0, 1 := InP 0)"

lemma woken_kinv: "kinv woken_synch woken_places" "st woken_synch 1 = Some BLOCKED" "available woken_synch (SemQ 0) = 1"
proof -
  have th: "threads example_synch 0 \<noteq> None" "threads example_synch 1 \<noteq> None" "spaces example_synch 0 \<noteq> None" "t_stack (the (threads example_synch 0)) = None"
    "t_stack (the (threads example_synch 1)) = Some STACK_FENCEPOST" "t_space (the (threads example_synch 0)) = Some 0" "t_space (the (threads example_synch 1)) = None"
    by (simp_all add: example_synch_def two_threads_def Machine_new_def Interrupt_new_def isys.defs Machine.defs kernel.defs synch.defs)
  have S: "st woken_synch = [0 \<mapsto> READY, 1 \<mapsto> BLOCKED]" by (auto simp: woken_synch_def st_def)
  have Q: "queue_of woken_synch = (\<lambda>i. if i = SemQ 0 then [(0, 1)] else [])" "available woken_synch = (\<lambda>i. if i = SemQ 0 \<or> i = LockQ 0 then 1 else 0)"
    by (auto simp: woken_synch_def queue_of_def available_def example_objects Lock_new_def Condition_new_def fun_eq_iff split: queue_name.split)
  have f: "readyList woken_synch = [(0, 0)]" "currentThread woken_synch = 1" "threadToBeDestroyed woken_synch = None" "locks woken_synch = [0 \<mapsto> Lock_new]"
    by (simp_all add: woken_synch_def example_sched example_objects)
  have core: "sched_core woken_synch"
    using th by (auto simp: sched_core_def ready_wf_def ready_def S f) (auto simp: static_ok_def woken_synch_def split: if_splits)
  have aw: "awake (st woken_synch) woken_places (SemQ 0) = {0}" by (auto simp: awake_def S woken_places_def split: if_splits)
  have "queues_ok (view_of woken_synch woken_places)" by (auto simp: view_of_def Q S woken_places_def split: if_splits)
  moreover have "finite {t. st woken_synch t = Some READY \<or> st woken_synch t = Some RUNNING}" by (rule finite_subset [of _ "{0}"]) (auto simp: S split: if_splits)
  then have "tokens_ok (view_of woken_synch woken_places)" using aw by (auto simp: view_of_def Q)
  ultimately show "kinv woken_synch woken_places" using core by (simp add: kinv_def f locks_ok_def Lock_new_def)
  show "st woken_synch 1 = Some BLOCKED" "available woken_synch (SemQ 0) = 1" by (simp_all add: S Q)
qed

theorem no_lost_wakeup_witness:
  "1 \<le> card {u. waits_in (woken_places u) = Some (SemQ 0) \<and> (st woken_synch u = Some READY \<and> u \<in> ready woken_synch \<or> st woken_synch u = Some RUNNING \<and> u = currentThread woken_synch)}"
proof -
  have "waits_in (woken_places 1) = Some (SemQ 0)" by (simp add: woken_places_def)
  from no_lost_wakeup [OF woken_kinv(1) kreach_start woken_kinv(2) this] show ?thesis unfolding woken_kinv(3) by linarith
qed

text \<open>\<open>V\<close> on an existing semaphore never stops. It adds one to the value and makes ready exactly the first waiter, which has the highest
  priority of all waiters;
  with no waiter no thread changes.\<close>

theorem V_wakes_first:
  assumes "kinv k pc" and "sems k s = Some x"
  shows "\<exists>k'. Semaphore_V s k = Inr k' \<and> sems k' s = Some (x\<lparr>value := value x + 1, s_queue := tl (s_queue x)\<rparr>) \<and>
    (case s_queue x of [] \<Rightarrow> st k' = st k
     | (p, t) # r \<Rightarrow> st k t = Some BLOCKED \<and> st k' = (st k)(t \<mapsto> READY) \<and> t \<in> ready k' \<and> (\<forall>(q, u) \<in> set r. p \<le> q \<and> u \<noteq> t))"
proof (cases "s_queue x")
  case Nil
  then show ?thesis using assms(2) by (simp add: Semaphore_V_def get_sem_def wake_def put_sem_def st_def fun_eq_iff)
next
  case (Cons e r)
  obtain p t where e: "e = (p, t)" by force
  have q: "queue_of k (SemQ s) = (p, t) # r" using Cons e assms(2) by (simp add: queue_of_def)
  note ok = kinvD(4) [OF assms(1)]
  obtain k1 where k1: "ReadyToRun t k = Inr k1" "sched_core k1" "st k1 = (st k)(t \<mapsto> READY)" "keeps k k1"
    using head_wakes [where Q = "queue_of k", OF kinvD(1) [OF assms(1)] none_deadI [OF assms(1)] ok q] by blast
  let ?k' = "put_sem s (x\<lparr>s_queue := r, value := value x + 1\<rparr>) k1"
  have "Semaphore_V s k = Inr ?k'" using assms(2) Cons e k1(1) by (simp add: Semaphore_V_def get_sem_def wake_def)
  moreover have "sems ?k' s = Some (x\<lparr>value := value x + 1, s_queue := r\<rparr>)" by (simp add: put_sem_def)
  moreover have "t \<in> ready ?k'" using sched_coreD(1) [OF k1(2)] k1(3) by (auto simp: ready_wf_def put_sem_def ready_def)
  moreover have "\<forall>(q, u) \<in> set r. p \<le> q \<and> u \<noteq> t"
    using queues_okD(2) [OF ok, of "SemQ s"] queues_head(3) [OF ok q] q by force
  ultimately show ?thesis using Cons e k1(3) queues_head(1) [OF ok q] by auto
qed

theorem V_wakes_first_witness: "\<exists>k'. Semaphore_V 0 example_synch = Inr k' \<and> sems k' 0 = Some \<lparr>value = 1, s_queue = []\<rparr>"
  using V_wakes_first [OF example_kinv, of 0 "Semaphore_new 0"] by (auto simp: example_objects Semaphore_new_def)

end
