(* ===== verification/User_State.thy ===== *)
theory User_State
  imports Synch
begin

text \<open>
  The user state of a thread across context switches: its registers, saved and restored by \<open>Scheduler::Run\<close> (\<^verbatim>\<open>src/code/threads/scheduler.cc\<close>), and the page table of its address space.

  The runs are those of \<open>Synch\<close>, interleaved with everything else the machine and the kernel do (user instructions, memory, interrupts, new address spaces), of which only that is required
  which concerns the thread itself.
\<close>

section \<open>What the machine holds for a thread\<close>

text \<open>The thread \<open>t\<close> has run and its address space \<open>a\<close> exists, with the page table \<open>pt\<close> of \<open>n\<close> pages. When it is on the processor, the machine has its registers \<open>R\<close> and its page table,
  otherwise the control block has the registers.\<close>

definition user_view :: "nat \<Rightarrow> 32 word list \<Rightarrow> nat \<Rightarrow> nat option \<Rightarrow> 32 word \<Rightarrow> 'm kernel_scheme \<Rightarrow> bool" where
  "user_view t R a pt n k \<longleftrightarrow> (\<exists>sp. spaces k a = Some sp \<and> sp_pageTable sp = pt \<and> sp_numPages sp = n) \<and>
     (\<exists>th. threads k t = Some th \<and> t_space th = Some a \<and> t_started th \<and> t_status th \<noteq> JUST_CREATED \<and>
       (if currentThread k = t then registers k = R \<and> pageTable k = pt \<and> pageTableSize k = n else userRegisters th = R))"

lemma user_view_frame:
  assumes "threads k' t = threads k t" "spaces k' = spaces k" "currentThread k' = currentThread k" "registers k' = registers k" "pageTable k' = pageTable k" "pageTableSize k' = pageTableSize k"
  shows "user_view t R a pt n k' = user_view t R a pt n k"
  unfolding user_view_def assms ..

lemma Run_view:
  assumes sw: "can_switch u k" and thu: "saved k u = Some thu" and run: "Run u k = Inr k'" and v: "user_view t R a pt n k" and dead: "threadToBeDestroyed k \<noteq> Some t"
  shows "user_view t R a pt n k'"
proof -
  obtain th sp where th: "spaces k a = Some sp" "sp_pageTable sp = pt" "sp_numPages sp = n" "threads k t = Some th" "t_space th = Some a" "t_started th" "t_status th \<noteq> JUST_CREATED"
      "if currentThread k = t then registers k = R else userRegisters th = R" using v by (auto simp: user_view_def split: if_splits)
  have c: "currentThread k' = u" using dispatch_wf [OF sw thu] run by auto
  have T: "threads k' = (\<lambda>t. if t \<noteq> u \<and> t_started thu \<and> threadToBeDestroyed k = Some t then None else if t = u then Some (thu\<lparr>t_status := RUNNING, t_started := True\<rparr>) else saved k t)"
    "registers k' = (if t_started thu \<and> t_space thu \<noteq> None then userRegisters thu else registers k)" "spaces k' = spaces k"
    "t_started thu \<longrightarrow> (\<forall>a sp. t_space thu = Some a \<longrightarrow> spaces k a = Some sp \<longrightarrow> pageTable k' = sp_pageTable sp \<and> pageTableSize k' = sp_numPages sp)"
    using Run_threads [OF sw thu] run by auto
  obtain ths where s: "saved k t = Some ths" "userRegisters ths = R" "t_space ths = Some a" "t_started ths" "t_status ths \<noteq> JUST_CREATED"
    using th(4-8) by (cases "currentThread k = t") (auto simp: saved_def Let_def)
  show ?thesis
  proof (cases "t = u")
    case True
    then have "ths = thu" using s(1) thu by simp
    then show ?thesis using True s T th(1-3) c by (auto simp: user_view_def)
  next
    case False
    then show ?thesis using s T(1,3) th(1-3) c dead by (auto simp: user_view_def)
  qed
qed

section \<open>Steps that switch to no other thread\<close>

text \<open>They change the status of threads and nothing else of what a thread sees.\<close>

definition quiet :: "'m kernel_scheme \<Rightarrow> 'm kernel_scheme \<Rightarrow> bool" where
  "quiet k k' \<longleftrightarrow> spaces k' = spaces k \<and> currentThread k' = currentThread k \<and> registers k' = registers k \<and> pageTable k' = pageTable k \<and> pageTableSize k' = pageTableSize k \<and>
     (\<forall>u th. threads k u = Some th \<longrightarrow> (\<exists>th'. threads k' u = Some th' \<and> t_space th' = t_space th \<and> t_started th' = t_started th \<and> userRegisters th' = userRegisters th \<and>
        (t_status th \<noteq> JUST_CREATED \<longrightarrow> t_status th' \<noteq> JUST_CREATED)))"

named_theorems quiet_steps \<open>routines that change the status of threads only\<close>

lemma quiet_refl [simp, quiet_steps]: "quiet k k"
  by (simp add: quiet_def)

lemma quiet_trans [trans]: "quiet k k1 \<Longrightarrow> quiet k1 k2 \<Longrightarrow> quiet k k2"
  unfolding quiet_def by (intro conjI allI impI; (simp; fail)?; fastforce)

lemma quiet_view: "quiet k k' \<Longrightarrow> user_view t R a pt n k \<Longrightarrow> user_view t R a pt n k'"
  unfolding quiet_def user_view_def by force

lemma quiet_same: "threads k' = threads k \<Longrightarrow> spaces k' = spaces k \<Longrightarrow> currentThread k' = currentThread k \<Longrightarrow> registers k' = registers k \<Longrightarrow> pageTable k' = pageTable k \<Longrightarrow>
    pageTableSize k' = pageTableSize k \<Longrightarrow> quiet k k'"
  by (simp add: quiet_def)

lemma quiet_put [quiet_steps]: "quiet k (put_sem s x k)" "quiet k (put_lock l y k)" "quiet k (put_cond c z k)"
  by (auto intro!: quiet_same simp: put_sem_def put_lock_def put_cond_def)

lemma setStatus_quiet: "thread_setStatus s t k = Inr k' \<Longrightarrow> s \<noteq> JUST_CREATED \<Longrightarrow> quiet k k'"
  by (auto simp: thread_setStatus_def update_thread_def get_thread_def bindR_eq_Inr quiet_def split: option.splits)

lemma Sleep_begin_quiet [quiet_steps]: "Sleep_begin k = Inr k' \<Longrightarrow> quiet k k'"
  by (auto simp: Sleep_begin_def bindR_eq_Inr intro: setStatus_quiet)

lemma ReadyToRun_quiet [quiet_steps]: "ReadyToRun t k = Inr k' \<Longrightarrow> quiet k k'"
proof -
  assume "ReadyToRun t k = Inr k'"
  then obtain k1 q where "thread_setStatus READY t k = Inr k1" and k': "k' = k1\<lparr>readyList := q\<rparr>" by (auto simp: ReadyToRun_def bindR_eq_Inr Let_def)
  then have "quiet k k1" by (auto intro: setStatus_quiet)
  moreover have "quiet k1 k'" unfolding k' by (rule quiet_same) simp_all
  ultimately show ?thesis by (rule quiet_trans)
qed

lemma wake_quiet [quiet_steps]: "wake q k = Inr (r, k') \<Longrightarrow> quiet k k'"
  by (auto simp: wake_def bindR_eq_Inr intro: quiet_steps split: list.splits)

lemma wake_all_quiet [quiet_steps]: "wake_all q k = Inr k' \<Longrightarrow> quiet k k'"
  by (induction q k rule: wake_all.induct) (auto simp: bindR_eq_Inr intro: quiet_trans ReadyToRun_quiet)

lemma P_quiet [quiet_steps]: "Semaphore_P s k = Inr (b, k') \<Longrightarrow> quiet k k'"
  by (auto simp: Semaphore_P_def bindR_eq_Inr Let_def split: if_splits intro: quiet_steps quiet_trans [OF quiet_put(1)])

lemma V_quiet [quiet_steps]: "Semaphore_V s k = Inr k' \<Longrightarrow> quiet k k'"
  by (auto simp: Semaphore_V_def bindR_eq_Inr intro: quiet_trans [OF wake_quiet] quiet_put)

lemma Acquire_quiet [quiet_steps]: "Acquire_round l k = Inr (b, k') \<Longrightarrow> quiet k k'" "Acquire l k = Inr (b, k') \<Longrightarrow> quiet k k'"
  by (auto simp: Acquire_def Acquire_round_def bindR_eq_Inr Let_def split: if_splits intro: quiet_steps quiet_trans [OF quiet_put(2)])

lemma Release_quiet [quiet_steps]: "Release l k = Inr k' \<Longrightarrow> quiet k k'"
  by (auto simp: Release_def bindR_eq_Inr intro: quiet_trans [OF wake_quiet] quiet_put)

lemma Wait_quiet [quiet_steps]: "Wait c l k = Inr k' \<Longrightarrow> quiet k k'"
proof -
  assume "Wait c l k = Inr k'"
  then obtain k1 y where "Release l k = Inr k1" and sl: "Sleep_begin (put_cond c y k1) = Inr k'" by (auto simp: Wait_def bindR_eq_Inr)
  then have "quiet k k1" by (auto intro: Release_quiet)
  also have "quiet k1 (put_cond c y k1)" by (rule quiet_put)
  also have "quiet (put_cond c y k1) k'" using sl by (rule Sleep_begin_quiet)
  finally show ?thesis .
qed

lemma Signal_quiet [quiet_steps]: "Signal c l k = Inr k' \<Longrightarrow> quiet k k'"
  by (auto simp: Signal_def bindR_eq_Inr intro: quiet_trans [OF wake_quiet] quiet_put)

lemma Broadcast_quiet [quiet_steps]: "Broadcast c l k = Inr k' \<Longrightarrow> quiet k k'"
  by (auto simp: Broadcast_def bindR_eq_Inr intro: quiet_trans [OF wake_all_quiet] quiet_put)

section \<open>Every step of the kernel\<close>

lemma dispatch_view:
  assumes inv: "kinv k pc" and run: "st k (currentThread k) \<noteq> Some RUNNING" and f: "FindNextToRun k = (Some u, k1)" and r: "Run u k1 = Inr k'"
    and v: "user_view t R a pt n k" and t: "pc t \<noteq> Gone"
  shows "user_view t R a pt n k'"
proof -
  obtain p rest where head: "readyList k = (p, u) # rest" and k1: "k1 = k\<lparr>readyList := rest\<rparr>"
    using f by (auto simp: FindNextToRun_def split: list.splits prod.splits)
  have sw: "can_switch u k1" unfolding k1 by (rule dispatch_can_switch [OF kinvD(1) [OF inv] run head])
  have "st k u = Some READY" using sched_coreD(1) [OF kinvD(1) [OF inv]] head by (simp add: ready_wf_def ready_def)
  then have "saved k1 u \<noteq> None" unfolding saved_None by (auto simp: k1 st_def)
  then obtain th where th: "saved k1 u = Some th" by blast
  have "user_view t R a pt n k1" using v user_view_frame [of k1 t k] by (simp add: k1)
  moreover have "threadToBeDestroyed k1 \<noteq> Some t" using kinvD(2) [OF inv] t by (auto simp: k1)
  ultimately show ?thesis by (rule Run_view [OF sw th r])
qed

lemma yield_view:
  assumes inv: "kinv k pc" and run: "st k (currentThread k) = Some RUNNING" and r: "Yield k = Inr k'" and v: "user_view t R a pt n k" and t: "pc t \<noteq> Gone"
  shows "user_view t R a pt n k'"
proof (cases "readyList k")
  case Nil
  then show ?thesis using v r by (auto simp: Yield_none)
next
  case (Cons e rest)
  obtain p u where e: "e = (p, u)" by force
  then have head: "readyList k = (p, u) # rest" using Cons by simp
  have wf: "sched_wf k" using kinvD(1) [OF inv] run by (simp add: sched_wf_def)
  obtain th where th: "threads k (currentThread k) = Some th" using sched_wf_current [OF wf] by blast
  let ?k1 = "requeued th rest k"
  have r1: "Run u ?k1 = Inr k'" using r Yield_Run [OF th head] by simp
  obtain thu where thu: "saved ?k1 u = Some thu" using requeued_saved [OF wf head] by blast
  have "user_view t R a pt n ?k1" using v th by (auto simp: user_view_def requeued_def split: if_splits)
  moreover have "threadToBeDestroyed ?k1 \<noteq> Some t" using kinvD(2) [OF inv] t by auto
  ultimately show ?thesis by (rule Run_view [OF requeued_can_switch [OF wf th head] thu r1])
qed

lemma fork_view: "st k u = Some JUST_CREATED \<Longrightarrow> Fork u k = Inr k' \<Longrightarrow> user_view t R a pt n k \<Longrightarrow> user_view t R a pt n k'"
proof -
  assume u: "st k u = Some JUST_CREATED" and r: "Fork u k = Inr k'" and v: "user_view t R a pt n k"
  obtain k0 k1 where k1: "StackAllocate u k = Inr k0" "update_thread u (isForked_update (\<lambda>_. 1)) k0 = Inr k1" and r1: "ReadyToRun u k1 = Inr k'"
    using r by (auto simp: Fork_def bindR_eq_Inr)
  have "u \<noteq> t" using u v by (auto simp: user_view_def st_def)
  then have "user_view t R a pt n k1 = user_view t R a pt n k" using k1
    by (intro user_view_frame) (auto simp: StackAllocate_def update_thread_def get_thread_def bindR_eq_Inr split: option.splits)
  then have "user_view t R a pt n k1" using v by simp
  then show ?thesis by (rule quiet_view [OF ReadyToRun_quiet [OF r1]])
qed

text \<open>A step of the kernel that does not end the thread keeps its view.\<close>

lemma kstep_view:
  assumes "kstep s e s'" and "kinv (fst s) (snd s)" and "user_view t R a pt n (fst s)" and "snd s t \<noteq> Gone" and "snd s' t \<noteq> Gone"
  shows "user_view t R a pt n (fst s')"
  using assms
proof (cases rule: kstep.cases)
  case (create k u pc junk nm j l c)
  then have "u \<noteq> t" using assms(3) by (auto simp: user_view_def)
  then show ?thesis using assms(3) create user_view_frame [of "fst s'" t k] by simp
next
  case (fork k u k' pc)
  then show ?thesis using assms(3) by (auto intro: fork_view)
next
  case (yield k k' pc)
  then show ?thesis using assms by (auto intro: yield_view)
next
  case (finish k pc k')
  then have "currentThread k \<noteq> t" using assms(5) by auto
  have "user_view t R a pt n (k\<lparr>threadToBeDestroyed := Some (currentThread k)\<rparr>)" using assms(3) finish(1) user_view_frame [of "k\<lparr>threadToBeDestroyed := Some (currentThread k)\<rparr>" t k] by simp
  then show ?thesis using quiet_view [OF Sleep_begin_quiet [OF finish(6)]] finish(3) by simp
next
  case (dispatch k u k1 k' pc)
  then show ?thesis using assms by (auto intro: dispatch_view)
qed (auto intro: quiet_view quiet_steps)

section \<open>Everything else\<close>

text \<open>What else happens between two steps of the kernel: user instructions of the running thread, memory, paging, interrupts, new address spaces, new values of the fields of control
  blocks, and whatever other devices do. The scheduler's lists and the synchronization objects stay, and so does what belongs to the thread \<open>t\<close>: its saved registers, the page table of its
  space and, while \<open>t\<close> is on the processor, the registers of the machine.\<close>

definition elsewhere :: "nat \<Rightarrow> 'm synch_scheme \<Rightarrow> 'm synch_scheme \<Rightarrow> bool" where
  "elsewhere t k k' \<longleftrightarrow> st k' = st k \<and> static_ok k' \<and> currentThread k' = currentThread k \<and> readyList k' = readyList k \<and> threadToBeDestroyed k' = threadToBeDestroyed k \<and>
     sems k' = sems k \<and> locks k' = locks k \<and> conds k' = conds k \<and>
     map_option (\<lambda>th. (t_space th, t_started th, userRegisters th)) (threads k' t) = map_option (\<lambda>th. (t_space th, t_started th, userRegisters th)) (threads k t) \<and>
     (\<forall>th a. threads k t = Some th \<longrightarrow> t_space th = Some a \<longrightarrow>
        map_option (\<lambda>sp. (sp_pageTable sp, sp_numPages sp)) (spaces k' a) = map_option (\<lambda>sp. (sp_pageTable sp, sp_numPages sp)) (spaces k a)) \<and>
     (currentThread k = t \<longrightarrow> registers k' = registers k \<and> pageTable k' = pageTable k \<and> pageTableSize k' = pageTableSize k)"

lemma elsewhere_kinv: "kinv k pc \<Longrightarrow> elsewhere t k k' \<Longrightarrow> kinv k' pc"
  using queue_of_cong [of k' k] by (auto simp: elsewhere_def kinv_def view_of_def sched_core_def ready_wf_def ready_def)

lemma elsewhere_view:
  assumes "elsewhere t k k'" and v: "user_view t R a pt n k"
  shows "user_view t R a pt n k'"
proof -
  obtain th sp where th: "threads k t = Some th" "t_space th = Some a" "spaces k a = Some sp" "sp_pageTable sp = pt" "sp_numPages sp = n" "t_status th \<noteq> JUST_CREATED"
    using v by (auto simp: user_view_def)
  have e: "map_option (\<lambda>th. (t_space th, t_started th, userRegisters th)) (threads k' t) = Some (t_space th, t_started th, userRegisters th)"
    "map_option (\<lambda>sp. (sp_pageTable sp, sp_numPages sp)) (spaces k' a) = Some (pt, n)" "st k' t = st k t" "currentThread k' = currentThread k"
    "currentThread k = t \<longrightarrow> registers k' = registers k \<and> pageTable k' = pageTable k \<and> pageTableSize k' = pageTableSize k"
    using assms(1) th unfolding elsewhere_def by auto
  obtain th' where "threads k' t = Some th'" "t_space th' = t_space th" "t_started th' = t_started th" "userRegisters th' = userRegisters th" "t_status th' = t_status th"
    using e(1,3) th(1) by (auto simp: st_def)
  moreover obtain sp' where "spaces k' a = Some sp'" "sp_pageTable sp' = pt" "sp_numPages sp' = n" using e(2) by auto
  ultimately show ?thesis using v th(1) e(4,5) by (auto simp: user_view_def split: if_splits)
qed

text \<open>Runs in which the thread \<open>t\<close> does not finish.\<close>

inductive ureach :: "nat \<Rightarrow> 'm synch_scheme \<times> (nat \<Rightarrow> place) \<Rightarrow> 'm synch_scheme \<times> (nat \<Rightarrow> place) \<Rightarrow> bool" for t s where
  ureach_start: "ureach t s s"
| ureach_kernel: "ureach t s s1 \<Longrightarrow> kstep s1 e s2 \<Longrightarrow> snd s2 t \<noteq> Gone \<Longrightarrow> ureach t s s2"
| ureach_work: "ureach t s (k, pc) \<Longrightarrow> elsewhere t k k' \<Longrightarrow> ureach t s (k', pc)"

lemma ureach_view:
  assumes "ureach t s s'" and "kinv (fst s) (snd s)" and "user_view t R a pt n (fst s)" and "snd s t \<noteq> Gone"
  shows "kinv (fst s') (snd s') \<and> user_view t R a pt n (fst s') \<and> snd s' t \<noteq> Gone"
  using assms
proof (induction rule: ureach.induct)
  case (ureach_kernel s1 e s2)
  then have "kinv (fst s2) (snd s2)" using kstep_refines_aux [of s1 e s2] by blast
  then show ?case using ureach_kernel kstep_view [of s1 e s2 t R a pt n] by blast
next
  case (ureach_work k pc k')
  then show ?case using elsewhere_kinv [of k pc t k'] elsewhere_view by auto
qed simp

section \<open>Properties\<close>

text \<open>C22. User state across context switches. A user thread is on the processor, and again on the processor after any run of the kernel in which it does not finish: any number of yields, sleeps
  and wake-ups of any number of threads, creation, forking and finishing of other threads, interleaved with arbitrary work of the threads that run in between. Then the machine has the
  user registers and the page table it had before, provided the thread itself executed no user instruction or handler that sets its registers and kept the page table of its space.\<close>

theorem context_switch_registers:
  assumes "kinv k pc" and "threads k t = Some th" and "currentThread k = t" and "t_status th = RUNNING" and "t_started th" and "t_space th = Some a"
    and "spaces k a = Some sp" and "pageTable k = sp_pageTable sp" and "pageTableSize k = sp_numPages sp" and "pc t \<noteq> Gone"
    and "ureach t (k, pc) (k', pc')" and "currentThread k' = t"
  shows "registers k' = registers k \<and> pageTable k' = pageTable k \<and> pageTableSize k' = pageTableSize k"
proof -
  have "user_view t (registers k) a (pageTable k) (pageTableSize k) k" using assms(2-9) by (auto simp: user_view_def)
  then have "user_view t (registers k) a (pageTable k) (pageTableSize k) k'" using ureach_view [OF assms(11)] assms(1,10) by simp
  then show ?thesis using assms(12) by (auto simp: user_view_def)
qed

text \<open>Thread 0 yields to thread 1, which overwrites the registers of the machine, the page table pointer and the memory and yields back.\<close>

definition user_synch :: synch where
  "user_synch = example_synch\<lparr>pageTable := Some 7, pageTableSize := 3\<rparr>"

lemma user_synch_run:
  "\<exists>k'. ureach 0 (user_synch, \<lambda>t. Free) (k', \<lambda>t. Free) \<and> currentThread k' = 0 \<and> (\<exists>k1 k2. Yield user_synch = Inr k1 \<and> currentThread k1 = 1 \<and>
     k2 = k1\<lparr>registers := [5], mainMemory := [], pageTable := None, pageTableSize := 0\<rparr> \<and> Yield k2 = Inr k')" (is "\<exists>k'. ?run k'")
  and user_synch_kinv: "kinv user_synch (\<lambda>t. Free)"
proof -
  have th: "\<exists>th. threads user_synch 0 = Some th \<and> priority th = 0"
    by (simp add: user_synch_def example_synch_def two_threads_def Machine_new_def Interrupt_new_def isys.defs Machine.defs kernel.defs synch.defs)
  have "elsewhere 1 example_synch user_synch"
    using example_sched(1,2) by (simp add: elsewhere_def user_synch_def sched_core_def static_ok_def st_def fun_eq_iff)
  then show inv: "kinv user_synch (\<lambda>t. Free)" by (rule elsewhere_kinv [OF example_kinv])
  have f: "currentThread user_synch = 0" "readyList user_synch = [(0, 1)]" "st user_synch 0 = Some RUNNING"
    using example_sched(2,3,6) by (simp_all add: user_synch_def st_def)
  have wf: "sched_wf user_synch" using kinvD(1) [OF inv] f(1,3) by (simp add: sched_wf_def)
  obtain k1 where k1: "Yield user_synch = Inr k1" "sched_wf k1" "currentThread k1 = 1" "readyList k1 = [(0, 0)]"
    using Yield_correct [OF wf, of _ 0 1 "[]"] th f by (auto simp: c_int_def)
  have y1: "kstep (user_synch, \<lambda>t. Free) Tau (k1, \<lambda>t. Free)" by (rule kstep.yield) (use f k1(1) in simp_all)
  let ?k2 = "k1\<lparr>registers := [5], mainMemory := [], pageTable := None, pageTableSize := 0\<rparr>"
  have wf2: "sched_wf ?k2" using k1(2) by simp
  have e: "elsewhere 0 k1 ?k2" using k1(2,3) by (simp add: elsewhere_def sched_wf_def sched_core_def static_ok_def st_def fun_eq_iff)
  obtain th1 where th1: "threads ?k2 (currentThread ?k2) = Some th1" using sched_wf_current [OF wf2] by blast
  obtain k' where k': "Yield ?k2 = Inr k'" "currentThread k' = 0" using Yield_correct [OF wf2 th1, of 0 0 "[]"] k1(4) by auto
  have y2: "kstep (?k2, \<lambda>t. Free) Tau (k', \<lambda>t. Free)" by (rule kstep.yield) (use wf2 k'(1) in \<open>simp_all add: sched_wf_def\<close>)
  have "ureach 0 (user_synch, \<lambda>t. Free) (k', \<lambda>t. Free)"
    by (rule ureach_kernel [OF ureach_work [OF ureach_kernel [OF ureach_start y1] e] y2]) simp_all
  then show "\<exists>k'. ?run k'" using k1(1,3) k' by blast
qed

theorem context_switch_registers_witness:
  "\<exists>k1 k2. Yield user_synch = Inr k1 \<and> currentThread k1 = 1 \<and> Yield (k1\<lparr>registers := [5], mainMemory := [], pageTable := None, pageTableSize := 0\<rparr>) = Inr k2 \<and>
     registers k2 = registers user_synch \<and> pageTable k2 = Some 7"
proof -
  obtain k1 k2 where k: "ureach 0 (user_synch, \<lambda>t. Free) (k2, \<lambda>t. Free)" "currentThread k2 = 0" "Yield user_synch = Inr k1" "currentThread k1 = 1"
    "Yield (k1\<lparr>registers := [5], mainMemory := [], pageTable := None, pageTableSize := 0\<rparr>) = Inr k2" using user_synch_run by blast
  have f: "currentThread user_synch = 0" "pageTable user_synch = Some 7" "pageTableSize user_synch = 3"
    "\<exists>th. threads user_synch 0 = Some th \<and> t_status th = RUNNING \<and> t_started th \<and> t_space th = Some 0"
    "\<exists>sp. spaces user_synch 0 = Some sp \<and> sp_pageTable sp = Some 7 \<and> sp_numPages sp = 3"
    by (simp_all add: user_synch_def example_synch_def two_threads_def Machine_new_def Interrupt_new_def isys.defs Machine.defs kernel.defs synch.defs)
  then obtain th sp where "threads user_synch 0 = Some th" "t_status th = RUNNING" "t_started th" "t_space th = Some 0" "spaces user_synch 0 = Some sp"
    "pageTable user_synch = sp_pageTable sp" "pageTableSize user_synch = sp_numPages sp" by auto
  from context_switch_registers [OF user_synch_kinv this(1) f(1) this(2-7) _ k(1,2)] have "registers k2 = registers user_synch \<and> pageTable k2 = Some 7" using f(2) by simp
  then show ?thesis using k(3-5) by blast
qed

end
