(* ===== verification/Monitors.thy ===== *)
theory Monitors
  imports Synch
begin

text \<open>
  Monitors: objects whose methods acquire a private lock, work on the object's fields, wait for and signal private condition variables, and release
  the lock. \<^verbatim>\<open>Mailbox\<close>, \<^verbatim>\<open>Whale\<close>, \<^verbatim>\<open>SynchList\<close> and the pair \<^verbatim>\<open>Thread::Join\<close>/\<^verbatim>\<open>Thread::Finish\<close> are written in this way.

  A method is given statement by statement: its program points are the values of a datatype and \<open>code p f\<close> is what the statement at \<open>p\<close> does on
  the fields \<open>f\<close>. \<open>mstep\<close> runs the methods on the kernel of \<open>Synch\<close>, with \<open>Acquire\<close>, \<open>Wait\<close>, \<open>Signal\<close> and \<open>Release\<close> as they are, and every other
  step of the kernel in between: a thread may lose the processor between any two statements. \<open>astep\<close> is what a client may rely on: one thread is inside at a
  time, and a thread that waits continues only after it has been signalled. The locale \<open>monitor\<close> turns an invariant of \<open>astep\<close> into an invariant of every run on the kernel.
\<close>

section \<open>Methods and their steps\<close>

datatype ('p, 'f) act = Do 'f 'p | DoWait nat 'p | DoSignal nat 'p | DoRelease | DoAbort

text \<open>\<open>DoAbort\<close> is a failed \<open>ASSERT\<close>. A thread is outside, in the \<open>Acquire\<close> a method begins with, in a \<open>Wait\<close> after which it continues at \<open>p\<close>, or inside at \<open>p\<close>.\<close>

datatype 'p mplace = Out | Enter 'p | Wt 'p | In 'p

datatype ('p, 'f) mlabel = Call nat 'p | Exec nat 'p 'f | Silent

type_synonym ('m, 'p, 'f) mstate = "('m synch_scheme \<times> (nat \<Rightarrow> place)) \<times> 'f \<times> (nat \<Rightarrow> 'p mplace)"

definition runs :: "'m synch_scheme \<Rightarrow> (nat \<Rightarrow> place) \<Rightarrow> bool" where
  "runs k pc \<longleftrightarrow> st k (currentThread k) = Some RUNNING \<and> pc (currentThread k) = Free"

inductive mstep :: "('p \<Rightarrow> 'f \<Rightarrow> ('p, 'f) act) \<Rightarrow> 'p set \<Rightarrow> nat \<Rightarrow> nat set \<Rightarrow> ('m, 'p, 'f) mstate \<Rightarrow> ('p, 'f) mlabel \<Rightarrow> ('m, 'p, 'f) mstate \<Rightarrow> bool"
  for code entry lk cs where
  call: "runs k pc \<Longrightarrow> q (currentThread k) = Out \<Longrightarrow> p \<in> entry \<Longrightarrow>
    mstep code entry lk cs ((k, pc), f, q) (Call (currentThread k) p) ((k, pc), f, q(currentThread k := Enter p))"
| enter: "kstep (k, pc) (Took (LockQ lk)) (k', pc') \<Longrightarrow> q (currentThread k) = Enter p \<or> q (currentThread k) = Wt p \<Longrightarrow>
    mstep code entry lk cs ((k, pc), f, q) Silent ((k', pc'), f, q(currentThread k := In p))"
| exec: "runs k pc \<Longrightarrow> q (currentThread k) = In p \<Longrightarrow> code p f = Do f' p' \<Longrightarrow>
    mstep code entry lk cs ((k, pc), f, q) (Exec (currentThread k) p f) ((k, pc), f', q(currentThread k := In p'))"
| wait: "runs k pc \<Longrightarrow> q (currentThread k) = In p \<Longrightarrow> code p f = DoWait c p' \<Longrightarrow> c \<in> cs \<Longrightarrow> Wait c lk k = Inr k' \<Longrightarrow>
    mstep code entry lk cs ((k, pc), f, q) (Exec (currentThread k) p f) ((k', pc(currentThread k := InWait c lk)), f, q(currentThread k := Wt p'))"
| signal: "runs k pc \<Longrightarrow> q (currentThread k) = In p \<Longrightarrow> code p f = DoSignal c p' \<Longrightarrow> c \<in> cs \<Longrightarrow> Signal c lk k = Inr k' \<Longrightarrow>
    mstep code entry lk cs ((k, pc), f, q) (Exec (currentThread k) p f) ((k', pc), f, q(currentThread k := In p'))"
| release: "runs k pc \<Longrightarrow> q (currentThread k) = In p \<Longrightarrow> code p f = DoRelease \<Longrightarrow> Release lk k = Inr k' \<Longrightarrow>
    mstep code entry lk cs ((k, pc), f, q) (Exec (currentThread k) p f) ((k', pc), f, q(currentThread k := Out))"
| other: "kstep (k, pc) e (k', pc') \<Longrightarrow> e \<noteq> Took (LockQ lk) \<Longrightarrow> e \<noteq> Gave (LockQ lk) \<Longrightarrow> \<forall>c \<in> cs. queue_of k' (CondQ c) = queue_of k (CondQ c) \<Longrightarrow>
    mstep code entry lk cs ((k, pc), f, q) Silent ((k', pc'), f, q)"

inductive mreach :: "('p \<Rightarrow> 'f \<Rightarrow> ('p, 'f) act) \<Rightarrow> 'p set \<Rightarrow> nat \<Rightarrow> nat set \<Rightarrow> ('m, 'p, 'f) mstate \<Rightarrow> ('p, 'f) mlabel list \<Rightarrow> ('m, 'p, 'f) mstate \<Rightarrow> bool"
  for code entry lk cs where
  mreach_start: "mreach code entry lk cs s [] s"
| mreach_step: "mreach code entry lk cs s ls s1 \<Longrightarrow> mstep code entry lk cs s1 l s2 \<Longrightarrow> mreach code entry lk cs s (ls @ [l]) s2"

section \<open>The abstract monitor\<close>

text \<open>Who is inside, the queues of the condition variables, the fields and the places.\<close>

type_synonym ('p, 'f) astate = "nat option \<times> (nat \<Rightarrow> (int \<times> nat) list) \<times> 'f \<times> (nat \<Rightarrow> 'p mplace)"

inductive astep :: "('p \<Rightarrow> 'f \<Rightarrow> ('p, 'f) act) \<Rightarrow> 'p set \<Rightarrow> nat set \<Rightarrow> ('p, 'f) astate \<Rightarrow> ('p, 'f) mlabel \<Rightarrow> ('p, 'f) astate \<Rightarrow> bool"
  for code entry cs where
  a_call: "q t = Out \<Longrightarrow> p \<in> entry \<Longrightarrow> astep code entry cs (L, W, f, q) (Call t p) (L, W, f, q(t := Enter p))"
| a_enter: "q t = Enter p \<or> q t = Wt p \<Longrightarrow> \<forall>c \<in> cs. t \<notin> snd ` set (W c) \<Longrightarrow> astep code entry cs (None, W, f, q) Silent (Some t, W, f, q(t := In p))"
| a_exec: "q t = In p \<Longrightarrow> code p f = Do f' p' \<Longrightarrow> astep code entry cs (Some t, W, f, q) (Exec t p f) (Some t, W, f', q(t := In p'))"
| a_wait: "q t = In p \<Longrightarrow> code p f = DoWait c p' \<Longrightarrow> c \<in> cs \<Longrightarrow>
    astep code entry cs (Some t, W, f, q) (Exec t p f) (None, W(c := sorted_insert n t (W c)), f, q(t := Wt p'))"
| a_signal: "q t = In p \<Longrightarrow> code p f = DoSignal c p' \<Longrightarrow> c \<in> cs \<Longrightarrow>
    astep code entry cs (Some t, W, f, q) (Exec t p f) (Some t, W(c := tl (W c)), f, q(t := In p'))"
| a_release: "q t = In p \<Longrightarrow> code p f = DoRelease \<Longrightarrow> astep code entry cs (Some t, W, f, q) (Exec t p f) (None, W, f, q(t := Out))"

definition mabs :: "nat \<Rightarrow> nat set \<Rightarrow> ('m, 'p, 'f) mstate \<Rightarrow> ('p, 'f) astate" where
  "mabs lk cs s = (case s of ((k, pc), f, q) \<Rightarrow> (holder k lk, (\<lambda>c. if c \<in> cs then queue_of k (CondQ c) else []), f, q))"

text \<open>The program point of the thread inside.\<close>

definition inside :: "nat option \<Rightarrow> (nat \<Rightarrow> 'p mplace) \<Rightarrow> 'p option" where
  "inside L q = (case L of None \<Rightarrow> None | Some t \<Rightarrow> (case q t of In p \<Rightarrow> Some p | _ \<Rightarrow> None))"

lemma inside_simps [simp]: "inside None q = None" "inside (Some t) (q(t := In p)) = Some p" "q t = In p \<Longrightarrow> inside (Some t) q = Some p"
  by (simp_all add: inside_def)

definition minv :: "nat \<Rightarrow> ('m, 'p, 'f) mstate \<Rightarrow> bool" where
  "minv lk s \<longleftrightarrow> (case s of ((k, pc), f, q) \<Rightarrow> kinv k pc \<and> (\<forall>t. holder k lk = Some t \<longleftrightarrow> (\<exists>p. q t = In p)))"

section \<open>The kernel implements the abstract monitor\<close>

lemma wake_conds: "wake q k = Inr (r, k') \<Longrightarrow> conds k' = conds k \<and> r = tl q"
  by (auto simp: wake_def bindR_eq_Inr dest!: more_frames(2) synch_fields_more split: list.splits prod.splits)

lemma Release_conds: "Release l k = Inr k' \<Longrightarrow> conds k' = conds k"
  by (auto simp: Release_def get_lock_def bindR_eq_Inr put_lock_def split: option.splits dest!: wake_conds)

lemma queue_conds: "conds k' = conds k \<Longrightarrow> queue_of k' (CondQ c) = queue_of k (CondQ c)"
  by (simp add: queue_of_def)

lemma Signal_queue:
  assumes "Signal c l k = Inr k'"
  shows "queue_of k' (CondQ d) = (if d = c then tl (queue_of k (CondQ c)) else queue_of k (CondQ d))"
proof -
  obtain y r k1 where y: "conds k c = Some y" "wake (waitQ y) k = Inr (r, k1)" "k' = put_cond c (y\<lparr>waitQ := r\<rparr>) k1"
    using assms by (auto simp: Signal_def get_cond_def get_lock_def bindR_eq_Inr split: option.splits)
  then show ?thesis using wake_conds [OF y(2)] by (simp add: queue_of_def put_cond_def)
qed

lemma Wait_queue:
  assumes "Wait c l k = Inr k'"
  shows "\<exists>n. \<forall>d. queue_of k' (CondQ d) = (if d = c then sorted_insert n (currentThread k) (queue_of k (CondQ c)) else queue_of k (CondQ d))"
proof -
  obtain k1 y n where k1: "Release l k = Inr k1" and y: "conds k1 c = Some y"
    and sl: "Sleep_begin (put_cond c (y\<lparr>waitQ := sorted_insert n (currentThread k1) (waitQ y)\<rparr>) k1) = Inr k'"
    using assms by (auto simp: Wait_def get_cond_def bindR_eq_Inr split: option.splits)
  have c: "conds k1 = conds k" "currentThread k1 = currentThread k" using Release_conds [OF k1] Release_locks [OF k1] by auto
  have "conds k' = (conds k)(c \<mapsto> y\<lparr>waitQ := sorted_insert n (currentThread k) (waitQ y)\<rparr>)"
    using more_frames(1) [OF sl] c by (auto simp: put_cond_def dest!: synch_fields_more)
  then show ?thesis using y c(1) by (intro exI [of _ n]) (simp add: queue_of_def)
qed

lemma Acquire_round_conds: "Acquire_round l k = Inr (b, k') \<Longrightarrow> conds k' = conds k"
  by (auto simp: Acquire_round_def get_lock_def bindR_eq_Inr Let_def put_lock_def split: option.splits if_splits
      dest!: more_frames(1) synch_fields_more)

lemma Took_lock_conds: "kstep (k, pc) (Took (LockQ l)) (k', pc') \<Longrightarrow> conds k' = conds k \<and> st k (currentThread k) = Some RUNNING"
  by (auto elim!: kstep.cases dest!: Acquire_Acquire_round Acquire_round_conds)

text \<open>A running thread is in no queue.\<close>

lemma running_not_queued: "kinv k pc \<Longrightarrow> st k t = Some RUNNING \<Longrightarrow> t \<notin> snd ` set (queue_of k i)"
  using queues_okD(3) [OF kinvD(4), of k pc t i] by auto

lemma mstep_refines_aux:
  assumes "mstep code entry lk cs s l s'" and "minv lk s"
  shows "minv lk s' \<and> (astep code entry cs (mabs lk cs s) l (mabs lk cs s') \<or> l = Silent \<and> mabs lk cs s' = mabs lk cs s)"
  using assms
proof (induction rule: mstep.induct)
  case (call k pc q p f)
  then show ?case by (auto simp: minv_def mabs_def intro: a_call)
next
  case (enter k pc k' pc' q p f)
  have inv: "kinv k pc" "\<And>t. holder k lk = Some t \<longleftrightarrow> (\<exists>p. q t = In p)" using enter.prems by (auto simp: minv_def)
  note K = kstep_refines_pair [OF inv(1) enter.hyps(1)]
  have H: "holder k lk = None" "holder k' lk = Some (currentThread k)" using kstep_holder [OF enter.hyps(1), of lk] kinvD(3) [OF inv(1)] by simp_all
  have T: "conds k' = conds k" "st k (currentThread k) = Some RUNNING" using Took_lock_conds [OF enter.hyps(1)] by simp_all
  have W: "(\<lambda>c. if c \<in> cs then queue_of k' (CondQ c) else []) = (\<lambda>c. if c \<in> cs then queue_of k (CondQ c) else [])" using queue_conds [OF T(1)] by auto
  have "minv lk ((k', pc'), f, q(currentThread k := In p))" using K H inv(2) by (auto simp: minv_def)
  moreover have "astep code entry cs (mabs lk cs ((k, pc), f, q)) Silent (mabs lk cs ((k', pc'), f, q(currentThread k := In p)))"
    unfolding mabs_def prod.case H W using enter.hyps(2) running_not_queued [OF inv(1) T(2)] by (intro a_enter) auto
  ultimately show ?case by blast
next
  case (exec k pc q p f f' p')
  have inv: "kinv k pc" "holder k lk = Some (currentThread k)" "\<And>t. holder k lk = Some t \<longleftrightarrow> (\<exists>p. q t = In p)" using exec by (auto simp: minv_def)
  have "minv lk ((k, pc), f', q(currentThread k := In p'))" using inv by (auto simp: minv_def)
  moreover have "astep code entry cs (mabs lk cs ((k, pc), f, q)) (Exec (currentThread k) p f) (mabs lk cs ((k, pc), f', q(currentThread k := In p')))"
    unfolding mabs_def prod.case inv(2) using exec.hyps(2,3) by (rule a_exec)
  ultimately show ?case by blast
next
  case (wait k pc q p f c p' k')
  have inv: "kinv k pc" "holder k lk = Some (currentThread k)" "\<And>t. holder k lk = Some t \<longleftrightarrow> (\<exists>p. q t = In p)" using wait by (auto simp: minv_def)
  have uniq: "t = currentThread k" if "q t = In x" for t x using inv(2) inv(3) [of t] that by auto
  have K: "kinv k' (pc(currentThread k := InWait c lk))" using Wait_refines [OF inv(1) _ _ wait.hyps(5)] wait.hyps(1) by (auto simp: runs_def)
  have H: "holder k' lk = None" using Wait_locks [OF wait.hyps(5)] by simp
  obtain n where n: "\<And>d. queue_of k' (CondQ d) = (if d = c then sorted_insert n (currentThread k) (queue_of k (CondQ c)) else queue_of k (CondQ d))"
    using Wait_queue [OF wait.hyps(5)] by blast
  let ?W = "\<lambda>c. if c \<in> cs then queue_of k (CondQ c) else []"
  have W: "(\<lambda>c. if c \<in> cs then queue_of k' (CondQ c) else []) = ?W(c := sorted_insert n (currentThread k) (?W c))" using n wait.hyps(4) by (auto simp: fun_eq_iff)
  have "minv lk ((k', pc(currentThread k := InWait c lk)), f, q(currentThread k := Wt p'))" using K H uniq by (auto simp: minv_def)
  moreover have "astep code entry cs (mabs lk cs ((k, pc), f, q)) (Exec (currentThread k) p f)
      (mabs lk cs ((k', pc(currentThread k := InWait c lk)), f, q(currentThread k := Wt p')))"
    unfolding mabs_def prod.case inv(2) H W using wait.hyps(2-4) by (rule a_wait)
  ultimately show ?case by blast
next
  case (signal k pc q p f c p' k')
  have inv: "kinv k pc" "holder k lk = Some (currentThread k)" "\<And>t. holder k lk = Some t \<longleftrightarrow> (\<exists>p. q t = In p)" using signal by (auto simp: minv_def)
  have K: "kinv k' pc" using Signal_refines [OF inv(1) signal.hyps(5)] by blast
  have H: "holder k' = holder k" by (rule holder_cong [OF V_Signal_Broadcast_locks(2) [OF signal.hyps(5)]])
  let ?W = "\<lambda>c. if c \<in> cs then queue_of k (CondQ c) else []"
  have W: "(\<lambda>c. if c \<in> cs then queue_of k' (CondQ c) else []) = ?W(c := tl (?W c))" using Signal_queue [OF signal.hyps(5)] signal.hyps(4) by (auto simp: fun_eq_iff)
  have "minv lk ((k', pc), f, q(currentThread k := In p'))" using K H inv(2,3) by (auto simp: minv_def)
  moreover have "astep code entry cs (mabs lk cs ((k, pc), f, q)) (Exec (currentThread k) p f) (mabs lk cs ((k', pc), f, q(currentThread k := In p')))"
    unfolding mabs_def prod.case H inv(2) W using signal.hyps(2-4) by (rule a_signal)
  ultimately show ?case by blast
next
  case (release k pc q p f k')
  have inv: "kinv k pc" "holder k lk = Some (currentThread k)" "\<And>t. holder k lk = Some t \<longleftrightarrow> (\<exists>p. q t = In p)" using release by (auto simp: minv_def)
  have uniq: "t = currentThread k" if "q t = In x" for t x using inv(2) inv(3) [of t] that by auto
  have K: "kinv k' pc" using Release_refines [OF inv(1) release.hyps(4)] by blast
  have H: "holder k' lk = None" using Release_locks [OF release.hyps(4)] by simp
  have W: "(\<lambda>c. if c \<in> cs then queue_of k' (CondQ c) else []) = (\<lambda>c. if c \<in> cs then queue_of k (CondQ c) else [])"
    using queue_conds [OF Release_conds [OF release.hyps(4)]] by auto
  have "minv lk ((k', pc), f, q(currentThread k := Out))" using K H uniq by (auto simp: minv_def)
  moreover have "astep code entry cs (mabs lk cs ((k, pc), f, q)) (Exec (currentThread k) p f) (mabs lk cs ((k', pc), f, q(currentThread k := Out)))"
    unfolding mabs_def prod.case H inv(2) W using release.hyps(2,3) by (rule a_release)
  ultimately show ?case by blast
next
  case (other k pc e k' pc' f q)
  have inv: "kinv k pc" "\<And>t. holder k lk = Some t \<longleftrightarrow> (\<exists>p. q t = In p)" using other.prems by (auto simp: minv_def)
  have K: "kinv k' pc'" using kstep_refines_pair [OF inv(1) other.hyps(1)] by blast
  have H: "holder k' lk = holder k lk" using kstep_holder [OF other.hyps(1), of lk] kinvD(3) [OF inv(1)] other.hyps(2,3) by simp
  then show ?case using K inv(2) other.hyps(4) by (auto simp: minv_def mabs_def fun_eq_iff)
qed

lemma mreach_inv: "mreach code entry lk cs s ls s' \<Longrightarrow> minv lk s \<Longrightarrow> minv lk s'"
  by (induction rule: mreach.induct) (auto dest: mstep_refines_aux)

section \<open>No assertion of the primitives fails inside\<close>

lemma held_lock: "locks_ok k \<Longrightarrow> holder k l = Some t \<Longrightarrow> \<exists>x. locks k l = Some x \<and> threadHeld x = Some t \<and> locked x = 1"
  unfolding locks_ok_def holder_def by (fastforce split: option.splits)

lemma Release_succeeds:
  assumes inv: "kinv k pc" and h: "holder k l = Some (currentThread k)"
  shows "\<exists>k'. Release l k = Inr k'"
proof -
  obtain x where x: "locks k l = Some x" "threadHeld x = Some (currentThread k)" "locked x = 1" using held_lock [OF kinvD(3) [OF inv] h] by blast
  have q: "queue_of k (LockQ l) = l_queue x" using x by (simp add: queue_of_def)
  obtain r k1 where "wake (l_queue x) k = Inr (r, k1)"
    using wake_gives [where i = "LockQ l", OF kinvD(1) [OF inv] none_deadI [OF inv] kinvD(4) [OF inv]] q by auto
  then show ?thesis using x by (simp add: Release_def get_lock_def isHeldByCurrentThread_def)
qed

lemma Signal_succeeds:
  assumes inv: "kinv k pc" and h: "holder k l = Some (currentThread k)" and c: "conds k c = Some y"
  shows "\<exists>k'. Signal c l k = Inr k'"
proof -
  obtain x where x: "locks k l = Some x" "threadHeld x = Some (currentThread k)" using held_lock [OF kinvD(3) [OF inv] h] by blast
  have q: "queue_of k (CondQ c) = waitQ y" using c by (simp add: queue_of_def)
  obtain r k1 where "wake (waitQ y) k = Inr (r, k1)"
    using wake_gives [where i = "CondQ c", OF kinvD(1) [OF inv] none_deadI [OF inv] kinvD(4) [OF inv]] q by auto
  then show ?thesis using x c by (simp add: Signal_def get_lock_def get_cond_def isHeldByCurrentThread_def)
qed

lemma wake_level: "wake q k = Inr (r, k') \<Longrightarrow> level k' = level k"
  by (auto simp: wake_def ReadyToRun_def thread_setStatus_def update_thread_def bindR_eq_Inr Let_def split: list.splits prod.splits)

lemma Release_level: "Release l k = Inr k' \<Longrightarrow> level k' = level k"
  by (auto simp: Release_def bindR_eq_Inr put_lock_def split: option.splits dest!: wake_level)

lemma Wait_succeeds:
  assumes inv: "kinv k pc" and run: "st k (currentThread k) = Some RUNNING" and h: "holder k l = Some (currentThread k)" and c: "conds k c = Some y" and off: "level k = IntOff"
  shows "\<exists>k'. Wait c l k = Inr k'"
proof -
  obtain x where x: "locks k l = Some x" "threadHeld x = Some (currentThread k)" using held_lock [OF kinvD(3) [OF inv] h] by blast
  obtain k1 where k1: "Release l k = Inr k1" using Release_succeeds [OF inv h] by blast
  have R: "kinv k1 pc" "currentThread k1 = currentThread k" "st k1 (currentThread k1) = Some RUNNING" using Release_refines [OF inv k1] run by auto
  obtain th where th: "threads k1 (currentThread k1) = Some th" using R(3) by (auto simp: st_def)
  show ?thesis
    using x k1 Release_conds [OF k1] c th Release_level [OF k1] off
    by (simp add: Wait_def get_lock_def isHeldByCurrentThread_def get_cond_def current_key_def getPriority_def get_thread_def Sleep_begin_def put_cond_def
        thread_setStatus_def update_thread_def)
qed

text \<open>What the statement at \<open>p\<close> may do to the kernel does not stop.\<close>

fun goes_on :: "nat \<Rightarrow> 'm synch_scheme \<Rightarrow> ('p, 'f) act \<Rightarrow> bool" where
  "goes_on lk k (Do f p) = True"
| "goes_on lk k (DoWait c p) = (\<exists>k'. Wait c lk k = Inr k')"
| "goes_on lk k (DoSignal c p) = (\<exists>k'. Signal c lk k = Inr k')"
| "goes_on lk k DoRelease = (\<exists>k'. Release lk k = Inr k')"
| "goes_on lk k DoAbort = False"

fun conds_of :: "('p, 'f) act \<Rightarrow> nat set" where
  "conds_of (DoWait c p) = {c}"
| "conds_of (DoSignal c p) = {c}"
| "conds_of a = {}"

lemma inside_goes_on:
  assumes inv: "minv lk ((k, pc), f, q)" and run: "runs k pc" and p: "q (currentThread k) = In p" and off: "level k = IntOff" and c: "\<forall>c \<in> conds_of a. conds k c \<noteq> None" and a: "a \<noteq> DoAbort"
  shows "goes_on lk k a"
proof -
  have k: "kinv k pc" "holder k lk = Some (currentThread k)" using inv p by (auto simp: minv_def)
  show ?thesis
    using Wait_succeeds [OF k(1) _ k(2)] Signal_succeeds [OF k] Release_succeeds [OF k] run off c a by (cases a) (auto simp: runs_def)
qed

section \<open>Invariants of a monitor\<close>

text \<open>The interface for the objects below: an invariant \<open>Inv\<close> of the abstract monitor, over the history of executed statements, holds in every run on the kernel.\<close>

locale monitor =
  fixes code :: "'p \<Rightarrow> 'f \<Rightarrow> ('p, 'f) act"
    and entry :: "'p set"
    and cs :: "nat set"
    and Inv :: "('p, 'f) mlabel list \<Rightarrow> ('p, 'f) astate \<Rightarrow> bool"
  assumes step: "Inv h a \<Longrightarrow> astep code entry cs a l a' \<Longrightarrow> Inv (h @ [l]) a'"
    and silent: "Inv h a \<Longrightarrow> Inv (h @ [Silent]) a"
begin

lemma reach_inv:
  assumes "mreach code entry lk cs s ls s'" and "minv lk s" and "Inv [] (mabs lk cs s)"
  shows "Inv ls (mabs lk cs s')"
  using assms
proof (induction rule: mreach.induct)
  case (mreach_step s ls s1 l s2)
  note R = mstep_refines_aux [OF mreach_step.hyps(2) mreach_inv [OF mreach_step.hyps(1) mreach_step.prems(1)]]
  show ?case using R mreach_step.IH [OF mreach_step.prems] step silent by metis
qed

end

text \<open>A kernel on which an object has just been created: its lock is free and nobody waits for its condition variables.\<close>

definition fresh :: "nat \<Rightarrow> nat set \<Rightarrow> 'm synch_scheme \<Rightarrow> (nat \<Rightarrow> place) \<Rightarrow> bool" where
  "fresh lk cs k pc \<longleftrightarrow> kinv k pc \<and> holder k lk = None \<and> (\<forall>c \<in> cs. queue_of k (CondQ c) = [])"

lemma fresh_minv: "fresh lk cs k pc \<Longrightarrow> minv lk ((k, pc), f, \<lambda>t. Out)"
  by (simp add: fresh_def minv_def)

lemma fresh_mabs: "fresh lk cs k pc \<Longrightarrow> mabs lk cs ((k, pc), f, \<lambda>t. Out) = (None, \<lambda>c. [], f, \<lambda>t. Out)"
  by (auto simp: fresh_def mabs_def)

context monitor
begin

lemma fresh_inv:
  assumes "mreach code entry lk cs ((k, pc), f, \<lambda>t. Out) ls s'" and "fresh lk cs k pc" and "Inv [] (None, \<lambda>c. [], f, \<lambda>t. Out)"
  shows "Inv ls (mabs lk cs s')"
  by (rule reach_inv [OF assms(1) fresh_minv [OF assms(2)]]) (simp only: fresh_mabs [OF assms(2)] assms(3))

end

text \<open>The first statement of a method, on the kernel with two threads of which the first one runs.\<close>

lemma idle_example_fresh: "fresh 0 cs example_synch (\<lambda>t. Free)"
  using example_kinv by (simp add: fresh_def example_queues holder_def example_objects Lock_new_def)

lemma example_first:
  assumes "p \<in> entry" and "code p f = Do f' p'"
  shows "mreach code entry 0 cs ((example_synch, \<lambda>t. Free), f, \<lambda>t. Out) [Call 0 p, Silent, Exec 0 p f]
    ((put_lock 0 (Lock_new\<lparr>locked := 1, threadHeld := Some 0\<rparr>) example_synch, \<lambda>t. Free), f', (\<lambda>t. Out)(0 := In p'))"
proof -
  let ?k = "put_lock 0 (Lock_new\<lparr>locked := 1, threadHeld := Some 0\<rparr>) example_synch"
  have c: "mstep code entry 0 cs ((example_synch, \<lambda>t. Free), f, \<lambda>t. Out) (Call 0 p) ((example_synch, \<lambda>t. Free), f, (\<lambda>t. Out)(0 := Enter p))"
    using mstep.call [of example_synch "\<lambda>t. Free" "\<lambda>t. Out" p entry code 0 cs f] assms(1) example_sched(2,6) by (simp add: runs_def)
  have e: "mstep code entry 0 cs ((example_synch, \<lambda>t. Free), f, (\<lambda>t. Out)(0 := Enter p)) Silent ((?k, \<lambda>t. Free), f, (\<lambda>t. Out)(0 := In p))"
    using mstep.enter [OF example_acquire, of "(\<lambda>t. Out)(0 := Enter p)" p code entry cs f] example_sched(2) by (simp add: fun_upd_idem)
  have r: "runs ?k (\<lambda>t. Free)" "currentThread ?k = 0" using example_sched(2,6) by (simp_all add: runs_def put_lock_def st_def)
  have x: "mstep code entry 0 cs ((?k, \<lambda>t. Free), f, (\<lambda>t. Out)(0 := In p)) (Exec 0 p f) ((?k, \<lambda>t. Free), f', (\<lambda>t. Out)(0 := In p'))"
    using mstep.exec [OF r(1), of "(\<lambda>t. Out)(0 := In p)" p code f f' p' entry 0 cs] assms(2) r(2) by simp
  show ?thesis using mreach_step [OF mreach_step [OF mreach_step [OF mreach_start c] e] x] by simp
qed

end
