(* ===== verification/Rendezvous.thy ===== *)
theory Rendezvous
  imports Monitors
begin

text \<open>
  The monitors of \<^verbatim>\<open>src/code/threads\<close>: \<open>SynchList\<close> (\<^verbatim>\<open>synchlist.cc\<close>), \<open>Mailbox\<close> and \<open>Whale\<close> (\<^verbatim>\<open>synch.cc\<close>). A program point is named after the statement that is executed next; the value a constructor carries is a parameter or local variable of the method.
\<close>

section \<open>SynchList\<close>

record SynchList =
  sl_list :: "nat list"
  listEmpty :: nat

definition SynchList_new :: "nat \<Rightarrow> SynchList" where
  "SynchList_new c = \<lparr>sl_list = [], listEmpty = c\<rparr>"

text \<open>The list holds pointers, 0 being the null pointer; \<open>list->Remove()\<close> of an empty list returns it.\<close>

datatype sl_pc = AppPut nat | AppSignal | AppRelease | RemTest | RemTake | RemCheck nat | RemRelease nat | MapApply | MapRelease

fun SynchList_code :: "sl_pc \<Rightarrow> SynchList \<Rightarrow> (sl_pc, SynchList) act" where
  "SynchList_code (AppPut item) m = Do (m\<lparr>sl_list := sl_list m @ [item]\<rparr>) AppSignal"
| "SynchList_code AppSignal m = DoSignal (listEmpty m) AppRelease"
| "SynchList_code AppRelease m = DoRelease"
| "SynchList_code RemTest m = (if sl_list m = [] then DoWait (listEmpty m) RemTest else Do m RemTake)"
| "SynchList_code RemTake m = (case sl_list m of [] \<Rightarrow> Do m (RemCheck 0) | item # r \<Rightarrow> Do (m\<lparr>sl_list := r\<rparr>) (RemCheck item))"
| "SynchList_code (RemCheck item) m = (if item \<noteq> 0 then Do m (RemRelease item) else DoAbort)"
| "SynchList_code (RemRelease item) m = DoRelease"
| "SynchList_code MapApply m = Do m MapRelease"
| "SynchList_code MapRelease m = DoRelease"

definition SynchList_entry :: "sl_pc set" where
  "SynchList_entry = {AppPut item | item. item \<noteq> 0} \<union> {RemTest, MapApply}"

text \<open>The destructors delete the members, in the order of the source; \<open>lk\<close> is the address of the lock.\<close>

definition SynchList_delete :: "nat \<Rightarrow> SynchList \<Rightarrow> 'm synch_scheme \<Rightarrow> 'm synch_scheme res" where
  "SynchList_delete lk m k = bindR (Lock_delete lk k) (Condition_delete (listEmpty m))"

text \<open>What has been appended and removed so far.\<close>

fun appended :: "(sl_pc, SynchList) mlabel list \<Rightarrow> nat list" where
  "appended [] = []"
| "appended (Exec t (AppPut x) m # h) = x # appended h"
| "appended (l # h) = appended h"

fun removed :: "(sl_pc, SynchList) mlabel list \<Rightarrow> nat list" where
  "removed [] = []"
| "removed (Exec t RemTake m # h) = (case sl_list m of [] \<Rightarrow> 0 | x # r \<Rightarrow> x) # removed h"
| "removed (l # h) = removed h"

lemma appended_append: "appended (h @ h') = appended h @ appended h'"
  by (induction h rule: appended.induct) simp_all

lemma removed_append: "removed (h @ h') = removed h @ removed h'"
  by (induction h rule: removed.induct) simp_all

text \<open>Threads that are on their way to take an item: woken, or inside before the removal, or about to signal.\<close>

definition takers :: "(int \<times> nat) list \<Rightarrow> (nat \<Rightarrow> sl_pc mplace) \<Rightarrow> nat set" where
  "takers w q = {t. q t = Wt RemTest \<and> t \<notin> snd ` set w \<or> q t = In RemTest \<or> q t = In RemTake \<or> q t = In AppSignal}"

text \<open>The items, and the wake-ups: while someone waits, there are at least as many takers as items.\<close>

definition sl_items :: "(sl_pc, SynchList) mlabel list \<Rightarrow> (sl_pc, SynchList) astate \<Rightarrow> bool" where
  "sl_items h a \<longleftrightarrow> (case a of (L, W, m, q) \<Rightarrow> appended h = removed h @ sl_list m \<and> 0 \<notin> set (appended h) \<and>
     (\<forall>t. q t = In RemTake \<longrightarrow> sl_list m \<noteq> []) \<and> (\<forall>t x. q t = In (RemCheck x) \<or> q t = In (AppPut x) \<longrightarrow> x \<noteq> 0) \<and> (\<forall>t p. q t = Enter p \<longrightarrow> p \<in> SynchList_entry) \<and>
     (\<forall>t p. q t = In p \<longrightarrow> L = Some t) \<and> (\<forall>t p. q t = Wt p \<longrightarrow> p = RemTest))"

definition sl_waits :: "nat \<Rightarrow> (sl_pc, SynchList) astate \<Rightarrow> bool" where
  "sl_waits c a \<longleftrightarrow> (case a of (L, W, m, q) \<Rightarrow> listEmpty m = c \<and> finite {t. q t \<noteq> Out} \<and> (\<forall>t \<in> snd ` set (W c). q t = Wt RemTest) \<and> distinct (map snd (W c)) \<and>
     (W c \<noteq> [] \<longrightarrow> length (sl_list m) \<le> card (takers (W c) q)))"

lemma sl_items_step:
  assumes "astep SynchList_code SynchList_entry {c} a l a'" and "sl_items h a"
  shows "sl_items (h @ [l]) a'"
  using assms
proof (induction rule: astep.induct)
  case (a_exec q t p f f' p' W)
  then show ?case by (cases p) (auto simp: sl_items_def appended_append removed_append split: if_splits list.splits)
next
  case (a_wait q t p f d p' W n)
  then show ?case by (cases p) (auto simp: sl_items_def appended_append removed_append split: if_splits list.splits)
next
  case (a_signal q t p f d p' W)
  then show ?case by (cases p) (auto simp: sl_items_def appended_append removed_append split: if_splits list.splits)
next
  case (a_release q t p f W)
  then show ?case by (cases p) (auto simp: sl_items_def appended_append removed_append split: if_splits list.splits)
next
  case (a_enter q t p W f)
  have "p \<in> SynchList_entry \<or> p = RemTest" using a_enter by (auto simp: sl_items_def)
  then show ?case using a_enter by (auto simp: sl_items_def appended_append removed_append SynchList_entry_def)
qed (auto simp: sl_items_def appended_append removed_append)

lemma sl_points:
  "SynchList_code p f = DoWait d p' \<Longrightarrow> p = RemTest \<and> p' = RemTest \<and> d = listEmpty f \<and> sl_list f = []"
  "SynchList_code p f = DoSignal d p' \<Longrightarrow> p = AppSignal \<and> p' = AppRelease \<and> d = listEmpty f"
  "SynchList_code p f = DoRelease \<Longrightarrow> p = AppRelease \<or> (\<exists>x. p = RemRelease x) \<or> p = MapRelease"
  by (cases p; simp split: if_splits list.splits)+

lemma finite_places: "finite {u. q u \<noteq> Out} \<Longrightarrow> finite {u. (q(t := x)) u \<noteq> Out}"
  by (rule finite_subset [OF _ finite.insertI [of "{u. q u \<noteq> Out}" t]]) auto

lemma finite_takers: "finite {t. q t \<noteq> Out} \<Longrightarrow> finite (takers w q)"
  by (rule finite_subset) (auto simp: takers_def)

lemma sl_waits_step:
  assumes "astep SynchList_code SynchList_entry {c} a l a'" and "sl_items h a" and "sl_waits c a"
  shows "sl_waits c a'"
  using assms
proof (induction rule: astep.induct)
  case (a_call q t p L W f)
  then have "takers (W c) (q(t := Enter p)) = takers (W c) q" by (auto simp: takers_def)
  moreover have "finite {u. (q(t := Enter p)) u \<noteq> Out}" by (rule finite_places) (use a_call in \<open>simp add: sl_waits_def\<close>)
  moreover have "\<forall>u \<in> snd ` set (W c). (q(t := Enter p)) u = Wt RemTest" using a_call by (auto simp: sl_waits_def)
  ultimately show ?case using a_call.prems(2) by (simp add: sl_waits_def)
next
  case (a_enter q t p W f)
  have fin: "finite {u. q u \<noteq> Out}" using a_enter by (simp add: sl_waits_def)
  have f': "finite {u. (q(t := In p)) u \<noteq> Out}" by (rule finite_places [OF fin])
  have nw: "\<forall>u \<in> snd ` set (W c). (q(t := In p)) u = Wt RemTest" using a_enter by (auto simp: sl_waits_def)
  have "takers (W c) q \<subseteq> takers (W c) (q(t := In p))" using a_enter.hyps a_enter.prems(1) by (auto simp: takers_def sl_items_def)
  then have "card (takers (W c) q) \<le> card (takers (W c) (q(t := In p)))" by (rule card_mono [OF finite_takers [OF f']])
  then show ?case using a_enter.prems(2) f' nw by (auto simp: sl_waits_def)
next
  case (a_exec q t p f f' p' W)
  have fin: "finite {u. q u \<noteq> Out}" using a_exec by (simp add: sl_waits_def)
  have fo: "finite {u. (q(t := In p')) u \<noteq> Out}" by (rule finite_places [OF fin])
  have nw: "\<forall>u \<in> snd ` set (W c). (q(t := In p')) u = Wt RemTest" using a_exec.prems(2) a_exec.hyps(1) by (auto simp: sl_waits_def)
  have le: "length (sl_list f') \<le> card (takers (W c) (q(t := In p')))" if w: "W c \<noteq> []"
  proof -
    have old: "length (sl_list f) \<le> card (takers (W c) q)" using a_exec.prems(2) w by (simp add: sl_waits_def)
    show ?thesis
    proof (cases p)
      case (AppPut x)
      then have "takers (W c) (q(t := In p')) = insert t (takers (W c) q)" "t \<notin> takers (W c) q" using a_exec.hyps by (auto simp: takers_def)
      then show ?thesis using old AppPut a_exec.hyps(2) finite_takers [OF fin] by auto
    next
      case RemTake
      then have "takers (W c) (q(t := In p')) = takers (W c) q - {t}" "t \<in> takers (W c) q"
        using a_exec.hyps by (auto simp: takers_def split: list.splits)
      then show ?thesis using old RemTake a_exec.hyps(2) finite_takers [OF fin] by (auto simp: card_Diff_singleton split: list.splits)
    next
      case RemTest
      then have "takers (W c) (q(t := In p')) = takers (W c) q" using a_exec.hyps by (auto simp: takers_def split: if_splits)
      then show ?thesis using old RemTest a_exec.hyps(2) by (auto split: if_splits)
    next
      case (RemCheck x)
      then have "takers (W c) (q(t := In p')) = takers (W c) q" using a_exec.hyps by (auto simp: takers_def split: if_splits)
      then show ?thesis using old RemCheck a_exec.hyps(2) by (auto split: if_splits)
    next
      case MapApply
      then have "takers (W c) (q(t := In p')) = takers (W c) q" using a_exec.hyps by (auto simp: takers_def)
      then show ?thesis using old MapApply a_exec.hyps(2) by auto
    qed (use a_exec.hyps(2) in auto)
  qed
  have "listEmpty f' = listEmpty f" using a_exec.hyps(2) by (cases p) (auto split: if_splits list.splits)
  then show ?case using a_exec.prems(2) fo nw le by (simp add: sl_waits_def)
next
  case (a_wait q t p f d p' W n)
  have d: "d = c" "sl_list f = []" "p' = RemTest" using sl_points(1) [OF a_wait.hyps(2)] a_wait.hyps(3) by simp_all
  have "finite {u. (q(t := Wt p')) u \<noteq> Out}" by (rule finite_places) (use a_wait in \<open>simp add: sl_waits_def\<close>)
  moreover have "t \<notin> snd ` set (W c)" using a_wait.prems(2) a_wait.hyps(1) by (auto simp: sl_waits_def)
  ultimately show ?case using a_wait.prems(2) d by (auto simp: sl_waits_def set_sorted_insert)
next
  case (a_signal q t p f d p' W)
  have d: "d = c" "p = AppSignal" "p' = AppRelease" using sl_points(2) [OF a_signal.hyps(2)] a_signal.hyps(3) by simp_all
  have fin: "finite {u. q u \<noteq> Out}" using a_signal by (simp add: sl_waits_def)
  then have fo: "finite {u. (q(t := In p')) u \<noteq> Out}" by (rule finite_places)
  show ?case
  proof (cases "W c")
    case Nil
    then show ?thesis using a_signal.prems(2) d fo by (simp add: sl_waits_def)
  next
    case (Cons nu r)
    obtain n u where nu: "nu = (n, u)" by force
    have u: "q u = Wt RemTest" "u \<notin> snd ` set r" "distinct (map snd r)" "\<forall>v \<in> snd ` set r. q v = Wt RemTest" "u \<noteq> t" "length (sl_list f) \<le> card (takers (W c) q)"
      using a_signal.prems(2) Cons nu a_signal.hyps(1) d by (auto simp: sl_waits_def)
    have t: "t \<in> takers (W c) q" "u \<notin> takers (W c) q" using a_signal.hyps(1) d(2) u(1) Cons nu by (auto simp: takers_def)
    have "takers r (q(t := In p')) = insert u (takers (W c) q - {t})"
      using u(1,2,5) a_signal.hyps(1) d(2,3) Cons nu by (auto simp: takers_def)
    moreover have "card (insert u (takers (W c) q - {t})) = card (takers (W c) q)"
      using t card.remove [OF finite_takers [OF fin] t(1)] finite_takers [OF fin, of "W c"] by simp
    moreover have "\<forall>v \<in> snd ` set r. (q(t := In p')) v = Wt RemTest" using u(4) a_signal.hyps(1) by auto
    ultimately show ?thesis using a_signal.prems(2) d u fo Cons nu by (simp add: sl_waits_def)
  qed
next
  case (a_release q t p f W)
  have p: "p = AppRelease \<or> (\<exists>x. p = RemRelease x) \<or> p = MapRelease" by (rule sl_points(3) [OF a_release.hyps(2)])
  have "takers (W c) (q(t := Out)) = takers (W c) q" using a_release.hyps(1) p by (auto simp: takers_def)
  moreover have "finite {u. (q(t := Out)) u \<noteq> Out}" by (rule finite_places) (use a_release in \<open>simp add: sl_waits_def\<close>)
  moreover have "\<forall>u \<in> snd ` set (W c). (q(t := Out)) u = Wt RemTest" using a_release by (auto simp: sl_waits_def)
  ultimately show ?case using a_release.prems(2) by (simp add: sl_waits_def)
qed

lemma sl_silent: "sl_items h a \<Longrightarrow> sl_items (h @ [Silent]) a"
  by (simp add: sl_items_def appended_append removed_append)

interpretation sl: monitor SynchList_code SynchList_entry "{c}" "\<lambda>h a. sl_items h a \<and> sl_waits c a" for c
  by unfold_locales (auto dest: sl_items_step sl_waits_step sl_silent)

section \<open>Mailbox\<close>

record Mailbox =
  receivePres :: int
  buffer :: int
  bufferRead :: int
  sendWait :: nat
  receiveWait :: nat

definition Mailbox_new :: "nat \<Rightarrow> nat \<Rightarrow> Mailbox" where
  "Mailbox_new s r = \<lparr>receivePres = 0, buffer = 0, bufferRead = 0, sendWait = s, receiveWait = r\<rparr>"

datatype mb_pc = SendTest int | SendPut int | SendMark | SendSignal | SendRelease
  | RecvCount | RecvSignal | RecvTest | RecvTake | RecvClear int | RecvFree int | RecvUncount int | RecvRelease int

fun Mailbox_code :: "mb_pc \<Rightarrow> Mailbox \<Rightarrow> (mb_pc, Mailbox) act" where
  "Mailbox_code (SendTest message) m = (if bufferRead m = 1 \<or> receivePres m \<le> 0 then DoWait (sendWait m) (SendTest message) else Do m (SendPut message))"
| "Mailbox_code (SendPut message) m = Do (m\<lparr>buffer := message\<rparr>) SendMark"
| "Mailbox_code SendMark m = Do (m\<lparr>bufferRead := 1\<rparr>) SendSignal"
| "Mailbox_code SendSignal m = DoSignal (receiveWait m) SendRelease"
| "Mailbox_code SendRelease m = DoRelease"
| "Mailbox_code RecvCount m = Do (m\<lparr>receivePres := c_int (receivePres m + 1)\<rparr>) RecvSignal"
| "Mailbox_code RecvSignal m = DoSignal (sendWait m) RecvTest"
| "Mailbox_code RecvTest m = (if bufferRead m = 0 then DoWait (receiveWait m) RecvTest else Do m RecvTake)"
| "Mailbox_code RecvTake m = Do m (RecvClear (buffer m))"
| "Mailbox_code (RecvClear v) m = Do (m\<lparr>buffer := 0\<rparr>) (RecvFree v)"
| "Mailbox_code (RecvFree v) m = Do (m\<lparr>bufferRead := 0\<rparr>) (RecvUncount v)"
| "Mailbox_code (RecvUncount v) m = Do (m\<lparr>receivePres := c_int (receivePres m - 1)\<rparr>) (RecvRelease v)"
| "Mailbox_code (RecvRelease v) m = DoRelease"

definition Mailbox_entry :: "mb_pc set" where
  "Mailbox_entry = insert RecvCount (range SendTest)"

definition Mailbox_delete :: "nat \<Rightarrow> Mailbox \<Rightarrow> 'm synch_scheme \<Rightarrow> 'm synch_scheme res" where
  "Mailbox_delete lk m k = bindR (Lock_delete lk k) (\<lambda>k. bindR (Condition_delete (sendWait m) k) (Condition_delete (receiveWait m)))"

text \<open>The messages put into the buffer and taken out of it.\<close>

fun sent :: "(mb_pc, Mailbox) mlabel list \<Rightarrow> int list" where
  "sent [] = []"
| "sent (Exec t (SendPut v) m # h) = v # sent h"
| "sent (l # h) = sent h"

fun received :: "(mb_pc, Mailbox) mlabel list \<Rightarrow> int list" where
  "received [] = []"
| "received (Exec t RecvTake m # h) = buffer m # received h"
| "received (l # h) = received h"

lemma sent_append: "sent (h @ h') = sent h @ sent h'"
  by (induction h rule: sent.induct) simp_all

lemma received_append: "received (h @ h') = received h @ received h'"
  by (induction h rule: received.induct) simp_all

text \<open>The message in the box, by the point of the thread inside, and what is known of the fields there.\<close>

fun in_box :: "Mailbox \<Rightarrow> mb_pc option \<Rightarrow> int list" where
  "in_box m (Some (RecvClear v)) = []"
| "in_box m (Some (RecvFree v)) = []"
| "in_box m (Some SendMark) = [buffer m]"
| "in_box m p = (if bufferRead m = 1 then [buffer m] else [])"

fun mb_point :: "Mailbox \<Rightarrow> mb_pc option \<Rightarrow> bool" where
  "mb_point m (Some (SendPut v)) = (bufferRead m = 0)"
| "mb_point m (Some SendMark) = (bufferRead m = 0)"
| "mb_point m (Some RecvTake) = (bufferRead m = 1)"
| "mb_point m (Some (RecvClear v)) = (bufferRead m = 1)"
| "mb_point m (Some (RecvFree v)) = (bufferRead m = 1)"
| "mb_point m p = True"

definition mb_messages :: "(mb_pc, Mailbox) mlabel list \<Rightarrow> (mb_pc, Mailbox) astate \<Rightarrow> bool" where
  "mb_messages h a \<longleftrightarrow> (case a of (L, W, m, q) \<Rightarrow> sent h = received h @ in_box m (inside L q) \<and> bufferRead m \<in> {0, 1} \<and> mb_point m (inside L q) \<and>
     (\<forall>t p. q t = In p \<longrightarrow> L = Some t) \<and> (\<forall>t p. q t = Enter p \<longrightarrow> p \<in> Mailbox_entry) \<and> (\<forall>t p. q t = Wt p \<longrightarrow> p = RecvTest \<or> p \<in> range SendTest))"

text \<open>The \<open>Receive\<close> calls that are counted in \<open>receivePres\<close>, and those of them that still need a message.\<close>

fun is_counted :: "mb_pc mplace \<Rightarrow> bool" where
  "is_counted (Wt p) = (p = RecvTest)"
| "is_counted (In p) = (case p of RecvSignal \<Rightarrow> True | RecvTest \<Rightarrow> True | RecvTake \<Rightarrow> True | RecvClear v \<Rightarrow> True | RecvFree v \<Rightarrow> True | RecvUncount v \<Rightarrow> True | _ \<Rightarrow> False)"
| "is_counted _ = False"

fun is_needy :: "mb_pc mplace \<Rightarrow> bool" where
  "is_needy (Wt p) = (p = RecvTest)"
| "is_needy (In p) = (case p of RecvSignal \<Rightarrow> True | RecvTest \<Rightarrow> True | RecvTake \<Rightarrow> True | RecvClear v \<Rightarrow> True | RecvFree v \<Rightarrow> True | _ \<Rightarrow> False)"
| "is_needy _ = False"

definition mb_counts :: "nat \<Rightarrow> nat \<Rightarrow> (mb_pc, Mailbox) astate \<Rightarrow> bool" where
  "mb_counts s r a \<longleftrightarrow> (case a of (L, W, m, q) \<Rightarrow> sendWait m = s \<and> receiveWait m = r \<and> finite {t. q t \<noteq> Out} \<and>
     receivePres m = c_int (int (card {t. is_counted (q t)})) \<and>
     (bufferRead m = 1 \<or> inside L q = Some SendMark \<or> (\<exists>v. inside L q = Some (SendPut v)) \<longrightarrow> (\<exists>t. is_needy (q t))))"

lemma mb_messages_step:
  assumes "astep Mailbox_code Mailbox_entry cs a l a'" and "mb_messages h a"
  shows "mb_messages (h @ [l]) a'"
  using assms
proof (induction rule: astep.induct)
  case (a_call q t p L W f)
  then have "inside L (q(t := Enter p)) = inside L q" by (auto simp: inside_def split: option.splits)
  then show ?case using a_call by (auto simp: mb_messages_def sent_append received_append)
next
  case (a_enter q t p W f)
  have "p \<in> Mailbox_entry \<or> p = RecvTest" using a_enter by (auto simp: mb_messages_def Mailbox_entry_def)
  then show ?case using a_enter by (auto simp: mb_messages_def sent_append received_append Mailbox_entry_def)
next
  case (a_exec q t p f f' p' W)
  then show ?case by (cases p) (auto simp: mb_messages_def sent_append received_append split: if_splits)
next
  case (a_wait q t p f d p' W n)
  then show ?case by (cases p) (auto simp: mb_messages_def sent_append received_append split: if_splits)
next
  case (a_signal q t p f d p' W)
  then show ?case by (cases p) (auto simp: mb_messages_def sent_append received_append split: if_splits)
next
  case (a_release q t p f W)
  then show ?case by (cases p) (auto simp: mb_messages_def sent_append received_append split: if_splits)
qed

lemma mb_silent: "mb_messages h a \<Longrightarrow> mb_messages (h @ [Silent]) a"
  by (simp add: mb_messages_def sent_append received_append)

lemma counted_upd: "{u. is_counted ((q(t := x)) u)} = (if is_counted x then insert t {u. is_counted (q u)} else {u. is_counted (q u)} - {t})"
  by auto

lemma finite_counted: "finite {t. q t \<noteq> Out} \<Longrightarrow> finite {t. is_counted (q t)}"
  by (rule finite_subset [rotated]) auto

text \<open>A step of thread \<open>t\<close> changes the count by whether \<open>t\<close> is counted, and keeps a needy thread unless the box is empty.\<close>

lemma mb_countsI:
  assumes m: "mb_counts s r (L, W, m, q)" and f: "sendWait m' = sendWait m" "receiveWait m' = receiveWait m"
    and c: "receivePres m' = c_int (receivePres m + (if is_counted x then 1 else 0) - (if is_counted (q t) then 1 else 0))"
    and n: "bufferRead m' = 1 \<or> inside L' (q(t := x)) = Some SendMark \<or> (\<exists>v. inside L' (q(t := x)) = Some (SendPut v)) \<Longrightarrow>
      is_needy x \<or> (\<exists>u. u \<noteq> t \<and> is_needy (q u))"
  shows "mb_counts s r (L', W', m', q(t := x))"
proof -
  let ?C = "{u. is_counted (q u)}"
  have fin: "finite {t. q t \<noteq> Out}" "receivePres m = c_int (int (card ?C))" using m by (simp_all add: mb_counts_def)
  have fc: "finite ?C" by (rule finite_counted [OF fin(1)])
  have C: "int (card {u. is_counted ((q(t := x)) u)}) = int (card ?C) + (if is_counted x then 1 else 0) - (if is_counted (q t) then 1 else 0)"
  proof (cases "is_counted (q t)")
    case True
    then have e: "card ?C = Suc (card (?C - {t}))" "insert t ?C = ?C" using card.remove [OF fc, of t] by auto
    show ?thesis unfolding counted_upd using True e by (simp only: if_True if_False split: if_split) simp
  next
    case False
    then have e: "t \<notin> ?C" "?C - {t} = ?C" by auto
    show ?thesis unfolding counted_upd e(2) using False fc e(1) by (simp only: if_False card_insert_disjoint split: if_split) simp
  qed
  have cnt: "receivePres m' = c_int (int (card {u. is_counted ((q(t := x)) u)}))" unfolding c fin(2) C using c_int_add by (simp add: add_diff_eq [symmetric] del: add_diff_eq)
  have "\<exists>u. is_needy ((q(t := x)) u)" if "is_needy x \<or> (\<exists>u. u \<noteq> t \<and> is_needy (q u))" using that by (metis fun_upd_other fun_upd_same)
  then have nd: "\<exists>u. is_needy ((q(t := x)) u)" if "bufferRead m' = 1 \<or> inside L' (q(t := x)) = Some SendMark \<or> (\<exists>v. inside L' (q(t := x)) = Some (SendPut v))"
    using n [OF that] by blast
  have sr: "sendWait m' = s" "receiveWait m' = r" using m f by (simp_all add: mb_counts_def)
  show ?thesis unfolding mb_counts_def prod.case by (intro conjI impI sr cnt finite_places [OF fin(1)] nd)
qed

lemma mb_counts_id: "mb_counts s r (L, W, m, q) \<Longrightarrow> c_int (receivePres m) = receivePres m"
  using c_int_add [of _ 0] by (auto simp: mb_counts_def)

lemma mb_needy: "mb_counts s r (L, W, m, q) \<Longrightarrow> bufferRead m = 1 \<or> inside L q = Some SendMark \<or> (\<exists>v. inside L q = Some (SendPut v)) \<Longrightarrow> \<not> is_needy (q t) \<Longrightarrow>
    \<exists>u. u \<noteq> t \<and> is_needy (q u)"
  unfolding mb_counts_def prod.case by metis

lemma mb_frame: "Mailbox_code p f = Do f' p' \<Longrightarrow> sendWait f' = sendWait f \<and> receiveWait f' = receiveWait f"
  by (cases p) (auto split: if_splits)

lemma mb_presence:
  "Mailbox_code p f = Do f' p' \<Longrightarrow> c_int (receivePres f) = receivePres f \<Longrightarrow>
    receivePres f' = c_int (receivePres f + (if is_counted (In p') then 1 else 0) - (if is_counted (In p) then 1 else 0))"
  by (cases p) (auto split: if_splits)

lemma mb_needs:
  "Mailbox_code p f = Do f' p' \<Longrightarrow> \<forall>v. p \<noteq> SendTest v \<Longrightarrow> bufferRead f' = 1 \<or> p' = SendMark \<or> (\<exists>v. p' = SendPut v) \<Longrightarrow>
    is_needy (In p') \<or> \<not> is_needy (In p) \<and> (bufferRead f = 1 \<or> p = SendMark \<or> (\<exists>v. p = SendPut v))"
  by (cases p) (auto split: if_splits)

lemma mb_receiver: "mb_counts s r (L, W, m, q) \<Longrightarrow> 0 < receivePres m \<Longrightarrow> \<exists>u. is_counted (q u)"
proof -
  assume c: "mb_counts s r (L, W, m, q)" and "0 < receivePres m"
  moreover have "receivePres m = c_int (int (card {u. is_counted (q u)}))" using c by (simp add: mb_counts_def)
  ultimately have pos: "0 < c_int (int (card {u. is_counted (q u)}))" by (simp only:)
  show ?thesis
  proof (rule ccontr)
    assume "\<nexists>u. is_counted (q u)"
    then have "card {u. is_counted (q u)} = 0" by simp
    then show False using c_int_pos [OF pos] by simp
  qed
qed

lemma counted_needy: "is_counted x \<Longrightarrow> is_needy x \<or> (\<exists>p. x = In p)"
  by (cases x) simp_all

lemma mb_counts_step:
  assumes "astep Mailbox_code Mailbox_entry cs a l a'" and "mb_messages h a" and "mb_counts s r a"
  shows "mb_counts s r a'"
  using assms
proof (induction rule: astep.induct)
  case (a_call q t p L W f)
  have "inside L (q(t := Enter p)) = inside L q" using a_call by (auto simp: inside_def split: option.splits)
  then show ?case using a_call mb_needy [OF a_call.prems(2), of t] mb_counts_id [OF a_call.prems(2)] by (intro mb_countsI [OF a_call.prems(2)]) simp_all
next
  case (a_enter q t p W f)
  have "p \<in> Mailbox_entry \<or> p = RecvTest" "q t = Enter p \<Longrightarrow> p \<noteq> RecvTest" "q t = Wt p \<Longrightarrow> p \<noteq> RecvCount" using a_enter by (auto simp: mb_messages_def Mailbox_entry_def)
  then have p: "is_counted (In p) = is_counted (q t)" "is_needy (In p) = is_needy (q t)" "p \<noteq> SendMark" "\<forall>v. p \<noteq> SendPut v" using a_enter.hyps(1) by (auto simp: Mailbox_entry_def)
  then show ?case using mb_needy [OF a_enter.prems(2), of t] mb_counts_id [OF a_enter.prems(2)] by (intro mb_countsI [OF a_enter.prems(2)]) auto
next
  case (a_exec q t p f f' p' W)
  show ?case
  proof (rule mb_countsI [OF a_exec.prems(2)])
    show "sendWait f' = sendWait f" "receiveWait f' = receiveWait f" using mb_frame [OF a_exec.hyps(2)] by simp_all
    show "receivePres f' = c_int (receivePres f + (if is_counted (In p') then 1 else 0) - (if is_counted (q t) then 1 else 0))"
      using mb_presence [OF a_exec.hyps(2) mb_counts_id [OF a_exec.prems(2)]] by (simp only: a_exec.hyps(1))
  next
    assume A: "bufferRead f' = 1 \<or> inside (Some t) (q(t := In p')) = Some SendMark \<or> (\<exists>v. inside (Some t) (q(t := In p')) = Some (SendPut v))"
    have N: "\<exists>u. u \<noteq> t \<and> is_needy (q u)" if "bufferRead f = 1 \<or> p = SendMark \<or> (\<exists>v. p = SendPut v)" "\<not> is_needy (In p)"
      using mb_needy [OF a_exec.prems(2), of t] that a_exec.hyps(1) by simp
    show "is_needy (In p') \<or> (\<exists>u. u \<noteq> t \<and> is_needy (q u))"
    proof (cases "\<exists>v. p = SendTest v")
      case False
      then have "is_needy (In p') \<or> \<not> is_needy (In p) \<and> (bufferRead f = 1 \<or> p = SendMark \<or> (\<exists>v. p = SendPut v))"
        using mb_needs [OF a_exec.hyps(2)] A by simp
      then show ?thesis using N by blast
    next
      case True
      then obtain v where SendTest: "p = SendTest v" by blast
      have "0 < receivePres f" using a_exec.hyps(2) unfolding SendTest by (simp split: if_splits)
      then obtain u where u: "is_counted (q u)" using mb_receiver [OF a_exec.prems(2)] by blast
      have "u \<noteq> t" using a_exec.hyps(1) SendTest u by auto
      then have "is_needy (q u)" using counted_needy [OF u] a_exec.prems(1) by (auto simp: mb_messages_def)
      then show ?thesis using \<open>u \<noteq> t\<close> by blast
    qed
  qed
next
  case (a_wait q t p f d p' W n)
  then show ?case using mb_needy [OF a_wait.prems(2), of t] mb_counts_id [OF a_wait.prems(2)]
    by (cases p) (auto intro!: mb_countsI [OF a_wait.prems(2)] split: if_splits)
next
  case (a_signal q t p f d p' W)
  then show ?case using mb_needy [OF a_signal.prems(2), of t] mb_counts_id [OF a_signal.prems(2)]
    by (cases p) (auto intro!: mb_countsI [OF a_signal.prems(2)] split: if_splits)
next
  case (a_release q t p f W)
  then show ?case using mb_needy [OF a_release.prems(2), of t] mb_counts_id [OF a_release.prems(2)]
    by (cases p) (auto intro!: mb_countsI [OF a_release.prems(2)] split: if_splits)
qed

interpretation mb: monitor Mailbox_code Mailbox_entry "{s, r}" "\<lambda>h a. mb_messages h a \<and> mb_counts s r a" for s r
  by unfold_locales (auto dest: mb_messages_step mb_counts_step mb_silent)

section \<open>Whale\<close>

text \<open>The three methods are the same up to the exchange of the roles: the fields are indexed by the role, and \<open>others\<close> gives the two other roles in the order in
  which the method names them.\<close>

datatype role = MaleR | FemaleR | MatchR

fun others :: "role \<Rightarrow> role \<times> role" where
  "others MaleR = (FemaleR, MatchR)"
| "others FemaleR = (MaleR, MatchR)"
| "others MatchR = (MaleR, FemaleR)"

record Whale =
  w_count :: "role \<Rightarrow> int"
  w_found :: "role \<Rightarrow> int"
  w_cond :: "role \<Rightarrow> nat"

definition Whale_new :: "(role \<Rightarrow> nat) \<Rightarrow> Whale" where
  "Whale_new c = \<lparr>w_count = (\<lambda>r. 0), w_found = (\<lambda>r. 0), w_cond = c\<rparr>"

datatype wh_pc = WhCount role | WhSignal1 role | WhSignal2 role | WhTest role | WhFound role | WhCheck | ResetCount role | ResetFound | ResetSignal role | WhRelease

text \<open>\<open>Whale_code (WhCount r)\<close> is the first statement of the method of role \<open>r\<close> after \<open>Acquire\<close>; the points \<open>Reset...\<close> are \<open>resetAll\<close>.\<close>

fun Whale_code :: "wh_pc \<Rightarrow> Whale \<Rightarrow> (wh_pc, Whale) act" where
  "Whale_code (WhCount r) m = Do (m\<lparr>w_count := (w_count m)(r := c_int (w_count m r + 1))\<rparr>) (WhSignal1 r)"
| "Whale_code (WhSignal1 r) m = DoSignal (w_cond m (fst (others r))) (WhSignal2 r)"
| "Whale_code (WhSignal2 r) m = DoSignal (w_cond m (snd (others r))) (WhTest r)"
| "Whale_code (WhTest r) m =
     (if (w_count m (fst (others r)) < 1 \<or> w_count m (snd (others r)) < 1) \<and> w_found m r = 0 then DoWait (w_cond m r) (WhTest r) else Do m (WhFound r))"
| "Whale_code (WhFound r) m = Do (m\<lparr>w_found := (w_found m)(r := 1)\<rparr>) WhCheck"
| "Whale_code WhCheck m =
     (if w_found m MaleR \<noteq> 0 \<and> w_found m FemaleR \<noteq> 0 \<and> w_found m MatchR \<noteq> 0 then Do m (ResetCount MaleR) else Do m WhRelease)"
| "Whale_code (ResetCount r) m = Do (m\<lparr>w_count := (w_count m)(r := c_int (w_count m r - 1))\<rparr>)
     (case r of MaleR \<Rightarrow> ResetCount FemaleR | FemaleR \<Rightarrow> ResetCount MatchR | MatchR \<Rightarrow> ResetFound)"
| "Whale_code ResetFound m = Do (m\<lparr>w_found := (\<lambda>r. 0)\<rparr>) (ResetSignal MaleR)"
| "Whale_code (ResetSignal r) m = DoSignal (w_cond m r) (case r of MaleR \<Rightarrow> ResetSignal FemaleR | FemaleR \<Rightarrow> ResetSignal MatchR | MatchR \<Rightarrow> WhRelease)"
| "Whale_code WhRelease m = DoRelease"

definition Whale_entry :: "wh_pc set" where
  "Whale_entry = range WhCount"

definition Whale_delete :: "nat \<Rightarrow> Whale \<Rightarrow> 'm synch_scheme \<Rightarrow> 'm synch_scheme res" where
  "Whale_delete lk m k = bindR (Condition_delete (w_cond m MaleR) k) (\<lambda>k. bindR (Condition_delete (w_cond m FemaleR) k) (\<lambda>k.
     bindR (Condition_delete (w_cond m MatchR) k) (Lock_delete lk)))"

text \<open>The calls of a role so far, and the calls of a role that a match has used up.\<close>

definition calls :: "role \<Rightarrow> (wh_pc, Whale) mlabel list \<Rightarrow> int" where
  "calls r h = int (length (filter (\<lambda>l. \<exists>t m. l = Exec t (WhCount r) m) h))"

definition matched :: "role \<Rightarrow> (wh_pc, Whale) mlabel list \<Rightarrow> int" where
  "matched r h = int (length (filter (\<lambda>l. \<exists>t m. l = Exec t (ResetCount r) m) h))"

lemma calls_append: "calls r (h @ [l]) = calls r h + (if \<exists>t m. l = Exec t (WhCount r) m then 1 else 0)"
  by (simp add: calls_def)

lemma matched_append: "matched r (h @ [l]) = matched r h + (if \<exists>t m. l = Exec t (ResetCount r) m then 1 else 0)"
  by (simp add: matched_def)

definition present :: "role \<Rightarrow> (wh_pc, Whale) mlabel list \<Rightarrow> bool" where
  "present r h \<longleftrightarrow> 1 \<le> calls r h - matched r h"

text \<open>What is known at the point of the thread inside.\<close>

fun wh_point :: "Whale \<Rightarrow> (wh_pc, Whale) mlabel list \<Rightarrow> wh_pc option \<Rightarrow> bool" where
  "wh_point m h (Some (WhFound r)) = (\<forall>r'. r' \<noteq> r \<longrightarrow> present r' h)"
| "wh_point m h (Some (ResetCount r)) = ((\<forall>r. w_found m r \<noteq> 0) \<and> present MatchR h \<and> (r \<noteq> MatchR \<longrightarrow> present FemaleR h) \<and> (r = MaleR \<longrightarrow> present MaleR h))"
| "wh_point m h p = True"

definition wh_found :: "Whale \<Rightarrow> (wh_pc, Whale) mlabel list \<Rightarrow> wh_pc option \<Rightarrow> bool" where
  "wh_found m h p \<longleftrightarrow> (\<exists>r. p = Some (ResetCount r)) \<or> p = Some ResetFound \<or> (\<forall>r r'. w_found m r \<noteq> 0 \<longrightarrow> r' \<noteq> r \<longrightarrow> present r' h)"

lemma role_cases: "(\<forall>r. P r) \<longleftrightarrow> P MaleR \<and> P FemaleR \<and> P MatchR"
  by (metis role.exhaust)

lemma present_append: "present r (h @ [l]) \<longleftrightarrow> 1 \<le> calls r h + (if \<exists>t m. l = Exec t (WhCount r) m then 1 else 0) - (matched r h + (if \<exists>t m. l = Exec t (ResetCount r) m then 1 else 0))"
  by (simp add: present_def calls_append matched_append)

lemma quiet_label:
  assumes "\<And>t m r. l \<noteq> Exec t (WhCount r) m" and "\<And>t m r. l \<noteq> Exec t (ResetCount r) m"
  shows "calls r (h @ [l]) = calls r h" "matched r (h @ [l]) = matched r h" "present r (h @ [l]) = present r h"
    "wh_point m (h @ [l]) p = wh_point m h p" "wh_found m (h @ [l]) p = wh_found m h p"
proof -
  show c: "calls r (h @ [l]) = calls r h" "matched r (h @ [l]) = matched r h" for r using assms by (simp_all add: calls_append matched_append)
  show p: "present r (h @ [l]) = present r h" for r by (simp add: present_def c)
  show "wh_point m (h @ [l]) p = wh_point m h p" by (cases "(m, h, p)" rule: wh_point.cases) (simp_all add: p)
  show "wh_found m (h @ [l]) p = wh_found m h p" by (simp add: wh_found_def p)
qed

text \<open>The data of the invariant, at the point \<open>p\<close> of the thread inside.\<close>

definition wh_data :: "(role \<Rightarrow> nat) \<Rightarrow> (wh_pc, Whale) mlabel list \<Rightarrow> Whale \<Rightarrow> wh_pc option \<Rightarrow> bool" where
  "wh_data c h m p \<longleftrightarrow> w_cond m = c \<and> (\<forall>r. w_count m r = c_int (calls r h - matched r h) \<and> 0 \<le> calls r h - matched r h) \<and> wh_point m h p \<and> wh_found m h p"

lemma wh_data_exec:
  assumes d: "wh_data c h m (Some p)" and e: "Whale_code p m = Do m' p'"
  shows "wh_data c (h @ [Exec t p m]) m' (Some p')"
proof -
  have cnt: "\<And>r. w_count m r = c_int (calls r h - matched r h)" "\<And>r. 0 \<le> calls r h - matched r h" using d by (simp_all add: wh_data_def)
  have pr: "present r h" if "\<not> w_count m r < 1" for r using cnt(1) [of r] cnt(2) [of r] c_int_pos [of "calls r h - matched r h"] that by (simp add: present_def)
  have add1: "c_int (c_int x + 1) = c_int (x + 1)" "c_int (c_int x - 1) = c_int (x - 1)" for x using c_int_add [of x 1] c_int_add [of x "- 1"] by simp_all
  have up: "c_int (c_int (calls r h - matched r h) + 1) = c_int (calls r h + 1 - matched r h)" "c_int (c_int (calls r h - matched r h) - 1) = c_int (calls r h - (matched r h + 1))" for r
    unfolding add1 by (simp_all add: algebra_simps)
  have pos: "0 \<le> calls r h + 1 - matched r h" for r using cnt(2) [of r] by simp
  show ?thesis
  proof (cases p)
    case (WhCount r)
    then have m': "m' = m\<lparr>w_count := (w_count m)(r := c_int (w_count m r + 1))\<rparr>" "p' = WhSignal1 r" using e by auto
    have pm: "present r' h \<Longrightarrow> present r' (h @ [Exec t p m])" for r' by (auto simp: present_def calls_append matched_append WhCount)
    have "wh_found m' (h @ [Exec t p m]) (Some p')" using d pm unfolding WhCount by (auto simp: wh_data_def wh_found_def m')
    then show ?thesis using d cnt pos unfolding WhCount by (simp add: wh_data_def m' calls_append matched_append up)
  next
    case (ResetCount r)
    then have m': "m' = m\<lparr>w_count := (w_count m)(r := c_int (w_count m r - 1))\<rparr>" using e by auto
    have pr': "r' \<noteq> r \<Longrightarrow> present r' (h @ [Exec t p m]) = present r' h" for r' by (simp add: present_def calls_append matched_append ResetCount)
    have "present r h" "\<forall>r. w_found m r \<noteq> 0" using d ResetCount by (cases r; simp add: wh_data_def)+
    then have z: "0 \<le> calls r h - (matched r h + 1)" "\<forall>r. w_found m' r \<noteq> 0" by (simp_all add: present_def m')
    have pt: "wh_point m' (h @ [Exec t p m]) (Some p')" "wh_found m' (h @ [Exec t p m]) (Some p')"
      using d e pr' z(2) unfolding ResetCount by (cases r; auto simp: wh_data_def wh_found_def)+
    show ?thesis using d cnt z(1) pt unfolding ResetCount by (simp add: wh_data_def m' calls_append matched_append up)
  next
    case (WhTest r)
    then have m': "m' = m" "p' = WhFound r" and t: "\<not> ((w_count m (fst (others r)) < 1 \<or> w_count m (snd (others r)) < 1) \<and> w_found m r = 0)" using e by (auto split: if_splits)
    have "\<forall>r'. r' \<noteq> r \<longrightarrow> present r' h"
    proof (cases "w_found m r = 0")
      case True
      then have "present (fst (others r)) h" "present (snd (others r)) h" using t pr by auto
      then show ?thesis by (cases r) (auto simp: role_cases)
    next
      case False
      then show ?thesis using d WhTest by (simp add: wh_data_def wh_found_def)
    qed
    then show ?thesis using d m' WhTest by (simp add: wh_data_def quiet_label wh_found_def)
  next
    case (WhFound r)
    then show ?thesis using d e by (auto simp: wh_data_def quiet_label wh_found_def split: if_splits)
  next
    case WhCheck
    show ?thesis
    proof (cases "w_found m MaleR \<noteq> 0 \<and> w_found m FemaleR \<noteq> 0 \<and> w_found m MatchR \<noteq> 0")
      case True
      then have "present MaleR h" "present FemaleR h" "present MatchR h" using d WhCheck by (auto simp: wh_data_def wh_found_def)
      moreover have "\<forall>r. w_found m r \<noteq> 0" using True by (simp add: role_cases)
      ultimately show ?thesis using d e True WhCheck by (auto simp: wh_data_def quiet_label wh_found_def)
    next
      case False
      then show ?thesis using d e WhCheck by (auto simp: wh_data_def quiet_label wh_found_def)
    qed
  next
    case ResetFound
    then show ?thesis using d e by (auto simp: wh_data_def quiet_label wh_found_def)
  qed (use e in auto)
qed

lemma wh_data_kernel:
  assumes d: "wh_data c h m (Some p)" and e: "Whale_code p m = DoSignal x p' \<or> Whale_code p m = DoWait x p' \<or> Whale_code p m = DoRelease"
    and y: "y = None \<or> (Whale_code p m = DoSignal x p' \<and> y = Some p')"
  shows "wh_data c (h @ [Exec t p m]) m y"
proof -
  have q: "\<forall>r. p \<noteq> WhCount r" "\<forall>r. p \<noteq> ResetCount r" "p \<noteq> ResetFound" using e by auto
  have "wh_point m h y" "wh_found m h y" using d e y q by (cases p; auto simp: wh_data_def wh_found_def split: role.splits if_splits)+
  then show ?thesis using d q by (simp add: wh_data_def quiet_label)
qed

definition wh_inv :: "(role \<Rightarrow> nat) \<Rightarrow> (wh_pc, Whale) mlabel list \<Rightarrow> (wh_pc, Whale) astate \<Rightarrow> bool" where
  "wh_inv c h a \<longleftrightarrow> (case a of (L, W, m, q) \<Rightarrow> wh_data c h m (inside L q) \<and>
     (\<forall>t p. q t = In p \<longrightarrow> L = Some t) \<and> (\<forall>t p. q t = Enter p \<longrightarrow> p \<in> Whale_entry) \<and> (\<forall>t p. q t = Wt p \<longrightarrow> p \<in> range WhTest))"

lemma wh_data_quiet:
  assumes "wh_data c h m p" and "\<And>t m r. l \<noteq> Exec t (WhCount r) m" and "\<And>t m r. l \<noteq> Exec t (ResetCount r) m"
  shows "wh_data c (h @ [l]) m p"
  using assms by (simp add: wh_data_def quiet_label)

lemma wh_data_enter:
  assumes "wh_data c h m None" and "p \<in> Whale_entry \<or> p \<in> range WhTest"
  shows "wh_data c h m (Some p)"
  using assms by (auto simp: wh_data_def wh_found_def Whale_entry_def)

lemma wh_waits: "Whale_code p m = DoWait x p' \<Longrightarrow> p' \<in> range WhTest"
  by (cases p) (auto split: if_splits)

lemma wh_inv_step:
  assumes "astep Whale_code Whale_entry cs a l a'" and "wh_inv c h a"
  shows "wh_inv c (h @ [l]) a'"
  using assms
proof (induction rule: astep.induct)
  case (a_call q t p L W f)
  have "inside L (q(t := Enter p)) = inside L q" using a_call by (auto simp: inside_def split: option.splits)
  then show ?case using a_call wh_data_quiet [of c h f "inside L q" "Call t p"] by (auto simp: wh_inv_def)
next
  case (a_enter q t p W f)
  have p: "p \<in> Whale_entry \<or> p \<in> range WhTest" using a_enter by (auto simp: wh_inv_def)
  have "wh_data c h f (Some p)" using wh_data_enter [OF _ p] a_enter.prems by (simp add: wh_inv_def)
  then show ?case using a_enter.prems wh_data_quiet [of c h f "Some p" Silent] by (auto simp: wh_inv_def)
next
  case (a_exec q t p f f' p' W)
  then show ?case using wh_data_exec [OF _ a_exec.hyps(2), of c h t] by (auto simp: wh_inv_def)
next
  case (a_wait q t p f d p' W n)
  then show ?case using wh_data_kernel [of c h f p d p' None t] wh_waits [OF a_wait.hyps(2)] by (auto simp: wh_inv_def)
next
  case (a_signal q t p f d p' W)
  then show ?case using wh_data_kernel [of c h f p d p' "Some p'" t] by (auto simp: wh_inv_def)
next
  case (a_release q t p f W)
  then show ?case using wh_data_kernel [of c h f p _ _ None t] by (auto simp: wh_inv_def)
qed

lemma wh_silent: "wh_inv c h a \<Longrightarrow> wh_inv c (h @ [Silent]) a"
  by (auto simp: wh_inv_def intro!: wh_data_quiet)

interpretation wh: monitor Whale_code Whale_entry "range c" "wh_inv c" for c
  by unfold_locales (auto dest: wh_inv_step wh_silent)

section \<open>Mutual exclusion and refinement\<close>

text \<open>C14. Objects built from a \<open>Lock\<close> and \<open>Condition\<close> variables are monitors. Let the methods of an object run on the kernel, statement by statement and interleaved with everything else the other threads
  do, from a state in which its lock is free and nobody waits. In every state that is reached at most one thread is between \<open>Acquire\<close> and \<open>Release\<close>, no \<open>ASSERT\<close> of \<open>Wait\<close>, \<open>Signal\<close> or \<open>Release\<close> on
  the object's own lock fails there (their bodies run with interrupts off), and every further step either is a step of the abstract monitor (a thread enters only when nobody is inside, and after a wait only when it has been signalled)
  or does not change the monitor at all.
\<close>

theorem monitor_refines:
  assumes "mreach code entry lk cs ((k, pc), f, \<lambda>t. Out) ls ((k1, pc1), f1, q1)" and "fresh lk cs k pc"
  shows "(\<forall>t u p r. q1 t = In p \<and> q1 u = In r \<longrightarrow> t = u) \<and>
    (\<forall>p. runs k1 pc1 \<and> q1 (currentThread k1) = In p \<and> level k1 = IntOff \<and> code p f1 \<noteq> DoAbort \<and> (\<forall>c \<in> conds_of (code p f1). conds k1 c \<noteq> None) \<longrightarrow> goes_on lk k1 (code p f1)) \<and>
    (\<forall>l s2. mstep code entry lk cs ((k1, pc1), f1, q1) l s2 \<longrightarrow>
      astep code entry cs (mabs lk cs ((k1, pc1), f1, q1)) l (mabs lk cs s2) \<or> l = Silent \<and> mabs lk cs s2 = mabs lk cs ((k1, pc1), f1, q1))"
proof -
  have I: "minv lk ((k1, pc1), f1, q1)" by (rule mreach_inv [OF assms(1) fresh_minv [OF assms(2)]])
  have L: "holder k1 lk = Some t" if "q1 t = In p" for t p using I that by (auto simp: minv_def)
  have "\<forall>t u p r. q1 t = In p \<and> q1 u = In r \<longrightarrow> t = u" using L by (metis option.inject)
  moreover have "\<forall>p. runs k1 pc1 \<and> q1 (currentThread k1) = In p \<and> level k1 = IntOff \<and> code p f1 \<noteq> DoAbort \<and> (\<forall>c \<in> conds_of (code p f1). conds k1 c \<noteq> None) \<longrightarrow> goes_on lk k1 (code p f1)"
    using inside_goes_on [OF I] by blast
  ultimately show ?thesis using mstep_refines_aux [OF _ I] by simp
qed

theorem monitor_refines_witness:
  "\<exists>k1 m1. mreach SynchList_code SynchList_entry 0 {0} ((example_synch, \<lambda>t. Free), SynchList_new 0, \<lambda>t. Out) [Call 0 (AppPut 5), Silent, Exec 0 (AppPut 5) (SynchList_new 0)]
       ((k1, \<lambda>t. Free), m1, (\<lambda>t. Out)(0 := In AppSignal)) \<and> goes_on 0 k1 (SynchList_code AppSignal m1)"
proof -
  let ?k = "put_lock 0 (Lock_new\<lparr>locked := 1, threadHeld := Some 0\<rparr>) example_synch"
  have r: "mreach SynchList_code SynchList_entry 0 {0} ((example_synch, \<lambda>t. Free), SynchList_new 0, \<lambda>t. Out) [Call 0 (AppPut 5), Silent, Exec 0 (AppPut 5) (SynchList_new 0)]
      ((?k, \<lambda>t. Free), SynchList_new 0\<lparr>sl_list := [5]\<rparr>, (\<lambda>t. Out)(0 := In AppSignal))"
    by (rule example_first) (simp_all add: SynchList_entry_def SynchList_new_def)
  have "runs ?k (\<lambda>t. Free)" "((\<lambda>t. Out)(0 := In AppSignal)) (currentThread ?k) = In AppSignal" "level ?k = IntOff" "conds ?k 0 \<noteq> None"
    using example_sched(2,4,6) by (simp_all add: runs_def put_lock_def st_def example_objects)
  moreover have "SynchList_code AppSignal (SynchList_new 0\<lparr>sl_list := [5]\<rparr>) = DoSignal 0 AppRelease" by (simp add: SynchList_new_def)
  ultimately have "goes_on 0 ?k (SynchList_code AppSignal (SynchList_new 0\<lparr>sl_list := [5]\<rparr>))"
    by (intro mp [OF spec [OF conjunct1 [OF conjunct2 [OF monitor_refines [OF r idle_example_fresh]]], of AppSignal]]) (simp only: conds_of.simps, simp)
  then show ?thesis using r by blast
qed

section \<open>The objects in every run\<close>

text \<open>C18. \<open>SynchList\<close> is a first-in first-out channel: in every run of \<open>Append\<close>, \<open>Remove\<close> and \<open>Mapcar\<close> on the kernel, the items removed so far followed by the items in the list are the items appended, in
  that order; the \<open>ASSERT\<close> that \<open>Remove\<close> found an item never fails; and no wake-up is lost: while threads wait for \<open>listEmpty\<close>, at least as many threads as there are items are on their way to take one
  or to signal.
\<close>

theorem synchlist_fifo:
  assumes "mreach SynchList_code SynchList_entry lk {c} ((k, pc), SynchList_new c, \<lambda>t. Out) ls ((k1, pc1), m1, q1)" and "fresh lk {c} k pc"
  shows "appended ls = removed ls @ sl_list m1 \<and> (\<forall>t p. q1 t = In p \<longrightarrow> SynchList_code p m1 \<noteq> DoAbort) \<and>
    (queue_of k1 (CondQ c) \<noteq> [] \<longrightarrow> length (sl_list m1) \<le> card (takers (queue_of k1 (CondQ c)) q1))"
proof -
  have I: "sl_items ls (mabs lk {c} ((k1, pc1), m1, q1))" "sl_waits c (mabs lk {c} ((k1, pc1), m1, q1))"
    using sl.fresh_inv [OF assms] by (simp_all add: sl_items_def sl_waits_def SynchList_new_def)
  have "SynchList_code p m1 \<noteq> DoAbort" if "q1 t = In p" for t p
    using I(1) that by (cases p) (auto simp: sl_items_def mabs_def split: list.splits)
  then show ?thesis using I by (simp add: sl_items_def sl_waits_def mabs_def)
qed

theorem synchlist_fifo_witness:
  "appended [Call 0 (AppPut 5), Silent, Exec 0 (AppPut 5) (SynchList_new 0)] = removed [Call 0 (AppPut 5), Silent, Exec 0 (AppPut 5) (SynchList_new 0)] @ [5]"
proof -
  have "mreach SynchList_code SynchList_entry 0 {0} ((example_synch, \<lambda>t. Free), SynchList_new 0, \<lambda>t. Out) [Call 0 (AppPut 5), Silent, Exec 0 (AppPut 5) (SynchList_new 0)]
      ((put_lock 0 (Lock_new\<lparr>locked := 1, threadHeld := Some 0\<rparr>) example_synch, \<lambda>t. Free), SynchList_new 0\<lparr>sl_list := [5]\<rparr>, (\<lambda>t. Out)(0 := In AppSignal))"
    by (rule example_first) (simp_all add: SynchList_entry_def SynchList_new_def)
  from conjunct1 [OF synchlist_fifo [OF this idle_example_fresh]] show ?thesis by simp
qed

text \<open>C19. \<open>Mailbox\<close> delivers every message once and in order: in every run of \<open>Send\<close> and \<open>Receive\<close>, the messages received so far, followed by the one that is in the buffer, if any, are the messages put into the
  buffer; \<open>receivePres\<close> is the number of \<open>Receive\<close> calls that have not taken their message yet (wrapped to 32 bits); and a message is in the buffer only while some \<open>Receive\<close> call still needs one.
\<close>

theorem mailbox_delivery:
  assumes "mreach Mailbox_code Mailbox_entry lk {s, r} ((k, pc), Mailbox_new s r, \<lambda>t. Out) ls ((k1, pc1), m1, q1)" and "fresh lk {s, r} k pc"
  shows "sent ls = received ls @ in_box m1 (inside (holder k1 lk) q1) \<and> bufferRead m1 \<in> {0, 1} \<and>
    receivePres m1 = c_int (int (card {t. is_counted (q1 t)})) \<and> (bufferRead m1 = 1 \<longrightarrow> (\<exists>t. is_needy (q1 t)))"
proof -
  have I: "mb_messages ls (mabs lk {s, r} ((k1, pc1), m1, q1))" "mb_counts s r (mabs lk {s, r} ((k1, pc1), m1, q1))"
    using mb.fresh_inv [OF assms] by (simp_all add: mb_messages_def mb_counts_def Mailbox_new_def c_int_def)
  then show ?thesis by (simp add: mb_messages_def mb_counts_def mabs_def)
qed

theorem mailbox_delivery_witness:
  "receivePres (Mailbox_new 0 1\<lparr>receivePres := 1\<rparr>) = c_int (int (card {t. is_counted (((\<lambda>t. Out)(0 := In RecvSignal)) (t :: nat))}))"
proof -
  have "mreach Mailbox_code Mailbox_entry 0 {0, 1} ((example_synch, \<lambda>t. Free), Mailbox_new 0 1, \<lambda>t. Out) [Call 0 RecvCount, Silent, Exec 0 RecvCount (Mailbox_new 0 1)]
      ((put_lock 0 (Lock_new\<lparr>locked := 1, threadHeld := Some 0\<rparr>) example_synch, \<lambda>t. Free), Mailbox_new 0 1\<lparr>receivePres := 1\<rparr>, (\<lambda>t. Out)(0 := In RecvSignal))"
    by (rule example_first) (simp_all add: Mailbox_entry_def Mailbox_new_def c_int_def)
  from mailbox_delivery [OF this idle_example_fresh] show ?thesis by blast
qed

text \<open>C32. \<open>Whale\<close>: the counters are the calls of each role not yet used up by a match, and a call of one role gets past its wait only when calls of both other roles are there that no match has used up; so
  a match always consumes one call of each role.
\<close>

theorem whale_match:
  assumes "mreach Whale_code Whale_entry lk (range c) ((k, pc), Whale_new c, \<lambda>t. Out) ls ((k1, pc1), m1, q1)" and "fresh lk (range c) k pc"
  shows "(\<forall>r. w_count m1 r = c_int (calls r ls - matched r ls) \<and> matched r ls \<le> calls r ls) \<and>
    (\<forall>t r r'. q1 t = In (WhFound r) \<and> r' \<noteq> r \<longrightarrow> matched r' ls < calls r' ls) \<and> (\<forall>t r. q1 t = In (ResetCount r) \<longrightarrow> matched r ls < calls r ls)"
proof -
  have I: "wh_inv c ls (mabs lk (range c) ((k1, pc1), m1, q1))"
    by (rule wh.fresh_inv [OF assms]) (simp add: wh_inv_def wh_data_def wh_found_def Whale_new_def calls_def matched_def c_int_def)
  have at: "inside (holder k1 lk) q1 = Some p" if "q1 t = In p" for t p using I that by (auto simp: wh_inv_def mabs_def inside_def)
  have d: "wh_data c ls m1 (inside (holder k1 lk) q1)" using I by (simp add: wh_inv_def mabs_def)
  have "matched r' ls < calls r' ls" if "q1 t = In (WhFound r)" "r' \<noteq> r" for t r r'
  proof -
    have "present r' ls" using d at [OF that(1)] that(2) by (simp add: wh_data_def)
    then show ?thesis by (simp add: present_def)
  qed
  moreover have "matched r ls < calls r ls" if "q1 t = In (ResetCount r)" for t r 
  proof -
    have "present r ls" using d at [OF that] by (cases r) (simp_all add: wh_data_def)
    then show ?thesis by (simp add: present_def)
  qed
  moreover have "\<forall>r. w_count m1 r = c_int (calls r ls - matched r ls) \<and> matched r ls \<le> calls r ls" using d by (simp add: wh_data_def)
  ultimately show ?thesis by blast
qed

theorem whale_match_witness:
  "c_int 1 = c_int (calls MaleR [Call 0 (WhCount MaleR), Silent, Exec 0 (WhCount MaleR) (Whale_new (\<lambda>r. 0))] - matched MaleR [Call 0 (WhCount MaleR), Silent, Exec 0 (WhCount MaleR) (Whale_new (\<lambda>r. 0))])"
proof -
  have "mreach Whale_code Whale_entry 0 (range (\<lambda>r. 0)) ((example_synch, \<lambda>t. Free), Whale_new (\<lambda>r. 0), \<lambda>t. Out) [Call 0 (WhCount MaleR), Silent, Exec 0 (WhCount MaleR) (Whale_new (\<lambda>r. 0))]
      ((put_lock 0 (Lock_new\<lparr>locked := 1, threadHeld := Some 0\<rparr>) example_synch, \<lambda>t. Free), Whale_new (\<lambda>r. 0)\<lparr>w_count := (\<lambda>r. 0)(MaleR := c_int 1)\<rparr>, (\<lambda>t. Out)(0 := In (WhSignal1 MaleR)))"
    by (rule example_first) (simp_all add: Whale_entry_def Whale_new_def)
  from whale_match [OF this idle_example_fresh] show ?thesis by (metis (no_types, lifting) Whale.select_convs(1) Whale.surjective Whale.update_convs(1) fun_upd_same)
qed

section \<open>Destruction\<close>

lemma Condition_delete_busy: "queue_of k (CondQ c) \<noteq> [] \<Longrightarrow> Condition_delete c k = Inl AssertFail"
  by (auto simp: Condition_delete_def get_cond_def queue_of_def bindR_eq_Inl split: option.splits)

text \<open>Destroying a mailbox or a whale on which a call is waiting stops at the assertion of \<open>~Condition\<close>, as the comments say; \<open>~Condition\<close> of another member may stop first.\<close>

lemma Mailbox_delete_waiting:
  assumes "queue_of k (CondQ (sendWait m)) \<noteq> [] \<or> queue_of k (CondQ (receiveWait m)) \<noteq> []" and "sendWait m \<noteq> receiveWait m"
  shows "\<exists>e. Mailbox_delete lk m k = Inl e"
proof (cases "Mailbox_delete lk m k")
  case (Inr k')
  then obtain k1 k2 where d: "Lock_delete lk k = Inr k1" "Condition_delete (sendWait m) k1 = Inr k2" "Condition_delete (receiveWait m) k2 = Inr k'"
    by (auto simp: Mailbox_delete_def bindR_eq_Inr)
  have "conds k1 = conds k" using d(1) by (auto simp: Lock_delete_def bindR_eq_Inr)
  moreover have "conds k2 = (conds k1)(sendWait m := None)" using d(2) by (auto simp: Condition_delete_def bindR_eq_Inr)
  ultimately have "queue_of k1 (CondQ (sendWait m)) = queue_of k (CondQ (sendWait m))" "queue_of k2 (CondQ (receiveWait m)) = queue_of k (CondQ (receiveWait m))"
    using assms(2) by (simp_all add: queue_of_def)
  then have False using assms(1) Condition_delete_busy [of k1 "sendWait m"] Condition_delete_busy [of k2 "receiveWait m"] d(2,3) by auto
  then show ?thesis ..
qed simp

end
