(* ===== verification/Join_Finish.thy ===== *)
theory Join_Finish
  imports Monitors
begin

text \<open>
  The joining protocol of \<^verbatim>\<open>src/code/threads/thread.cc\<close>: a thread that may be joined and the thread that joins it meet in \<open>Thread::Finish\<close> and \<open>Thread::Join\<close>, on the lock and the
  condition variable of the finishing thread. The two methods form a monitor over the members \<open>join\<close>, \<open>readyToJoin\<close> and \<open>cv\<close>.
\<close>

section \<open>Finish and Join\<close>

record join_data =
  j_join :: int
  j_readyToJoin :: int
  j_isForked :: int
  j_cv :: nat

text \<open>The assertions before the lock is acquired, and the point at which the method continues with the lock.\<close>

datatype jf_pc = FinTest | FinSig1 | FinWait | FinSig2 | FinSig3 | FinIf | FinRelease
  | JoinSet | JoinSig1 | JoinWait | JoinSig2 | JoinRelease

definition Finish_start :: "nat \<Rightarrow> nat \<Rightarrow> jf_pc res" where
  "Finish_start self cur = bindR (assertR (self = cur)) (\<lambda>_. Inr FinTest)"

definition Join_start :: "nat \<Rightarrow> nat \<Rightarrow> join_data \<Rightarrow> jf_pc res" where
  "Join_start self cur m = bindR (assertR (j_join m = 1)) (\<lambda>_. bindR (assertR (j_readyToJoin m = 0)) (\<lambda>_.
     bindR (assertR (cur \<noteq> self)) (\<lambda>_. bindR (assertR (j_isForked m = 1)) (\<lambda>_. Inr JoinSet))))"

fun join_code :: "jf_pc \<Rightarrow> join_data \<Rightarrow> (jf_pc, join_data) act" where
  "join_code FinTest m = (if j_readyToJoin m = 0 \<and> j_join m \<noteq> 0 then Do m FinSig1 else Do m FinSig3)"
| "join_code FinSig1 m = DoSignal (j_cv m) FinWait"
| "join_code FinWait m = DoWait (j_cv m) FinSig2"
| "join_code FinSig2 m = DoSignal (j_cv m) FinTest"
| "join_code FinSig3 m = DoSignal (j_cv m) FinIf"
| "join_code FinIf m = (if j_join m \<noteq> 0 then DoWait (j_cv m) FinRelease else Do m FinRelease)"
| "join_code FinRelease m = DoRelease"
| "join_code JoinSet m = Do (m\<lparr>j_readyToJoin := 1\<rparr>) JoinSig1"
| "join_code JoinSig1 m = DoSignal (j_cv m) JoinWait"
| "join_code JoinWait m = DoWait (j_cv m) JoinSig2"
| "join_code JoinSig2 m = DoSignal (j_cv m) JoinRelease"
| "join_code JoinRelease m = DoRelease"

definition join_entry :: "jf_pc set" where
  "join_entry = {FinTest, JoinSet}"

section \<open>The stages of the protocol\<close>

text \<open>Where a thread is, as far as the other one can tell.\<close>

datatype stage = NotYet | Entering | Awake jf_pc | Asleep jf_pc | Inside jf_pc | Gone

definition stage :: "bool \<Rightarrow> bool \<Rightarrow> jf_pc mplace \<Rightarrow> stage" where
  "stage called sleeps x = (case x of Out \<Rightarrow> if called then Gone else NotYet | Enter p \<Rightarrow> Entering | Wt p \<Rightarrow> if sleeps then Asleep p else Awake p | In p \<Rightarrow> Inside p)"

lemma stage_simps [simp]:
  "stage b s Out = (if b then Gone else NotYet)" "stage b s (Enter p) = Entering" "stage b s (Wt p) = (if s then Asleep p else Awake p)" "stage b s (In p) = Inside p"
  by (simp_all add: stage_def)

text \<open>The stages of the finishing thread and of the joining thread that occur together.\<close>

fun together :: "stage \<Rightarrow> stage \<Rightarrow> bool" where
  "together c NotYet = (c \<in> {NotYet, Entering, Inside FinTest, Inside FinSig1, Inside FinWait, Asleep FinSig2})"
| "together c Entering = (c \<in> {NotYet, Entering, Inside FinTest, Inside FinSig1, Inside FinWait, Asleep FinSig2})"
| "together c (Inside JoinSet) = (c \<in> {NotYet, Entering, Asleep FinSig2})"
| "together c (Inside JoinSig1) = (c \<in> {NotYet, Entering, Asleep FinSig2})"
| "together c (Inside JoinWait) = (c \<in> {NotYet, Entering, Awake FinSig2})"
| "together c (Asleep JoinSig2) = (c \<in> {NotYet, Entering, Awake FinSig2, Inside FinSig2, Inside FinTest, Inside FinSig3})"
| "together c (Awake JoinSig2) = (c \<in> {Inside FinTest, Inside FinSig3, Inside FinIf, Asleep FinRelease})"
| "together c (Inside JoinSig2) = (c = Asleep FinRelease)"
| "together c (Inside JoinRelease) = (c = Awake FinRelease)"
| "together c Gone = (c \<in> {Awake FinRelease, Inside FinRelease, Gone})"
| "together c _ = False"

definition not_joined :: "stage \<Rightarrow> bool" where
  "not_joined p \<longleftrightarrow> p \<in> {NotYet, Entering, Inside JoinSet}"

text \<open>Thread \<open>C\<close> finishes and thread \<open>P\<close> joins it, each once, and nobody else calls a method.\<close>

definition one_join :: "nat \<Rightarrow> nat \<Rightarrow> (jf_pc, join_data) mlabel list \<Rightarrow> bool" where
  "one_join C P h \<longleftrightarrow> (\<forall>t p. Call t p \<in> set h \<longrightarrow> (t, p) = (C, FinTest) \<or> (t, p) = (P, JoinSet)) \<and> count_list h (Call C FinTest) \<le> 1 \<and> count_list h (Call P JoinSet) \<le> 1"

text \<open>The finishing thread has left its loop: it has executed the \<open>Signal\<close> after it.\<close>

definition left_loop :: "nat \<Rightarrow> (jf_pc, join_data) mlabel list \<Rightarrow> bool" where
  "left_loop C h \<longleftrightarrow> (\<exists>m. Exec C FinSig3 m \<in> set h)"

definition past_loop :: "stage \<Rightarrow> bool" where
  "past_loop c \<longleftrightarrow> c \<in> {Inside FinIf, Asleep FinRelease, Awake FinRelease, Inside FinRelease, Gone}"

definition jf_stages :: "nat \<Rightarrow> nat \<Rightarrow> nat \<Rightarrow> (jf_pc, join_data) mlabel list \<Rightarrow> (jf_pc, join_data) astate \<Rightarrow> bool" where
  "jf_stages C P c h a \<longleftrightarrow> (case a of (L, W, m, q) \<Rightarrow>
     let cs = stage (Call C FinTest \<in> set h) (C \<in> snd ` set (W c)) (q C); ps = stage (Call P JoinSet \<in> set h) (P \<in> snd ` set (W c)) (q P)
     in together cs ps \<and> j_readyToJoin m = (if not_joined ps then 0 else 1) \<and> (past_loop cs \<longrightarrow> left_loop C h))"

definition jf_frame :: "nat \<Rightarrow> nat \<Rightarrow> nat \<Rightarrow> (jf_pc, join_data) mlabel list \<Rightarrow> (jf_pc, join_data) astate \<Rightarrow> bool" where
  "jf_frame C P c h a \<longleftrightarrow> (case a of (L, W, m, q) \<Rightarrow> j_cv m = c \<and> j_join m = 1 \<and> (\<forall>t. t \<noteq> C \<and> t \<noteq> P \<longrightarrow> q t = Out) \<and>
     (\<forall>t p. q t = In p \<longrightarrow> L = Some t) \<and> (\<forall>t. L = Some t \<longrightarrow> t = C \<or> t = P) \<and> length (W c) \<le> 1 \<and> (\<forall>t \<in> snd ` set (W c). \<exists>p. q t = Wt p) \<and>
     (\<forall>p. q C = Enter p \<longrightarrow> p = FinTest) \<and> (\<forall>p. q P = Enter p \<longrightarrow> p = JoinSet) \<and>
     (q C \<noteq> Out \<longrightarrow> Call C FinTest \<in> set h) \<and> (q P \<noteq> Out \<longrightarrow> Call P JoinSet \<in> set h))"

definition jf_inv :: "nat \<Rightarrow> nat \<Rightarrow> nat \<Rightarrow> (jf_pc, join_data) mlabel list \<Rightarrow> (jf_pc, join_data) astate \<Rightarrow> bool" where
  "jf_inv C P c h a \<longleftrightarrow> C \<noteq> P \<and> (one_join C P h \<longrightarrow> jf_frame C P c h a \<and> jf_stages C P c h a)"

lemma one_join_append: "one_join C P (h @ [l]) \<Longrightarrow> one_join C P h"
  by (auto simp: one_join_def split: if_splits)

lemma one_join_call:
  assumes "one_join C P (h @ [Call t p])"
  shows "(t, p) = (C, FinTest) \<and> Call C FinTest \<notin> set h \<or> (t, p) = (P, JoinSet) \<and> Call P JoinSet \<notin> set h"
  using assms count_list_0_iff [of h] by (auto simp: one_join_def split: if_splits)

lemma left_loop_append: "left_loop C (h @ [l]) \<longleftrightarrow> left_loop C h \<or> (\<exists>m. l = Exec C FinSig3 m)"
  by (auto simp: left_loop_def)

text \<open>With two threads, at most one of which sleeps, the queue of the condition variable is empty or holds that thread.\<close>

lemma short_queue: "length w \<le> 1 \<Longrightarrow> t \<in> snd ` set w \<Longrightarrow> \<exists>n. w = [(n, t)]"
  by (cases w) (auto simp: Suc_le_eq)

text \<open>The table of stages is closed under the statements of either thread while the other one is not inside.\<close>

fun woken :: "stage \<Rightarrow> stage" where
  "woken (Asleep p) = Awake p"
| "woken s = s"

fun outside :: "stage \<Rightarrow> bool" where
  "outside (Inside p) = False"
| "outside s = True"

lemma not_joined_woken [simp]: "not_joined (woken s) = not_joined s"
  by (cases s) (auto simp: not_joined_def)

lemma past_loop_woken [simp]: "past_loop (woken s) = past_loop s"
  by (cases s) (auto simp: past_loop_def)

lemma stage_woken: "length w \<le> 1 \<Longrightarrow> stage b (t \<in> snd ` set (tl w)) x = woken (stage b (t \<in> snd ` set w) x)"
  if "t \<notin> snd ` set w \<or> (\<exists>p. x = Wt p)"
  using that by (cases w; cases x) (auto simp: Suc_le_eq)

lemma finishing_moves:
  assumes "together (Inside p) s" and "outside s"
  shows "p = FinTest \<Longrightarrow> not_joined s \<Longrightarrow> together (Inside FinSig1) s" "p = FinTest \<Longrightarrow> \<not> not_joined s \<Longrightarrow> together (Inside FinSig3) s"
    "p = FinSig1 \<Longrightarrow> together (Inside FinWait) (woken s)" "p = FinWait \<Longrightarrow> together (Asleep FinSig2) s"
    "p = FinSig2 \<Longrightarrow> together (Inside FinTest) (woken s)" "p = FinSig3 \<Longrightarrow> together (Inside FinIf) (woken s)"
    "p = FinIf \<Longrightarrow> together (Asleep FinRelease) s" "p = FinRelease \<Longrightarrow> together Gone s"
    "p \<in> {FinTest, FinSig1, FinWait, FinSig2, FinSig3, FinIf, FinRelease}"
  using assms by (cases "(Inside p, s)" rule: together.cases; auto simp: not_joined_def)+

lemma joining_moves:
  assumes "together s (Inside p)" and "outside s"
  shows "p = JoinSet \<Longrightarrow> together s (Inside JoinSig1)" "p = JoinSig1 \<Longrightarrow> together (woken s) (Inside JoinWait)"
    "p = JoinWait \<Longrightarrow> together s (Asleep JoinSig2)" "p = JoinSig2 \<Longrightarrow> together (woken s) (Inside JoinRelease)" "p = JoinRelease \<Longrightarrow> together s Gone"
    "p \<in> {JoinSet, JoinSig1, JoinWait, JoinSig2, JoinRelease}"
  using assms by (cases "(s, Inside p)" rule: together.cases; auto)+

lemma entering_moves:
  "together Entering s \<Longrightarrow> outside s \<Longrightarrow> together (Inside FinTest) s" "together (Awake p) s \<Longrightarrow> outside s \<Longrightarrow> together (Inside p) s"
  "together c Entering \<Longrightarrow> outside c \<Longrightarrow> together c (Inside JoinSet)" "together c (Awake p) \<Longrightarrow> outside c \<Longrightarrow> together c (Inside p)"
  "together NotYet s \<Longrightarrow> together Entering s" "together c NotYet \<Longrightarrow> together c Entering"
  by ((cases "(Entering, s)" rule: together.cases; simp), (cases "(Awake p, s)" rule: together.cases; auto), auto, (cases "(c, Awake p)" rule: together.cases; auto), (cases "(NotYet, s)" rule: together.cases; simp))

lemma awake_points: "together (Awake p) s \<Longrightarrow> p = FinSig2 \<or> p = FinRelease" "together s (Awake p) \<Longrightarrow> p = JoinSig2"
  by ((cases "(Awake p, s)" rule: together.cases; auto), (cases "(s, Awake p)" rule: together.cases; auto))

section \<open>The protocol keeps to its stages\<close>

lemma jf_frameD:
  assumes "jf_frame C P c h (L, W, m, q)"
  shows "j_cv m = c" "j_join m = 1" "\<And>t. t \<noteq> C \<Longrightarrow> t \<noteq> P \<Longrightarrow> q t = Out" "\<And>t p. q t = In p \<Longrightarrow> L = Some t" "\<And>t. L = Some t \<Longrightarrow> t = C \<or> t = P"
    "length (W c) \<le> 1" "\<And>t. t \<in> snd ` set (W c) \<Longrightarrow> \<exists>p. q t = Wt p" "\<And>p. q C = Enter p \<Longrightarrow> p = FinTest" "\<And>p. q P = Enter p \<Longrightarrow> p = JoinSet"
    "q C \<noteq> Out \<Longrightarrow> Call C FinTest \<in> set h" "q P \<noteq> Out \<Longrightarrow> Call P JoinSet \<in> set h"
  using assms unfolding jf_frame_def prod.case by blast+

text \<open>A step of thread \<open>t\<close> that takes it to the place \<open>x\<close>.\<close>

lemma jf_frame_move:
  assumes f: "jf_frame C P c h (L, W, m, q)" and t: "q t \<noteq> Out" and m: "j_cv m' = j_cv m" "j_join m' = j_join m" and L: "L = None \<or> L = Some t" "L' = None \<or> L' = Some t"
    and x: "\<And>p. x = In p \<Longrightarrow> L' = Some t" "\<And>p. x \<noteq> Enter p" and w: "length (W' c) \<le> 1" "\<And>u. u \<noteq> t \<Longrightarrow> u \<in> snd ` set (W' c) \<Longrightarrow> u \<in> snd ` set (W c)" "t \<in> snd ` set (W' c) \<Longrightarrow> \<exists>p. x = Wt p"
  shows "jf_frame C P c (h @ [l]) (L', W', m', q(t := x))"
proof -
  note D = jf_frameD [OF f]
  have tt: "t = C \<or> t = P" using D(3) [of t] t by blast
  have places: "\<forall>u p. (q(t := x)) u = In p \<longrightarrow> L' = Some u" using D(4) L x(1) by auto
  have queue: "\<forall>u \<in> snd ` set (W' c). \<exists>p. (q(t := x)) u = Wt p" using D(7) w(2,3) by (metis fun_upd_apply)
  have entry: "\<forall>p. (q(t := x)) C = Enter p \<longrightarrow> p = FinTest" "\<forall>p. (q(t := x)) P = Enter p \<longrightarrow> p = JoinSet" using D(8,9) x(2) by (simp_all add: fun_upd_apply)
  have called: "(q(t := x)) C \<noteq> Out \<longrightarrow> Call C FinTest \<in> set (h @ [l])" "(q(t := x)) P \<noteq> Out \<longrightarrow> Call P JoinSet \<in> set (h @ [l])" using D(10,11) t by (auto simp: fun_upd_apply)
  have others: "\<forall>u. u \<noteq> C \<and> u \<noteq> P \<longrightarrow> (q(t := x)) u = Out" using D(3) tt by auto
  have Lt: "\<forall>u. L' = Some u \<longrightarrow> u = C \<or> u = P" using L(2) tt by auto
  show ?thesis unfolding jf_frame_def prod.case using m D(1,2) by (intro conjI places queue entry called others Lt w(1)) simp_all
qed

lemma jf_frame_step:
  assumes "astep join_code join_entry {c} a l a'" and "jf_frame C P c h a" and "C \<noteq> P" and "one_join C P (h @ [l])" and "jf_stages C P c h a"
  shows "jf_frame C P c (h @ [l]) a'"
  using assms
proof (induction rule: astep.induct)
  case (a_call q t p L W f)
  then show ?case using one_join_call [OF a_call.prems(3)] by (auto simp: jf_frame_def)
next
  case (a_enter q t p W f)
  show ?case using a_enter.hyps jf_frameD(6,7) [OF a_enter.prems(1)] by (intro jf_frame_move [OF a_enter.prems(1)]) auto
next
  case (a_exec q t p f f' p' W)
  then have f': "j_cv f' = j_cv f" "j_join f' = j_join f" by (cases p; auto split: if_splits)+
  show ?case using a_exec.hyps(1) f' jf_frameD(6) [OF a_exec.prems(1)] jf_frameD(7) [OF a_exec.prems(1), of t] by (intro jf_frame_move [OF a_exec.prems(1)]) auto
next
  case (a_wait q t p f d p' W n)
  note D = jf_frameD [OF a_wait.prems(1)]
  have "W c = []"
  proof (rule ccontr)
    assume "W c \<noteq> []"
    then obtain m u where w: "W c = [(m, u)]" using D(6) by (cases "W c") auto
    then obtain p2 where u: "q u = Wt p2" using D(7) [of u] by auto
    have "t \<noteq> u" using u a_wait.hyps(1) by auto
    then have "t = C \<and> u = P \<or> t = P \<and> u = C" using D(3) [of t] D(3) [of u] u a_wait.hyps(1) by auto
    moreover have "p = FinWait \<or> p = FinIf \<or> p = JoinWait" using a_wait.hyps(2) by (cases p) (auto split: if_splits)
    ultimately show False using a_wait.prems(4) a_wait.hyps(1) u w by (cases p2) (auto simp: jf_stages_def Let_def)
  qed
  moreover have "d = c" using a_wait.hyps(3) by simp
  ultimately show ?case using a_wait.hyps(1) by (intro jf_frame_move [OF a_wait.prems(1)]) auto
next
  case (a_signal q t p f d p' W)
  have "d = c" using a_signal.hyps(3) by simp
  moreover have "tl (W c) = []" using jf_frameD(6) [OF a_signal.prems(1)] by (cases "W c") auto
  ultimately show ?case using a_signal.hyps(1) by (intro jf_frame_move [OF a_signal.prems(1)]) auto
next
  case (a_release q t p f W)
  show ?case using a_release.hyps(1) jf_frameD(6) [OF a_release.prems(1)] jf_frameD(7) [OF a_release.prems(1), of t] by (intro jf_frame_move [OF a_release.prems(1)]) auto
qed

text \<open>The stages after a step of either thread, from the stages before.\<close>

definition stages_ok :: "nat \<Rightarrow> (jf_pc, join_data) mlabel list \<Rightarrow> int \<Rightarrow> stage \<Rightarrow> stage \<Rightarrow> bool" where
  "stages_ok C h r s s' \<longleftrightarrow> together s s' \<and> r = (if not_joined s' then 0 else 1) \<and> (past_loop s \<longrightarrow> left_loop C h)"

lemma jf_stages_iff:
  "jf_stages C P c h (L, W, m, q) \<longleftrightarrow> stages_ok C h (j_readyToJoin m)
     (stage (Call C FinTest \<in> set h) (C \<in> snd ` set (W c)) (q C)) (stage (Call P JoinSet \<in> set h) (P \<in> snd ` set (W c)) (q P))"
  by (simp add: jf_stages_def stages_ok_def Let_def)

lemma stages_finishing:
  assumes "stages_ok C h r (Inside p) s" and "outside s" and "r = j_readyToJoin m" and "j_join m = 1"
  shows "join_code p m = Do m' p' \<Longrightarrow> m' = m \<and> stages_ok C (h @ [Exec C p m]) r (Inside p') s"
    "join_code p m = DoSignal d p' \<Longrightarrow> stages_ok C (h @ [Exec C p m]) r (Inside p') (woken s)"
    "join_code p m = DoWait d p' \<Longrightarrow> stages_ok C (h @ [Exec C p m]) r (Asleep p') s"
    "join_code p m = DoRelease \<Longrightarrow> stages_ok C (h @ [Exec C p m]) r Gone s"
proof -
  have T: "together (Inside p) s" "r = (if not_joined s then 0 else 1)" using assms(1) by (simp_all add: stages_ok_def)
  note M = finishing_moves [OF T(1) assms(2)]
  show "join_code p m = Do m' p' \<Longrightarrow> m' = m \<and> stages_ok C (h @ [Exec C p m]) r (Inside p') s"
    using M(1,2,9) T(2) assms(1,3,4) by (auto simp: stages_ok_def left_loop_append past_loop_def split: if_splits)
  show "join_code p m = DoSignal d p' \<Longrightarrow> stages_ok C (h @ [Exec C p m]) r (Inside p') (woken s)"
    using M(3,5,6,9) T(2) assms(1) by (auto simp: stages_ok_def left_loop_append past_loop_def split: if_splits)
  show "join_code p m = DoWait d p' \<Longrightarrow> stages_ok C (h @ [Exec C p m]) r (Asleep p') s"
    using M(4,7,9) T(2) assms(1) by (auto simp: stages_ok_def left_loop_append past_loop_def split: if_splits)
  show "join_code p m = DoRelease \<Longrightarrow> stages_ok C (h @ [Exec C p m]) r Gone s"
    using M(8,9) T(2) assms(1) by (auto simp: stages_ok_def left_loop_append past_loop_def split: if_splits)
qed

lemma stages_joining:
  assumes "stages_ok C h r s (Inside p)" and "outside s" and "r = j_readyToJoin m"
  shows "join_code p m = Do m' p' \<Longrightarrow> stages_ok C (h @ [Exec P p m]) (j_readyToJoin m') s (Inside p')"
    "join_code p m = DoSignal d p' \<Longrightarrow> stages_ok C (h @ [Exec P p m]) r (woken s) (Inside p')"
    "join_code p m = DoWait d p' \<Longrightarrow> stages_ok C (h @ [Exec P p m]) r s (Asleep p')"
    "join_code p m = DoRelease \<Longrightarrow> stages_ok C (h @ [Exec P p m]) r s Gone"
proof -
  have T: "together s (Inside p)" "r = (if not_joined (Inside p) then 0 else 1)" using assms(1) by (simp_all add: stages_ok_def)
  note M = joining_moves [OF T(1) assms(2)]
  show "join_code p m = Do m' p' \<Longrightarrow> stages_ok C (h @ [Exec P p m]) (j_readyToJoin m') s (Inside p')"
    using M(1,6) T(2) assms(1) by (auto simp: stages_ok_def left_loop_append not_joined_def)
  show "join_code p m = DoSignal d p' \<Longrightarrow> stages_ok C (h @ [Exec P p m]) r (woken s) (Inside p')"
    using M(2,4,6) T(2) assms(1) by (auto simp: stages_ok_def left_loop_append not_joined_def)
  show "join_code p m = DoWait d p' \<Longrightarrow> stages_ok C (h @ [Exec P p m]) r s (Asleep p')"
    using M(3,6) T(2) assms(1) by (auto simp: stages_ok_def left_loop_append not_joined_def)
  show "join_code p m = DoRelease \<Longrightarrow> stages_ok C (h @ [Exec P p m]) r s Gone"
    using M(5,6) T(2) assms(1) by (auto simp: stages_ok_def left_loop_append not_joined_def)
qed

lemma stages_silent: "stages_ok C h r s s' \<Longrightarrow> stages_ok C (h @ [l]) r s s'"
  by (auto simp: stages_ok_def left_loop_append)

lemma stages_entering:
  assumes "stages_ok C h r s s'"
  shows "s = Entering \<Longrightarrow> outside s' \<Longrightarrow> stages_ok C (h @ [l]) r (Inside FinTest) s'" "s = Awake p \<Longrightarrow> outside s' \<Longrightarrow> stages_ok C (h @ [l]) r (Inside p) s'"
    "s' = Entering \<Longrightarrow> outside s \<Longrightarrow> stages_ok C (h @ [l]) r s (Inside JoinSet)" "s' = Awake p \<Longrightarrow> outside s \<Longrightarrow> stages_ok C (h @ [l]) r s (Inside p)"
proof -
  have T: "together s s'" "r = (if not_joined s' then 0 else 1)" "past_loop s \<longrightarrow> left_loop C h" using assms by (simp_all add: stages_ok_def)
  show "s = Entering \<Longrightarrow> outside s' \<Longrightarrow> stages_ok C (h @ [l]) r (Inside FinTest) s'"
    using T entering_moves(1) [of s'] by (simp add: stages_ok_def past_loop_def)
  show "s = Awake p \<Longrightarrow> outside s' \<Longrightarrow> stages_ok C (h @ [l]) r (Inside p) s'"
    using T entering_moves(2) [of p s'] awake_points(1) [of p s'] by (auto simp: stages_ok_def past_loop_def left_loop_append)
  show "s' = Entering \<Longrightarrow> outside s \<Longrightarrow> stages_ok C (h @ [l]) r s (Inside JoinSet)"
    using T entering_moves(3) [of s] by (simp add: stages_ok_def not_joined_def left_loop_append)
  show "s' = Awake p \<Longrightarrow> outside s \<Longrightarrow> stages_ok C (h @ [l]) r s (Inside p)"
    using T entering_moves(4) [of s p] awake_points(2) [of s p] by (simp add: stages_ok_def not_joined_def left_loop_append)
qed

lemma jf_stages_step:
  assumes "astep join_code join_entry {c} a l a'" and "jf_frame C P c h a" and "C \<noteq> P" and "one_join C P (h @ [l])" and "jf_stages C P c h a"
  shows "jf_stages C P c (h @ [l]) a'"
  using assms
proof (induction rule: astep.induct)
  case (a_call q t p L W f)
  note D = jf_frameD [OF a_call.prems(1)]
  show ?case
    using one_join_call [OF a_call.prems(3)] a_call.prems(2,4) a_call.hyps(1) entering_moves(5,6)
    by (auto simp: jf_stages_iff stages_ok_def left_loop_append not_joined_def past_loop_def)
next
  case (a_enter q t p W f)
  note D = jf_frameD [OF a_enter.prems(1)]
  have t: "t = C \<or> t = P" "t \<notin> snd ` set (W c)" using D(3) [of t] a_enter.hyps by auto
  have o: "outside (stage b s (q u))" for b s u using D(4) [of u] by (cases "q u") auto
  consider "t = C" "P \<noteq> t" | "t = P" "C \<noteq> t" using t(1) a_enter.prems(2) by auto
  then show ?case
  proof cases
    case 1
    then show ?thesis using a_enter.prems(4) a_enter.hyps(1) t(2) D(8) stages_entering(1,2) [OF _ _ o] by (auto simp: jf_stages_iff)
  next
    case 2
    then show ?thesis using a_enter.prems(4) a_enter.hyps(1) t(2) D(9) stages_entering(3,4) [OF _ _ o] by (auto simp: jf_stages_iff)
  qed
next
  case (a_exec q t p f f' p' W)
  note D = jf_frameD [OF a_exec.prems(1)]
  have o: "outside (stage b s (q u))" if "u \<noteq> t" for b s u using D(4) [of u] that by (cases "q u") auto
  consider "t = C" "P \<noteq> t" | "t = P" "C \<noteq> t" using D(5) [of t] a_exec.prems(2) by auto
  then show ?case
  proof cases
    case 1
    then show ?thesis using stages_finishing(1) [OF _ o [OF 1(2)] _ D(2) a_exec.hyps(2)] a_exec.prems(4) a_exec.hyps(1) by (auto simp: jf_stages_iff)
  next
    case 2
    then show ?thesis using stages_joining(1) [OF _ o [OF 2(2)] _ a_exec.hyps(2)] a_exec.prems(4) a_exec.hyps(1) by (auto simp: jf_stages_iff)
  qed
next
  case (a_wait q t p f d p' W n)
  note D = jf_frameD [OF a_wait.prems(1)]
  have d: "d = c" using a_wait.hyps(3) by simp
  have o: "outside (stage b s (q u))" if "u \<noteq> t" for b s u using D(4) [of u] that by (cases "q u") auto
  consider "t = C" "P \<noteq> t" | "t = P" "C \<noteq> t" using D(5) [of t] a_wait.prems(2) by auto
  then show ?case
  proof cases
    case 1
    then show ?thesis using stages_finishing(3) [OF _ o [OF 1(2)] _ D(2) a_wait.hyps(2)] a_wait.prems(4) a_wait.hyps(1) d
      by (simp add: jf_stages_iff set_sorted_insert)
  next
    case 2
    then show ?thesis using stages_joining(3) [OF _ o [OF 2(2)] _ a_wait.hyps(2)] a_wait.prems(4) a_wait.hyps(1) d
      by (simp add: jf_stages_iff set_sorted_insert)
  qed
next
  case (a_signal q t p f d p' W)
  note D = jf_frameD [OF a_signal.prems(1)]
  have d: "d = c" using a_signal.hyps(3) by simp
  have o: "outside (stage b s (q u))" if "u \<noteq> t" for b s u using D(4) [of u] that by (cases "q u") auto
  have w: "stage b (u \<in> snd ` set (tl (W c))) (q u) = woken (stage b (u \<in> snd ` set (W c)) (q u))" for b u
    by (rule stage_woken) (use D(6) D(7) [of u] in auto)
  consider "t = C" "P \<noteq> t" | "t = P" "C \<noteq> t" using D(5) [of t] a_signal.prems(2) by auto
  then show ?case
  proof cases
    case 1
    then show ?thesis using stages_finishing(2) [OF _ o [OF 1(2)] _ D(2) a_signal.hyps(2)] a_signal.prems(4) a_signal.hyps(1) d
      by (simp add: jf_stages_iff w)
  next
    case 2
    then show ?thesis using stages_joining(2) [OF _ o [OF 2(2)] _ a_signal.hyps(2)] a_signal.prems(4) a_signal.hyps(1) d
      by (simp add: jf_stages_iff w)
  qed
next
  case (a_release q t p f W)
  note D = jf_frameD [OF a_release.prems(1)]
  have o: "outside (stage b s (q u))" if "u \<noteq> t" for b s u using D(4) [of u] that by (cases "q u") auto
  consider "t = C" "P \<noteq> t" | "t = P" "C \<noteq> t" using D(5) [of t] a_release.prems(2) by auto
  then show ?case
  proof cases
    case 1
    then show ?thesis using stages_finishing(4) [OF _ o [OF 1(2)] _ D(2) a_release.hyps(2)] a_release.prems(4) a_release.hyps(1) D(10)
      by (simp add: jf_stages_iff)
  next
    case 2
    then show ?thesis using stages_joining(4) [OF _ o [OF 2(2)] _ a_release.hyps(2)] a_release.prems(4) a_release.hyps(1) D(11)
      by (simp add: jf_stages_iff)
  qed
qed

lemma jf_inv_step: "astep join_code join_entry {c} a l a' \<Longrightarrow> jf_inv C P c h a \<Longrightarrow> jf_inv C P c (h @ [l]) a'"
  using jf_frame_step jf_stages_step one_join_append by (simp add: jf_inv_def)

lemma jf_inv_silent: "jf_inv C P c h a \<Longrightarrow> jf_inv C P c (h @ [Silent]) a"
  by (cases a) (auto simp: jf_inv_def jf_frame_def jf_stages_iff dest!: one_join_append intro: stages_silent)

interpretation jf: monitor join_code join_entry "{c}" "jf_inv C P c" for C P c
  by unfold_locales (auto intro: jf_inv_step jf_inv_silent)

section \<open>Joining\<close>

definition Thread_join :: "nat \<Rightarrow> join_data" where
  "Thread_join c = \<lparr>j_join = 1, j_readyToJoin = 0, j_isForked = 1, j_cv = c\<rparr>"

text \<open>C15. A thread \<open>C\<close> that was created joinable and forked finishes, and a thread \<open>P\<close> joins it once; whatever the interleaving with the rest of the kernel: \<open>Join\<close> returns only after \<open>Finish\<close> has seen the join and
  left its loop; \<open>Finish\<close> gives up the thread, with its lock and condition variable, only after \<open>Join\<close> has returned; the two never sleep at the same time; once \<open>Join\<close> has returned the finishing thread does not sleep any
  more; and while \<open>P\<close> sleeps, \<open>C\<close> has not finished.
\<close>

theorem join_protocol:
  assumes "mreach join_code join_entry lk {c} ((k, pc), Thread_join c, \<lambda>t. Out) ls ((k1, pc1), m1, q1)" and "fresh lk {c} k pc" and "C \<noteq> P" and "one_join C P ls"
  shows "(Call P JoinSet \<in> set ls \<and> q1 P = Out \<longrightarrow> left_loop C ls \<and> C \<notin> snd ` set (queue_of k1 (CondQ c))) \<and>
    (Call C FinTest \<in> set ls \<and> q1 C = Out \<longrightarrow> Call P JoinSet \<in> set ls \<and> q1 P = Out) \<and>
    \<not> (C \<in> snd ` set (queue_of k1 (CondQ c)) \<and> P \<in> snd ` set (queue_of k1 (CondQ c))) \<and>
    (P \<in> snd ` set (queue_of k1 (CondQ c)) \<longrightarrow> \<not> (Call C FinTest \<in> set ls \<and> q1 C = Out))"
proof -
  let ?Q = "snd ` set (queue_of k1 (CondQ c))"
  have "jf_inv C P c ls (mabs lk {c} ((k1, pc1), m1, q1))"
    by (rule jf.fresh_inv [OF assms(1,2)]) (simp add: jf_inv_def jf_frame_def jf_stages_iff stages_ok_def not_joined_def past_loop_def Thread_join_def assms(3))
  then have F: "jf_frame C P c ls (mabs lk {c} ((k1, pc1), m1, q1))" and S: "jf_stages C P c ls (mabs lk {c} ((k1, pc1), m1, q1))" using assms(4) by (simp_all add: jf_inv_def)
  have q: "\<exists>p. q1 t = Wt p" if "t \<in> ?Q" for t using F that unfolding jf_frame_def mabs_def prod.case by auto
  define x where "x = stage (Call C FinTest \<in> set ls) (C \<in> ?Q) (q1 C)"
  define y where "y = stage (Call P JoinSet \<in> set ls) (P \<in> ?Q) (q1 P)"
  have T: "together x y" "past_loop x \<longrightarrow> left_loop C ls" using S by (simp_all add: jf_stages_iff stages_ok_def mabs_def x_def y_def)
  have xs: "C \<in> ?Q \<Longrightarrow> \<exists>p. x = Asleep p" "P \<in> ?Q \<Longrightarrow> \<exists>p. y = Asleep p" using q [of C] q [of P] by (auto simp: x_def y_def)
  have gone: "Call C FinTest \<in> set ls \<and> q1 C = Out \<Longrightarrow> x = Gone" "Call P JoinSet \<in> set ls \<and> q1 P = Out \<longleftrightarrow> y = Gone" by (auto simp: x_def y_def stage_def split: mplace.splits)
  have 1: "left_loop C ls \<and> C \<notin> ?Q" if "y = Gone" using T that xs(1) by (auto simp: past_loop_def)
  have 2: "y = Gone" if "x = Gone" using T(1) that by (cases "(x, y)" rule: together.cases) auto
  have 3: "\<not> (C \<in> ?Q \<and> P \<in> ?Q)" using T(1) xs by (cases "(x, y)" rule: together.cases) auto
  show ?thesis using 1 2 3 gone xs(2) by auto
qed

theorem join_protocol_witness:
  "\<exists>k1 m1 ls. mreach join_code join_entry 0 {0} ((example_synch, \<lambda>t. Free), Thread_join 0, \<lambda>t. Out) ls ((k1, \<lambda>t. Free), m1, (\<lambda>t. Out)(0 := In JoinSig1)) \<and> one_join 1 0 ls \<and>
     j_readyToJoin m1 = 1 \<and> \<not> (1 \<in> snd ` set (queue_of k1 (CondQ 0)) \<and> 0 \<in> snd ` set (queue_of k1 (CondQ 0)))"
proof -
  let ?ls = "[Call 0 JoinSet, Silent, Exec 0 JoinSet (Thread_join 0)]" and ?k = "put_lock 0 (Lock_new\<lparr>locked := 1, threadHeld := Some 0\<rparr>) example_synch"
  have r: "mreach join_code join_entry 0 {0} ((example_synch, \<lambda>t. Free), Thread_join 0, \<lambda>t. Out) ?ls ((?k, \<lambda>t. Free), Thread_join 0\<lparr>j_readyToJoin := 1\<rparr>, (\<lambda>t. Out)(0 := In JoinSig1))"
    by (rule example_first) (simp_all add: join_entry_def)
  have o: "one_join 1 0 ?ls" by (simp add: one_join_def)
  have "\<not> (1 \<in> snd ` set (queue_of ?k (CondQ 0)) \<and> 0 \<in> snd ` set (queue_of ?k (CondQ 0)))" using join_protocol [OF r idle_example_fresh _ o] by simp
  then show ?thesis using r o by (intro exI [of _ ?k] exI [of _ "Thread_join 0\<lparr>j_readyToJoin := 1\<rparr>"] exI [of _ ?ls]) simp
qed

text \<open>The assertions of \<open>Join\<close>: it goes on exactly for a joinable, forked thread that is not the caller and on which \<open>readyToJoin\<close> is still 0; in particular a second \<open>Join\<close> after the first one has set it stops.\<close>

lemma Join_start_iff: "Join_start self cur m = Inr p \<longleftrightarrow> p = JoinSet \<and> j_join m = 1 \<and> j_readyToJoin m = 0 \<and> cur \<noteq> self \<and> j_isForked m = 1"
  by (auto simp: Join_start_def bindR_eq_Inr)

lemma Join_twice: "join_code JoinSet m = Do m' p \<Longrightarrow> Join_start self cur m' = Inl AssertFail"
  by (auto simp: Join_start_def bindR_eq_Inl)

text \<open>A thread that is not joinable does not wait for anyone.\<close>

lemma Finish_not_joinable: "j_join m = 0 \<Longrightarrow> join_code FinTest m = Do m FinSig3 \<and> join_code FinIf m = Do m FinRelease"
  by simp

end
