(* ===== verification/Byte_Order.thy ===== *)
theory Byte_Order
  imports Nachos_Prelude
begin

text \<open>
  The bytes of a 32-bit word on a little-endian host, as they are in files and packets, and that reading them back with \<open>word_of_bytes\<close> gives the word.
\<close>

unbundle bit_operations_syntax

definition word_bytes :: "32 word \<Rightarrow> 8 word list" where
  "word_bytes w = [ucast w, ucast (drop_bit 8 w), ucast (drop_bit 16 w), ucast (drop_bit 24 w)]"

definition word_of_bytes :: "8 word list \<Rightarrow> nat \<Rightarrow> 32 word" where
  "word_of_bytes bs i = ucast (bs ! i) OR push_bit 8 (ucast (bs ! (i + 1))) OR push_bit 16 (ucast (bs ! (i + 2))) OR
     push_bit 24 (ucast (bs ! (i + 3)))"

lemma length_word_bytes [simp]: "length (word_bytes w) = 4"
  by (simp add: word_bytes_def)

lemma word_of_bytes_word_bytes: "word_of_bytes (word_bytes w @ ys) 0 = w"
proof (rule bit_word_eqI)
  fix n assume "n < LENGTH(32)"
  then consider "n < 8" | "8 \<le> n" "n < 16" | "16 \<le> n" "n < 24" | "24 \<le> n" "n < 32" by fastforce
  then show "bit (word_of_bytes (word_bytes w @ ys) 0) n = bit w n"
    by cases (auto simp: word_of_bytes_def word_bytes_def bit_or_iff bit_push_bit_iff bit_ucast_iff bit_drop_bit_eq)
qed

lemma word_of_bytes_shift: "length xs = n \<Longrightarrow> word_of_bytes (xs @ ys) (n + i) = word_of_bytes ys i"
  by (simp add: word_of_bytes_def nth_append add.assoc)

lemma word_at_append: "i = length xs \<Longrightarrow> word_of_bytes (xs @ word_bytes w @ ys) i = w"
  using word_of_bytes_shift [of xs i "word_bytes w @ ys" 0] by (simp add: word_of_bytes_word_bytes)

end
