(* ===== verification/Virtual_Memory.thy ===== *)
theory Virtual_Memory
  imports Synch Bit_Map Byte_Order
begin

text \<open>
  Demand-paged virtual memory (\<^verbatim>\<open>src/code/userprog/addrspace.cc\<close>, and the page fault branch of \<open>ExceptionHandler\<close> in
  \<^verbatim>\<open>src/code/userprog/exception.cc\<close>).

  The record \<open>vm\<close> extends the kernel with the memory manager (a bitmap of physical pages), the core map (a linked list of core pages,
  kept as a heap of elements with a head and a tail pointer), the backing stores (a heap of objects) and the UNIX files that the stub file
  system of \<^verbatim>\<open>src/code/filesys/filesys.h\<close> and \<^verbatim>\<open>openfile.h\<close> works on. Page tables are arrays reached through pointers, shared with the
  machine. An object allocated by \<open>new\<close> gets its address as an argument.

  The theory holds the data and the operations; their correctness is in \<open>Paging\<close>.
\<close>

section \<open>State\<close>

record BackingStore =
  bs_pages :: BitMap
  bs_space :: nat
  bs_filename :: string
  bs_storeID :: int
  bs_charID :: string
  bs_flag :: int

record CorePage =
  cp_next :: "nat option"
  cp_backingStore :: nat
  cp_physicalPage :: int
  cp_virtualPage :: int

record CoreMap =
  cm_head :: "nat option"
  cm_tail :: "nat option"
  cm_size :: int
  cm_capacity :: int

text \<open>Each method of the memory manager takes its lock on entry and gives it back before it returns.\<close>

record MemoryManager =
  mm_lock :: bool
  mm_pages :: BitMap

record vm = synch +
  files :: "string \<Rightarrow> 8 word list option"
  openFiles :: "nat \<Rightarrow> string option"
  stores :: "nat \<Rightarrow> BackingStore option"
  corePages :: "nat \<Rightarrow> CorePage option"
  memoryManager :: MemoryManager
  coreMap :: CoreMap
  LRU :: int
  stack_junk :: "8 word list"

definition UserStackSize :: int where "UserStackSize = 1024"
definition ArgumentSize :: int where "ArgumentSize = 512"

section \<open>The stub file system\<close>

text \<open>\<open>Lseek\<close> stops on a negative position; \<open>read\<close> returns what is there; \<open>write\<close> fills a gap with zeros.\<close>

definition file_bytes :: "8 word list \<Rightarrow> nat \<Rightarrow> nat \<Rightarrow> 8 word list" where
  "file_bytes c pos n = take n (drop pos c)"

definition file_write :: "8 word list \<Rightarrow> nat \<Rightarrow> 8 word list \<Rightarrow> 8 word list" where
  "file_write c pos bs = take pos (c @ replicate (pos - length c) 0) @ bs @ drop (pos + length bs) c"

definition get_file :: "nat \<Rightarrow> 'm vm_scheme \<Rightarrow> (string \<times> 8 word list) res" where
  "get_file f k = (case openFiles k f of None \<Rightarrow> Inl DanglingPointer
     | Some nm \<Rightarrow> (case files k nm of None \<Rightarrow> Inl DanglingPointer | Some c \<Rightarrow> Inr (nm, c)))"

definition OpenFile_ReadAt :: "nat \<Rightarrow> nat \<Rightarrow> int \<Rightarrow> 'm vm_scheme \<Rightarrow> 8 word list res" where
  "OpenFile_ReadAt f numBytes position k =
     bindR (get_file f k) (\<lambda>(nm, c).
     bindR (assertR (0 \<le> position)) (\<lambda>_. Inr (file_bytes c (nat position) numBytes)))"

definition FileSystem_Create :: "string \<Rightarrow> 'm vm_scheme \<Rightarrow> 'm vm_scheme" where
  "FileSystem_Create nm k = k\<lparr>files := (files k)(nm \<mapsto> [])\<rparr>"

text \<open>\<open>f\<close> is the address of the new \<open>OpenFile\<close>; a file that does not exist gives \<open>NULL\<close>.\<close>

definition FileSystem_Open :: "nat \<Rightarrow> string \<Rightarrow> 'm vm_scheme \<Rightarrow> nat option \<times> 'm vm_scheme" where
  "FileSystem_Open f nm k = (if files k nm = None then (None, k) else (Some f, k\<lparr>openFiles := (openFiles k)(f \<mapsto> nm)\<rparr>))"

definition FileSystem_Remove :: "string \<Rightarrow> 'm vm_scheme \<Rightarrow> bool \<times> 'm vm_scheme" where
  "FileSystem_Remove nm k = (files k nm \<noteq> None, k\<lparr>files := (files k)(nm := None)\<rparr>)"

definition OpenFile_delete :: "nat \<Rightarrow> 'm vm_scheme \<Rightarrow> 'm vm_scheme" where
  "OpenFile_delete f k = k\<lparr>openFiles := (openFiles k)(f := None)\<rparr>"

section \<open>Memory manager\<close>

definition MemoryManager_new :: "32 word list \<Rightarrow> int \<Rightarrow> MemoryManager res" where
  "MemoryManager_new junk numpages = bindR (BitMap_new junk numpages) (\<lambda>b. Inr \<lparr>mm_lock = False, mm_pages = b\<rparr>)"

definition with_lock :: "(MemoryManager \<Rightarrow> ('a \<times> MemoryManager) res) \<Rightarrow> MemoryManager \<Rightarrow> ('a \<times> MemoryManager) res" where
  "with_lock f m =
     bindR (assertR (\<not> mm_lock m)) (\<lambda>_.
     bindR (f (m\<lparr>mm_lock := True\<rparr>)) (\<lambda>(x, m). Inr (x, m\<lparr>mm_lock := False\<rparr>)))"

definition AllocPage :: "MemoryManager \<Rightarrow> (int \<times> MemoryManager) res" where
  "AllocPage = with_lock (\<lambda>m. bindR (Find (mm_pages m)) (\<lambda>(page, b). Inr (page, m\<lparr>mm_pages := b\<rparr>)))"

definition FreePage :: "int \<Rightarrow> MemoryManager \<Rightarrow> MemoryManager res" where
  "FreePage physPageNum m =
     bindR (with_lock (\<lambda>m. bindR (Clear physPageNum (mm_pages m)) (\<lambda>b. Inr ((), m\<lparr>mm_pages := b\<rparr>))) m) (\<lambda>(_, m). Inr m)"

definition PageIsAllocated :: "int \<Rightarrow> MemoryManager \<Rightarrow> (bool \<times> MemoryManager) res" where
  "PageIsAllocated physPageNum = with_lock (\<lambda>m. bindR (Test physPageNum (mm_pages m)) (\<lambda>isSet. Inr (isSet, m)))"

text \<open>The memory manager is an allocator of frames, as the bitmap is one of bits.\<close>

definition mm_invar :: "MemoryManager \<Rightarrow> bool" where
  "mm_invar m \<longleftrightarrow> \<not> mm_lock m \<and> bitmap_wf (mm_pages m)"

interpretation frames: slot_allocator AllocPage FreePage "\<lambda>m. bits (mm_pages m)" "\<lambda>m. numBits (mm_pages m)" mm_invar
proof unfold_locales
  fix m assume inv: "mm_invar m"
  then have wf: "bitmap_wf (mm_pages m)" and free: "\<not> mm_lock m" by (simp_all add: mm_invar_def)
  have unlocked: "m\<lparr>mm_lock := False\<rparr> = m" using free by (cases m) simp
  show "bits (mm_pages m) \<subseteq> {0..<numBits (mm_pages m)}" by (rule bitmap.used_bounds [OF wf])
  show "AllocPage m = Inr (- 1, m)" if "bits (mm_pages m) = {0..<numBits (mm_pages m)}"
    using bitmap.alloc_full [OF wf that] free unlocked by (simp add: AllocPage_def with_lock_def)
  show "\<exists>j m'. AllocPage m = Inr (j, m') \<and> j \<in> {0..<numBits (mm_pages m)} - bits (mm_pages m) \<and> mm_invar m' \<and>
      numBits (mm_pages m') = numBits (mm_pages m) \<and> bits (mm_pages m') = insert j (bits (mm_pages m))"
    if "bits (mm_pages m) \<noteq> {0..<numBits (mm_pages m)}"
    using bitmap.alloc_fresh [OF wf that] free by (auto simp: AllocPage_def with_lock_def mm_invar_def)
  show "\<exists>m'. FreePage j m = Inr m' \<and> mm_invar m' \<and> numBits (mm_pages m') = numBits (mm_pages m) \<and> bits (mm_pages m') = bits (mm_pages m) - {j}"
    if "j \<in> {0..<numBits (mm_pages m)}" for j
    using bitmap.free_used [OF wf that] free by (auto simp: FreePage_def with_lock_def mm_invar_def)
qed

section \<open>Page tables and frames\<close>

definition get_space :: "nat \<Rightarrow> 'm vm_scheme \<Rightarrow> AddrSpace res" where
  "get_space a k = (case spaces k a of None \<Rightarrow> Inl DanglingPointer | Some sp \<Rightarrow> Inr sp)"

definition put_space :: "nat \<Rightarrow> AddrSpace \<Rightarrow> 'm vm_scheme \<Rightarrow> 'm vm_scheme" where
  "put_space a sp k = k\<lparr>spaces := (spaces k)(a \<mapsto> sp)\<rparr>"

definition get_table :: "nat option \<Rightarrow> 'm vm_scheme \<Rightarrow> TranslationEntry list res" where
  "get_table p k = (case p of None \<Rightarrow> Inl NullPointer
     | Some t \<Rightarrow> (case tables k t of None \<Rightarrow> Inl DanglingPointer | Some es \<Rightarrow> Inr es))"

definition get_pte :: "nat option \<Rightarrow> int \<Rightarrow> 'm vm_scheme \<Rightarrow> TranslationEntry res" where
  "get_pte p i k = bindR (get_table p k) (\<lambda>es. if 0 \<le> i \<and> i < int (length es) then Inr (es ! nat i) else Inl OutOfBounds)"

definition put_pte :: "nat option \<Rightarrow> int \<Rightarrow> TranslationEntry \<Rightarrow> 'm vm_scheme \<Rightarrow> 'm vm_scheme res" where
  "put_pte p i e k = bindR (get_table p k) (\<lambda>es.
     if 0 \<le> i \<and> i < int (length es) then Inr (k\<lparr>tables := (tables k)(the p \<mapsto> es[nat i := e])\<rparr>) else Inl OutOfBounds)"

text \<open>Stores through \<open>machine->mainMemory + base\<close>, and the bytes there.\<close>

definition store_bytes :: "int \<Rightarrow> 8 word list \<Rightarrow> 'm vm_scheme \<Rightarrow> 'm vm_scheme res" where
  "store_bytes base bs k =
     (if 0 \<le> base \<and> base + int (length bs) \<le> int (length (mainMemory k))
      then Inr (k\<lparr>mainMemory := take (nat base) (mainMemory k) @ bs @ drop (nat base + length bs) (mainMemory k)\<rparr>)
      else Inl OutOfBounds)"

definition load_bytes :: "int \<Rightarrow> nat \<Rightarrow> 'm vm_scheme \<Rightarrow> 8 word list res" where
  "load_bytes base n k =
     (if 0 \<le> base \<and> base + int n \<le> int (length (mainMemory k)) then Inr (take n (drop (nat base) (mainMemory k))) else Inl OutOfBounds)"

definition frame_base :: "TranslationEntry \<Rightarrow> int" where
  "frame_base e = sint (physicalPage e) * int PageSize"

section \<open>Backing store\<close>

definition get_store :: "nat \<Rightarrow> 'm vm_scheme \<Rightarrow> BackingStore res" where
  "get_store s k = (case stores k s of None \<Rightarrow> Inl DanglingPointer | Some b \<Rightarrow> Inr b)"

definition BackingStore_new :: "BackingStore \<Rightarrow> BackingStore" where
  "BackingStore_new junk = junk\<lparr>bs_flag := 0\<rparr>"

text \<open>The digits of the identifier, last digit first.\<close>

fun id_digits :: "nat \<Rightarrow> string" where
  "id_digits n = (if n = 0 then [] else char_of (n mod 10 + 48) # id_digits (n div 10))"

declare id_digits.simps [simp del]

definition BackingStore_Initialize :: "32 word list \<Rightarrow> nat \<Rightarrow> nat \<Rightarrow> nat \<Rightarrow> 'm vm_scheme \<Rightarrow> (int \<times> 'm vm_scheme) res" where
  "BackingStore_Initialize junk s addrspace ID k =
     bindR (get_store s k) (\<lambda>b.
     bindR (get_space addrspace k) (\<lambda>sp.
     bindR (BitMap_new junk (uint (sp_numPages sp))) (\<lambda>bm.
       let nm = ''ajnr_'' @ id_digits ID;
           b = b\<lparr>bs_flag := 1, bs_space := addrspace, bs_pages := bm, bs_storeID := int ID, bs_charID := id_digits ID, bs_filename := nm\<rparr>;
           k = FileSystem_Create nm (k\<lparr>stores := (stores k)(s \<mapsto> b)\<rparr>)
       in Inr (0, put_space addrspace (sp\<lparr>backingStore := Some s\<rparr>) k))))"

definition pageOut :: "nat \<Rightarrow> int \<Rightarrow> 'm vm_scheme \<Rightarrow> 'm vm_scheme res" where
  "pageOut s vp k =
     bindR (get_store s k) (\<lambda>b.
     bindR (get_space (bs_space b) k) (\<lambda>sp.
       if sp_pageTable sp = None then Inr k
       else
         bindR (get_pte (sp_pageTable sp) vp k) (\<lambda>pte.
         bindR (if dirty pte
                then bindR (Mark vp (bs_pages b)) (\<lambda>bm.
                     let k = k\<lparr>stores := (stores k)(s \<mapsto> b\<lparr>bs_pages := bm\<rparr>),
                               stats := (stats k)\<lparr>numPageOuts := numPageOuts (stats k) + 1\<rparr>\<rparr>
                     in (case files k (bs_filename b) of None \<Rightarrow> Inl NullPointer
                         | Some c \<Rightarrow> bindR (load_bytes (frame_base pte) PageSize k) (\<lambda>bs.
                             Inr (k\<lparr>files := (files k)(bs_filename b \<mapsto> file_write c (nat (vp * int PageSize)) bs)\<rparr>))))
                else Inr k) (\<lambda>k.
         put_pte (sp_pageTable sp) vp (pte\<lparr>valid := False, dirty := False\<rparr>) k))))"

definition pageIn :: "nat \<Rightarrow> int \<Rightarrow> 'm vm_scheme \<Rightarrow> 'm vm_scheme res" where
  "pageIn s vp k =
     bindR (get_store s k) (\<lambda>b.
     bindR (get_space (bs_space b) k) (\<lambda>sp.
       case files k (bs_filename b) of None \<Rightarrow> Inl NullPointer
       | Some c \<Rightarrow>
           bindR (get_pte (sp_pageTable sp) vp k) (\<lambda>pte.
           bindR (store_bytes (frame_base pte) (file_bytes c (nat (vp * int PageSize)) PageSize) k) (\<lambda>k.
           put_pte (sp_pageTable sp) vp (pte\<lparr>valid := True\<rparr>) k))))"

definition contains :: "int \<Rightarrow> BackingStore \<Rightarrow> bool res" where
  "contains vp b = Test vp (bs_pages b)"

section \<open>Core map\<close>

definition CorePage_new :: "nat \<Rightarrow> int \<Rightarrow> int \<Rightarrow> CorePage" where
  "CorePage_new bs physPage virtPage = \<lparr>cp_next = None, cp_backingStore = bs, cp_physicalPage = physPage, cp_virtualPage = virtPage\<rparr>"

definition CoreMap_new :: "int \<Rightarrow> CoreMap" where
  "CoreMap_new physPages = \<lparr>cm_head = None, cm_tail = None, cm_size = 0, cm_capacity = physPages\<rparr>"

definition get_core :: "nat option \<Rightarrow> 'm vm_scheme \<Rightarrow> CorePage res" where
  "get_core p k = (case p of None \<Rightarrow> Inl NullPointer
     | Some c \<Rightarrow> (case corePages k c of None \<Rightarrow> Inl DanglingPointer | Some cp \<Rightarrow> Inr cp))"

definition setNext :: "nat option \<Rightarrow> nat option \<Rightarrow> 'm vm_scheme \<Rightarrow> 'm vm_scheme res" where
  "setNext p n k = bindR (get_core p k) (\<lambda>cp. Inr (k\<lparr>corePages := (corePages k)(the p \<mapsto> cp\<lparr>cp_next := n\<rparr>)\<rparr>))"

definition addCorePage :: "nat \<Rightarrow> 'm vm_scheme \<Rightarrow> (int \<times> 'm vm_scheme) res" where
  "addCorePage corePage k =
     (let m = coreMap k in
      if cm_size m = cm_capacity m then Inr (1, k)
      else if cm_head m = None
      then Inr (0, k\<lparr>coreMap := m\<lparr>cm_size := cm_size m + 1, cm_head := Some corePage, cm_tail := Some corePage\<rparr>\<rparr>)
      else bindR (setNext (cm_tail m) (Some corePage) k) (\<lambda>k.
           bindR (get_core (cm_tail m) k) (\<lambda>t.
           Inr (0, k\<lparr>coreMap := m\<lparr>cm_size := cm_size m + 1, cm_tail := cp_next t\<rparr>\<rparr>))))"

definition isFull :: "CoreMap \<Rightarrow> bool" where
  "isFull m \<longleftrightarrow> cm_size m = cm_capacity m"

text \<open>The entry of a core page: \<open>getBackingStore()->getSpace()->getPageTable()[getVirtualPage()]\<close>.\<close>

definition core_table :: "CorePage \<Rightarrow> 'm vm_scheme \<Rightarrow> nat option res" where
  "core_table cp k = bindR (get_store (cp_backingStore cp) k) (\<lambda>b. bindR (get_space (bs_space b) k) (\<lambda>sp. Inr (sp_pageTable sp)))"

definition core_pte :: "CorePage \<Rightarrow> 'm vm_scheme \<Rightarrow> TranslationEntry res" where
  "core_pte cp k = bindR (core_table cp k) (\<lambda>t. get_pte t (cp_virtualPage cp) k)"

definition clear_use :: "CorePage \<Rightarrow> TranslationEntry \<Rightarrow> 'm vm_scheme \<Rightarrow> 'm vm_scheme res" where
  "clear_use cp pte k = bindR (core_table cp k) (\<lambda>t. put_pte t (cp_virtualPage cp) (pte\<lparr>use := False\<rparr>) k)"

text \<open>The loop of the second-chance search: \<open>travel\<close> is the page before \<open>next\<close>. It returns the page unlinked, or nothing at the end of the list.\<close>

partial_function (option) evict_scan :: "nat option \<Rightarrow> nat option \<Rightarrow> 'm vm_scheme \<Rightarrow> (nat option \<times> 'm vm_scheme) res option" where
  "evict_scan travel next k =
     (case next of
        None \<Rightarrow> Some (Inr (None, k))
      | Some n \<Rightarrow>
          bindO (Some (get_core next k)) (\<lambda>cp.
          bindO (Some (core_pte cp k)) (\<lambda>pte.
            if use pte
            then bindO (Some (clear_use cp pte k)) (\<lambda>k.
                 bindO (Some (get_core travel k)) (\<lambda>t. evict_scan (cp_next t) (cp_next cp) k))
            else bindO (Some (setNext travel (cp_next cp) k)) (\<lambda>k. Some (Inr (Some n, k))))))"

definition evict_head :: "'m vm_scheme \<Rightarrow> (nat option \<times> 'm vm_scheme) res" where
  "evict_head k =
     bindR (get_core (cm_head (coreMap k)) k) (\<lambda>h.
       Inr (cm_head (coreMap k), k\<lparr>coreMap := (coreMap k)\<lparr>cm_head := cp_next h\<rparr>\<rparr>))"

definition evictCorePage :: "'m vm_scheme \<Rightarrow> (nat option \<times> 'm vm_scheme) res option" where
  "evictCorePage k =
     (let m = coreMap k in
      if cm_size m = 0 then Some (Inr (None, k))
      else
        let m = m\<lparr>cm_size := cm_size m - 1\<rparr>; k = k\<lparr>coreMap := m\<rparr> in
        if cm_head m = cm_tail m
        then Some (Inr (cm_head m, k\<lparr>coreMap := m\<lparr>cm_head := None, cm_tail := None\<rparr>\<rparr>))
        else if LRU k = 0 then Some (evict_head k)
        else
          bindO (Some (get_core (cm_head m) k)) (\<lambda>h.
          bindO (Some (core_pte h k)) (\<lambda>pte.
            if \<not> use pte then Some (evict_head k)
            else bindO (Some (clear_use h pte k)) (\<lambda>k.
                 bindO (evict_scan (cm_head m) (cp_next h) k) (\<lambda>(r, k).
                   case r of Some n \<Rightarrow> Some (Inr (Some n, k)) | None \<Rightarrow> Some (evict_head k))))))"

text \<open>\<open>evictAll\<close>: the pages of the store at the head of the list, then those after it. The page after one that is unlinked is skipped.\<close>

definition free_core :: "CorePage \<Rightarrow> 'm vm_scheme \<Rightarrow> 'm vm_scheme res" where
  "free_core cp k = bindR (FreePage (cp_physicalPage cp) (memoryManager k)) (\<lambda>mm. Inr (k\<lparr>memoryManager := mm\<rparr>))"

partial_function (option) evictAll_head :: "nat \<Rightarrow> 'm vm_scheme \<Rightarrow> 'm vm_scheme res option" where
  "evictAll_head bs k =
     (if cm_head (coreMap k) = None then Some (Inr k)
      else bindO (Some (get_core (cm_head (coreMap k)) k)) (\<lambda>h.
        if cp_backingStore h \<noteq> bs then Some (Inr k)
        else bindO (Some (free_core h k)) (\<lambda>k.
          evictAll_head bs (k\<lparr>coreMap := (coreMap k)\<lparr>cm_head := cp_next h, cm_size := cm_size (coreMap k) - 1\<rparr>\<rparr>))))"

partial_function (option) evictAll_rest :: "nat \<Rightarrow> nat option \<Rightarrow> nat option \<Rightarrow> 'm vm_scheme \<Rightarrow> 'm vm_scheme res option" where
  "evictAll_rest bs travel next k =
     (if next = None then Some (Inr k)
      else bindO (Some (get_core next k)) (\<lambda>cp.
        bindO (if cp_backingStore cp = bs
               then bindO (Some (free_core cp k)) (\<lambda>k.
                    bindO (Some (setNext travel (cp_next cp) k)) (\<lambda>k.
                      Some (Inr (cp_next cp, k\<lparr>coreMap := (coreMap k)\<lparr>cm_size := cm_size (coreMap k) - 1\<rparr>\<rparr>))))
               else Some (Inr (next, k))) (\<lambda>(next, k).
        bindO (Some (get_core travel k)) (\<lambda>t.
        bindO (if next = None then Some (Inr None) else bindO (Some (get_core next k)) (\<lambda>c. Some (Inr (cp_next c)))) (\<lambda>next.
          evictAll_rest bs (cp_next t) next k)))))"

definition evictAll :: "nat \<Rightarrow> 'm vm_scheme \<Rightarrow> 'm vm_scheme res option" where
  "evictAll bs k =
     bindO (evictAll_head bs k) (\<lambda>k.
       if cm_head (coreMap k) = None then Some (Inr (k\<lparr>coreMap := (coreMap k)\<lparr>cm_tail := None\<rparr>\<rparr>))
       else bindO (Some (get_core (cm_head (coreMap k)) k)) (\<lambda>h. evictAll_rest bs (cm_head (coreMap k)) (cp_next h) k))"

section \<open>Address space\<close>

record Segment =
  seg_virtualAddr :: "32 word"
  seg_inFileAddr :: "32 word"
  seg_size :: "32 word"

record NoffHeader =
  noffMagic :: "32 word"
  noff_code :: Segment
  noff_initData :: Segment
  noff_uninitData :: Segment

definition NOFFMAGIC :: "32 word" where "NOFFMAGIC = 0xbadfad"

definition segment_at :: "8 word list \<Rightarrow> nat \<Rightarrow> Segment" where
  "segment_at bs i = \<lparr>seg_virtualAddr = word_of_bytes bs i, seg_inFileAddr = word_of_bytes bs (i + 4), seg_size = word_of_bytes bs (i + 8)\<rparr>"

definition swap_segment :: "Segment \<Rightarrow> Segment" where
  "swap_segment g = \<lparr>seg_virtualAddr = WordToHost (seg_virtualAddr g), seg_inFileAddr = WordToHost (seg_inFileAddr g),
     seg_size = WordToHost (seg_size g)\<rparr>"

definition SwapHeader :: "NoffHeader \<Rightarrow> NoffHeader" where
  "SwapHeader h = \<lparr>noffMagic = WordToHost (noffMagic h), noff_code = swap_segment (noff_code h),
     noff_initData = swap_segment (noff_initData h), noff_uninitData = swap_segment (noff_uninitData h)\<rparr>"

text \<open>The header, a local variable of 40 bytes: a shorter file leaves the rest of it as the stack had it.\<close>

definition read_header :: "nat \<Rightarrow> 'm vm_scheme \<Rightarrow> NoffHeader res" where
  "read_header executable k =
     bindR (OpenFile_ReadAt executable 40 0 k) (\<lambda>bs.
       let bs = bs @ drop (length bs) (take 40 (stack_junk k @ replicate 40 0));
           h = \<lparr>noffMagic = word_of_bytes bs 0, noff_code = segment_at bs 4, noff_initData = segment_at bs 16,
                noff_uninitData = segment_at bs 28\<rparr>
       in Inr (if noffMagic h \<noteq> NOFFMAGIC \<and> WordToHost (noffMagic h) = NOFFMAGIC then SwapHeader h else h))"

definition fresh_pte :: "nat \<Rightarrow> TranslationEntry" where
  "fresh_pte i = \<lparr>virtualPage = of_nat i, physicalPage = - 2, valid = False, readOnly = False, use = False, dirty = False\<rparr>"

text \<open>\<open>Initialize\<close>: \<open>p\<close> is the address of the new page table.\<close>

definition AddrSpace_Initialize :: "nat \<Rightarrow> nat \<Rightarrow> nat \<Rightarrow> 'm vm_scheme \<Rightarrow> (int \<times> 'm vm_scheme) res" where
  "AddrSpace_Initialize p a executable k =
     bindR (get_space a k) (\<lambda>sp.
     bindR (read_header executable k) (\<lambda>h.
       if noffMagic h \<noteq> NOFFMAGIC then Inr (1, k)
       else
         let sz = seg_size (noff_code h) + seg_size (noff_initData h) + seg_size (noff_uninitData h) + word_of_int UserStackSize +
               word_of_int ArgumentSize;
             numPages = sz div of_nat PageSize + (if sz mod of_nat PageSize > 0 then 1 else 0);
             k = k\<lparr>tables := (tables k)(p \<mapsto> map fresh_pte [0..<unat numPages])\<rparr>
         in Inr (0, put_space a (sp\<lparr>sp_numPages := numPages, sp_pageTable := Some p, currentExecutable := executable\<rparr>) k)))"

text \<open>\<open>writeMemoryToPage\<close> reads one byte of the file to memory.\<close>

definition writeMemoryToPage :: "AddrSpace \<Rightarrow> int \<Rightarrow> int \<Rightarrow> int \<Rightarrow> int \<Rightarrow> 'm vm_scheme \<Rightarrow> 'm vm_scheme res" where
  "writeMemoryToPage sp vpn written inFileAddr offset k =
     bindR (get_pte (sp_pageTable sp) vpn k) (\<lambda>pte.
     bindR (OpenFile_ReadAt (currentExecutable sp) 1 (c_int (inFileAddr + offset)) k) (\<lambda>bs.
       store_bytes (frame_base pte + written) bs k))"

definition in_segment :: "Segment \<Rightarrow> int \<Rightarrow> bool" where
  "in_segment g addr \<longleftrightarrow> sint (seg_size g) > 0 \<and> addr < c_int (sint (seg_virtualAddr g) + sint (seg_size g)) \<and> addr \<ge> sint (seg_virtualAddr g)"

text \<open>The loop over the bytes of the page: \<open>left\<close> bytes are still to be done. It returns \<open>flag\<close>.\<close>

definition fill_byte :: "AddrSpace \<Rightarrow> NoffHeader \<Rightarrow> int \<Rightarrow> int \<Rightarrow> bool \<Rightarrow> 'm vm_scheme \<Rightarrow> (bool \<times> 'm vm_scheme) res" where
  "fill_byte sp h vpn written flag k =
     (let currAddress = c_int (written + vpn * int PageSize); code = noff_code h; data = noff_initData h in
      if in_segment code currAddress
      then bindR (writeMemoryToPage sp vpn written (sint (seg_inFileAddr code)) (currAddress - sint (seg_virtualAddr code)) k)
             (\<lambda>k. Inr (True, k))
      else if in_segment data currAddress
      then bindR (writeMemoryToPage sp vpn written (sint (seg_inFileAddr data)) (currAddress - sint (seg_virtualAddr data)) k)
             (\<lambda>k. Inr (True, k))
      else Inr (flag, k))"

primrec fill_page :: "nat \<Rightarrow> AddrSpace \<Rightarrow> NoffHeader \<Rightarrow> int \<Rightarrow> bool \<Rightarrow> 'm vm_scheme \<Rightarrow> (bool \<times> 'm vm_scheme) res" where
  "fill_page 0 sp h vpn flag k = Inr (flag, k)"
| "fill_page (Suc left) sp h vpn flag k =
     bindR (fill_byte sp h vpn (int PageSize - int (Suc left)) flag k) (\<lambda>(flag, k). fill_page left sp h vpn flag k)"

definition count_page_in :: "'m vm_scheme \<Rightarrow> 'm vm_scheme" where
  "count_page_in k = k\<lparr>stats := (stats k)\<lparr>numPageIns := numPageIns (stats k) + 1\<rparr>\<rparr>"

text \<open>\<open>allocVirtualPage\<close>: \<open>p\<close> is the address of the new core page.\<close>

definition allocVirtualPage :: "nat \<Rightarrow> nat \<Rightarrow> 32 word \<Rightarrow> 'm vm_scheme \<Rightarrow> (int \<times> 'm vm_scheme) res" where
  "allocVirtualPage p a virtualAddr k =
     bindR (get_space a k) (\<lambda>sp.
     bindR (read_header (currentExecutable sp) k) (\<lambda>h.
       if noffMagic h \<noteq> NOFFMAGIC then Inr (1, k)
       else
         let vpn = uint (virtualAddr div of_nat PageSize) in
         bindR (AllocPage (memoryManager k)) (\<lambda>(allocpage, mm).
           case backingStore sp of None \<Rightarrow> Inl NullPointer
           | Some s \<Rightarrow>
             let k = k\<lparr>memoryManager := mm, corePages := (corePages k)(p \<mapsto> CorePage_new s allocpage vpn)\<rparr> in
             bindR (addCorePage p k) (\<lambda>(_, k).
             bindR (get_pte (sp_pageTable sp) vpn k) (\<lambda>pte.
             bindR (put_pte (sp_pageTable sp) vpn (pte\<lparr>physicalPage := word_of_int allocpage\<rparr>) k) (\<lambda>k.
             bindR (store_bytes (allocpage * int PageSize) (replicate PageSize 0) k) (\<lambda>k.
             bindR (get_store s k) (\<lambda>b.
             bindR (contains vpn b) (\<lambda>there.
             bindR (if \<not> there
                    then bindR (fill_page PageSize sp h vpn False k) (\<lambda>(flag, k). Inr (if flag then count_page_in k else k))
                    else bindR (pageIn s vpn k) (\<lambda>k. Inr (count_page_in k))) (\<lambda>k.
             bindR (get_pte (sp_pageTable sp) vpn k) (\<lambda>pte.
             bindR (put_pte (sp_pageTable sp) vpn (pte\<lparr>valid := True\<rparr>) k) (\<lambda>k.
             Inr (0, k)))))))))))))"

text \<open>The constructor does nothing: \<open>junk\<close> is what the memory of the object held. The destructor deletes the page table and closes the
  executable.\<close>

definition AddrSpace_new :: "nat \<Rightarrow> AddrSpace \<Rightarrow> 'm vm_scheme \<Rightarrow> 'm vm_scheme" where
  "AddrSpace_new a junk k = put_space a junk k"

definition AddrSpace_delete :: "nat \<Rightarrow> 'm vm_scheme \<Rightarrow> 'm vm_scheme res" where
  "AddrSpace_delete a k =
     bindR (get_space a k) (\<lambda>sp.
       let k = (case sp_pageTable sp of None \<Rightarrow> k | Some t \<Rightarrow> k\<lparr>tables := (tables k)(t := None)\<rparr>)
       in Inr (OpenFile_delete (currentExecutable sp) (k\<lparr>spaces := (spaces k)(a := None)\<rparr>)))"

section \<open>Starting a program\<close>

text \<open>\<open>InitRegisters\<close>: all registers are cleared, execution starts at 0, the stack at the end of the address space.\<close>

primrec clear_registers :: "nat \<Rightarrow> 'm vm_scheme \<Rightarrow> 'm vm_scheme res" where
  "clear_registers 0 k = Inr k"
| "clear_registers (Suc left) k = bindR (WriteRegister (int NumTotalRegs - int (Suc left)) 0 k) (clear_registers left)"

definition InitRegisters :: "nat \<Rightarrow> 'm vm_scheme \<Rightarrow> 'm vm_scheme res" where
  "InitRegisters a k =
     bindR (get_space a k) (\<lambda>sp.
     bindR (clear_registers NumTotalRegs k) (\<lambda>k.
     bindR (WriteRegister (int PCReg) 0 k) (\<lambda>k.
     bindR (WriteRegister (int NextPCReg) 4 k) (\<lambda>k.
     WriteRegister (int StackReg) (sp_numPages sp * of_nat PageSize - 16) k))))"

definition AddArguments :: "nat \<Rightarrow> int \<Rightarrow> 8 word list list \<Rightarrow> 'm vm_scheme \<Rightarrow> 'm vm_scheme res" where
  "AddArguments a argCount args k = bindR (get_space a k) (\<lambda>sp. Inr (put_space a (sp\<lparr>sp_argc := argCount, sp_argv := args\<rparr>) k))"

definition checkSP :: "int \<Rightarrow> int \<Rightarrow> int" where
  "checkSP start end' = c_int (end' - start)"

text \<open>The loops of \<open>LoadArguments\<close>. The strings come without their terminating zero byte. The results of \<open>WriteMem\<close> are not
  looked at: a write that raises an exception is not repeated.\<close>

primrec write_string :: "(ExceptionType \<Rightarrow> 'm vm_scheme \<Rightarrow> 'm vm_scheme res option) \<Rightarrow> int \<Rightarrow> 8 word list \<Rightarrow> 'm vm_scheme \<Rightarrow> 'm vm_scheme res option" where
  "write_string trap addr [] k = Some (Inr k)"
| "write_string trap addr (b # bs) k =
     bindO (WriteMem trap (word_of_int addr) 1 (scast b) k) (\<lambda>(_, k). write_string trap (addr + 1) bs k)"

primrec load_strings :: "(ExceptionType \<Rightarrow> 'm vm_scheme \<Rightarrow> 'm vm_scheme res option) \<Rightarrow> int \<Rightarrow> 8 word list list \<Rightarrow> int \<Rightarrow> int list \<Rightarrow>
    'm vm_scheme \<Rightarrow> ((int \<times> int list) option \<times> 'm vm_scheme) res option" where
  "load_strings trap end' [] sp arr k = Some (Inr (Some (sp, arr), k))"
| "load_strings trap end' (temp # args) sp arr k =
     (let sp = c_int (sp - (int (length temp) + 1)) in
      if checkSP sp end' = 0 then Some (Inr (None, k))
      else bindO (write_string trap sp (temp @ [0]) k) (\<lambda>k. load_strings trap end' args sp (arr @ [sp]) k))"

primrec write_vector :: "(ExceptionType \<Rightarrow> 'm vm_scheme \<Rightarrow> 'm vm_scheme res option) \<Rightarrow> int \<Rightarrow> int list \<Rightarrow> 'm vm_scheme \<Rightarrow> 'm vm_scheme res option" where
  "write_vector trap addr [] k = Some (Inr k)"
| "write_vector trap addr (v # vs) k =
     bindO (WriteMem trap (word_of_int addr) 4 (word_of_int v) k) (\<lambda>(_, k). write_vector trap (addr + 4) vs k)"

definition LoadArguments :: "(ExceptionType \<Rightarrow> 'm vm_scheme \<Rightarrow> 'm vm_scheme res option) \<Rightarrow> nat \<Rightarrow> 'm vm_scheme \<Rightarrow> (int \<times> 'm vm_scheme) res option" where
  "LoadArguments trap a k =
     bindO (Some (get_space a k)) (\<lambda>space.
       let end' = c_int (uint (sp_numPages space * of_nat PageSize)); argc = sp_argc space in
       if argc > int (length (sp_argv space)) then Some (Inl OutOfBounds)
       else
         bindO (load_strings trap end' (take (nat argc) (sp_argv space)) end' [] k) (\<lambda>(r, k).
         case r of None \<Rightarrow> Some (Inr (0, k))
         | Some (sp, arr) \<Rightarrow>
             let sp = c_int (sp - argc * 4); sp = c_int (sp - sp smod 4) in
             if checkSP sp end' = 0 then Some (Inr (0, k))
             else
               bindO (Some (WriteRegister (int StackReg) (word_of_int (sp - 16)) k)) (\<lambda>k.
               bindO (Some (WriteRegister 4 (word_of_int argc) k)) (\<lambda>k.
               bindO (Some (WriteRegister 5 (word_of_int sp) k)) (\<lambda>k.
               bindO (write_vector trap sp arr k) (\<lambda>k.
               Some (Inr (1, k))))))))"

section \<open>A stack for another thread\<close>

text \<open>\<open>allocateThreadSpace\<close>: a page table of eight more pages at address \<open>p\<close>. The frames are taken without core pages. When there is none left
  the frames taken so far are looked up in the old table, which ends before them.\<close>

primrec free_thread_pages :: "nat \<Rightarrow> AddrSpace \<Rightarrow> int \<Rightarrow> 'm vm_scheme \<Rightarrow> 'm vm_scheme res" where
  "free_thread_pages 0 sp j k = Inr k"
| "free_thread_pages (Suc left) sp j k =
     bindR (get_pte (sp_pageTable sp) j k) (\<lambda>e.
     bindR (FreePage (sint (physicalPage e)) (memoryManager k)) (\<lambda>mm.
     free_thread_pages left sp (j + 1) (k\<lparr>memoryManager := mm\<rparr>)))"

primrec thread_pages :: "nat \<Rightarrow> AddrSpace \<Rightarrow> TranslationEntry list \<Rightarrow> 'm vm_scheme \<Rightarrow> (TranslationEntry list option \<times> 'm vm_scheme) res" where
  "thread_pages 0 sp es k = Inr (Some es, k)"
| "thread_pages (Suc left) sp es k =
     bindR (AllocPage (memoryManager k)) (\<lambda>(allocpage, mm).
       let k = k\<lparr>memoryManager := mm\<rparr> in
       if allocpage = - 1
       then bindR (free_thread_pages (length es) sp (uint (sp_numPages sp)) k) (\<lambda>k. Inr (None, k))
       else thread_pages left sp (es @ [\<lparr>virtualPage = sp_numPages sp + of_nat (length es), physicalPage = word_of_int allocpage, valid = True,
              readOnly = False, use = False, dirty = False\<rparr>]) k)"

primrec clear_frames :: "TranslationEntry list \<Rightarrow> 'm vm_scheme \<Rightarrow> 'm vm_scheme res" where
  "clear_frames [] k = Inr k"
| "clear_frames (e # es) k = bindR (store_bytes (frame_base e) (replicate PageSize 0) k) (clear_frames es)"

definition allocateThreadSpace :: "nat \<Rightarrow> nat \<Rightarrow> 'm vm_scheme \<Rightarrow> (int \<times> 'm vm_scheme) res" where
  "allocateThreadSpace p a k =
     bindR (get_space a k) (\<lambda>sp.
     bindR (get_table (sp_pageTable sp) k) (\<lambda>old.
       let newPages = nat (divRoundUp UserStackSize (int PageSize)) in
       if length old < unat (sp_numPages sp) then Inl OutOfBounds
       else
       bindR (thread_pages newPages sp [] k) (\<lambda>(r, k).
       case r of None \<Rightarrow> Inr (0, k)
       | Some es \<Rightarrow>
           let k = k\<lparr>tables := (tables k)(the (sp_pageTable sp) := None, p \<mapsto> take (unat (sp_numPages sp)) old @ es)\<rparr> in
           bindR (clear_frames es k) (\<lambda>k.
           Inr (1, put_space a (sp\<lparr>sp_pageTable := Some p, sp_numPages := sp_numPages sp + of_nat newPages\<rparr>) k)))))"

section \<open>The page fault handler\<close>

text \<open>The page fault branch of \<open>ExceptionHandler\<close>, up to the call of \<open>SysCallExit\<close>.\<close>

definition evict_one :: "'m vm_scheme \<Rightarrow> 'm vm_scheme res option" where
  "evict_one k =
     bindO (evictCorePage k) (\<lambda>(c, k).
     bindO (Some (get_core c k)) (\<lambda>cp.
     bindO (Some (pageOut (cp_backingStore cp) (cp_virtualPage cp) k)) (\<lambda>k.
     bindO (Some (FreePage (cp_physicalPage cp) (memoryManager k))) (\<lambda>mm.
     Some (Inr (k\<lparr>memoryManager := mm, corePages := (corePages k)(the c := None)\<rparr>))))))"

definition page_fault :: "nat \<Rightarrow> 'm vm_scheme \<Rightarrow> (int \<times> 'm vm_scheme) res option" where
  "page_fault p k =
     (let k = k\<lparr>stats := (stats k)\<lparr>numPageFaults := numPageFaults (stats k) + 1\<rparr>\<rparr> in
      bindO (Some (ReadRegister (int BadVAddrReg) k)) (\<lambda>virtualAddr.
      bindO (if isFull (coreMap k) then evict_one k else Some (Inr k)) (\<lambda>k.
      bindO (Some (get_thread (currentThread k) k)) (\<lambda>th.
        case t_space th of None \<Rightarrow> Some (Inl NullPointer)
        | Some a \<Rightarrow> Some (allocVirtualPage p a virtualAddr k)))))"

end
