(* ===== verification/Paging.thy ===== *)
theory Paging
  imports Virtual_Memory
begin

text \<open>
  Correctness of the page fault path of \<^verbatim>\<open>src/code/userprog/addrspace.cc\<close> and \<^verbatim>\<open>exception.cc\<close>, as modelled in \<open>Virtual_Memory\<close>.

  \<open>page_content\<close> is the content a user program sees in a virtual page wherever the page is: in memory, in the backing store, or not loaded
  yet. \<open>vm_inv\<close> is the invariant of the paging state: the core map lists exactly the pages in memory, the memory manager's bitmap has exactly
  their frames, no two pages share a frame, and an unmodified page agrees with its copy. The main theorem is that a page fault loads the page,
  keeps the invariant and changes the content of no page of any address space.
\<close>

section \<open>What the state says about a virtual page\<close>

text \<open>Selectors of an address space \<open>a\<close>: its page table, its backing store with the file of it, its executable.\<close>

definition the_space :: "'m vm_scheme \<Rightarrow> nat \<Rightarrow> AddrSpace" where "the_space k a = the (spaces k a)"
definition ptable :: "'m vm_scheme \<Rightarrow> nat \<Rightarrow> nat" where "ptable k a = the (sp_pageTable (the_space k a))"
definition entries :: "'m vm_scheme \<Rightarrow> nat \<Rightarrow> TranslationEntry list" where "entries k a = the (tables k (ptable k a))"
definition sid :: "'m vm_scheme \<Rightarrow> nat \<Rightarrow> nat" where "sid k a = the (backingStore (the_space k a))"
definition srec :: "'m vm_scheme \<Rightarrow> nat \<Rightarrow> BackingStore" where "srec k a = the (stores k (sid k a))"
definition sfile :: "'m vm_scheme \<Rightarrow> nat \<Rightarrow> 8 word list" where "sfile k a = the (files k (bs_filename (srec k a)))"
definition ename :: "'m vm_scheme \<Rightarrow> nat \<Rightarrow> string" where "ename k a = the (openFiles k (currentExecutable (the_space k a)))"
definition econt :: "'m vm_scheme \<Rightarrow> nat \<Rightarrow> 8 word list" where "econt k a = the (files k (ename k a))"

lemmas selectors = the_space_def ptable_def entries_def sid_def srec_def sfile_def ename_def econt_def

text \<open>The header of the executable, and the bytes a fresh page has: those of the code and data segments, zeros elsewhere.\<close>

definition header_of :: "'m vm_scheme \<Rightarrow> nat \<Rightarrow> NoffHeader" where
  "header_of k a = (case read_header (currentExecutable (the_space k a)) k of Inr h \<Rightarrow> h | Inl _ \<Rightarrow> undefined)"

definition file_byte :: "8 word list \<Rightarrow> int \<Rightarrow> 8 word" where
  "file_byte c p = (if nat p < length c then c ! nat p else 0)"

definition seg_pos :: "Segment \<Rightarrow> int \<Rightarrow> int" where
  "seg_pos g addr = c_int (sint (seg_inFileAddr g) + (addr - sint (seg_virtualAddr g)))"

definition image_byte :: "8 word list \<Rightarrow> NoffHeader \<Rightarrow> int \<Rightarrow> 8 word" where
  "image_byte c h addr =
     (if in_segment (noff_code h) addr then file_byte c (seg_pos (noff_code h) addr)
      else if in_segment (noff_initData h) addr then file_byte c (seg_pos (noff_initData h) addr)
      else 0)"

definition image :: "8 word list \<Rightarrow> NoffHeader \<Rightarrow> int \<Rightarrow> 8 word list" where
  "image c h v = map (\<lambda>i. image_byte c h (c_int (int i + v * int PageSize))) [0..<PageSize]"

definition header_ok :: "NoffHeader \<Rightarrow> bool" where
  "header_ok h \<longleftrightarrow> noffMagic h = NOFFMAGIC \<and>
     (\<forall>g addr. g = noff_code h \<or> g = noff_initData h \<longrightarrow> in_segment g addr \<longrightarrow> 0 \<le> seg_pos g addr)"

definition frame :: "'m vm_scheme \<Rightarrow> int \<Rightarrow> 8 word list" where
  "frame k f = take PageSize (drop (nat f * PageSize) (mainMemory k))"

definition pte :: "'m vm_scheme \<Rightarrow> nat \<Rightarrow> nat \<Rightarrow> TranslationEntry" where "pte k a v = entries k a ! v"
definition phys :: "'m vm_scheme \<Rightarrow> nat \<Rightarrow> nat \<Rightarrow> int" where "phys k a v = sint (physicalPage (pte k a v))"

text \<open>The copy a page has outside memory, and its content as the program sees it.\<close>

definition backing :: "'m vm_scheme \<Rightarrow> nat \<Rightarrow> nat \<Rightarrow> 8 word list" where
  "backing k a v = (if int v \<in> bits (bs_pages (srec k a)) then file_bytes (sfile k a) (v * PageSize) PageSize
     else image (econt k a) (header_of k a) (int v))"

definition is_page :: "'m vm_scheme \<Rightarrow> nat \<Rightarrow> nat \<Rightarrow> bool" where
  "is_page k a v \<longleftrightarrow> spaces k a \<noteq> None \<and> v < length (entries k a)"

definition page_content :: "'m vm_scheme \<Rightarrow> nat \<Rightarrow> nat \<Rightarrow> 8 word list" where
  "page_content k a v = (if valid (pte k a v) then frame k (phys k a v) else backing k a v)"

text \<open>The objects of every address space exist and are its own.\<close>

definition space_ok :: "'m vm_scheme \<Rightarrow> nat \<Rightarrow> bool" where
  "space_ok k a \<longleftrightarrow> sp_pageTable (the_space k a) = Some (ptable k a) \<and> tables k (ptable k a) = Some (entries k a) \<and>
     backingStore (the_space k a) = Some (sid k a) \<and> stores k (sid k a) = Some (srec k a) \<and> bs_space (srec k a) = a \<and>
     bitmap_wf (bs_pages (srec k a)) \<and> numBits (bs_pages (srec k a)) = int (length (entries k a)) \<and>
     files k (bs_filename (srec k a)) = Some (sfile k a) \<and>
     openFiles k (currentExecutable (the_space k a)) = Some (ename k a) \<and> files k (ename k a) = Some (econt k a) \<and>
     header_ok (header_of k a)"

definition layout :: "'m vm_scheme \<Rightarrow> bool" where
  "layout k \<longleftrightarrow> (\<forall>a. spaces k a \<noteq> None \<longrightarrow> space_ok k a) \<and>
     (\<forall>a a'. spaces k a \<noteq> None \<longrightarrow> spaces k a' \<noteq> None \<longrightarrow> a \<noteq> a' \<longrightarrow> ptable k a \<noteq> ptable k a' \<and>
        bs_filename (srec k a) \<noteq> bs_filename (srec k a')) \<and>
     (\<forall>a a'. spaces k a \<noteq> None \<longrightarrow> spaces k a' \<noteq> None \<longrightarrow> ename k a \<noteq> bs_filename (srec k a')) \<and>
     length (mainMemory k) = MemorySize"

text \<open>The paging state of the pages: which are in memory, and that those which are unmodified agree with their copy.\<close>

definition paged :: "'m vm_scheme \<Rightarrow> bool" where
  "paged k \<longleftrightarrow> (\<forall>a v. is_page k a v \<longrightarrow>
       (valid (pte k a v) \<longrightarrow> 0 \<le> phys k a v \<and> phys k a v < int NumPhysPages) \<and>
       (\<not> dirty (pte k a v) \<longrightarrow> valid (pte k a v) \<longrightarrow> frame k (phys k a v) = backing k a v) \<and>
       (\<not> valid (pte k a v) \<longrightarrow> \<not> dirty (pte k a v)) \<and>
       (int v \<in> bits (bs_pages (srec k a)) \<longrightarrow> (v + 1) * PageSize \<le> length (sfile k a))) \<and>
     (\<forall>a v a' v'. is_page k a v \<longrightarrow> is_page k a' v' \<longrightarrow> valid (pte k a v) \<longrightarrow> valid (pte k a' v') \<longrightarrow>
        phys k a v = phys k a' v' \<longrightarrow> a = a' \<and> v = v')"

lemma page_const [simp]: "PageSize = 128" "MemorySize = 4096" "NumPhysPages = 32"
  by (simp_all add: PageSize_def SectorSize_def MemorySize_def NumPhysPages_def)

text \<open>Pages are lists of 128 elements: they must not be unfolded.\<close>

declare upt_rec_numeral [simp del]

section \<open>Effects of the primitive stores\<close>

lemma nth_splice:
  assumes "i + length bs \<le> length xs" and "p < length xs"
  shows "(take i xs @ bs @ drop (i + length bs) xs) ! p = (if i \<le> p \<and> p < i + length bs then bs ! (p - i) else xs ! p)"
proof (cases "p < i + length bs")
  case True
  then have "\<not> p < i \<Longrightarrow> p - i < length bs" by linarith
  then show ?thesis using assms True by (cases "p < i") (simp_all add: nth_append)
next
  case False
  then have "p - i - length bs = p - (i + length bs)" "\<not> p < i" "\<not> p - i < length bs" by auto
  then show ?thesis using assms False by (simp add: nth_append)
qed

lemma length_splice: "i + length bs \<le> length xs \<Longrightarrow> length (take i xs @ bs @ drop (i + length bs) xs) = length xs"
  by simp

lemma frame_alt:
  "length (mainMemory k) = 4096 \<Longrightarrow> 0 \<le> f \<Longrightarrow> f < 32 \<Longrightarrow> frame k f = map (\<lambda>u. mainMemory k ! (nat f * 128 + u)) [0..<128]"
  unfolding frame_def by (rule nth_equalityI) simp_all

lemma frame_length: "length (mainMemory k) = 4096 \<Longrightarrow> 0 \<le> f \<Longrightarrow> f < 32 \<Longrightarrow> length (frame k f) = 128"
  by (simp add: frame_def)

lemma store_bytes_splice:
  assumes "0 \<le> base" and "nat base + length bs \<le> length (mainMemory k)"
  shows "\<exists>m. store_bytes base bs k = Inr (k\<lparr>mainMemory := m\<rparr>) \<and> length m = length (mainMemory k) \<and>
    (\<forall>p < length (mainMemory k). m ! p = (if nat base \<le> p \<and> p < nat base + length bs then bs ! (p - nat base) else mainMemory k ! p))"
proof -
  let ?m = "take (nat base) (mainMemory k) @ bs @ drop (nat base + length bs) (mainMemory k)"
  have "store_bytes base bs k = Inr (k\<lparr>mainMemory := ?m\<rparr>)" using assms by (simp add: store_bytes_def nat_le_iff)
  then show ?thesis using nth_splice [OF assms(2)] length_splice [OF assms(2)] by blast
qed

lemma page_offset_eq: "(w::nat) < 128 \<Longrightarrow> u < 128 \<Longrightarrow> x * 128 + w = y * 128 + u \<longleftrightarrow> x = y \<and> w = u"
proof
  assume lt: "w < 128" "u < 128" and eq: "x * 128 + w = y * 128 + u"
  have "(x * 128 + w) mod 128 = w" "(y * 128 + u) mod 128 = u" using lt by simp_all
  then have "w = u" using eq by simp
  then show "x = y \<and> w = u" using eq by simp
qed simp

text \<open>A whole frame is overwritten, or a byte in it.\<close>

lemma store_frame:
  assumes mem: "length (mainMemory k) = 4096" and f: "0 \<le> f" "f < 32" and bs: "length bs = 128"
  shows "\<exists>m. store_bytes (f * int PageSize) bs k = Inr (k\<lparr>mainMemory := m\<rparr>) \<and> length m = 4096 \<and>
    (\<forall>g. 0 \<le> g \<longrightarrow> g < 32 \<longrightarrow> frame (k\<lparr>mainMemory := m\<rparr>) g = (if g = f then bs else frame k g))"
proof -
  have b: "nat (f * 128) = nat f * 128" using f by (simp add: nat_mult_distrib)
  have fit: "nat f * 128 + 128 \<le> 4096" using f by linarith
  obtain m where m: "store_bytes (f * 128) bs k = Inr (k\<lparr>mainMemory := m\<rparr>)" "length m = 4096"
    "\<forall>p < 4096. m ! p = (if nat f * 128 \<le> p \<and> p < nat f * 128 + 128 then bs ! (p - nat f * 128) else mainMemory k ! p)"
    using store_bytes_splice [of "f * 128" bs k, unfolded b mem bs] f fit by fastforce
  have "frame (k\<lparr>mainMemory := m\<rparr>) g = (if g = f then bs else frame k g)" if g: "0 \<le> g" "g < 32" for g
  proof (rule nth_equalityI)
    show "length (frame (k\<lparr>mainMemory := m\<rparr>) g) = length (if g = f then bs else frame k g)"
      using frame_length [of k g] frame_length [of "k\<lparr>mainMemory := m\<rparr>" g] mem m(2) g bs by simp
    fix u assume "u < length (frame (k\<lparr>mainMemory := m\<rparr>) g)"
    then have u: "u < 128" using frame_length [of "k\<lparr>mainMemory := m\<rparr>" g] m(2) g by simp
    then have p: "nat g * 128 + u < 4096" using g by simp
    have "nat f * 128 \<le> nat g * 128 + u \<and> nat g * 128 + u < nat f * 128 + 128 \<longleftrightarrow> g = f" using u f g by auto
    then show "frame (k\<lparr>mainMemory := m\<rparr>) g ! u = (if g = f then bs else frame k g) ! u"
      using m(3) p u mem m(2) g by (simp add: frame_alt)
  qed
  then show ?thesis using m(1,2) by auto
qed

lemma store_frame_byte:
  assumes mem: "length (mainMemory k) = 4096" and f: "0 \<le> f" "f < 32" and w: "0 \<le> w" "w < 128" and bs: "length bs \<le> 1"
  shows "\<exists>m. store_bytes (f * int PageSize + w) bs k = Inr (k\<lparr>mainMemory := m\<rparr>) \<and> length m = 4096 \<and>
    (\<forall>g. 0 \<le> g \<longrightarrow> g < 32 \<longrightarrow> frame (k\<lparr>mainMemory := m\<rparr>) g = (if g = f \<and> bs \<noteq> [] then (frame k f)[nat w := hd bs] else frame k g))"
proof -
  have b: "nat (f * 128 + w) = nat f * 128 + nat w" using f w by (simp add: nat_add_distrib nat_mult_distrib)
  have fit: "nat f * 128 + nat w + length bs \<le> 4096" using f w bs by linarith
  obtain m where m: "store_bytes (f * 128 + w) bs k = Inr (k\<lparr>mainMemory := m\<rparr>)" "length m = 4096"
    "\<forall>p < 4096. m ! p = (if nat f * 128 + nat w \<le> p \<and> p < nat f * 128 + nat w + length bs then bs ! (p - (nat f * 128 + nat w))
       else mainMemory k ! p)"
    using store_bytes_splice [of "f * 128 + w" bs k, unfolded b mem] f w fit by fastforce
  have "frame (k\<lparr>mainMemory := m\<rparr>) g = (if g = f \<and> bs \<noteq> [] then (frame k f)[nat w := hd bs] else frame k g)" if g: "0 \<le> g" "g < 32" for g
  proof (rule nth_equalityI)
    show "length (frame (k\<lparr>mainMemory := m\<rparr>) g) = length (if g = f \<and> bs \<noteq> [] then (frame k f)[nat w := hd bs] else frame k g)"
      using frame_length [of k g] frame_length [of k f] frame_length [of "k\<lparr>mainMemory := m\<rparr>" g] mem m(2) g f by simp
    fix u assume "u < length (frame (k\<lparr>mainMemory := m\<rparr>) g)"
    then have u: "u < 128" using frame_length [of "k\<lparr>mainMemory := m\<rparr>" g] m(2) g by simp
    then have p: "nat g * 128 + u < 4096" using g by simp
    have lb: "length bs = 0 \<or> length bs = 1" using bs by linarith
    have "nat w < 128" using w by linarith
    then have same: "nat f * 128 + nat w = nat g * 128 + u \<longleftrightarrow> g = f \<and> u = nat w"
      using page_offset_eq [OF _ u, of "nat w" "nat f" "nat g"] f g by auto
    have at: "frame (k\<lparr>mainMemory := m\<rparr>) g ! u = m ! (nat g * 128 + u)" "frame k g ! u = mainMemory k ! (nat g * 128 + u)"
      using u mem m(2) g by (simp_all add: frame_alt)
    show "frame (k\<lparr>mainMemory := m\<rparr>) g ! u = (if g = f \<and> bs \<noteq> [] then (frame k f)[nat w := hd bs] else frame k g) ! u"
    proof (cases "g = f \<and> u = nat w \<and> bs \<noteq> []")
      case True
      then have "m ! (nat g * 128 + u) = hd bs" using m(3) p lb same by (auto simp: hd_conv_nth)
      then show ?thesis using True at(1) u frame_length [OF mem f] by simp
    next
      case False
      then have "m ! (nat g * 128 + u) = mainMemory k ! (nat g * 128 + u)" using m(3) p lb same by auto
      then show ?thesis using False at by (auto simp: nth_list_update)
    qed
  qed
  then show ?thesis using m(1,2) by auto
qed

lemma frame_cong [simp]:
  "frame (k\<lparr>tables := t\<rparr>) = frame k" "frame (k\<lparr>files := fs\<rparr>) = frame k" "frame (k\<lparr>stores := ss\<rparr>) = frame k"
  "frame (k\<lparr>stats := sts\<rparr>) = frame k" "frame (k\<lparr>memoryManager := mm\<rparr>) = frame k" "frame (k\<lparr>corePages := cs\<rparr>) = frame k"
  "frame (k\<lparr>coreMap := cm\<rparr>) = frame k"
  by (simp_all add: frame_def fun_eq_iff)

text \<open>One entry of a page table is overwritten.\<close>

lemma layoutD:
  assumes "layout k" and "spaces k a \<noteq> None"
  shows "spaces k a = Some (the_space k a)" "sp_pageTable (the_space k a) = Some (ptable k a)" "tables k (ptable k a) = Some (entries k a)"
    "backingStore (the_space k a) = Some (sid k a)" "stores k (sid k a) = Some (srec k a)" "bs_space (srec k a) = a"
    "bitmap_wf (bs_pages (srec k a))" "numBits (bs_pages (srec k a)) = int (length (entries k a))"
    "files k (bs_filename (srec k a)) = Some (sfile k a)"
    "openFiles k (currentExecutable (the_space k a)) = Some (ename k a)" "files k (ename k a) = Some (econt k a)"
    "header_ok (header_of k a)"
  using assms by (auto simp: layout_def space_ok_def the_space_def)

lemma layout_distinct:
  assumes "layout k" and "spaces k a \<noteq> None" and "spaces k a' \<noteq> None"
  shows "ptable k a = ptable k a' \<longleftrightarrow> a = a'" "bs_filename (srec k a) = bs_filename (srec k a') \<longleftrightarrow> a = a'"
    "sid k a = sid k a' \<longleftrightarrow> a = a'" "ename k a \<noteq> bs_filename (srec k a')"
proof -
  show "ptable k a = ptable k a' \<longleftrightarrow> a = a'" "bs_filename (srec k a) = bs_filename (srec k a') \<longleftrightarrow> a = a'"
    "ename k a \<noteq> bs_filename (srec k a')"
    using assms unfolding layout_def by metis+
  show "sid k a = sid k a' \<longleftrightarrow> a = a'"
    using layoutD(6) [OF assms(1,2)] layoutD(6) [OF assms(1,3)] by (metis srec_def)
qed

lemma get_pte_entry:
  assumes "layout k" and "is_page k a v"
  shows "get_pte (sp_pageTable (the_space k a)) (int v) k = Inr (pte k a v)"
  using assms layoutD(2,3) [OF assms(1), of a] by (auto simp: get_pte_def get_table_def is_page_def pte_def)

definition set_pte :: "nat \<Rightarrow> nat \<Rightarrow> TranslationEntry \<Rightarrow> 'm vm_scheme \<Rightarrow> 'm vm_scheme" where
  "set_pte a v e k = k\<lparr>tables := (tables k)(ptable k a \<mapsto> (entries k a)[v := e])\<rparr>"

lemma put_pte_entry:
  assumes "layout k" and "is_page k a v"
  shows "put_pte (sp_pageTable (the_space k a)) (int v) e k = Inr (set_pte a v e k)"
  using assms layoutD(2,3) [OF assms(1), of a] by (auto simp: put_pte_def get_table_def is_page_def set_pte_def)

lemma read_header_cong:
  "get_file f k' = get_file f k \<Longrightarrow> stack_junk k' = stack_junk k \<Longrightarrow> read_header f k' = read_header f k"
  by (simp add: read_header_def OpenFile_ReadAt_def)

lemma header_of_cong:
  assumes "openFiles k' = openFiles k" and "stack_junk k' = stack_junk k" and "the_space k' a = the_space k a"
    and "files k' (ename k a) = files k (ename k a)" and "openFiles k (currentExecutable (the_space k a)) = Some (ename k a)"
  shows "header_of k' a = header_of k a"
proof -
  have "get_file (currentExecutable (the_space k a)) k' = get_file (currentExecutable (the_space k a)) k"
    using assms by (simp add: get_file_def)
  from read_header_cong [OF this assms(2)] show ?thesis using assms(3) by (simp add: header_of_def)
qed

lemma set_pte_fields [simp]:
  "spaces (set_pte a v e k) = spaces k" "stores (set_pte a v e k) = stores k" "files (set_pte a v e k) = files k"
  "openFiles (set_pte a v e k) = openFiles k" "mainMemory (set_pte a v e k) = mainMemory k" "stack_junk (set_pte a v e k) = stack_junk k"
  "memoryManager (set_pte a v e k) = memoryManager k" "corePages (set_pte a v e k) = corePages k" "coreMap (set_pte a v e k) = coreMap k"
  "the_space (set_pte a v e k) = the_space k" "ptable (set_pte a v e k) = ptable k" "sid (set_pte a v e k) = sid k"
  "srec (set_pte a v e k) = srec k" "sfile (set_pte a v e k) = sfile k" "ename (set_pte a v e k) = ename k" "econt (set_pte a v e k) = econt k"
  "frame (set_pte a v e k) = frame k" "currentThread (set_pte a v e k) = currentThread k" "threads (set_pte a v e k) = threads k"
  "LRU (set_pte a v e k) = LRU k" "registers (set_pte a v e k) = registers k"
  by (simp_all add: set_pte_def selectors frame_def fun_eq_iff)

lemma set_pte_entries:
  assumes "layout k" and "spaces k a \<noteq> None" and "spaces k a' \<noteq> None"
  shows "entries (set_pte a v e k) a' = (if a' = a then (entries k a)[v := e] else entries k a')"
proof -
  have "entries (set_pte a v e k) a' = (if ptable k a' = ptable k a then (entries k a)[v := e] else entries k a')"
    by (simp add: set_pte_def entries_def ptable_def the_space_def)
  then show ?thesis using layout_distinct(1) [OF assms(1,3,2)] by simp
qed

lemma set_pte_header [simp]: "header_of (set_pte a v e k) = header_of k"
proof
  fix x
  have "get_file f (set_pte a v e k) = get_file f k" for f by (simp add: get_file_def split: option.split)
  then have "read_header f (set_pte a v e k) = read_header f k" for f by (rule read_header_cong) simp
  then show "header_of (set_pte a v e k) x = header_of k x" by (simp add: header_of_def)
qed

lemma set_pte_layout:
  assumes "layout k" and "spaces k a \<noteq> None"
  shows "layout (set_pte a v e k)"
proof -
  have "tables (set_pte a v e k) (ptable k a') = Some (entries (set_pte a v e k) a') \<and> length (entries (set_pte a v e k) a') = length (entries k a')"
    if "spaces k a' \<noteq> None" for a'
  proof -
    have "tables (set_pte a v e k) (ptable k a') = Some (entries (set_pte a v e k) a')"
      using layoutD(3) [OF assms(1) that] by (simp add: entries_def ptable_def the_space_def set_pte_def)
    then show ?thesis using set_pte_entries [OF assms that] by simp
  qed
  then show ?thesis using assms by (auto simp: layout_def space_ok_def)
qed

section \<open>Loading a page from the executable\<close>

lemma memory_fields [simp]:
  "the_space (k\<lparr>mainMemory := m\<rparr>) = the_space k" "ptable (k\<lparr>mainMemory := m\<rparr>) = ptable k" "entries (k\<lparr>mainMemory := m\<rparr>) = entries k"
  "sid (k\<lparr>mainMemory := m\<rparr>) = sid k" "srec (k\<lparr>mainMemory := m\<rparr>) = srec k" "sfile (k\<lparr>mainMemory := m\<rparr>) = sfile k"
  "ename (k\<lparr>mainMemory := m\<rparr>) = ename k" "econt (k\<lparr>mainMemory := m\<rparr>) = econt k" "pte (k\<lparr>mainMemory := m\<rparr>) = pte k"
  "phys (k\<lparr>mainMemory := m\<rparr>) = phys k" "is_page (k\<lparr>mainMemory := m\<rparr>) = is_page k"
  by (simp_all add: selectors pte_def phys_def is_page_def fun_eq_iff)

lemma memory_twice: "k\<lparr>mainMemory := m, mainMemory := m'\<rparr> = (k\<lparr>mainMemory := m'\<rparr> :: 'm vm_scheme)"
  by simp

lemma memory_header [simp]: "header_of (k\<lparr>mainMemory := m\<rparr>) = header_of k"
proof
  fix x
  have "get_file f (k\<lparr>mainMemory := m\<rparr>) = get_file f k" for f by (simp add: get_file_def split: option.split)
  then have "read_header f (k\<lparr>mainMemory := m\<rparr>) = read_header f k" for f by (rule read_header_cong) simp
  then show "header_of (k\<lparr>mainMemory := m\<rparr>) x = header_of k x" by (simp add: header_of_def)
qed

lemma memory_layout: "layout k \<Longrightarrow> length m = 4096 \<Longrightarrow> layout (k\<lparr>mainMemory := m\<rparr>)"
  by (simp add: layout_def space_ok_def)

lemma layout_memory: "layout k \<Longrightarrow> length (mainMemory k) = 4096"
  by (simp add: layout_def)

lemma page_space: "is_page k a v \<Longrightarrow> spaces k a \<noteq> None"
  by (simp add: is_page_def)

text \<open>One byte of a segment.\<close>

lemma writeMemoryToPage_byte:
  assumes lay: "layout k" and pg: "is_page k a v" and f: "phys k a v = f" "0 \<le> f" "f < 32" and w: "w < 128"
    and g: "g = noff_code (header_of k a) \<or> g = noff_initData (header_of k a)" "in_segment g addr" and zero: "frame k f ! w = 0"
  shows "\<exists>m. writeMemoryToPage (the_space k a) (int v) (int w) (sint (seg_inFileAddr g)) (addr - sint (seg_virtualAddr g)) k =
      Inr (k\<lparr>mainMemory := m\<rparr>) \<and> length m = 4096 \<and>
    (\<forall>h. 0 \<le> h \<longrightarrow> h < 32 \<longrightarrow> frame (k\<lparr>mainMemory := m\<rparr>) h = (if h = f then (frame k f)[w := file_byte (econt k a) (seg_pos g addr)] else frame k h))"
proof -
  note D = layoutD [OF lay page_space [OF pg]]
  let ?bs = "file_bytes (econt k a) (nat (seg_pos g addr)) 1"
  have pos: "0 \<le> seg_pos g addr" using D(12) g unfolding header_ok_def by blast
  then have read: "OpenFile_ReadAt (currentExecutable (the_space k a)) 1 (seg_pos g addr) k = Inr ?bs"
    using D(10,11) by (simp add: OpenFile_ReadAt_def get_file_def)
  obtain m where m: "store_bytes (f * int PageSize + int w) ?bs k = Inr (k\<lparr>mainMemory := m\<rparr>)" "length m = 4096"
    "\<forall>h. 0 \<le> h \<longrightarrow> h < 32 \<longrightarrow> frame (k\<lparr>mainMemory := m\<rparr>) h = (if h = f \<and> ?bs \<noteq> [] then (frame k f)[w := hd ?bs] else frame k h)"
    using store_frame_byte [OF layout_memory [OF lay] f(2,3), of "int w" ?bs] w by (auto simp: file_bytes_def)
  have "writeMemoryToPage (the_space k a) (int v) (int w) (sint (seg_inFileAddr g)) (addr - sint (seg_virtualAddr g)) k = Inr (k\<lparr>mainMemory := m\<rparr>)"
    using get_pte_entry [OF lay pg] read m(1) f(1) by (simp add: writeMemoryToPage_def frame_base_def phys_def seg_pos_def)
  moreover have "(if h = f \<and> ?bs \<noteq> [] then (frame k f)[w := hd ?bs] else frame k h) =
      (if h = f then (frame k f)[w := file_byte (econt k a) (seg_pos g addr)] else frame k h)" for h
  proof (cases "nat (seg_pos g addr) < length (econt k a)")
    case True
    then have "?bs \<noteq> []" "hd ?bs = econt k a ! nat (seg_pos g addr)" by (simp_all add: file_bytes_def hd_drop_conv_nth)
    then show ?thesis using True by (simp add: file_byte_def)
  next
    case False
    then have "?bs = []" by (simp add: file_bytes_def)
    moreover have "(frame k f)[w := 0] = frame k f" by (metis zero list_update_id)
    ultimately show ?thesis using False by (simp add: file_byte_def)
  qed
  ultimately show ?thesis using m(2,3) by auto
qed

lemma fill_byte_correct:
  assumes lay: "layout k" and pg: "is_page k a v" and f: "phys k a v = f" "0 \<le> f" "f < 32" and w: "w < 128" and zero: "frame k f ! w = 0"
  shows "\<exists>fl m. fill_byte (the_space k a) (header_of k a) (int v) (int w) flag k = Inr (fl, k\<lparr>mainMemory := m\<rparr>) \<and> length m = 4096 \<and>
    (\<forall>h. 0 \<le> h \<longrightarrow> h < 32 \<longrightarrow> frame (k\<lparr>mainMemory := m\<rparr>) h =
      (if h = f then (frame k f)[w := image_byte (econt k a) (header_of k a) (c_int (int w + int v * 128))] else frame k h))"
proof -
  let ?addr = "c_int (int w + int v * int PageSize)" and ?H = "header_of k a"
  consider "in_segment (noff_code ?H) ?addr" | "\<not> in_segment (noff_code ?H) ?addr" "in_segment (noff_initData ?H) ?addr"
    | "\<not> in_segment (noff_code ?H) ?addr" "\<not> in_segment (noff_initData ?H) ?addr" by blast
  then show ?thesis
  proof cases
    case 1
    obtain m where m: "writeMemoryToPage (the_space k a) (int v) (int w) (sint (seg_inFileAddr (noff_code ?H)))
        (?addr - sint (seg_virtualAddr (noff_code ?H))) k = Inr (k\<lparr>mainMemory := m\<rparr>)" "length m = 4096"
      "\<forall>h. 0 \<le> h \<longrightarrow> h < 32 \<longrightarrow> frame (k\<lparr>mainMemory := m\<rparr>) h =
         (if h = f then (frame k f)[w := file_byte (econt k a) (seg_pos (noff_code ?H) ?addr)] else frame k h)"
      using writeMemoryToPage_byte [OF lay pg f w disjI1 [OF HOL.refl] 1 zero] by blast
    then show ?thesis using 1 by (intro exI [of _ True] exI [of _ m]) (simp add: fill_byte_def Let_def image_byte_def)
  next
    case 2
    obtain m where m: "writeMemoryToPage (the_space k a) (int v) (int w) (sint (seg_inFileAddr (noff_initData ?H)))
        (?addr - sint (seg_virtualAddr (noff_initData ?H))) k = Inr (k\<lparr>mainMemory := m\<rparr>)" "length m = 4096"
      "\<forall>h. 0 \<le> h \<longrightarrow> h < 32 \<longrightarrow> frame (k\<lparr>mainMemory := m\<rparr>) h =
         (if h = f then (frame k f)[w := file_byte (econt k a) (seg_pos (noff_initData ?H) ?addr)] else frame k h)"
      using writeMemoryToPage_byte [OF lay pg f w disjI2 [OF HOL.refl] 2(2) zero] by blast
    then show ?thesis using 2 by (intro exI [of _ True] exI [of _ m]) (simp add: fill_byte_def Let_def image_byte_def)
  next
    case 3
    have "(frame k f)[w := 0] = frame k f" by (metis zero list_update_id)
    then have "\<forall>h. 0 \<le> h \<longrightarrow> h < 32 \<longrightarrow> frame (k\<lparr>mainMemory := mainMemory k\<rparr>) h =
      (if h = f then (frame k f)[w := image_byte (econt k a) ?H (c_int (int w + int v * 128))] else frame k h)"
      using 3 by (simp add: image_byte_def)
    then show ?thesis using 3 layout_memory [OF lay]
      by (intro exI [of _ flag] exI [of _ "mainMemory k"]) (simp add: fill_byte_def)
  qed
qed

definition frame_done :: "nat \<Rightarrow> nat \<Rightarrow> nat \<Rightarrow> int \<Rightarrow> 'm vm_scheme \<Rightarrow> 8 word list" where
  "frame_done w a v f k = map (\<lambda>i. if i < w then frame k f ! i else image_byte (econt k a) (header_of k a) (c_int (int i + int v * 128))) [0..<128]"

lemma frame_done_all: "layout k \<Longrightarrow> 0 \<le> f \<Longrightarrow> f < 32 \<Longrightarrow> frame_done 128 a v f k = frame k f"
  unfolding frame_done_def using frame_length [OF layout_memory, of k f] by (intro nth_equalityI) simp_all

lemma frame_done_none: "frame_done 0 a v f k = image (econt k a) (header_of k a) (int v)"
  by (simp add: frame_done_def image_def)

lemma frame_done_step:
  assumes "frame (k\<lparr>mainMemory := m\<rparr>) f = (frame k f)[w := image_byte (econt k a) (header_of k a) (c_int (int w + int v * 128))]"
    and "length (frame k f) = 128" and "w < 128"
  shows "frame_done (Suc w) a v f (k\<lparr>mainMemory := m\<rparr>) = frame_done w a v f k"
  unfolding frame_done_def assms(1) using assms(2,3) by (intro map_cong) (auto simp: less_Suc_eq)

lemma fill_page_correct:
  assumes "layout k" and "is_page k a v" and "phys k a v = f" "0 \<le> f" "f < 32" and "n \<le> 128" and "w = 128 - n"
    and "\<forall>i. w \<le> i \<longrightarrow> i < 128 \<longrightarrow> frame k f ! i = 0"
  shows "\<exists>fl m. fill_page n (the_space k a) (header_of k a) (int v) flag k = Inr (fl, k\<lparr>mainMemory := m\<rparr>) \<and> length m = 4096 \<and>
    (\<forall>h. 0 \<le> h \<longrightarrow> h < 32 \<longrightarrow> frame (k\<lparr>mainMemory := m\<rparr>) h = (if h = f then frame_done w a v f k else frame k h))"
  using assms
proof (induction n arbitrary: k flag w)
  case 0
  then show ?case using layout_memory [OF 0(1)] frame_done_all [OF 0(1,4,5)]
    by (intro exI [of _ flag] exI [of _ "mainMemory k"]) simp
next
  case (Suc n)
  have w: "w < 128" "int PageSize - int (Suc n) = int w" "Suc w = 128 - n" using Suc.prems(6,7) by auto
  obtain fl m where m: "fill_byte (the_space k a) (header_of k a) (int v) (int w) flag k = Inr (fl, k\<lparr>mainMemory := m\<rparr>)" "length m = 4096"
    "\<forall>h. 0 \<le> h \<longrightarrow> h < 32 \<longrightarrow> frame (k\<lparr>mainMemory := m\<rparr>) h =
       (if h = f then (frame k f)[w := image_byte (econt k a) (header_of k a) (c_int (int w + int v * 128))] else frame k h)"
    using fill_byte_correct [OF Suc.prems(1-5) w(1)] Suc.prems(8) w(1) by blast
  let ?k = "k\<lparr>mainMemory := m\<rparr>"
  have fr: "frame ?k f = (frame k f)[w := image_byte (econt k a) (header_of k a) (c_int (int w + int v * 128))]" "length (frame k f) = 128"
    using m(3) Suc.prems(4,5) frame_length [OF layout_memory [OF Suc.prems(1)]] by simp_all
  have z: "\<forall>i. Suc w \<le> i \<longrightarrow> i < 128 \<longrightarrow> frame ?k f ! i = 0" unfolding fr(1) using Suc.prems(8) by simp
  have pre: "is_page ?k a v" "phys ?k a v = f" "n \<le> 128" using Suc.prems(2,3,6) by simp_all
  obtain fl' m' where m': "fill_page n (the_space k a) (header_of k a) (int v) fl ?k = Inr (fl', k\<lparr>mainMemory := m'\<rparr>)" "length m' = 4096"
    "\<forall>h. 0 \<le> h \<longrightarrow> h < 32 \<longrightarrow> frame (k\<lparr>mainMemory := m'\<rparr>) h = (if h = f then frame_done (Suc w) a v f ?k else frame ?k h)"
    using Suc.IH [OF memory_layout [OF Suc.prems(1) m(2)] pre(1,2) Suc.prems(4,5) pre(3) w(3) z, of fl]
    by (simp only: memory_fields memory_header memory_twice) blast
  have "frame (k\<lparr>mainMemory := m'\<rparr>) h = (if h = f then frame_done w a v f k else frame k h)" if "0 \<le> h" "h < 32" for h
    using m(3) m'(3) that frame_done_step [OF fr w(1)] by simp
  moreover have "fill_page (Suc n) (the_space k a) (header_of k a) (int v) flag k = Inr (fl', k\<lparr>mainMemory := m'\<rparr>)"
    using m(1) m'(1) w(2) by simp
  ultimately show ?case using m'(2) by blast
qed

section \<open>The backing store file\<close>

lemma length_file_write: "length (file_write c pos bs) = max (length c) (pos + length bs)"
  by (simp add: file_write_def)

lemma nth_append3:
  assumes "length p = n"
  shows "(p @ b @ r) ! i = (if i < n then p ! i else if i < n + length b then b ! (i - n) else r ! (i - (n + length b)))"
  using assms by (auto simp: nth_append)

lemma nth_file_write:
  assumes "i < length c \<or> i < pos + length bs"
  shows "file_write c pos bs ! i = (if pos \<le> i \<and> i < pos + length bs then bs ! (i - pos) else if i < length c then c ! i else 0)"
proof -
  let ?p = "take pos (c @ replicate (pos - length c) 0)"
  have lp: "length ?p = pos" by simp
  have "?p ! i = (if i < length c then c ! i else 0)" if "i < pos"
    unfolding nth_take [OF that] using that by (simp add: nth_append)
  moreover have "drop (pos + length bs) c ! (i - (pos + length bs)) = c ! i" if "\<not> i < pos + length bs"
    using that assms by simp
  ultimately show ?thesis unfolding file_write_def nth_append3 [OF lp] using assms by auto
qed

lemma file_bytes_nth: "i < n \<Longrightarrow> pos + n \<le> length c \<Longrightarrow> file_bytes c pos n ! i = c ! (pos + i)"
  by (simp add: file_bytes_def)

lemma file_bytes_write:
  assumes bs: "length bs = 128"
  shows "file_bytes (file_write c (v * 128) bs) (v * 128) 128 = bs"
    and "u \<noteq> v \<Longrightarrow> u * 128 + 128 \<le> length c \<Longrightarrow> file_bytes (file_write c (v * 128) bs) (u * 128) 128 = file_bytes c (u * 128) 128"
proof -
  have len: "v * 128 + 128 \<le> length (file_write c (v * 128) bs)" using bs by (simp add: length_file_write)
  show "file_bytes (file_write c (v * 128) bs) (v * 128) 128 = bs"
  proof (rule nth_equalityI)
    show "length (file_bytes (file_write c (v * 128) bs) (v * 128) 128) = length bs" using len bs by (simp add: file_bytes_def)
    fix i assume "i < length (file_bytes (file_write c (v * 128) bs) (v * 128) 128)"
    then have "i < 128" by (simp add: file_bytes_def)
    then show "file_bytes (file_write c (v * 128) bs) (v * 128) 128 ! i = bs ! i"
      using bs len by (simp add: file_bytes_nth nth_file_write)
  qed
  assume u: "u \<noteq> v" "u * 128 + 128 \<le> length c"
  have len': "u * 128 + 128 \<le> length (file_write c (v * 128) bs)" using u(2) by (simp add: length_file_write)
  show "file_bytes (file_write c (v * 128) bs) (u * 128) 128 = file_bytes c (u * 128) 128"
  proof (rule nth_equalityI)
    show "length (file_bytes (file_write c (v * 128) bs) (u * 128) 128) = length (file_bytes c (u * 128) 128)"
      using u(2) len' by (simp add: file_bytes_def)
    fix i assume "i < length (file_bytes (file_write c (v * 128) bs) (u * 128) 128)"
    then have i: "i < 128" by (simp add: file_bytes_def)
    have "u < v \<or> v < u" using u(1) by linarith
    then have "\<not> (v * 128 \<le> u * 128 + i \<and> u * 128 + i < v * 128 + length bs)" using i bs by linarith
    then show "file_bytes (file_write c (v * 128) bs) (u * 128) 128 ! i = file_bytes c (u * 128) 128 ! i"
      using i u(2) len' by (auto simp: file_bytes_nth nth_file_write)
  qed
qed

section \<open>Writing a page out\<close>

text \<open>The backing store of a space gets the content of a frame as the copy of page \<open>v\<close>.\<close>

definition saved_out :: "nat \<Rightarrow> nat \<Rightarrow> BitMap \<Rightarrow> 'm vm_scheme \<Rightarrow> 'm vm_scheme" where
  "saved_out a v bm k = k\<lparr>stores := (stores k)(sid k a \<mapsto> (srec k a)\<lparr>bs_pages := bm\<rparr>),
     stats := (stats k)\<lparr>numPageOuts := numPageOuts (stats k) + 1\<rparr>,
     files := (files k)(bs_filename (srec k a) \<mapsto> file_write (sfile k a) (v * 128) (frame k (phys k a v)))\<rparr>"

lemma saved_out_fields [simp]:
  "spaces (saved_out a v bm k) = spaces k" "tables (saved_out a v bm k) = tables k" "openFiles (saved_out a v bm k) = openFiles k"
  "mainMemory (saved_out a v bm k) = mainMemory k" "stack_junk (saved_out a v bm k) = stack_junk k"
  "memoryManager (saved_out a v bm k) = memoryManager k" "corePages (saved_out a v bm k) = corePages k" "coreMap (saved_out a v bm k) = coreMap k"
  "the_space (saved_out a v bm k) = the_space k" "ptable (saved_out a v bm k) = ptable k" "entries (saved_out a v bm k) = entries k"
  "sid (saved_out a v bm k) = sid k" "ename (saved_out a v bm k) = ename k" "frame (saved_out a v bm k) = frame k"
  "currentThread (saved_out a v bm k) = currentThread k" "threads (saved_out a v bm k) = threads k" "LRU (saved_out a v bm k) = LRU k"
  "pte (saved_out a v bm k) = pte k" "phys (saved_out a v bm k) = phys k" "is_page (saved_out a v bm k) = is_page k"
  "registers (saved_out a v bm k) = registers k"
  by (simp_all add: saved_out_def selectors frame_def pte_def phys_def is_page_def fun_eq_iff)

lemma saved_out_store:
  assumes lay: "layout k" and a: "spaces k a \<noteq> None" and a': "spaces k a' \<noteq> None"
  shows "srec (saved_out a v bm k) a' = (if a' = a then (srec k a)\<lparr>bs_pages := bm\<rparr> else srec k a')"
    "sfile (saved_out a v bm k) a' = (if a' = a then file_write (sfile k a) (v * 128) (frame k (phys k a v)) else sfile k a')"
    "econt (saved_out a v bm k) a' = econt k a'" "header_of (saved_out a v bm k) a' = header_of k a'"
proof -
  note dis = layout_distinct [OF lay a' a]
  show r: "srec (saved_out a v bm k) a' = (if a' = a then (srec k a)\<lparr>bs_pages := bm\<rparr> else srec k a')"
    using dis(3) by (simp add: srec_def) (simp add: saved_out_def srec_def)
  show "sfile (saved_out a v bm k) a' = (if a' = a then file_write (sfile k a) (v * 128) (frame k (phys k a v)) else sfile k a')"
    unfolding sfile_def r using dis(2) by (simp add: saved_out_def sfile_def)
  have same: "files (saved_out a v bm k) (ename k a') = files k (ename k a')" using dis(4) by (simp add: saved_out_def)
  then show "econt (saved_out a v bm k) a' = econt k a'" by (simp add: econt_def)
  show "header_of (saved_out a v bm k) a' = header_of k a'"
    by (rule header_of_cong) (use same layoutD(10) [OF lay a'] in simp_all)
qed

lemma saved_out_layout:
  assumes lay: "layout k" and a: "spaces k a \<noteq> None" and bm: "bitmap_wf bm" "numBits bm = numBits (bs_pages (srec k a))"
  shows "layout (saved_out a v bm k)"
proof -
  have "space_ok (saved_out a v bm k) b" if b: "spaces k b \<noteq> None" for b
  proof -
    note D = layoutD [OF lay b] and S = saved_out_store [OF lay a b]
    have "stores (saved_out a v bm k) (sid k b) = Some (srec (saved_out a v bm k) b)"
      using D(5) S(1) layout_distinct(3) [OF lay b a] by (simp add: saved_out_def)
    moreover have "files (saved_out a v bm k) (bs_filename (srec (saved_out a v bm k) b)) = Some (sfile (saved_out a v bm k) b)"
      using D(9) S(1,2) layout_distinct(2) [OF lay b a] by (simp add: saved_out_def)
    moreover have "files (saved_out a v bm k) (ename k b) = Some (econt k b)"
      using D(11) layout_distinct(4) [OF lay b a] by (simp add: saved_out_def)
    ultimately show ?thesis unfolding space_ok_def using D S bm by (simp split: if_splits)
  qed
  moreover have "bs_filename (srec (saved_out a v bm k) b) = bs_filename (srec k b)" if "spaces k b \<noteq> None" for b
    using saved_out_store(1) [OF lay a that] by simp
  ultimately show ?thesis using lay unfolding layout_def saved_out_fields by simp
qed

lemma set_pte_pte:
  assumes "layout k" and "is_page k a v" and "is_page k a' v'"
  shows "pte (set_pte a v e k) a' v' = (if a' = a \<and> v' = v then e else pte k a' v')"
  using set_pte_entries [OF assms(1) page_space [OF assms(2)] page_space [OF assms(3)]] assms(2)
  by (auto simp: pte_def is_page_def)

lemma set_pte_is_page [simp]: "layout k \<Longrightarrow> spaces k a \<noteq> None \<Longrightarrow> is_page (set_pte a v e k) a' v' = is_page k a' v'"
  using set_pte_entries [of k a a' v e] by (cases "spaces k a' = None") (auto simp: is_page_def)

lemma set_pte_backing [simp]: "backing (set_pte a v e k) = backing k"
  by (simp add: backing_def fun_eq_iff)

lemma paged_page:
  assumes "paged k" and "is_page k a v"
  shows "valid (pte k a v) \<Longrightarrow> 0 \<le> phys k a v" "valid (pte k a v) \<Longrightarrow> phys k a v < 32"
    "\<not> dirty (pte k a v) \<Longrightarrow> valid (pte k a v) \<Longrightarrow> frame k (phys k a v) = backing k a v" "\<not> valid (pte k a v) \<Longrightarrow> \<not> dirty (pte k a v)"
    "int v \<in> bits (bs_pages (srec k a)) \<Longrightarrow> v * 128 + 128 \<le> length (sfile k a)"
  using assms by (auto simp: paged_def algebra_simps)

lemma pagedI:
  assumes "\<And>a v. is_page k a v \<Longrightarrow> (valid (pte k a v) \<longrightarrow> 0 \<le> phys k a v \<and> phys k a v < 32) \<and>
       (\<not> dirty (pte k a v) \<longrightarrow> valid (pte k a v) \<longrightarrow> frame k (phys k a v) = backing k a v) \<and>
       (\<not> valid (pte k a v) \<longrightarrow> \<not> dirty (pte k a v)) \<and> (int v \<in> bits (bs_pages (srec k a)) \<longrightarrow> v * 128 + 128 \<le> length (sfile k a))"
    and "\<And>a v a' v'. is_page k a v \<Longrightarrow> is_page k a' v' \<Longrightarrow> valid (pte k a v) \<Longrightarrow> valid (pte k a' v') \<Longrightarrow> phys k a v = phys k a' v' \<Longrightarrow>
       a = a' \<and> v = v'"
  shows "paged k"
  using assms unfolding paged_def page_const by (simp add: algebra_simps)

lemma paged_inj:
  assumes "paged k" "is_page k a v" "is_page k a' v'" "valid (pte k a v)" "valid (pte k a' v')" "phys k a v = phys k a' v'"
  shows "a' = a \<and> v' = v"
  using assms unfolding paged_def by metis

lemma page_bit: "layout k \<Longrightarrow> is_page k a v \<Longrightarrow> 0 \<le> int v \<and> int v < numBits (bs_pages (srec k a))"
  using layoutD(8) [of k a] by (auto simp: is_page_def)

lemma saved_out_backing:
  assumes lay: "layout k" and pg: "paged k" and p: "is_page k a v" and val: "valid (pte k a v)" and q: "is_page k a' v'"
    and bm: "bits bm = insert (int v) (bits (bs_pages (srec k a)))"
  shows "backing (saved_out a v bm k) a' v' = (if a' = a \<and> v' = v then frame k (phys k a v) else backing k a' v')"
    and "int v' \<in> bits (bs_pages (srec (saved_out a v bm k) a')) \<Longrightarrow> v' * 128 + 128 \<le> length (sfile (saved_out a v bm k) a')"
proof -
  note S = saved_out_store [OF lay page_space [OF p] page_space [OF q], of v bm]
  have lf: "length (frame k (phys k a v)) = 128" using frame_length [OF layout_memory [OF lay]] paged_page(1,2) [OF pg p val] by simp
  note fw = file_bytes_write [where c = "sfile k a" and v = v, OF lf]
  show "backing (saved_out a v bm k) a' v' = (if a' = a \<and> v' = v then frame k (phys k a v) else backing k a' v')"
  proof (cases "a' = a")
    case True
    then show ?thesis using S bm fw paged_page(5) [OF pg q] by (auto simp: backing_def)
  next
    case False
    then show ?thesis using S by (simp add: backing_def)
  qed
  assume "int v' \<in> bits (bs_pages (srec (saved_out a v bm k) a'))"
  then show "v' * 128 + 128 \<le> length (sfile (saved_out a v bm k) a')"
    using S bm lf paged_page(5) [OF pg q] by (cases "a' = a") (auto simp: length_file_write)
qed

text \<open>The state after a page has been written out and marked invalid.\<close>

definition same_shape :: "'m vm_scheme \<Rightarrow> 'm vm_scheme \<Rightarrow> bool" where
  "same_shape k k' \<longleftrightarrow> spaces k' = spaces k \<and> sid k' = sid k \<and> currentThread k' = currentThread k \<and> threads k' = threads k \<and> LRU k' = LRU k \<and>
     registers k' = registers k \<and> (\<forall>a v. is_page k' a v = is_page k a v)"

lemma pageOut_state:
  assumes lay: "layout k" and pg: "paged k" and p: "is_page k a v" and val: "valid (pte k a v)"
  shows "\<exists>k1. pageOut (sid k a) (int v) k = Inr (set_pte a v ((pte k a v)\<lparr>valid := False, dirty := False\<rparr>) k1) \<and> layout k1 \<and>
    same_shape k k1 \<and> pte k1 = pte k \<and> frame k1 = frame k \<and> coreMap k1 = coreMap k \<and> corePages k1 = corePages k \<and> memoryManager k1 = memoryManager k \<and>
    (\<forall>a' v'. is_page k a' v' \<longrightarrow> backing k1 a' v' = (if a' = a \<and> v' = v then frame k (phys k a v) else backing k a' v') \<and>
       (int v' \<in> bits (bs_pages (srec k1 a')) \<longrightarrow> v' * 128 + 128 \<le> length (sfile k1 a')))"
proof -
  note D = layoutD [OF lay page_space [OF p]]
  note load = get_pte_entry [OF lay p] and fr = paged_page [OF pg p]
  have fb: "load_bytes (frame_base (pte k a v)) PageSize k = Inr (frame k (phys k a v))"
    using fr(1,2) val layout_memory [OF lay] by (simp add: load_bytes_def frame_base_def phys_def frame_def nat_mult_distrib)
  show ?thesis
  proof (cases "dirty (pte k a v)")
    case False
    then have "pageOut (sid k a) (int v) k = Inr (set_pte a v ((pte k a v)\<lparr>valid := False, dirty := False\<rparr>) k)"
      using D load put_pte_entry [OF lay p] by (simp add: pageOut_def get_store_def get_space_def)
    then show ?thesis using lay fr(3) val False paged_page(5) [OF pg] by (intro exI [of _ k]) (simp add: same_shape_def)
  next
    case True
    obtain bm where bm: "Mark (int v) (bs_pages (srec k a)) = Inr bm" "bitmap_wf bm" "numBits bm = numBits (bs_pages (srec k a))"
      "bits bm = insert (int v) (bits (bs_pages (srec k a)))"
      using Mark_correct [OF D(7)] page_bit [OF lay p] by blast
    have lay1: "layout (saved_out a v bm k)" by (rule saved_out_layout [OF lay page_space [OF p] bm(2,3)])
    have p1: "is_page (saved_out a v bm k) a v" using p by simp
    have out: "pageOut (sid k a) (int v) k = Inr (set_pte a v ((pte k a v)\<lparr>valid := False, dirty := False\<rparr>) (saved_out a v bm k))"
      using D load fb bm(1) True put_pte_entry [OF lay1 p1, unfolded saved_out_fields]
      by (simp add: pageOut_def get_store_def get_space_def Let_def load_bytes_def saved_out_def nat_mult_distrib split: if_splits)
    show ?thesis using out lay1 saved_out_backing [OF lay pg p val _ bm(4)]
      by (intro exI [of _ "saved_out a v bm k"]) (simp add: same_shape_def)
  qed
qed

lemma pageOut_correct:
  assumes lay: "layout k" and pg: "paged k" and p: "is_page k a v" and val: "valid (pte k a v)"
  shows "\<exists>k'. pageOut (sid k a) (int v) k = Inr k' \<and> layout k' \<and> paged k' \<and> same_shape k k' \<and>
    coreMap k' = coreMap k \<and> corePages k' = corePages k \<and> memoryManager k' = memoryManager k \<and>
    (\<forall>a' v'. is_page k a' v' \<longrightarrow> page_content k' a' v' = page_content k a' v' \<and> phys k' a' v' = phys k a' v' \<and>
       valid (pte k' a' v') = (valid (pte k a' v') \<and> \<not> (a' = a \<and> v' = v)))"
proof -
  let ?e = "(pte k a v)\<lparr>valid := False, dirty := False\<rparr>"
  obtain k1 where k1: "pageOut (sid k a) (int v) k = Inr (set_pte a v ?e k1)" "layout k1"
    "same_shape k k1" "pte k1 = pte k" "frame k1 = frame k" "coreMap k1 = coreMap k" "corePages k1 = corePages k" "memoryManager k1 = memoryManager k"
    and B: "\<And>a' v'. is_page k a' v' \<Longrightarrow> backing k1 a' v' = (if a' = a \<and> v' = v then frame k (phys k a v) else backing k a' v')"
    and L: "\<And>a' v'. is_page k a' v' \<Longrightarrow> int v' \<in> bits (bs_pages (srec k1 a')) \<Longrightarrow> v' * 128 + 128 \<le> length (sfile k1 a')"
    using pageOut_state [OF lay pg p val] by auto
  let ?k = "set_pte a v ?e k1"
  have p1: "is_page k1 a' v' = is_page k a' v'" for a' v' using k1(3) by (simp add: same_shape_def)
  then have pa: "is_page k1 a v" and s1: "spaces k1 a \<noteq> None" using p page_space [of k1 a v] by auto
  have P: "pte ?k a' v' = (if a' = a \<and> v' = v then ?e else pte k a' v')" if "is_page k a' v'" for a' v'
    using set_pte_pte [OF k1(2) pa, of a' v' ?e] that p1 k1(4) by simp
  then have V: "valid (pte ?k a' v') = (valid (pte k a' v') \<and> \<not> (a' = a \<and> v' = v))" "phys ?k a' v' = phys k a' v'"
    if "is_page k a' v'" for a' v' using that by (simp_all add: phys_def)
  have pages: "is_page ?k a' v' = is_page k a' v'" for a' v' using k1(2) s1 p1 by simp
  have "paged ?k"
  proof (rule pagedI; unfold pages)
    fix a' v' assume q: "is_page k a' v'"
    show "(valid (pte ?k a' v') \<longrightarrow> 0 \<le> phys ?k a' v' \<and> phys ?k a' v' < 32) \<and>
       (\<not> dirty (pte ?k a' v') \<longrightarrow> valid (pte ?k a' v') \<longrightarrow> frame ?k (phys ?k a' v') = backing ?k a' v') \<and>
       (\<not> valid (pte ?k a' v') \<longrightarrow> \<not> dirty (pte ?k a' v')) \<and>
       (int v' \<in> bits (bs_pages (srec ?k a')) \<longrightarrow> v' * 128 + 128 \<le> length (sfile ?k a'))"
      using paged_page [OF pg q] P [OF q] V [OF q] B [OF q] L [OF q] k1(5) by auto
  next
    fix a' v' a'' v'' assume q: "is_page k a' v'" "is_page k a'' v''" "valid (pte ?k a' v')" "valid (pte ?k a'' v'')"
      "phys ?k a' v' = phys ?k a'' v''"
    then show "a' = a'' \<and> v' = v''" using paged_inj [OF pg q(1,2)] V by auto
  qed
  moreover have "page_content ?k a' v' = page_content k a' v'" if q: "is_page k a' v'" for a' v'
    using V [OF q] B [OF q] k1(5) val by (auto simp: page_content_def)
  moreover have "layout ?k" by (rule set_pte_layout [OF k1(2) s1])
  moreover have "same_shape k ?k" using k1(3) pages by (simp add: same_shape_def)
  ultimately show ?thesis using k1(1,6-8) V by (intro exI [of _ ?k]) simp
qed

section \<open>The core map\<close>

fun core_chain :: "(nat \<Rightarrow> CorePage option) \<Rightarrow> nat option \<Rightarrow> nat list \<Rightarrow> bool" where
  "core_chain h p [] \<longleftrightarrow> p = None"
| "core_chain h p (q # qs) \<longleftrightarrow> p = Some q \<and> (\<exists>cp. h q = Some cp \<and> core_chain h (cp_next cp) qs)"

definition core_ok :: "'m vm_scheme \<Rightarrow> nat list \<Rightarrow> bool" where
  "core_ok k ps \<longleftrightarrow> core_chain (corePages k) (cm_head (coreMap k)) ps \<and> distinct ps \<and>
     cm_tail (coreMap k) = (if ps = [] then None else Some (last ps)) \<and> cm_size (coreMap k) = int (length ps) \<and> cm_capacity (coreMap k) = 32"

lemma core_chain_upd: "q \<notin> set ps \<Longrightarrow> core_chain (h(q := c)) p ps = core_chain h p ps"
  by (induction ps arbitrary: p) auto

lemma core_chain_get: "core_chain h p ps \<Longrightarrow> q \<in> set ps \<Longrightarrow> \<exists>cp. h q = Some cp"
  by (induction ps arbitrary: p) auto

lemma core_chain_append_one:
  assumes "core_chain h p ps" and "ps \<noteq> []" and "h (last ps) = Some cp" and "distinct ps" and "q \<notin> set ps" and "h q = Some cq" and "cp_next cq = None"
  shows "core_chain (h(last ps \<mapsto> cp\<lparr>cp_next := Some q\<rparr>)) p (ps @ [q])"
  using assms
proof (induction ps arbitrary: p)
  case (Cons x xs)
  show ?case
  proof (cases "xs = []")
    case True
    then show ?thesis using Cons.prems by auto
  next
    case False
    then have "last xs \<in> set xs" by simp
    then have "last xs \<noteq> x" using Cons.prems(4) by auto
    then show ?thesis using Cons False by auto
  qed
qed simp

text \<open>\<open>addCorePage\<close> appends to the list, \<open>evictCorePage\<close> with FIFO replacement takes its head.\<close>

lemma addCorePage_correct:
  assumes ok: "core_ok k ps" and room: "length ps < 32" and q: "q \<notin> set ps" "corePages k q = Some cq" "cp_next cq = None"
  shows "\<exists>h m. addCorePage q k = Inr (0, k\<lparr>corePages := h, coreMap := m\<rparr>) \<and> core_ok (k\<lparr>corePages := h, coreMap := m\<rparr>) (ps @ [q]) \<and>
    (\<forall>p cp. corePages k p = Some cp \<longrightarrow> (\<exists>n. h p = Some (cp\<lparr>cp_next := n\<rparr>)))"
proof (cases "ps = []")
  case True
  let ?m = "(coreMap k)\<lparr>cm_size := cm_size (coreMap k) + 1, cm_head := Some q, cm_tail := Some q\<rparr>"
  have e: "addCorePage q k = Inr (0, k\<lparr>corePages := corePages k, coreMap := ?m\<rparr>)"
    using ok True by (simp add: core_ok_def addCorePage_def Let_def)
  have "core_ok (k\<lparr>corePages := corePages k, coreMap := ?m\<rparr>) (ps @ [q])" using ok True q by (simp add: core_ok_def)
  moreover have "\<exists>n. corePages k p = Some (cp\<lparr>cp_next := n\<rparr>)" if "corePages k p = Some cp" for p cp
    using that by (intro exI [of _ "cp_next cp"]) simp
  ultimately show ?thesis using e by blast
next
  case False
  then obtain cp where cp: "corePages k (last ps) = Some cp" using ok core_chain_get [of "corePages k" _ ps "last ps"] by (auto simp: core_ok_def)
  let ?h = "(corePages k)(last ps \<mapsto> cp\<lparr>cp_next := Some q\<rparr>)"
  let ?m = "(coreMap k)\<lparr>cm_size := cm_size (coreMap k) + 1, cm_tail := Some q\<rparr>"
  obtain hd where ne: "cm_head (coreMap k) = Some hd" using ok False by (cases ps) (auto simp: core_ok_def)
  have "addCorePage q k = Inr (0, k\<lparr>corePages := ?h, coreMap := ?m\<rparr>)"
    using ok False cp ne room by (simp add: core_ok_def addCorePage_def setNext_def get_core_def Let_def)
  moreover have "core_ok (k\<lparr>corePages := ?h, coreMap := ?m\<rparr>) (ps @ [q])"
    using ok core_chain_append_one [OF _ False cp _ q, of "cm_head (coreMap k)"] q(1) by (simp add: core_ok_def)
  moreover have "\<exists>n. ?h p = Some (c\<lparr>cp_next := n\<rparr>)" if "corePages k p = Some c" for p c
  proof (cases "p = last ps")
    case False
    then show ?thesis using that by (intro exI [of _ "cp_next c"]) simp
  qed (use that cp in auto)
  ultimately show ?thesis by blast
qed

lemma evict_FIFO:
  assumes ok: "core_ok k (p # q # ps)" and fifo: "LRU k = 0"
  shows "\<exists>m. evictCorePage k = Some (Inr (Some p, k\<lparr>coreMap := m\<rparr>)) \<and> core_ok (k\<lparr>coreMap := m\<rparr>) (q # ps)"
proof -
  obtain cp where cp: "corePages k p = Some cp" "core_chain (corePages k) (cp_next cp) (q # ps)" using ok by (auto simp: core_ok_def)
  let ?m = "(coreMap k)\<lparr>cm_size := cm_size (coreMap k) - 1, cm_head := cp_next cp\<rparr>"
  have "cm_head (coreMap k) = Some p" "cm_tail (coreMap k) = Some (last (q # ps))" "p \<noteq> last (q # ps)"
    using ok by (auto simp: core_ok_def split: if_splits)
  then have "evictCorePage k = Some (Inr (Some p, k\<lparr>coreMap := ?m\<rparr>))"
    using ok fifo cp by (simp add: evictCorePage_def evict_head_def get_core_def core_ok_def Let_def)
  moreover have "core_ok (k\<lparr>coreMap := ?m\<rparr>) (q # ps)" using ok cp by (auto simp: core_ok_def)
  ultimately show ?thesis by blast
qed

section \<open>The invariant\<close>

text \<open>States with the same pages: they agree on all the fields that \<open>layout\<close>, \<open>paged\<close> and \<open>page_content\<close> depend on.\<close>

definition same_vm :: "'m vm_scheme \<Rightarrow> 'm vm_scheme \<Rightarrow> bool" where
  "same_vm k k' \<longleftrightarrow> spaces k' = spaces k \<and> tables k' = tables k \<and> stores k' = stores k \<and> files k' = files k \<and> openFiles k' = openFiles k \<and>
     stack_junk k' = stack_junk k \<and> mainMemory k' = mainMemory k"

lemma same_vmD:
  assumes "same_vm k k'"
  shows "layout k' = layout k" "paged k' = paged k" "pte k' = pte k" "phys k' = phys k" "is_page k' = is_page k" "backing k' = backing k"
    "page_content k' = page_content k" "frame k' = frame k" "sid k' = sid k"
proof -
  have sel: "the_space k' = the_space k" "ptable k' = ptable k" "entries k' = entries k" "sid k' = sid k" "srec k' = srec k" "sfile k' = sfile k"
    "ename k' = ename k" "econt k' = econt k" "frame k' = frame k"
    using assms by (simp_all add: same_vm_def selectors frame_def fun_eq_iff)
  have "get_file f k' = get_file f k" for f using assms by (simp add: same_vm_def get_file_def split: option.split)
  then have "read_header f k' = read_header f k" for f by (rule read_header_cong) (use assms in \<open>simp add: same_vm_def\<close>)
  then have hd: "header_of k' = header_of k" using sel by (simp add: header_of_def fun_eq_iff)
  show p: "pte k' = pte k" "is_page k' = is_page k" "frame k' = frame k" "sid k' = sid k"
    using sel assms by (simp_all add: pte_def is_page_def fun_eq_iff same_vm_def)
  show ph: "phys k' = phys k" "backing k' = backing k" using p sel hd by (simp_all add: phys_def backing_def fun_eq_iff)
  show "page_content k' = page_content k" using p ph by (simp add: page_content_def fun_eq_iff)
  show "paged k' = paged k" unfolding paged_def p ph sel by simp
  show "layout k' = layout k" using assms unfolding layout_def space_ok_def sel hd by (simp add: same_vm_def)
qed

lemma same_vm_header: "same_vm k k' \<Longrightarrow> header_of k' = header_of k"
proof -
  assume sv: "same_vm k k'"
  have "get_file f k' = get_file f k" for f using sv by (simp add: same_vm_def get_file_def split: option.split)
  then have "read_header f k' = read_header f k" for f by (rule read_header_cong) (use sv in \<open>simp add: same_vm_def\<close>)
  then show ?thesis using sv by (simp add: header_of_def fun_eq_iff same_vm_def the_space_def)
qed

definition cphys :: "'m vm_scheme \<Rightarrow> nat \<Rightarrow> int" where
  "cphys k p = cp_physicalPage (the (corePages k p))"

text \<open>The core map lists exactly the pages in memory, and the memory manager's bitmap has exactly their frames.\<close>

definition owns :: "'m vm_scheme \<Rightarrow> nat \<Rightarrow> nat \<Rightarrow> nat \<Rightarrow> bool" where
  "owns k p a v \<longleftrightarrow> (\<exists>cp. corePages k p = Some cp \<and> is_page k a v \<and> cp_backingStore cp = sid k a \<and> cp_virtualPage cp = int v \<and>
     valid (pte k a v) \<and> phys k a v = cp_physicalPage cp)"

definition frames_ok :: "'m vm_scheme \<Rightarrow> nat list \<Rightarrow> bool" where
  "frames_ok k ps \<longleftrightarrow> (\<forall>p \<in> set ps. \<exists>a v. owns k p a v) \<and> inj_on (cphys k) (set ps) \<and>
     (\<forall>a v. is_page k a v \<longrightarrow> valid (pte k a v) \<longrightarrow> phys k a v \<in> cphys k ` set ps)"

definition mm_ok :: "MemoryManager \<Rightarrow> int set \<Rightarrow> bool" where
  "mm_ok m fs \<longleftrightarrow> \<not> mm_lock m \<and> bitmap_wf (mm_pages m) \<and> numBits (mm_pages m) = 32 \<and> bits (mm_pages m) = fs"

definition vm_inv :: "nat list \<Rightarrow> 'm vm_scheme \<Rightarrow> bool" where
  "vm_inv ps k \<longleftrightarrow> layout k \<and> paged k \<and> core_ok k ps \<and> frames_ok k ps \<and> mm_ok (memoryManager k) (cphys k ` set ps)"

lemma owns_cphys: "owns k p a v \<Longrightarrow> cphys k p = phys k a v"
  by (auto simp: owns_def cphys_def)

lemma mm_ok_alt: "mm_ok m fs \<longleftrightarrow> mm_invar m \<and> numBits (mm_pages m) = 32 \<and> bits (mm_pages m) = fs"
  by (auto simp: mm_ok_def mm_invar_def)

lemma AllocPage_free:
  assumes "mm_ok m fs" and "fs \<noteq> {0..<32}"
  shows "\<exists>f m'. AllocPage m = Inr (f, m') \<and> 0 \<le> f \<and> f < 32 \<and> f \<notin> fs \<and> mm_ok m' (insert f fs)"
  using frames.alloc_fresh [of m] assms by (auto simp: mm_ok_alt)

lemma FreePage_frame:
  assumes "mm_ok m fs" and "0 \<le> f" and "f < 32"
  shows "\<exists>m'. FreePage f m = Inr m' \<and> mm_ok m' (fs - {f})"
  using frames.free_used [of m f] assms by (auto simp: mm_ok_alt)

lemma frames_range: "paged k \<Longrightarrow> frames_ok k ps \<Longrightarrow> p \<in> set ps \<Longrightarrow> 0 \<le> cphys k p \<and> cphys k p < 32"
  using owns_cphys [of k p] paged_page(1,2) [of k] by (fastforce simp: frames_ok_def owns_def)

section \<open>Evicting a page\<close>

text \<open>The memory part of the invariant, without the links of the core map.\<close>

definition vm_mem :: "nat list \<Rightarrow> 'm vm_scheme \<Rightarrow> bool" where
  "vm_mem ps k \<longleftrightarrow> layout k \<and> paged k \<and> frames_ok k ps \<and> mm_ok (memoryManager k) (cphys k ` set ps)"

lemma vm_inv_alt: "vm_inv ps k \<longleftrightarrow> vm_mem ps k \<and> core_ok k ps"
  by (auto simp: vm_inv_def vm_mem_def)

text \<open>Contents are kept, and no page gets valid.\<close>

definition keeps :: "'m vm_scheme \<Rightarrow> 'm vm_scheme \<Rightarrow> bool" where
  "keeps k k' \<longleftrightarrow> same_shape k k' \<and> (\<forall>a v. is_page k a v \<longrightarrow> page_content k' a v = page_content k a v \<and> (valid (pte k' a v) \<longrightarrow> valid (pte k a v)))"

text \<open>Whatever page \<open>p\<close> the replacement policy has unlinked, it is written out and its frame is free.\<close>

lemma evict_one_victim:
  assumes ev: "evictCorePage k0 = Some (Inr (Some p, k))" and inv: "vm_mem (p # ps) k" and pnot: "p \<notin> set ps"
  shows "\<exists>k'. evict_one k0 = Some (Inr k') \<and> vm_mem ps k' \<and> keeps k k' \<and> corePages k' = (corePages k)(p := None) \<and> coreMap k' = coreMap k"
proof -
  have lay: "layout k" and pg: "paged k" and fr: "frames_ok k (p # ps)" and mm: "mm_ok (memoryManager k) (cphys k ` set (p # ps))"
    using inv by (simp_all add: vm_mem_def)
  obtain a v where own: "owns k p a v" using fr by (auto simp: frames_ok_def)
  then obtain cp where cp: "corePages k p = Some cp" "is_page k a v" "cp_backingStore cp = sid k a" "cp_virtualPage cp = int v"
    "valid (pte k a v)" "phys k a v = cp_physicalPage cp" by (auto simp: owns_def)
  obtain k2 where k2: "pageOut (sid k a) (int v) k = Inr k2" "layout k2" "paged k2" "same_shape k k2" "coreMap k2 = coreMap k"
    "corePages k2 = corePages k" "memoryManager k2 = memoryManager k"
    and P: "\<And>a' v'. is_page k a' v' \<Longrightarrow> page_content k2 a' v' = page_content k a' v' \<and> phys k2 a' v' = phys k a' v' \<and>
       valid (pte k2 a' v') = (valid (pte k a' v') \<and> \<not> (a' = a \<and> v' = v))"
    using pageOut_correct [OF lay pg cp(2,5)] by auto
  have phys: "0 \<le> cp_physicalPage cp" "cp_physicalPage cp < 32" using paged_page(1,2) [OF pg cp(2,5)] cp(6) by simp_all
  obtain mm' where mm': "FreePage (cp_physicalPage cp) (memoryManager k) = Inr mm'"
    "mm_ok mm' (cphys k ` set (p # ps) - {cp_physicalPage cp})" using FreePage_frame [OF mm phys] by blast
  let ?k' = "k2\<lparr>memoryManager := mm', corePages := (corePages k2)(p := None)\<rparr>"
  have sv: "same_vm k2 ?k'" by (simp add: same_vm_def)
  note S' = same_vmD [OF sv]
  have sh: "same_shape k ?k'" using k2(4) S'(5,9) by (simp add: same_shape_def)
  have run: "evict_one k0 = Some (Inr ?k')"
    using ev cp k2(1,7) mm'(1) by (simp add: evict_one_def get_core_def)
  have cph: "cphys ?k' r = cphys k r" if "r \<in> set ps" for r using that pnot k2(6) by (auto simp: cphys_def)
  have img: "cphys ?k' ` set ps = cphys k ` set ps" using cph by (rule image_cong [OF HOL.refl])
  have inj: "inj_on (cphys k) (set (p # ps))" using fr by (simp add: frames_ok_def)
  have cpp: "cphys k p = cp_physicalPage cp" using cp(1) by (simp add: cphys_def)
  have rest: "cphys k ` set (p # ps) - {cp_physicalPage cp} = cphys k ` set ps"
    using inj pnot unfolding cpp [symmetric] by (auto simp: inj_on_def)
  have "frames_ok ?k' ps"
    unfolding frames_ok_def
  proof (intro conjI ballI allI impI)
    fix r assume r: "r \<in> set ps"
    then have r': "r \<in> set (p # ps)" by simp
    obtain a' v' where o': "owns k r a' v'" using fr r' unfolding frames_ok_def by blast
    then obtain c where c: "corePages k r = Some c" "is_page k a' v'" "cp_backingStore c = sid k a'" "cp_virtualPage c = int v'"
      "valid (pte k a' v')" "phys k a' v' = cp_physicalPage c" by (auto simp: owns_def)
    have "\<not> (a' = a \<and> v' = v)" using inj r r' pnot owns_cphys [OF own] owns_cphys [OF o'] by (auto simp: inj_on_def)
    then have "valid (pte ?k' a' v')" "phys ?k' a' v' = phys k a' v'" using P [OF c(2)] c(5) S'(3,4) by simp_all
    moreover have "is_page ?k' a' v'" "sid ?k' = sid k" using sh c(2) by (simp_all add: same_shape_def)
    moreover have "corePages ?k' r = Some c" using c(1) k2(6) r pnot by auto
    ultimately show "\<exists>a v. owns ?k' r a v" using c unfolding owns_def by auto
  next
    show "inj_on (cphys ?k') (set ps)" using inj cph by (simp add: inj_on_def)
    fix a' v' assume "is_page ?k' a' v'" and val: "valid (pte ?k' a' v')"
    then have q: "is_page k a' v'" using sh by (simp add: same_shape_def)
    have w: "valid (pte k a' v')" "\<not> (a' = a \<and> v' = v)" "phys ?k' a' v' = phys k a' v'" using P [OF q] val S'(3,4) by auto
    then have "phys k a' v' \<in> cphys k ` set (p # ps)" using fr q by (simp add: frames_ok_def)
    moreover have "phys k a' v' \<noteq> cphys k p" using paged_inj [OF pg cp(2) q cp(5) w(1)] w(2) cpp cp(6) by auto
    ultimately show "phys ?k' a' v' \<in> cphys ?k' ` set ps" unfolding img w(3) by auto
  qed
  then have "vm_mem ps ?k'" using k2(2,3) S' mm'(2) unfolding vm_mem_def rest img by simp
  moreover have "keeps k ?k'" unfolding keeps_def using P S'(3,7) sh by simp
  ultimately show ?thesis using run k2(5,6) by auto
qed

lemma core_ok_forget: "core_ok k ps \<Longrightarrow> p \<notin> set ps \<Longrightarrow> corePages k' = (corePages k)(p := None) \<Longrightarrow> coreMap k' = coreMap k \<Longrightarrow> core_ok k' ps"
  by (simp add: core_ok_def core_chain_upd)

lemma evict_one_correct:
  assumes inv: "vm_inv (p # q # ps) k" and fifo: "LRU k = 0"
  shows "\<exists>k'. evict_one k = Some (Inr k') \<and> vm_inv (q # ps) k' \<and> keeps k k'"
proof -
  have core: "core_ok k (p # q # ps)" and mem: "vm_mem (p # q # ps) k" using inv by (simp_all add: vm_inv_alt)
  obtain m where m: "evictCorePage k = Some (Inr (Some p, k\<lparr>coreMap := m\<rparr>))" "core_ok (k\<lparr>coreMap := m\<rparr>) (q # ps)"
    using evict_FIFO [OF core fifo] by blast
  let ?k1 = "k\<lparr>coreMap := m\<rparr>"
  have "same_vm k ?k1" by (simp add: same_vm_def)
  note S = same_vmD [OF this]
  have mem1: "vm_mem (p # q # ps) ?k1" using mem S by (simp add: vm_mem_def frames_ok_def owns_def cphys_def inj_on_def)
  have pnot: "p \<notin> set (q # ps)" using core by (simp add: core_ok_def)
  obtain k' where k': "evict_one k = Some (Inr k')" "vm_mem (q # ps) k'" "keeps ?k1 k'" "corePages k' = (corePages ?k1)(p := None)" "coreMap k' = coreMap ?k1"
    using evict_one_victim [OF m(1) mem1 pnot] by blast
  have "keeps k k'" using k'(3) S by (simp add: keeps_def same_shape_def)
  then show ?thesis using k'(1,2) core_ok_forget [OF m(2) pnot k'(4,5)] by (auto simp: vm_inv_alt)
qed

section \<open>Loading a page\<close>

text \<open>The frame of an invalid page is filled with its copy: from the executable or from the backing store.\<close>

lemma memory_backing [simp]: "backing (k\<lparr>mainMemory := m\<rparr>) = backing k"
  by (simp add: backing_def fun_eq_iff)

lemma load_image:
  assumes lay: "layout k" and p: "is_page k a v" and f: "phys k a v = f" "0 \<le> f" "f < 32" and zero: "frame k f = replicate 128 0"
    and out: "int v \<notin> bits (bs_pages (srec k a))"
  shows "\<exists>fl m. fill_page PageSize (the_space k a) (header_of k a) (int v) False k = Inr (fl, k\<lparr>mainMemory := m\<rparr>) \<and> length m = 4096 \<and>
    (\<forall>h. 0 \<le> h \<longrightarrow> h < 32 \<longrightarrow> frame (k\<lparr>mainMemory := m\<rparr>) h = (if h = f then backing k a v else frame k h))"
proof -
  have z: "\<forall>i. 0 \<le> i \<longrightarrow> i < 128 \<longrightarrow> frame k f ! i = 0" using zero by simp
  have b: "frame_done 0 a v f k = backing k a v" using out by (simp add: backing_def frame_done_none)
  show ?thesis using fill_page_correct [OF lay p f, of 128 0 False] z unfolding b page_const by simp
qed

lemma load_store:
  assumes lay: "layout k" and p: "is_page k a v" and f: "phys k a v = f" "0 \<le> f" "f < 32"
    and inn: "int v \<in> bits (bs_pages (srec k a))" and len: "v * 128 + 128 \<le> length (sfile k a)"
  shows "\<exists>m. pageIn (sid k a) (int v) k = Inr (set_pte a v ((pte k a v)\<lparr>valid := True\<rparr>) (k\<lparr>mainMemory := m\<rparr>)) \<and> length m = 4096 \<and>
    (\<forall>h. 0 \<le> h \<longrightarrow> h < 32 \<longrightarrow> frame (k\<lparr>mainMemory := m\<rparr>) h = (if h = f then backing k a v else frame k h))"
proof -
  note D = layoutD [OF lay page_space [OF p]]
  let ?bs = "file_bytes (sfile k a) (v * 128) 128"
  have b: "backing k a v = ?bs" "length ?bs = 128" using inn len by (simp_all add: backing_def file_bytes_def)
  obtain m where m: "store_bytes (f * int PageSize) ?bs k = Inr (k\<lparr>mainMemory := m\<rparr>)" "length m = 4096"
    "\<forall>h. 0 \<le> h \<longrightarrow> h < 32 \<longrightarrow> frame (k\<lparr>mainMemory := m\<rparr>) h = (if h = f then ?bs else frame k h)"
    using store_frame [OF layout_memory [OF lay] f(2,3) b(2)] by blast
  have lay1: "layout (k\<lparr>mainMemory := m\<rparr>)" and p1: "is_page (k\<lparr>mainMemory := m\<rparr>) a v" using memory_layout [OF lay m(2)] p by simp_all
  have fb: "frame_base (pte k a v) = f * int PageSize" using f(1) by (simp add: frame_base_def phys_def)
  have "pageIn (sid k a) (int v) k = Inr (set_pte a v ((pte k a v)\<lparr>valid := True\<rparr>) (k\<lparr>mainMemory := m\<rparr>))"
    using D get_pte_entry [OF lay p] m(1) fb put_pte_entry [OF lay1 p1, unfolded memory_fields]
    by (simp add: pageIn_def get_store_def get_space_def nat_mult_distrib)
  then show ?thesis using m(2,3) b(1) by auto
qed

text \<open>The result of the two ways: the entry gets valid and the frame gets the copy.\<close>

definition holds_copy :: "nat \<Rightarrow> nat \<Rightarrow> int \<Rightarrow> 'm vm_scheme \<Rightarrow> 'm vm_scheme \<Rightarrow> bool" where
  "holds_copy a v f k k' \<longleftrightarrow> layout k' \<and> same_shape k k' \<and> backing k' = backing k \<and> srec k' = srec k \<and> sfile k' = sfile k \<and>
     corePages k' = corePages k \<and> coreMap k' = coreMap k \<and> memoryManager k' = memoryManager k \<and>
     (\<forall>h. 0 \<le> h \<longrightarrow> h < 32 \<longrightarrow> frame k' h = (if h = f then backing k a v else frame k h)) \<and>
     (\<forall>a' v'. is_page k a' v' \<longrightarrow> pte k' a' v' = (if a' = a \<and> v' = v then (pte k a v)\<lparr>valid := True\<rparr> else pte k a' v'))"

lemma stats_same: "same_vm k (k\<lparr>stats := sts\<rparr>)"
  by (simp add: same_vm_def)

lemma same_vm_trans: "same_vm k k1 \<Longrightarrow> same_vm k1 k2 \<Longrightarrow> same_vm k k2"
  by (simp add: same_vm_def)

lemma same_vm_sel: "same_vm k k' \<Longrightarrow> the_space k' = the_space k \<and> ptable k' = ptable k \<and> entries k' = entries k \<and> srec k' = srec k \<and> sfile k' = sfile k \<and> econt k' = econt k"
  by (simp add: same_vm_def selectors fun_eq_iff)

lemma set_valid_again:
  assumes lay: "layout k" and p: "is_page k a v"
  shows "bindR (get_pte (sp_pageTable (the_space k a)) (int v) k) (\<lambda>e. bindR (put_pte (sp_pageTable (the_space k a)) (int v) (e\<lparr>valid := True\<rparr>) k) (\<lambda>k. Inr (0, k))) =
    Inr (0, set_pte a v ((pte k a v)\<lparr>valid := True\<rparr>) k)"
  using get_pte_entry [OF lay p] put_pte_entry [OF lay p] by simp

lemma holds_copyI:
  assumes lay: "layout k" and p: "is_page k a v" and m: "length m = 4096"
    and fr: "\<forall>h. 0 \<le> h \<longrightarrow> h < 32 \<longrightarrow> frame (k\<lparr>mainMemory := m\<rparr>) h = (if h = f then backing k a v else frame k h)"
    and sv: "same_vm (k\<lparr>mainMemory := m\<rparr>) k1" "currentThread k1 = currentThread k" "threads k1 = threads k" "LRU k1 = LRU k" "registers k1 = registers k"
      "corePages k1 = corePages k" "coreMap k1 = coreMap k" "memoryManager k1 = memoryManager k"
  shows "holds_copy a v f k (set_pte a v ((pte k a v)\<lparr>valid := True\<rparr>) k1)"
proof -
  note S = same_vmD [OF sv(1)]
  have lay1: "layout k1" using S(1) memory_layout [OF lay m] by simp
  have p1: "is_page k1 = is_page k" using S(5) by simp
  have s1: "spaces k1 = spaces k" using sv(1) by (simp add: same_vm_def)
  have P: "pte (set_pte a v ((pte k a v)\<lparr>valid := True\<rparr>) k1) a' v' = (if a' = a \<and> v' = v then (pte k a v)\<lparr>valid := True\<rparr> else pte k a' v')"
    if "is_page k a' v'" for a' v' using set_pte_pte [OF lay1, of a v a' v'] p that S(3) p1 by simp
  have "same_shape k (set_pte a v ((pte k a v)\<lparr>valid := True\<rparr>) k1)"
    using sv(2-5) s1 S(9) lay1 p1 page_space [OF p] by (simp add: same_shape_def)
  then show ?thesis
    unfolding holds_copy_def using P lay1 s1 page_space [OF p] sv(6-8) fr S(6,8) same_vm_sel [OF sv(1)]
    by (simp add: set_pte_layout)
qed

lemma set_pte_twice:
  assumes "layout k" and "spaces k a \<noteq> None"
  shows "set_pte a v e (count_page_in (set_pte a v e' k)) = set_pte a v e (count_page_in k)"
proof -
  have "entries (count_page_in (set_pte a v e' k)) a = (entries k a)[v := e']"
    using set_pte_entries [OF assms assms(2)] by (simp add: count_page_in_def entries_def ptable_def the_space_def)
  then show ?thesis by (simp add: set_pte_def count_page_in_def entries_def ptable_def the_space_def)
qed

lemma count_page_in_same:
  "same_vm k (count_page_in k)" "currentThread (count_page_in k) = currentThread k" "threads (count_page_in k) = threads k"
  "LRU (count_page_in k) = LRU k" "registers (count_page_in k) = registers k" "corePages (count_page_in k) = corePages k"
  "coreMap (count_page_in k) = coreMap k" "memoryManager (count_page_in k) = memoryManager k"
  by (simp_all add: count_page_in_def same_vm_def)

text \<open>The second half of \<open>allocVirtualPage\<close>.\<close>

definition load_copy :: "nat \<Rightarrow> nat \<Rightarrow> 'm vm_scheme \<Rightarrow> (int \<times> 'm vm_scheme) res" where
  "load_copy a v k =
     bindR (get_store (sid k a) k) (\<lambda>b.
     bindR (contains (int v) b) (\<lambda>there.
     bindR (if \<not> there
            then bindR (fill_page PageSize (the_space k a) (header_of k a) (int v) False k) (\<lambda>(flag, k). Inr (if flag then count_page_in k else k))
            else bindR (pageIn (sid k a) (int v) k) (\<lambda>k. Inr (count_page_in k))) (\<lambda>k'.
     bindR (get_pte (sp_pageTable (the_space k a)) (int v) k') (\<lambda>e.
     bindR (put_pte (sp_pageTable (the_space k a)) (int v) (e\<lparr>valid := True\<rparr>) k') (\<lambda>k'. Inr (0, k'))))))"

lemma load_copy_correct:
  assumes lay: "layout k" and p: "is_page k a v" and f: "phys k a v = f" "0 \<le> f" "f < 32" and zero: "frame k f = replicate 128 0"
    and len: "int v \<in> bits (bs_pages (srec k a)) \<Longrightarrow> v * 128 + 128 \<le> length (sfile k a)"
  shows "\<exists>k'. load_copy a v k = Inr (0, k') \<and> holds_copy a v f k k'"
proof -
  note D = layoutD [OF lay page_space [OF p]]
  have c: "contains (int v) (srec k a) = Inr (int v \<in> bits (bs_pages (srec k a)))"
    using Test_correct [OF D(7)] page_bit [OF lay p] by (simp add: contains_def)
  show ?thesis
  proof (cases "int v \<in> bits (bs_pages (srec k a))")
    case False
    obtain fl m where m: "fill_page PageSize (the_space k a) (header_of k a) (int v) False k = Inr (fl, k\<lparr>mainMemory := m\<rparr>)" "length m = 4096"
      "\<forall>h. 0 \<le> h \<longrightarrow> h < 32 \<longrightarrow> frame (k\<lparr>mainMemory := m\<rparr>) h = (if h = f then backing k a v else frame k h)"
      using load_image [OF lay p f zero False] by blast
    let ?k1 = "if fl then count_page_in (k\<lparr>mainMemory := m\<rparr>) else k\<lparr>mainMemory := m\<rparr>"
    have sv: "same_vm (k\<lparr>mainMemory := m\<rparr>) ?k1" by (simp add: same_vm_def count_page_in_def)
    note S = same_vmD [OF sv] same_vm_sel [OF sv]
    have lay1: "layout ?k1" "is_page ?k1 a v" using S(1,5) memory_layout [OF lay m(2)] p by simp_all
    have sp: "the_space ?k1 = the_space k" "pte ?k1 = pte k" using S(3,10) by simp_all
    have "load_copy a v k = Inr (0, set_pte a v ((pte k a v)\<lparr>valid := True\<rparr>) ?k1)"
      using D(5) c False m(1) set_valid_again [OF lay1, unfolded sp]
      by (simp add: load_copy_def get_store_def)
    moreover have "holds_copy a v f k (set_pte a v ((pte k a v)\<lparr>valid := True\<rparr>) ?k1)"
      by (rule holds_copyI [OF lay p m(2,3) sv]) (simp_all add: count_page_in_same)
    ultimately show ?thesis by blast
  next
    case True
    obtain m where m: "pageIn (sid k a) (int v) k = Inr (set_pte a v ((pte k a v)\<lparr>valid := True\<rparr>) (k\<lparr>mainMemory := m\<rparr>))" "length m = 4096"
      "\<forall>h. 0 \<le> h \<longrightarrow> h < 32 \<longrightarrow> frame (k\<lparr>mainMemory := m\<rparr>) h = (if h = f then backing k a v else frame k h)"
      using load_store [OF lay p f True len [OF True]] by blast
    let ?e = "(pte k a v)\<lparr>valid := True\<rparr>" and ?k0 = "k\<lparr>mainMemory := m\<rparr>"
    let ?k1 = "count_page_in (set_pte a v ?e ?k0)"
    have lay0: "layout ?k0" "is_page ?k0 a v" "spaces ?k0 a \<noteq> None" using memory_layout [OF lay m(2)] p page_space [OF p] by simp_all
    have lay': "layout (set_pte a v ?e ?k0)" "is_page (set_pte a v ?e ?k0) a v" using set_pte_layout [OF lay0(1,3)] lay0 by simp_all
    note S = same_vmD [OF count_page_in_same(1) [of "set_pte a v ?e ?k0"]] same_vm_sel [OF count_page_in_same(1) [of "set_pte a v ?e ?k0"]]
    have lay1: "layout ?k1" "is_page ?k1 a v" using S(1,5) lay' by simp_all
    have sp: "the_space ?k1 = the_space k" using S(10) by simp
    have pt: "(pte ?k1 a v)\<lparr>valid := True\<rparr> = ?e" using S(3) set_pte_pte [OF lay0(1,2,2)] by simp
    have "load_copy a v k = Inr (0, set_pte a v ?e (count_page_in ?k0))"
      using D(5) c True m(1) set_valid_again [OF lay1, unfolded sp pt] set_pte_twice [OF lay0(1,3)]
      by (simp add: load_copy_def get_store_def)
    moreover have "holds_copy a v f k (set_pte a v ?e (count_page_in ?k0))"
      by (rule holds_copyI [OF lay p m(2,3) count_page_in_same(1)]) (simp_all add: count_page_in_same)
    ultimately show ?thesis by blast
  qed
qed

text \<open>The first half: a frame is taken, entered in the core map and in the page table, and cleared.\<close>

lemma frame_number: "0 \<le> f \<Longrightarrow> f < 32 \<Longrightarrow> sint (word_of_int f :: 32 word) = f"
  by (simp add: signed_take_bit_int_eq_self sint_sbintrunc')

definition took :: "nat list \<Rightarrow> nat \<Rightarrow> nat \<Rightarrow> nat \<Rightarrow> int \<Rightarrow> 'm vm_scheme \<Rightarrow> 'm vm_scheme \<Rightarrow> bool" where
  "took ps q a v f k k' \<longleftrightarrow> 0 \<le> f \<and> f < 32 \<and> f \<notin> cphys k ` set ps \<and> mm_ok (memoryManager k') (insert f (cphys k ` set ps)) \<and>
     core_ok k' (ps @ [q]) \<and> (\<exists>n. corePages k' q = Some ((CorePage_new (sid k a) f (int v))\<lparr>cp_next := n\<rparr>)) \<and>
     (\<forall>p \<in> set ps. \<forall>cp. corePages k p = Some cp \<longrightarrow> (\<exists>n. corePages k' p = Some (cp\<lparr>cp_next := n\<rparr>))) \<and>
     same_vm k k' \<and> same_shape k k'"

lemma take_frame:
  assumes inv: "vm_inv ps k" and room: "length ps < 32" and q: "q \<notin> set ps"
  shows "\<exists>f mm k'. AllocPage (memoryManager k) = Inr (f, mm) \<and>
     addCorePage q (k\<lparr>memoryManager := mm, corePages := (corePages k)(q \<mapsto> CorePage_new (sid k a) f (int v))\<rparr>) = Inr (0, k') \<and>
     took ps q a v f k k'"
proof -
  have core: "core_ok k ps" and mm: "mm_ok (memoryManager k) (cphys k ` set ps)" using inv by (simp_all add: vm_inv_def)
  have "card (cphys k ` set ps) < 32" using room card_image_le [of "set ps" "cphys k"] card_length [of ps] by simp
  then have "cphys k ` set ps \<noteq> {0..<32}" by auto
  then obtain f mm' where f: "AllocPage (memoryManager k) = Inr (f, mm')" "0 \<le> f" "f < 32" "f \<notin> cphys k ` set ps"
    "mm_ok mm' (insert f (cphys k ` set ps))" using AllocPage_free [OF mm] by blast
  define c where "c = CorePage_new (sid k a) f (int v)"
  define k1 where "k1 = k\<lparr>memoryManager := mm', corePages := (corePages k)(q \<mapsto> c)\<rparr>"
  have k1: "coreMap k1 = coreMap k" "corePages k1 = (corePages k)(q \<mapsto> c)" "cp_next c = None" by (simp_all add: k1_def c_def CorePage_new_def)
  have "core_ok k1 ps" using core core_chain_upd [OF q, of "corePages k" "Some c"] by (simp add: core_ok_def k1)
  then obtain h m where h: "addCorePage q k1 = Inr (0, k1\<lparr>corePages := h, coreMap := m\<rparr>)" "core_ok (k1\<lparr>corePages := h, coreMap := m\<rparr>) (ps @ [q])"
    "\<forall>p' cp. corePages k1 p' = Some cp \<longrightarrow> (\<exists>n. h p' = Some (cp\<lparr>cp_next := n\<rparr>))"
    using addCorePage_correct [of k1 ps q c] room q k1 by auto
  have "\<exists>n. h p' = Some (cp\<lparr>cp_next := n\<rparr>)" if "p' \<in> set ps" "corePages k p' = Some cp" for p' cp
  proof -
    have "p' \<noteq> q" using that(1) q by auto
    then have "corePages k1 p' = Some cp" using that(2) k1 by simp
    then show ?thesis using h(3) by blast
  qed
  moreover have "\<exists>n. h q = Some (c\<lparr>cp_next := n\<rparr>)" using h(3) k1 by simp
  moreover have "same_vm k (k1\<lparr>corePages := h, coreMap := m\<rparr>)" by (simp add: same_vm_def k1_def)
  moreover from same_vmD(5,9) [OF this] have "same_shape k (k1\<lparr>corePages := h, coreMap := m\<rparr>)" by (simp add: same_shape_def k1_def)
  moreover have "memoryManager (k1\<lparr>corePages := h, coreMap := m\<rparr>) = mm'" "corePages (k1\<lparr>corePages := h, coreMap := m\<rparr>) = h" by (simp_all add: k1_def)
  ultimately have "took ps q a v f k (k1\<lparr>corePages := h, coreMap := m\<rparr>)"
    using f(2-5) h(2) unfolding took_def c_def by (simp only:) blast
  then show ?thesis using f(1) h(1) unfolding k1_def c_def by blast
qed

text \<open>The invariant after a page has got a frame with its copy.\<close>

lemma vm_inv_loaded:
  assumes inv: "vm_inv ps k" and p: "is_page k a v" and inval: "\<not> valid (pte k a v)" and q: "q \<notin> set ps"
    and f: "0 \<le> f" "f < 32" "f \<notin> cphys k ` set ps"
    and lay': "layout k'" and sh: "same_shape k k'" and bk: "backing k' = backing k" "srec k' = srec k" "sfile k' = sfile k"
    and fr': "\<And>h. 0 \<le> h \<Longrightarrow> h < 32 \<Longrightarrow> frame k' h = (if h = f then backing k a v else frame k h)"
    and P: "\<And>a' v'. is_page k a' v' \<Longrightarrow> pte k' a' v' =
      (if a' = a \<and> v' = v then (pte k a v)\<lparr>physicalPage := word_of_int f, valid := True\<rparr> else pte k a' v')"
    and core': "core_ok k' (ps @ [q])" and mm': "mm_ok (memoryManager k') (insert f (cphys k ` set ps))"
    and cq: "\<exists>n. corePages k' q = Some ((CorePage_new (sid k a) f (int v))\<lparr>cp_next := n\<rparr>)"
    and cps: "\<And>p' cp. p' \<in> set ps \<Longrightarrow> corePages k p' = Some cp \<Longrightarrow> \<exists>n. corePages k' p' = Some (cp\<lparr>cp_next := n\<rparr>)"
  shows "vm_inv (ps @ [q]) k' \<and> (\<forall>a' v'. is_page k a' v' \<longrightarrow> page_content k' a' v' = page_content k a' v')"
proof -
  have lay: "layout k" and pg: "paged k" and fr: "frames_ok k ps" using inv by (simp_all add: vm_inv_def)
  have pages: "is_page k' a' v' = is_page k a' v'" for a' v' using sh by (simp add: same_shape_def)
  have ph: "phys k' a' v' = (if a' = a \<and> v' = v then f else phys k a' v')" if "is_page k a' v'" for a' v'
    using P [OF that] frame_number [OF f(1,2)] by (simp add: phys_def)
  have notf: "phys k a' v' \<noteq> f" if "is_page k a' v'" "valid (pte k a' v')" for a' v'
    using fr that f(3) by (auto simp: frames_ok_def)
  have pg': "paged k'"
  proof (rule pagedI; unfold pages)
    fix a' v' assume r: "is_page k a' v'"
    show "(valid (pte k' a' v') \<longrightarrow> 0 \<le> phys k' a' v' \<and> phys k' a' v' < 32) \<and>
       (\<not> dirty (pte k' a' v') \<longrightarrow> valid (pte k' a' v') \<longrightarrow> frame k' (phys k' a' v') = backing k' a' v') \<and>
       (\<not> valid (pte k' a' v') \<longrightarrow> \<not> dirty (pte k' a' v')) \<and>
       (int v' \<in> bits (bs_pages (srec k' a')) \<longrightarrow> v' * 128 + 128 \<le> length (sfile k' a'))"
      using paged_page [OF pg r] P [OF r] ph [OF r] f fr' notf [OF r] bk by (cases "a' = a \<and> v' = v") auto
  next
    fix a1 v1 a2 v2 assume r: "is_page k a1 v1" "is_page k a2 v2" "valid (pte k' a1 v1)" "valid (pte k' a2 v2)" "phys k' a1 v1 = phys k' a2 v2"
    show "a1 = a2 \<and> v1 = v2"
    proof -
      have x: "valid (pte k a1 v1)" "phys k a1 v1 \<noteq> f" if "\<not> (a1 = a \<and> v1 = v)"
        using r(3) P [OF r(1)] notf [OF r(1)] that by (auto simp del: de_Morgan_conj)
      have y: "valid (pte k a2 v2)" "phys k a2 v2 \<noteq> f" if "\<not> (a2 = a \<and> v2 = v)"
        using r(4) P [OF r(2)] notf [OF r(2)] that by (auto simp del: de_Morgan_conj)
      have e: "(if a1 = a \<and> v1 = v then f else phys k a1 v1) = (if a2 = a \<and> v2 = v then f else phys k a2 v2)"
        using r(5) unfolding ph [OF r(1)] ph [OF r(2)] .
      consider "a1 = a \<and> v1 = v" "a2 = a \<and> v2 = v" | "a1 = a \<and> v1 = v" "\<not> (a2 = a \<and> v2 = v)" | "\<not> (a1 = a \<and> v1 = v)" "a2 = a \<and> v2 = v"
        | "\<not> (a1 = a \<and> v1 = v)" "\<not> (a2 = a \<and> v2 = v)" by blast
      then show ?thesis
      proof cases
        case 2
        then have "f = phys k a2 v2" using e by (simp only: if_True if_False simp_thms)
        then show ?thesis using y(2) [OF 2(2)] by simp
      next
        case 3
        then have "phys k a1 v1 = f" using e by (simp only: if_True if_False simp_thms)
        then show ?thesis using x(2) [OF 3(1)] by simp
      next
        case 4
        then have "phys k a2 v2 = phys k a1 v1" using e by (simp only: if_True if_False simp_thms)
        then show ?thesis by (rule paged_inj [OF pg r(2,1) y(1) [OF 4(2)] x(1) [OF 4(1)]])
      qed simp
    qed
  qed
  have own: "\<exists>a v. owns k' p' a v" "cphys k' p' = cphys k p'" if r: "p' \<in> set ps" for p'
  proof -
    obtain a' v' c where c: "corePages k p' = Some c" "is_page k a' v'" "cp_backingStore c = sid k a'" "cp_virtualPage c = int v'"
      "valid (pte k a' v')" "phys k a' v' = cp_physicalPage c" using fr r unfolding frames_ok_def owns_def by blast
    obtain n where n: "corePages k' p' = Some (c\<lparr>cp_next := n\<rparr>)" using cps [OF r c(1)] by blast
    have "\<not> (a' = a \<and> v' = v)" using c(5) inval by blast
    then have "pte k' a' v' = pte k a' v'" "phys k' a' v' = phys k a' v'" using P [OF c(2)] ph [OF c(2)] by (simp_all only: if_False)
    then have "owns k' p' a' v'" using c n pages sh unfolding owns_def same_shape_def by simp
    then show "\<exists>a v. owns k' p' a v" by blast
    show "cphys k' p' = cphys k p'" using c(1) n by (simp add: cphys_def)
  qed
  have ownq: "owns k' q a v" "cphys k' q = f"
  proof -
    obtain n where "corePages k' q = Some ((CorePage_new (sid k a) f (int v))\<lparr>cp_next := n\<rparr>)" using cq by blast
    moreover have "valid (pte k' a v)" "phys k' a v = f" using P [OF p] ph [OF p] by simp_all
    moreover have "is_page k' a v" "sid k' = sid k" using pages p sh by (simp_all add: same_shape_def)
    ultimately show "owns k' q a v" "cphys k' q = f" by (simp_all add: owns_def cphys_def CorePage_new_def)
  qed
  have img: "cphys k' ` set (ps @ [q]) = insert f (cphys k ` set ps)" using own(2) ownq(2) by simp
  have "frames_ok k' (ps @ [q])"
    unfolding frames_ok_def img
  proof (intro conjI ballI allI impI)
    show "\<exists>a v. owns k' p' a v" if "p' \<in> set (ps @ [q])" for p' using that own(1) ownq(1) by auto
    have "inj_on (cphys k) (set ps)" using fr by (simp add: frames_ok_def)
    then have "inj_on (cphys k') (set ps)" using own(2) by (simp add: inj_on_def)
    moreover have "f \<notin> cphys k' ` set ps" using own(2) f(3) by simp
    ultimately show "inj_on (cphys k') (set (ps @ [q]))" using ownq(2) q by simp
    show "phys k' a' v' \<in> insert f (cphys k ` set ps)" if r: "is_page k' a' v'" "valid (pte k' a' v')" for a' v'
    proof (cases "a' = a \<and> v' = v")
      case False
      have r': "is_page k a' v'" using r(1) pages by simp
      have "valid (pte k a' v')" "phys k' a' v' = phys k a' v'" using r(2) P [OF r'] ph [OF r'] False by (simp_all only: if_False)
      then show ?thesis using fr r' by (simp add: frames_ok_def)
    qed (use ph [OF p] in simp)
  qed
  then have "vm_inv (ps @ [q]) k'" using lay' pg' core' mm' unfolding vm_inv_def img by simp
  moreover have "page_content k' a' v' = page_content k a' v'" if r: "is_page k a' v'" for a' v'
    using P [OF r] ph [OF r] fr' f inval paged_page(1,2) [OF pg r] notf [OF r] bk(1) by (auto simp: page_content_def)
  ultimately show ?thesis by blast
qed

text \<open>The two halves together.\<close>

lemma header_read:
  assumes "layout k" and "spaces k a \<noteq> None"
  shows "read_header (currentExecutable (the_space k a)) k = Inr (header_of k a)"
  using layoutD(10,11) [OF assms] by (simp add: header_of_def read_header_def OpenFile_ReadAt_def get_file_def Let_def)

lemma allocVirtualPage_halves:
  assumes lay: "layout k" and p: "is_page k a v" and va: "v = unat va div 128"
    and al: "AllocPage (memoryManager k) = Inr (f, mm)"
    and ad: "addCorePage q (k\<lparr>memoryManager := mm, corePages := (corePages k)(q \<mapsto> CorePage_new (sid k a) f (int v))\<rparr>) = Inr (0, k1)"
    and sv: "same_vm k k1"
    and st: "store_bytes (f * int PageSize) (replicate PageSize 0) (set_pte a v ((pte k a v)\<lparr>physicalPage := word_of_int f\<rparr>) k1) = Inr k3"
    and same: "the_space k3 = the_space k" "sid k3 = sid k" "header_of k3 = header_of k"
  shows "allocVirtualPage q a va k = load_copy a v k3"
proof -
  note D = layoutD [OF lay page_space [OF p]] and S = same_vmD [OF sv] and T = same_vm_sel [OF sv]
  have vpn: "uint (va div of_nat PageSize) = int v" using va by (simp add: uint_div zdiv_int)
  have ok: "noffMagic (header_of k a) = NOFFMAGIC" using D(12) by (simp add: header_ok_def)
  have lay1: "layout k1" "is_page k1 a v" using S(1,5) lay p by simp_all
  have pt: "get_pte (sp_pageTable (the_space k a)) (int v) k1 = Inr (pte k a v)"
    "put_pte (sp_pageTable (the_space k a)) (int v) e k1 = Inr (set_pte a v e k1)" for e
    using get_pte_entry [OF lay1] put_pte_entry [OF lay1, of e] S(3) T by simp_all
  show ?thesis
    unfolding allocVirtualPage_def load_copy_def get_space_def D(1) same vpn
    using header_read [OF lay page_space [OF p]] ok al ad pt st D(4) by (simp add: Let_def del: page_const)
qed

lemma allocVirtualPage_correct:
  assumes inv: "vm_inv ps k" and room: "length ps < 32" and q: "q \<notin> set ps" and p: "is_page k a v" and va: "v = unat va div 128"
    and inval: "\<not> valid (pte k a v)"
  shows "\<exists>k'. allocVirtualPage q a va k = Inr (0, k') \<and> vm_inv (ps @ [q]) k' \<and> same_shape k k' \<and> valid (pte k' a v) \<and>
    (\<forall>a' v'. is_page k a' v' \<longrightarrow> page_content k' a' v' = page_content k a' v')"
proof -
  have lay: "layout k" and pg: "paged k" using inv by (simp_all add: vm_inv_def)
  obtain f mm k1 where al: "AllocPage (memoryManager k) = Inr (f, mm)"
    and ad: "addCorePage q (k\<lparr>memoryManager := mm, corePages := (corePages k)(q \<mapsto> CorePage_new (sid k a) f (int v))\<rparr>) = Inr (0, k1)"
    and took: "took ps q a v f k k1" using take_frame [OF inv room q, of a v] by blast
  have f: "0 \<le> f" "f < 32" "f \<notin> cphys k ` set ps" and sv: "same_vm k k1" and sh1: "same_shape k k1" using took by (simp_all add: took_def)
  note S = same_vmD [OF sv] and T = same_vm_sel [OF sv]
  let ?e = "(pte k a v)\<lparr>physicalPage := word_of_int f\<rparr>"
  let ?k2 = "set_pte a v ?e k1"
  have sp: "spaces k1 a \<noteq> None" using sv page_space [OF p] by (simp add: same_vm_def)
  have lay1: "layout k1" "is_page k1 = is_page k" using S lay by simp_all
  have lay2: "layout ?k2" "is_page ?k2 = is_page k" using set_pte_layout [OF lay1(1) sp] lay1 sp by (simp_all add: fun_eq_iff)
  obtain m where m: "store_bytes (f * int PageSize) (replicate PageSize 0) ?k2 = Inr (?k2\<lparr>mainMemory := m\<rparr>)" "length m = 4096"
    "\<forall>g. 0 \<le> g \<longrightarrow> g < 32 \<longrightarrow> frame (?k2\<lparr>mainMemory := m\<rparr>) g = (if g = f then replicate 128 0 else frame ?k2 g)"
    using store_frame [OF layout_memory [OF lay2(1)] f(1,2), of "replicate 128 0"] by auto
  let ?k3 = "?k2\<lparr>mainMemory := m\<rparr>"
  have lay3: "layout ?k3" "is_page ?k3 = is_page k" using memory_layout [OF lay2(1) m(2)] lay2(2) by simp_all
  have P3: "pte ?k3 a' v' = (if a' = a \<and> v' = v then ?e else pte k a' v')" if "is_page k a' v'" for a' v'
    using set_pte_pte [OF lay1(1), of a v a' v'] that p lay1(2) S(3) by simp
  have ph: "phys ?k3 a v = f" using P3 [OF p] frame_number [OF f(1,2)] by (simp add: phys_def)
  have z: "frame ?k3 f = replicate 128 0" using m(3) f by simp
  have same: "the_space ?k3 = the_space k" "sid ?k3 = sid k" "header_of ?k3 = header_of k" "backing ?k3 = backing k" "srec ?k3 = srec k" "sfile ?k3 = sfile k"
    using S(6,9) T same_vm_header [OF sv] by simp_all
  have len: "int v \<in> bits (bs_pages (srec ?k3 a)) \<Longrightarrow> v * 128 + 128 \<le> length (sfile ?k3 a)" using paged_page [OF pg p] same by simp
  have p3: "is_page ?k3 a v" using lay3(2) p by simp
  obtain k' where k': "load_copy a v ?k3 = Inr (0, k')" and h: "holds_copy a v f ?k3 k'"
    using load_copy_correct [OF lay3(1) p3 ph f(1,2) z len] by blast
  have run: "allocVirtualPage q a va k = Inr (0, k')"
    using allocVirtualPage_halves [OF lay p va al ad sv m(1) same(1-3)] k' by simp
  have fields: "corePages ?k3 = corePages k1" "coreMap ?k3 = coreMap k1" "memoryManager ?k3 = memoryManager k1" by (simp_all add: set_pte_def)
  have ok: "core_ok k' (ps @ [q])" "mm_ok (memoryManager k') (insert f (cphys k ` set ps))"
    "\<exists>n. corePages k' q = Some ((CorePage_new (sid k a) f (int v))\<lparr>cp_next := n\<rparr>)"
    "\<And>p' cp. p' \<in> set ps \<Longrightarrow> corePages k p' = Some cp \<Longrightarrow> \<exists>n. corePages k' p' = Some (cp\<lparr>cp_next := n\<rparr>)"
    using took h by (simp_all add: took_def holds_copy_def fields core_ok_def)
  have sh3: "same_shape k ?k3" using sh1 lay3(2) same(2) by (simp add: same_shape_def set_pte_def)
  then have sh: "same_shape k k'" using h by (simp add: same_shape_def holds_copy_def)
  have bk: "backing k' = backing k" "srec k' = srec k" "sfile k' = sfile k" and lay': "layout k'" using h same by (simp_all add: holds_copy_def)
  have fr: "frame k' g = (if g = f then backing k a v else frame k g)" if "0 \<le> g" "g < 32" for g
    using h m(3) that same(4) S(8) by (simp add: holds_copy_def set_pte_def)
  have P: "pte k' a' v' = (if a' = a \<and> v' = v then (pte k a v)\<lparr>physicalPage := word_of_int f, valid := True\<rparr> else pte k a' v')"
    if "is_page k a' v'" for a' v'
  proof -
    have "pte k' a' v' = (if a' = a \<and> v' = v then (pte ?k3 a v)\<lparr>valid := True\<rparr> else pte ?k3 a' v')"
      using h that lay3(2) by (simp add: holds_copy_def)
    then show ?thesis using P3 [OF that] P3 [OF p] by simp
  qed
  have "vm_inv (ps @ [q]) k' \<and> (\<forall>a' v'. is_page k a' v' \<longrightarrow> page_content k' a' v' = page_content k a' v')"
    by (rule vm_inv_loaded [OF inv p inval q f lay' sh bk]) (use fr P ok in simp_all)
  then show ?thesis using run sh P [OF p] by simp
qed

section \<open>The page fault\<close>

lemma core_map_bound:
  assumes "vm_inv ps k"
  shows "length ps \<le> 32"
proof -
  have pg: "paged k" "frames_ok k ps" and d: "distinct ps" using assms by (simp_all add: vm_inv_def core_ok_def)
  have "cphys k ` set ps \<subseteq> {0..<32}" using frames_range [OF pg] by auto
  then have "card (cphys k ` set ps) \<le> 32" using card_mono [of "{0..<32::int}"] by simp
  then show ?thesis using pg(2) d by (simp add: frames_ok_def card_image distinct_card)
qed

lemma vm_inv_stats: "vm_inv ps (k\<lparr>stats := s\<rparr>) = vm_inv ps k"
  using same_vmD [OF stats_same [of k s]]
  by (simp add: vm_inv_def core_ok_def frames_ok_def owns_def cphys_def inj_on_def)

text \<open>Room is made first: a full core map gives up its oldest page.\<close>

lemma make_room:
  assumes inv: "vm_inv ps k" and fifo: "LRU k = 0"
  shows "\<exists>k'. (if isFull (coreMap k) then evict_one k else Some (Inr k)) = Some (Inr k') \<and>
    vm_inv (if length ps = 32 then tl ps else ps) k' \<and> keeps k k'"
proof (cases "length ps = 32")
  case True
  then obtain p q ps' where ps: "ps = p # q # ps'" by (cases ps; cases "tl ps") auto
  have "isFull (coreMap k)" using inv True by (simp add: vm_inv_def core_ok_def isFull_def)
  then show ?thesis using evict_one_correct [OF inv [unfolded ps] fifo] True by (simp add: ps)
next
  case False
  then have "\<not> isFull (coreMap k)" using inv by (simp add: vm_inv_def core_ok_def isFull_def)
  then show ?thesis using False inv by (simp add: keeps_def same_shape_def)
qed

end
