(* ===== verification/Process_Memory.thy ===== *)
theory Process_Memory
  imports Paging
begin

text \<open>
  The memory of user processes: what \<open>AddrSpace::Initialize\<close> and \<open>BackingStore::Initialize\<close> set up for a new process, and what a page fault
  does to it (\<^verbatim>\<open>src/code/userprog/addrspace.cc\<close>, \<^verbatim>\<open>exception.cc\<close>).

  A new address space has the pages of the program image and leaves every other page alone; a page fault changes the content of no page.
  Together they say that paging is invisible to user programs.
\<close>

section \<open>A new address space\<close>

definition store_name :: "nat \<Rightarrow> string" where
  "store_name ID = ''ajnr_'' @ id_digits ID"

text \<open>The addresses \<open>a\<close> of the space and \<open>p\<close> of its page table are new, the store \<open>s\<close> belongs to no process, the executable \<open>e\<close> is open and
  has a sound header, and the file of the store is used by no process.\<close>

definition fresh_process :: "nat \<Rightarrow> nat \<Rightarrow> nat \<Rightarrow> nat \<Rightarrow> nat \<Rightarrow> 'm vm_scheme \<Rightarrow> bool" where
  "fresh_process a p s e ID k \<longleftrightarrow> spaces k a = None \<and> tables k p = None \<and> stores k s \<noteq> None \<and>
     (\<forall>a'. spaces k a' \<noteq> None \<longrightarrow> sid k a' \<noteq> s \<and> bs_filename (srec k a') \<noteq> store_name ID \<and> ename k a' \<noteq> store_name ID) \<and>
     (\<exists>nm c. openFiles k e = Some nm \<and> files k nm = Some c \<and> nm \<noteq> store_name ID \<and>
        (\<forall>a'. spaces k a' \<noteq> None \<longrightarrow> bs_filename (srec k a') \<noteq> nm)) \<and>
     (\<exists>h. read_header e k = Inr h \<and> header_ok h)"

definition pages_needed :: "NoffHeader \<Rightarrow> 32 word" where
  "pages_needed h = (let sz = seg_size (noff_code h) + seg_size (noff_initData h) + seg_size (noff_uninitData h) + word_of_int UserStackSize +
     word_of_int ArgumentSize in sz div of_nat PageSize + (if sz mod of_nat PageSize > 0 then 1 else 0))"

text \<open>The state after the two initializations.\<close>

definition created :: "nat \<Rightarrow> nat \<Rightarrow> nat \<Rightarrow> nat \<Rightarrow> nat \<Rightarrow> AddrSpace \<Rightarrow> BackingStore \<Rightarrow> BitMap \<Rightarrow> NoffHeader \<Rightarrow> 'm vm_scheme \<Rightarrow> 'm vm_scheme" where
  "created a p s e ID junk b bm h k =
     k\<lparr>tables := (tables k)(p \<mapsto> map fresh_pte [0..<unat (pages_needed h)]),
       stores := (stores k)(s \<mapsto> b\<lparr>bs_flag := 1, bs_space := a, bs_pages := bm, bs_storeID := int ID, bs_charID := id_digits ID,
         bs_filename := store_name ID\<rparr>),
       files := (files k)(store_name ID \<mapsto> []),
       spaces := (spaces k)(a \<mapsto> junk\<lparr>sp_numPages := pages_needed h, sp_pageTable := Some p, currentExecutable := e, backingStore := Some s\<rparr>)\<rparr>"

lemma initialize_created:
  assumes "read_header e k = Inr h" and "noffMagic h = NOFFMAGIC" and "stores k s = Some b"
    and "BitMap_new jb (uint (pages_needed h)) = Inr bm"
  shows "bindR (AddrSpace_Initialize p a e (AddrSpace_new a junk k)) (\<lambda>(_, k). BackingStore_Initialize jb s a ID k) =
    Inr (0, created a p s e ID junk b bm h k)"
proof -
  have "get_file e (put_space a junk k) = get_file e k" by (simp add: get_file_def put_space_def split: option.split)
  then have "read_header e (put_space a junk k) = Inr h"
    using read_header_cong [of e "put_space a junk k" k] assms(1) by (simp add: put_space_def)
  then show ?thesis
    using assms(2-4) unfolding AddrSpace_Initialize_def AddrSpace_new_def
    by (simp add: BackingStore_Initialize_def get_space_def get_store_def put_space_def FileSystem_Create_def created_def Let_def
        store_name_def pages_needed_def)
qed

text \<open>What the new space has, and that the other spaces are as they were.\<close>

lemma created_new:
  assumes fresh: "fresh_process a p s e ID k" and h: "read_header e k = Inr h" "header_ok h" and bm: "bitmap_wf bm" "numBits bm = uint (pages_needed h)"
    "bits bm = {}" and k': "k' = created a p s e ID junk b bm h k"
  shows "space_ok k' a" "ptable k' a = p" "bs_filename (srec k' a) = store_name ID" "entries k' a = map fresh_pte [0..<unat (pages_needed h)]"
    "header_of k' a = h" "bits (bs_pages (srec k' a)) = {}" "\<exists>nm. openFiles k e = Some nm \<and> ename k' a = nm \<and> files k nm = Some (econt k' a)" "sid k' a = s"
proof -
  obtain nm c where e: "openFiles k e = Some nm" "files k nm = Some c" "nm \<noteq> store_name ID" using fresh by (auto simp: fresh_process_def)
  show sel: "ptable k' a = p" "bs_filename (srec k' a) = store_name ID" "entries k' a = map fresh_pte [0..<unat (pages_needed h)]"
    "bits (bs_pages (srec k' a)) = {}" "sid k' a = s"
    using bm(3) by (simp_all add: k' created_def selectors)
  show ex: "\<exists>nm. openFiles k e = Some nm \<and> ename k' a = nm \<and> files k nm = Some (econt k' a)" using e by (simp add: k' created_def selectors)
  have "get_file e k' = get_file e k" using e by (simp add: get_file_def k' created_def)
  then have "read_header e k' = Inr h" using read_header_cong [of e k' k] h(1) by (simp add: k' created_def)
  then show hd: "header_of k' a = h" by (simp add: header_of_def k' created_def the_space_def)
  show "space_ok k' a"
    unfolding space_ok_def hd using h(2) bm(1,2) e by (simp add: k' created_def selectors)
qed

lemma created_old:
  assumes fresh: "fresh_process a p s e ID k" and lay: "layout k" and a': "spaces k a' \<noteq> None" and k': "k' = created a p s e ID junk b bm h k"
  shows "the_space k' a' = the_space k a'" "ptable k' a' = ptable k a'" "entries k' a' = entries k a'" "sid k' a' = sid k a'" "srec k' a' = srec k a'"
    "sfile k' a' = sfile k a'" "ename k' a' = ename k a'" "econt k' a' = econt k a'" "header_of k' a' = header_of k a'" "space_ok k' a' = space_ok k a'"
proof -
  have ne: "a' \<noteq> a" "sid k a' \<noteq> s" "bs_filename (srec k a') \<noteq> store_name ID" "ename k a' \<noteq> store_name ID" "tables k p = None"
    using fresh a' by (auto simp: fresh_process_def)
  note D = layoutD [OF lay a']
  have p: "ptable k a' \<noteq> p" using ne(5) D(3) by auto
  show sp: "the_space k' a' = the_space k a'" using ne by (simp add: k' created_def the_space_def)
  then show pt: "ptable k' a' = ptable k a'" "sid k' a' = sid k a'" by (simp_all add: ptable_def sid_def)
  then show en: "entries k' a' = entries k a'" "srec k' a' = srec k a'" using p ne by (simp_all add: entries_def srec_def k' created_def)
  then show fi: "sfile k' a' = sfile k a'" using ne by (simp add: sfile_def k' created_def)
  show na: "ename k' a' = ename k a'" using sp by (simp add: ename_def k' created_def)
  then show co: "econt k' a' = econt k a'" using ne by (simp add: econt_def k' created_def)
  have "get_file (currentExecutable (the_space k a')) k' = get_file (currentExecutable (the_space k a')) k"
    using D(10) ne(4) by (simp add: get_file_def k' created_def)
  from read_header_cong [OF this] show hd: "header_of k' a' = header_of k a'" using sp by (simp add: header_of_def k' created_def)
  show "space_ok k' a' = space_ok k a'"
    unfolding space_ok_def sp pt en fi na co hd using D ne p by (simp add: k' created_def)
qed

lemma created_layout:
  assumes lay: "layout k" and fresh: "fresh_process a p s e ID k" and h: "read_header e k = Inr h" "header_ok h"
    and bm: "bitmap_wf bm" "numBits bm = uint (pages_needed h)" "bits bm = {}" and k': "k' = created a p s e ID junk b bm h k"
  shows "layout k'"
proof -
  note new = created_new [OF fresh h bm k'] and old = created_old [OF fresh lay _ k']
  have sp: "spaces k' a' \<noteq> None \<longleftrightarrow> a' = a \<or> spaces k a' \<noteq> None" "spaces k a = None" for a' using fresh by (auto simp: k' created_def fresh_process_def)
  have fields: "mainMemory k' = mainMemory k" by (simp add: k' created_def)
  obtain nm where nm: "openFiles k e = Some nm" "ename k' a = nm" using new(7) by blast
  have x: "bs_filename (srec k a') \<noteq> nm" "bs_filename (srec k a') \<noteq> store_name ID" "ename k a' \<noteq> store_name ID" "ptable k a' \<noteq> p"
    "space_ok k a'" if "spaces k a' \<noteq> None" for a'
    using fresh that nm(1) layoutD(3) [OF lay that] lay by (auto simp: fresh_process_def layout_def)
  have y: "nm \<noteq> store_name ID" using fresh nm(1) by (auto simp: fresh_process_def)
  have D: "ptable k' a' = (if a' = a then p else ptable k a')" "bs_filename (srec k' a') = (if a' = a then store_name ID else bs_filename (srec k a'))"
    "ename k' a' = (if a' = a then nm else ename k a')" "space_ok k' a'" if "spaces k' a' \<noteq> None" for a'
    using that sp new(1-3) nm(2) old [of a'] x(5) [of a'] by auto
  show ?thesis
    unfolding layout_def
  proof (intro conjI allI impI)
    show "space_ok k' a'" if "spaces k' a' \<noteq> None" for a' using D(4) [OF that] .
    show "length (mainMemory k') = MemorySize" using layout_memory [OF lay] fields by simp
    fix a1 a2 assume a12: "spaces k' a1 \<noteq> None" "spaces k' a2 \<noteq> None"
    have s1: "a1 \<noteq> a \<Longrightarrow> spaces k a1 \<noteq> None" and s2: "a2 \<noteq> a \<Longrightarrow> spaces k a2 \<noteq> None" using a12 sp by blast+
    show "ename k' a1 \<noteq> bs_filename (srec k' a2)"
      unfolding D(3) [OF a12(1)] D(2) [OF a12(2)] using x [OF s1] x [OF s2] y layout_distinct(4) [OF lay s1 s2] by auto
    assume "a1 \<noteq> a2"
    then show "ptable k' a1 \<noteq> ptable k' a2" "bs_filename (srec k' a1) \<noteq> bs_filename (srec k' a2)"
      unfolding D(1) [OF a12(1)] D(1) [OF a12(2)] D(2) [OF a12(1)] D(2) [OF a12(2)]
      using x [OF s1] x [OF s2] layout_distinct(1,2) [OF lay s1 s2] by (auto simp: eq_commute)
  qed
qed

lemma created_inv:
  assumes inv: "vm_inv ps k" and fresh: "fresh_process a p s e ID k" and h: "read_header e k = Inr h" "header_ok h"
    and bm: "bitmap_wf bm" "numBits bm = uint (pages_needed h)" "bits bm = {}" and k': "k' = created a p s e ID junk b bm h k"
  shows "vm_inv ps k'" "\<And>a' v. is_page k a' v \<Longrightarrow> is_page k' a' v \<and> page_content k' a' v = page_content k a' v"
    "\<And>v. v < unat (pages_needed h) \<Longrightarrow> is_page k' a v \<and> page_content k' a v = image (econt k' a) h (int v)"
proof -
  have lay: "layout k" and pg: "paged k" and core: "core_ok k ps" and fr: "frames_ok k ps" and mm: "mm_ok (memoryManager k) (cphys k ` set ps)"
    using inv by (simp_all add: vm_inv_def)
  note new = created_new [OF fresh h bm k'] and old = created_old [OF fresh lay _ k']
  have sp: "spaces k' a' \<noteq> None \<longleftrightarrow> a' = a \<or> spaces k a' \<noteq> None" "spaces k a = None" for a' using fresh by (auto simp: k' created_def fresh_process_def)
  have fields: "mainMemory k' = mainMemory k" "corePages k' = corePages k" "coreMap k' = coreMap k" "memoryManager k' = memoryManager k"
    by (simp_all add: k' created_def)
  have frame: "frame k' = frame k" by (simp add: frame_def fields fun_eq_iff)
  have pt: "pte k' a' v = pte k a' v" "phys k' a' v = phys k a' v" "backing k' a' v = backing k a' v" "is_page k' a' v \<longleftrightarrow> is_page k a' v"
    if "spaces k a' \<noteq> None" for a' v
    using old [OF that] sp that by (simp_all add: pte_def phys_def backing_def is_page_def)
  have inval: "\<not> valid (pte k' a v)" "\<not> dirty (pte k' a v)" if "is_page k' a v" for v
    using that new(4) by (simp_all add: is_page_def pte_def fresh_pte_def)
  have page: "is_page k' a' v \<longleftrightarrow> (a' = a \<and> v < unat (pages_needed h)) \<or> is_page k a' v" for a' v
    using pt(4) [of a' v] new(4) sp by (auto simp: is_page_def)
  have valid: "valid (pte k' a' v) \<longrightarrow> is_page k a' v" if "is_page k' a' v" for a' v
    using that page inval(1) by auto
  have "layout k'" by (rule created_layout [OF lay fresh h bm k'])
  moreover have "paged k'"
  proof (rule pagedI)
    fix a' v assume r: "is_page k' a' v"
    show "(valid (pte k' a' v) \<longrightarrow> 0 \<le> phys k' a' v \<and> phys k' a' v < 32) \<and>
       (\<not> dirty (pte k' a' v) \<longrightarrow> valid (pte k' a' v) \<longrightarrow> frame k' (phys k' a' v) = backing k' a' v) \<and>
       (\<not> valid (pte k' a' v) \<longrightarrow> \<not> dirty (pte k' a' v)) \<and>
       (int v \<in> bits (bs_pages (srec k' a')) \<longrightarrow> v * 128 + 128 \<le> length (sfile k' a'))"
    proof (cases "a' = a")
      case True
      then show ?thesis using inval r new(6) by simp
    next
      case False
      then have q: "is_page k a' v" using r page by blast
      show ?thesis using paged_page [OF pg q] pt [OF page_space [OF q]] old [OF page_space [OF q]] frame by simp
    qed
  next
    fix a1 v1 a2 v2 assume r: "is_page k' a1 v1" "is_page k' a2 v2" "valid (pte k' a1 v1)" "valid (pte k' a2 v2)" "phys k' a1 v1 = phys k' a2 v2"
    then have q: "is_page k a1 v1" "is_page k a2 v2" using valid by blast+
    show "a1 = a2 \<and> v1 = v2"
      by (rule paged_inj [OF pg q(2,1)]) (use r(3-5) pt [OF page_space [OF q(1)]] pt [OF page_space [OF q(2)]] in simp_all)
  qed
  moreover have "core_ok k' ps" using core by (simp add: core_ok_def fields)
  moreover have "cphys k' = cphys k" by (simp add: cphys_def fields fun_eq_iff)
  moreover have "frames_ok k' ps"
    unfolding frames_ok_def \<open>cphys k' = cphys k\<close>
  proof (intro conjI ballI allI impI)
    fix q assume "q \<in> set ps"
    then obtain a' v where o: "owns k q a' v" using fr by (auto simp: frames_ok_def)
    then have "spaces k a' \<noteq> None" by (auto simp: owns_def is_page_def)
    then have "owns k' q a' v" using o pt [of a' v] old(4) [of a'] by (simp add: owns_def fields)
    then show "\<exists>a v. owns k' q a v" by blast
  next
    show "inj_on (cphys k) (set ps)" using fr by (simp add: frames_ok_def)
    fix a' v assume r: "is_page k' a' v" "valid (pte k' a' v)"
    then have q: "is_page k a' v" using valid by blast
    then show "phys k' a' v \<in> cphys k ` set ps" using fr r(2) pt [OF page_space [OF q]] by (simp add: frames_ok_def)
  qed
  ultimately show "vm_inv ps k'" using mm by (simp add: vm_inv_def fields)
  show "is_page k' a' v \<and> page_content k' a' v = page_content k a' v" if "is_page k a' v" for a' v
    using that page pt [OF page_space [OF that]] frame by (simp add: page_content_def)
  show "is_page k' a v \<and> page_content k' a v = image (econt k' a) h (int v)" if "v < unat (pages_needed h)" for v
    using that page inval new(5,6) by (simp add: page_content_def backing_def)
qed

text \<open>Process creation: \<open>AddrSpace::Initialize\<close> followed by \<open>BackingStore::Initialize\<close> on a sound executable succeeds, keeps the paging invariant,
  gives the new address space one page per 128 bytes of code, data, stack and arguments, each with the bytes of the program image (code and
  initialised data from the file, zeros elsewhere), and changes the content of no page of an existing process.\<close>

theorem process_created:
  assumes inv: "vm_inv ps k" and fresh: "fresh_process a p s e ID k" and h: "read_header e k = Inr h"
  shows "\<exists>k1 k'. AddrSpace_Initialize p a e (AddrSpace_new a junk k) = Inr (0, k1) \<and> BackingStore_Initialize jb s a ID k1 = Inr (0, k') \<and> vm_inv ps k' \<and>
    length (entries k' a) = unat (pages_needed h) \<and>
    (\<forall>v < unat (pages_needed h). is_page k' a v \<and> page_content k' a v = image (econt k' a) h (int v)) \<and>
    (\<forall>a' v. is_page k a' v \<longrightarrow> is_page k' a' v \<and> page_content k' a' v = page_content k a' v)"
proof -
  obtain b where b: "stores k s = Some b" using fresh by (auto simp: fresh_process_def)
  have ok: "header_ok h" using fresh h by (auto simp: fresh_process_def)
  obtain bm where bm: "BitMap_new jb (uint (pages_needed h)) = Inr bm" "bitmap_wf bm" "numBits bm = uint (pages_needed h)" "bits bm = {}"
    using BitMap_new_correct [of "uint (pages_needed h)" jb] by auto
  let ?k' = "created a p s e ID junk b bm h k"
  have run: "bindR (AddrSpace_Initialize p a e (AddrSpace_new a junk k)) (\<lambda>(_, k). BackingStore_Initialize jb s a ID k) = Inr (0, ?k')"
    by (rule initialize_created [OF h _ b bm(1)]) (use ok in \<open>simp add: header_ok_def\<close>)
  moreover have "\<exists>k1. AddrSpace_Initialize p a e (AddrSpace_new a junk k) = Inr (0, k1)"
    using h ok read_header_cong [of e "put_space a junk k" k]
    by (auto simp: AddrSpace_Initialize_def AddrSpace_new_def get_space_def get_file_def put_space_def header_ok_def Let_def split: option.split)
  ultimately obtain k1 where "AddrSpace_Initialize p a e (AddrSpace_new a junk k) = Inr (0, k1)" "BackingStore_Initialize jb s a ID k1 = Inr (0, ?k')" by auto
  then show ?thesis
    using created_inv [where junk = junk and b = b, OF inv fresh h ok bm(2-4) HOL.refl]
      created_new(4) [where junk = junk and b = b, OF fresh h ok bm(2-4) HOL.refl] by auto
qed

section \<open>A page fault\<close>

text \<open>Once there is room, the page is loaded, whatever the replacement policy was. \<open>counted\<close> is the state with the fault counted.\<close>

definition counted :: "'m vm_scheme \<Rightarrow> 'm vm_scheme" where
  "counted k = k\<lparr>stats := (stats k)\<lparr>numPageFaults := numPageFaults (stats k) + 1\<rparr>\<rparr>"

lemma counted_same:
  "same_vm k (counted k)" "vm_inv ps (counted k) = vm_inv ps k" "LRU (counted k) = LRU k" "threads (counted k) = threads k"
  "currentThread (counted k) = currentThread k" "coreMap (counted k) = coreMap k" "corePages (counted k) = corePages k"
  unfolding counted_def by (simp_all add: stats_same vm_inv_stats)

lemma page_fault_steps:
  assumes room: "(if isFull (coreMap (counted k)) then evict_one (counted k) else Some (Inr (counted k))) = Some (Inr k1)" and kp: "keeps (counted k) k1"
    and cur: "threads k (currentThread k) = Some th" and sp: "t_space th = Some a"
  shows "page_fault q k = Some (allocVirtualPage q a (reg BadVAddrReg k) k1)"
proof -
  have th1: "threads k1 (currentThread k1) = Some th" using kp cur by (simp add: keeps_def same_shape_def counted_same)
  have r: "ReadRegister (int BadVAddrReg) (counted k) = Inr (reg BadVAddrReg k)"
    by (simp add: ReadRegister_def BadVAddrReg_def NumTotalRegs_def reg_def counted_def)
  show ?thesis using room th1 sp r unfolding page_fault_def Let_def counted_def [symmetric] by (simp add: get_thread_def)
qed

lemma page_fault_room:
  assumes room: "(if isFull (coreMap (counted k)) then evict_one (counted k) else Some (Inr (counted k))) = Some (Inr k1)"
    and inv: "vm_inv ps k1" and kp: "keeps (counted k) k1" and len: "length ps < 32" and q: "q \<notin> set ps"
    and cur: "threads k (currentThread k) = Some th" and sp: "t_space th = Some a"
    and p: "is_page k a v" and va: "v = unat (reg BadVAddrReg k) div 128" and inval: "\<not> valid (pte k a v)"
  shows "\<exists>k'. page_fault q k = Some (Inr (0, k')) \<and> vm_inv (ps @ [q]) k' \<and> valid (pte k' a v) \<and> same_shape k k' \<and>
    (\<forall>a' v'. is_page k a' v' \<longrightarrow> page_content k' a' v' = page_content k a' v')"
proof -
  note S = same_vmD [OF counted_same(1) [of k]]
  have P: "is_page k1 a' v' = is_page k a' v'" for a' v' using kp S by (simp add: keeps_def same_shape_def)
  have K: "page_content k1 a' v' = page_content k a' v' \<and> (valid (pte k1 a' v') \<longrightarrow> valid (pte k a' v'))" if "is_page k a' v'" for a' v'
    using kp S that by (simp add: keeps_def)
  have p1: "is_page k1 a v" "\<not> valid (pte k1 a v)" using p inval K [OF p] P by auto
  obtain k' where k': "allocVirtualPage q a (reg BadVAddrReg k) k1 = Inr (0, k')" "vm_inv (ps @ [q]) k'" "valid (pte k' a v)" "same_shape k1 k'"
    "\<And>a' v'. is_page k1 a' v' \<Longrightarrow> page_content k' a' v' = page_content k1 a' v'"
    using allocVirtualPage_correct [OF inv len q p1(1) va p1(2)] by blast
  have "page_fault q k = Some (Inr (0, k'))" using page_fault_steps [OF room kp cur sp] k'(1) by simp
  moreover have "page_content k' a' v' = page_content k a' v'" if "is_page k a' v'" for a' v'
    using k'(5) [of a' v'] K [OF that] that P by simp
  moreover have "same_shape k k'" using kp k'(4) S(5,9) by (simp add: keeps_def same_shape_def counted_def)
  ultimately show ?thesis using k'(2,3) by blast
qed

text \<open>C3. A page fault with FIFO replacement always succeeds (the handler returns 0). Afterwards the faulting page is valid and its core page
  is the youngest of the core map, which has given up its oldest page exactly when all 32 frames were in use; the paging invariant holds again;
  and every virtual page of every address space has the content it had before, whether it is in memory, was written to the backing store on the
  way, or was never loaded.\<close>

theorem page_fault_correct:
  assumes inv: "vm_inv ps k" and fifo: "LRU k = 0" and cur: "threads k (currentThread k) = Some th" and sp: "t_space th = Some a"
    and p: "is_page k a v" and va: "v = unat (reg BadVAddrReg k) div 128" and inval: "\<not> valid (pte k a v)" and q: "q \<notin> set ps"
  shows "\<exists>k'. page_fault q k = Some (Inr (0, k')) \<and> vm_inv ((if length ps = 32 then tl ps else ps) @ [q]) k' \<and> valid (pte k' a v) \<and>
    (\<forall>a' v'. is_page k a' v' \<longrightarrow> page_content k' a' v' = page_content k a' v')"
proof -
  let ?ps = "if length ps = 32 then tl ps else ps"
  have inv': "vm_inv ps (counted k)" "LRU (counted k) = 0" using inv fifo by (simp_all add: counted_same)
  obtain k1 where k1: "(if isFull (coreMap (counted k)) then evict_one (counted k) else Some (Inr (counted k))) = Some (Inr k1)" "vm_inv ?ps k1" "keeps (counted k) k1"
    using make_room [OF inv'] by blast
  have "length ?ps < 32" "q \<notin> set ?ps" using core_map_bound [OF inv] q by (auto dest: list.set_sel(2) [rotated])
  then show ?thesis using page_fault_room [OF k1 _ _ cur sp p va inval] by blast
qed

section \<open>The page table after a fork\<close>

text \<open>\<open>allocateThreadSpace\<close> deletes the page table the machine is using and gives the machine no other: until the next context switch the
  translation of every address reads the deleted table.\<close>

lemma free_thread_pages_machine:
  "free_thread_pages n sp j k = Inr k' \<Longrightarrow> pageTable k' = pageTable k \<and> pageTableSize k' = pageTableSize k \<and> tlb k' = tlb k \<and> tables k' = tables k"
proof (induction n arbitrary: j k)
  case (Suc n)
  then show ?case by (fastforce simp: bindR_eq_Inr)
qed simp

lemma thread_pages_machine:
  "thread_pages n sp es k = Inr (r, k') \<Longrightarrow> pageTable k' = pageTable k \<and> pageTableSize k' = pageTableSize k \<and> tlb k' = tlb k \<and> tables k' = tables k"
proof (induction n arbitrary: es k)
  case (Suc n)
  then obtain f m where m: "AllocPage (memoryManager k) = Inr (f, m)" by (auto simp: bindR_eq_Inr)
  show ?case
  proof (cases "f = - 1")
    case True
    then show ?thesis using Suc.prems m free_thread_pages_machine by (fastforce simp: bindR_eq_Inr Let_def)
  next
    case False
    then show ?thesis using Suc.prems m Suc.IH by (fastforce simp: Let_def)
  qed
qed simp

lemma clear_frames_machine:
  "clear_frames es k = Inr k' \<Longrightarrow> pageTable k' = pageTable k \<and> pageTableSize k' = pageTableSize k \<and> tlb k' = tlb k \<and> tables k' = tables k"
proof (induction es arbitrary: k)
  case (Cons e es)
  then obtain k1 where k1: "store_bytes (frame_base e) (replicate PageSize 0) k = Inr k1" "clear_frames es k1 = Inr k'" by (auto simp: bindR_eq_Inr)
  then show ?case using Cons.IH [OF k1(2)] by (auto simp: store_bytes_def split: if_splits)
qed simp

lemma fork_leaves_dangling_page_table:
  assumes run: "allocateThreadSpace p a k = Inr (1, k')" and sp: "spaces k a = Some sp" "sp_pageTable sp = Some t" "t \<noteq> p"
    and mach: "pageTable k = Some t" "tlb k = None" and va: "\<not> misaligned va sz" "va div of_nat PageSize < pageTableSize k"
  shows "Translate_addr va sz w k' = Inl DanglingPointer"
proof -
  obtain old es k1 k2 where r: "thread_pages (nat (divRoundUp UserStackSize (int PageSize))) sp [] k = Inr (Some es, k1)"
    "clear_frames es (k1\<lparr>tables := (tables k1)(t := None, p \<mapsto> take (unat (sp_numPages sp)) old @ es)\<rparr>) = Inr k2"
    "k' = put_space a (sp\<lparr>sp_pageTable := Some p, sp_numPages := sp_numPages sp + of_nat (nat (divRoundUp UserStackSize (int PageSize)))\<rparr>) k2"
    using run sp unfolding allocateThreadSpace_def get_space_def
    by (auto simp: bindR_eq_Inr Let_def simp del: page_const split: option.splits if_splits)
  have "pageTable k' = Some t" "tlb k' = None" "pageTableSize k' = pageTableSize k" "tables k' t = None"
    using thread_pages_machine [OF r(1)] clear_frames_machine [OF r(2)] mach sp(3) r(3) by (simp_all add: put_space_def)
  then show ?thesis using va by (simp add: Translate_addr_def find_entry_def entry_load_def Let_def)
qed

section \<open>A small system\<close>

text \<open>One process whose program has four bytes of code and 4096 bytes of uninitialised data: 45 pages are needed. Its state is what the two initializations return.\<close>

definition example_program :: "8 word list" where
  "example_program = [0xAD, 0xDF, 0xBA, 0, 0, 0, 0, 0, 40, 0, 0, 0, 4, 0, 0, 0, 0, 0, 0, 0, 0, 0, 0, 0, 0, 0, 0, 0, 0, 0, 0, 0, 0, 0, 0, 0, 0, 16, 0, 0,
     1, 2, 3, 4]"

definition example_boot :: vm where
  "example_boot = synch.extend (kernel.extend (two_threads\<lparr>spaces := Map.empty\<rparr>) (synch.fields Map.empty Map.empty Map.empty))
     (vm.fields [''prog'' \<mapsto> example_program] [0 \<mapsto> ''prog'']
        [0 \<mapsto> \<lparr>bs_pages = \<lparr>numBits = 0, numWords = 0, bm_map = []\<rparr>, bs_space = 0, bs_filename = [], bs_storeID = 0, bs_charID = [], bs_flag = 0\<rparr>]
        Map.empty \<lparr>mm_lock = False, mm_pages = \<lparr>numBits = 32, numWords = 1, bm_map = [0]\<rparr>\<rparr> (CoreMap_new 32) 0 [])"

definition example_header :: NoffHeader where
  "example_header = \<lparr>noffMagic = NOFFMAGIC, noff_code = \<lparr>seg_virtualAddr = 0, seg_inFileAddr = 40, seg_size = 4\<rparr>,
     noff_initData = \<lparr>seg_virtualAddr = 0, seg_inFileAddr = 0, seg_size = 0\<rparr>,
     noff_uninitData = \<lparr>seg_virtualAddr = 0, seg_inFileAddr = 0, seg_size = 4096\<rparr>\<rparr>"

lemma example_fields:
  "spaces example_boot = Map.empty" "tables example_boot = Map.empty" "\<exists>b. stores example_boot 0 = Some b"
  "files example_boot = [''prog'' \<mapsto> example_program]" "openFiles example_boot = [0 \<mapsto> ''prog'']"
  "memoryManager example_boot = \<lparr>mm_lock = False, mm_pages = \<lparr>numBits = 32, numWords = 1, bm_map = [0]\<rparr>\<rparr>"
  "coreMap example_boot = CoreMap_new 32" "length (mainMemory example_boot) = 4096" "LRU example_boot = 0" "stack_junk example_boot = []"
  "currentThread example_boot = 0" "\<exists>th. threads example_boot 0 = Some th \<and> t_space th = Some 0" "registers example_boot = replicate 40 0"
  by (simp_all add: example_boot_def two_threads_def Machine_new_def Interrupt_new_def isys.defs Machine.defs kernel.defs synch.defs vm.defs NumTotalRegs_def)

lemma example_read: "read_header 0 example_boot = Inr example_header"
  by (simp add: read_header_def OpenFile_ReadAt_def get_file_def example_fields example_program_def example_header_def file_bytes_def word_of_bytes_def
      segment_at_def NOFFMAGIC_def Let_def)


lemma example_segment: "in_segment (noff_code example_header) addr \<longleftrightarrow> 0 \<le> addr \<and> addr < 4" "\<not> in_segment (noff_initData example_header) addr"
  by (auto simp: in_segment_def example_header_def c_int_def)

lemma example_header_ok: "header_ok example_header"
proof -
  have "0 \<le> seg_pos g addr" if "g = noff_code example_header \<or> g = noff_initData example_header" "in_segment g addr" for g addr
    using that example_segment [of addr] by (auto simp: seg_pos_def example_header_def c_int_def)
  then show ?thesis by (auto simp: header_ok_def example_header_def)
qed

lemma example_inv: "vm_inv [] example_boot"
  by (simp add: vm_inv_def layout_def paged_def core_ok_def frames_ok_def mm_ok_def is_page_def example_fields CoreMap_new_def bitmap_wf_def bits_def
      divRoundUp_def BitsInWord_def)

lemma example_fresh: "fresh_process 0 0 0 0 1 example_boot"
  using example_read example_header_ok example_fields by (simp add: fresh_process_def store_name_def)

lemma example_pages: "unat (pages_needed example_header) = 45"
  by (simp add: pages_needed_def example_header_def UserStackSize_def ArgumentSize_def Let_def)

definition example_junk :: AddrSpace where
  "example_junk = \<lparr>sp_pageTable = None, sp_numPages = 0, sp_argc = 0, sp_argv = [], currentExecutable = 0, threadCount = 0, backingStore = None,
     sp_storeID = 0\<rparr>"

definition example_process :: vm where
  "example_process =
     (case bindR (AddrSpace_Initialize 0 0 0 (AddrSpace_new 0 example_junk example_boot)) (\<lambda>(_, k). BackingStore_Initialize [] 0 0 1 k) of
        Inl _ \<Rightarrow> example_boot | Inr (_, k) \<Rightarrow> k)"

lemma example_created:
  "\<exists>junk b bm. example_process = created 0 0 0 0 1 junk b bm example_header example_boot \<and> bitmap_wf bm \<and>
     numBits bm = uint (pages_needed example_header) \<and> bits bm = {}"
proof -
  obtain b where b: "stores example_boot 0 = Some b" using example_fields(3) by blast
  obtain bm where bm: "BitMap_new [] (uint (pages_needed example_header)) = Inr bm" "bitmap_wf bm" "numBits bm = uint (pages_needed example_header)" "bits bm = {}"
    using BitMap_new_correct [of "uint (pages_needed example_header)" "[]"] by auto
  show ?thesis
    unfolding example_process_def initialize_created [OF example_read example_header_ok [unfolded header_ok_def, THEN conjunct1] b bm(1)]
    using bm by auto
qed

theorem process_created_witness:
  "\<exists>k1 k'. AddrSpace_Initialize 0 0 0 (AddrSpace_new 0 example_junk example_boot) = Inr (0, k1) \<and> BackingStore_Initialize [] 0 0 1 k1 = Inr (0, k') \<and>
     vm_inv [] k' \<and> length (entries k' 0) = 45"
  using process_created [OF example_inv example_fresh example_read, of example_junk "[]"] example_pages by auto

lemma example_state:
  "vm_inv [] example_process" "is_page example_process 0 0" "\<not> valid (pte example_process 0 0)" "LRU example_process = 0"
  "currentThread example_process = 0" "\<exists>th. threads example_process 0 = Some th \<and> t_space th = Some 0" "reg BadVAddrReg example_process = 0"
  "page_content example_process 0 0 = image example_program example_header 0"
proof -
  obtain junk b bm where k: "example_process = created 0 0 0 0 1 junk b bm example_header example_boot" "bitmap_wf bm"
    "numBits bm = uint (pages_needed example_header)" "bits bm = {}" using example_created by blast
  note inv = created_inv [OF example_inv example_fresh example_read example_header_ok k(2-4) k(1)]
  note new = created_new [OF example_fresh example_read example_header_ok k(2-4) k(1)]
  show "vm_inv [] example_process" "is_page example_process 0 0" using inv(1,3) example_pages by simp_all
  show "\<not> valid (pte example_process 0 0)" using new(4) example_pages by (simp add: pte_def fresh_pte_def)
  show "LRU example_process = 0" "currentThread example_process = 0" "\<exists>th. threads example_process 0 = Some th \<and> t_space th = Some 0"
    "reg BadVAddrReg example_process = 0" using example_fields by (simp_all add: k(1) created_def reg_def BadVAddrReg_def)
  have "econt example_process 0 = example_program" using new(7) example_fields(4,5) by auto
  then show "page_content example_process 0 0 = image example_program example_header 0" using inv(3) [of 0] example_pages by simp
qed

theorem page_fault_correct_witness:
  "\<exists>k'. page_fault 7 example_process = Some (Inr (0, k')) \<and> vm_inv [7] k' \<and> valid (pte k' 0 0) \<and>
     page_content k' 0 0 = image example_program example_header 0"
proof -
  note E = example_state
  obtain th where th: "threads example_process (currentThread example_process) = Some th" "t_space th = Some 0" using E(5,6) by auto
  show ?thesis using page_fault_correct [OF E(1,4) th E(2) _ E(3), of 7] E(2,7,8) by auto
qed

end
