(* ===== verification/Second_Chance.thy ===== *)
theory Second_Chance
  imports Process_Memory
begin

text \<open>
  Second-chance page replacement, the branch of \<open>CoreMap::evictCorePage\<close> (\<^verbatim>\<open>src/code/userprog/addrspace.cc\<close>) that the flag \<open>-e\<close> turns on.

  The victim is the first page of the list whose use bit is clear, or the head when there is none; the pages before it lose their use bit. The
  list keeps its tail pointer: when the victim is the last page, the pointer is left on a deleted object and the page fault that follows writes
  through it.
\<close>

section \<open>The policy\<close>

definition used :: "'m vm_scheme \<Rightarrow> nat \<Rightarrow> bool" where
  "used k p = (case bindR (get_core (Some p) k) (\<lambda>cp. core_pte cp k) of Inl _ \<Rightarrow> False | Inr e \<Rightarrow> use e)"

definition victim :: "(nat \<Rightarrow> bool) \<Rightarrow> nat list \<Rightarrow> nat" where
  "victim u ps = (case dropWhile u ps of [] \<Rightarrow> hd ps | p # _ \<Rightarrow> p)"

section \<open>Use bits\<close>

lemma core_entry:
  assumes lay: "layout k" and own: "owns k p a v" and cp: "corePages k p = Some cp"
  shows "core_pte cp k = Inr (pte k a v)" "clear_use cp e k = Inr (set_pte a v (e\<lparr>use := False\<rparr>) k)" "used k p = use (pte k a v)"
proof -
  have o: "is_page k a v" "cp_backingStore cp = sid k a" "cp_virtualPage cp = int v" using own cp by (auto simp: owns_def)
  note D = layoutD [OF lay page_space [OF o(1)]]
  have t: "core_table cp k = Inr (sp_pageTable (the_space k a))" using D o by (simp add: core_table_def get_store_def get_space_def)
  show "core_pte cp k = Inr (pte k a v)" "clear_use cp e k = Inr (set_pte a v (e\<lparr>use := False\<rparr>) k)"
    using t o get_pte_entry [OF lay o(1)] put_pte_entry [OF lay o(1)] by (simp_all add: core_pte_def clear_use_def)
  then show "used k p = use (pte k a v)" using cp by (simp add: used_def get_core_def)
qed

lemma owns_unique: "layout k \<Longrightarrow> owns k p a v \<Longrightarrow> owns k p a' v' \<Longrightarrow> a' = a \<and> v' = v"
  using layout_distinct(3) [of k a a'] by (auto simp: owns_def is_page_def)

text \<open>The state in which the pages of \<open>S\<close> have lost their use bit.\<close>

definition cleared :: "nat set \<Rightarrow> 'm vm_scheme \<Rightarrow> 'm vm_scheme \<Rightarrow> bool" where
  "cleared S k k' \<longleftrightarrow> layout k' \<and> same_shape k k' \<and> frame k' = frame k \<and> backing k' = backing k \<and> srec k' = srec k \<and> sfile k' = sfile k \<and>
     corePages k' = corePages k \<and> coreMap k' = coreMap k \<and> memoryManager k' = memoryManager k \<and>
     (\<forall>a v. is_page k a v \<longrightarrow> pte k' a v = (if \<exists>p \<in> S. owns k p a v then (pte k a v)\<lparr>use := False\<rparr> else pte k a v))"

lemma cleared_none: "layout k \<Longrightarrow> cleared {} k k"
  by (simp add: cleared_def same_shape_def)

lemma cleared_owns:
  assumes "cleared S k k'"
  shows "owns k' p a v = owns k p a v"
proof (cases "is_page k a v")
  case True
  then have "valid (pte k' a v) = valid (pte k a v)" "phys k' a v = phys k a v" using assms by (simp_all add: cleared_def phys_def)
  then show ?thesis using assms by (simp add: owns_def cleared_def same_shape_def)
next
  case False
  then show ?thesis using assms by (simp add: owns_def cleared_def same_shape_def)
qed

lemma cleared_one:
  assumes lay: "layout k" and own: "owns k p a v"
  shows "cleared {p} k (set_pte a v ((pte k a v)\<lparr>use := False\<rparr>) k)"
proof -
  have pg: "is_page k a v" using own by (auto simp: owns_def)
  have "pte (set_pte a v ((pte k a v)\<lparr>use := False\<rparr>) k) a' v' = (if \<exists>q \<in> {p}. owns k q a' v' then (pte k a' v')\<lparr>use := False\<rparr> else pte k a' v')"
    if "is_page k a' v'" for a' v'
  proof (cases "a' = a \<and> v' = v")
    case True
    then show ?thesis using set_pte_pte [OF lay pg pg] own by simp
  next
    case False
    then have "\<not> owns k p a' v'" using owns_unique [OF lay own] by blast
    then show ?thesis using set_pte_pte [OF lay pg that, of "(pte k a v)\<lparr>use := False\<rparr>"] False by (simp only: if_False bex_simps simp_thms)
  qed
  moreover have "same_shape k (set_pte a v ((pte k a v)\<lparr>use := False\<rparr>) k)" using lay page_space [OF pg] by (simp add: same_shape_def)
  ultimately show ?thesis using set_pte_layout [OF lay page_space [OF pg]] by (simp add: cleared_def)
qed

lemma cleared_trans:
  assumes c: "cleared S k k1" and d: "cleared T k1 k2"
  shows "cleared (S \<union> T) k k2"
proof -
  have "pte k2 a v = (if \<exists>p \<in> S \<union> T. owns k p a v then (pte k a v)\<lparr>use := False\<rparr> else pte k a v)" if "is_page k a v" for a v
  proof -
    have "is_page k1 a v" using c that by (simp add: cleared_def same_shape_def)
    then have e: "pte k2 a v = (if \<exists>p \<in> T. owns k p a v then (pte k1 a v)\<lparr>use := False\<rparr> else pte k1 a v)"
      using d cleared_owns [OF c] by (simp add: cleared_def)
    have f: "pte k1 a v = (if \<exists>p \<in> S. owns k p a v then (pte k a v)\<lparr>use := False\<rparr> else pte k a v)" using c that by (simp add: cleared_def)
    show ?thesis unfolding e f by (simp add: bex_Un)
  qed
  then show ?thesis using c d by (simp add: cleared_def same_shape_def)
qed

lemma cleared_mem:
  assumes mem: "vm_mem ps k" and c: "cleared S k k'"
  shows "vm_mem ps k'" "keeps k k'"
proof -
  have lay: "layout k" "paged k" "frames_ok k ps" using mem by (simp_all add: vm_mem_def)
  have page: "is_page k' a v = is_page k a v" for a v using c by (simp add: cleared_def same_shape_def)
  have P: "valid (pte k' a v) = valid (pte k a v)" "dirty (pte k' a v) = dirty (pte k a v)" "phys k' a v = phys k a v" if "is_page k a v" for a v
    using c that by (simp_all add: cleared_def phys_def)
  have F: "frame k' = frame k" "backing k' = backing k" "srec k' = srec k" "sfile k' = sfile k" "corePages k' = corePages k"
    "memoryManager k' = memoryManager k" using c by (simp_all add: cleared_def)
  have "paged k'"
  proof (rule pagedI; unfold page)
    fix a v assume r: "is_page k a v"
    show "(valid (pte k' a v) \<longrightarrow> 0 \<le> phys k' a v \<and> phys k' a v < 32) \<and>
       (\<not> dirty (pte k' a v) \<longrightarrow> valid (pte k' a v) \<longrightarrow> frame k' (phys k' a v) = backing k' a v) \<and>
       (\<not> valid (pte k' a v) \<longrightarrow> \<not> dirty (pte k' a v)) \<and> (int v \<in> bits (bs_pages (srec k' a)) \<longrightarrow> v * 128 + 128 \<le> length (sfile k' a))"
      using paged_page [OF lay(2) r] unfolding P [OF r] F by simp
  next
    fix a v a' v' assume r: "is_page k a v" "is_page k a' v'" and x: "valid (pte k' a v)" "valid (pte k' a' v')" "phys k' a v = phys k' a' v'"
    show "a = a' \<and> v = v'" by (rule paged_inj [OF lay(2) r(2,1)]) (use x P [OF r(1)] P [OF r(2)] in simp_all)
  qed
  moreover have "cphys k' = cphys k" by (simp add: cphys_def F fun_eq_iff)
  moreover have "frames_ok k' ps"
    using lay(3) P page unfolding frames_ok_def cleared_owns [OF c] \<open>cphys k' = cphys k\<close> by simp
  ultimately show "vm_mem ps k'" using mem c F by (simp add: vm_mem_def cleared_def)
  show "keeps k k'" using c P F by (simp add: keeps_def cleared_def page_content_def)
qed

lemma cleared_used:
  assumes lay: "layout k" and c: "cleared S k k'" and inj: "inj_on (cphys k) (insert p S)" and own: "owns k p a v"
  shows "used k' p = (used k p \<and> p \<notin> S)"
proof -
  obtain cp where cp: "corePages k p = Some cp" "is_page k a v" using own by (auto simp: owns_def)
  have "(\<exists>q \<in> S. owns k q a v) \<longleftrightarrow> p \<in> S"
  proof
    assume "\<exists>q \<in> S. owns k q a v"
    then obtain q where q: "q \<in> S" "owns k q a v" by blast
    then have "cphys k q = cphys k p" using owns_cphys [OF own] owns_cphys [OF q(2)] by simp
    then show "p \<in> S" using inj q(1) by (auto simp: inj_on_def)
  qed (use own in blast)
  then have "use (pte k' a v) = (use (pte k a v) \<and> p \<notin> S)" using c cp(2) by (simp add: cleared_def)
  moreover have "layout k'" "corePages k' p = Some cp" using c cp(1) by (simp_all add: cleared_def)
  ultimately show ?thesis using core_entry(3) [OF lay own cp(1)] core_entry(3) [of k' p a v cp] own cleared_owns [OF c] by simp
qed

section \<open>The search\<close>

text \<open>\<open>v\<close>, the page after \<open>t\<close>, is taken out of the list.\<close>

definition unlink :: "nat \<Rightarrow> nat \<Rightarrow> 'm vm_scheme \<Rightarrow> 'm vm_scheme" where
  "unlink t v k = k\<lparr>corePages := (corePages k)(t \<mapsto> (the (corePages k t))\<lparr>cp_next := cp_next (the (corePages k v))\<rparr>)\<rparr>"

lemma evict_scan_correct:
  assumes "layout k" and "\<forall>q \<in> set qs. \<exists>a v. owns k q a v" and "inj_on (cphys k) (set qs)" and "core_chain (corePages k) n qs"
    and "corePages k t = Some ct" and "cp_next ct = n" and "distinct qs"
  shows "\<exists>k'. cleared (set (takeWhile (used k) qs)) k k' \<and>
    evict_scan (Some t) n k = Some (Inr (case dropWhile (used k) qs of [] \<Rightarrow> (None, k')
      | v # _ \<Rightarrow> (Some v, unlink (last (t # takeWhile (used k) qs)) v k')))"
  using assms
proof (induction qs arbitrary: k n t ct)
  case Nil
  then have "n = None" by simp
  then show ?case using cleared_none [OF Nil(1)] by (intro exI [of _ k]) (simp add: evict_scan.simps)
next
  case (Cons q qs)
  obtain cq where cq: "n = Some q" "corePages k q = Some cq" "core_chain (corePages k) (cp_next cq) qs" using Cons.prems(4) by auto
  obtain a v where own: "owns k q a v" using Cons.prems(2) by auto
  note E = core_entry [OF Cons.prems(1) own cq(2)]
  show ?case
  proof (cases "used k q")
    case False
    then have "evict_scan (Some t) n k = Some (Inr (Some q, unlink t q k))"
      using E cq Cons.prems(5) by (simp add: evict_scan.simps [of "Some t"] get_core_def setNext_def unlink_def)
    then show ?thesis using cleared_none [OF Cons.prems(1)] False by (intro exI [of _ k]) simp
  next
    case True
    let ?k1 = "set_pte a v ((pte k a v)\<lparr>use := False\<rparr>) k"
    have c1: "cleared {q} k ?k1" by (rule cleared_one [OF Cons.prems(1) own])
    have u: "used ?k1 x = used k x" if "x \<in> set qs" for x
    proof -
      have "x \<in> set (q # qs)" using that by simp
      then obtain ax vx where "owns k x ax vx" using Cons.prems(2) by blast
      moreover have "x \<noteq> q" "inj_on (cphys k) (insert x {q})" using that Cons.prems(7) inj_on_subset [OF Cons.prems(3), of "{x, q}"] by auto
      ultimately show ?thesis using cleared_used [OF Cons.prems(1) c1] by simp
    qed
    have tw: "takeWhile (used ?k1) qs = takeWhile (used k) qs" "dropWhile (used ?k1) qs = dropWhile (used k) qs"
      using u by (auto intro: takeWhile_cong dropWhile_cong)
    have "cphys ?k1 = cphys k" by (simp add: cphys_def fun_eq_iff)
    then obtain k' where k': "cleared (set (takeWhile (used k) qs)) ?k1 k'"
      "evict_scan (Some q) (cp_next cq) ?k1 = Some (Inr (case dropWhile (used k) qs of [] \<Rightarrow> (None, k')
        | v # _ \<Rightarrow> (Some v, unlink (last (q # takeWhile (used k) qs)) v k')))"
      using Cons.IH [of ?k1 "cp_next cq" q cq, unfolded tw] c1 cleared_owns [OF c1] Cons.prems cq by (auto simp: cleared_def inj_on_def)
    have "evict_scan (Some t) n k = evict_scan (Some q) (cp_next cq) ?k1"
      using E True cq Cons.prems(5,6) by (simp add: evict_scan.simps [of "Some t"] get_core_def)
    moreover have "last (t # takeWhile (used k) (q # qs)) = last (q # takeWhile (used k) qs)" "dropWhile (used k) (q # qs) = dropWhile (used k) qs"
      "set (takeWhile (used k) (q # qs)) = {q} \<union> set (takeWhile (used k) qs)" using True by simp_all
    ultimately show ?thesis using k'(2) cleared_trans [OF c1 k'(1)] by (intro exI [of _ k']) (simp only: simp_thms)
  qed
qed

text \<open>Unlinking removes the page from the list.\<close>

lemma core_chain_unlink:
  assumes "core_chain h p (xs @ v # ys)" and "xs \<noteq> []" and "distinct (xs @ v # ys)"
  shows "core_chain (h(last xs \<mapsto> (the (h (last xs)))\<lparr>cp_next := cp_next (the (h v))\<rparr>)) p (xs @ ys)"
  using assms
proof (induction xs arbitrary: p)
  case (Cons x xs)
  obtain cx where cx: "p = Some x" "h x = Some cx" "core_chain h (cp_next cx) (xs @ v # ys)" using Cons.prems(1) by auto
  show ?case
  proof (cases "xs = []")
    case True
    then obtain cv where "h v = Some cv" "core_chain h (cp_next cv) ys" "x \<notin> set ys" using cx(3) Cons.prems(3) by auto
    then show ?thesis using True cx core_chain_upd [of x ys h "Some (cx\<lparr>cp_next := cp_next cv\<rparr>)"] by (simp add: fun_upd_def)
  next
    case False
    then have "last xs \<noteq> x" using Cons.prems(3) by auto
    then show ?thesis using False Cons.IH [OF cx(3) False] Cons.prems(3) cx(1,2) by simp
  qed
qed simp

lemma vm_mem_links:
  assumes "vm_mem ps k" and "\<And>p cp. p \<in> set ps \<Longrightarrow> corePages k p = Some cp \<Longrightarrow> \<exists>n. h p = Some (cp\<lparr>cp_next := n\<rparr>)"
  shows "vm_mem ps (k\<lparr>corePages := h, coreMap := m\<rparr>)"
proof -
  let ?k = "k\<lparr>corePages := h, coreMap := m\<rparr>"
  have "same_vm k ?k" by (simp add: same_vm_def)
  note S = same_vmD [OF this]
  have fr: "frames_ok k ps" using assms(1) by (simp add: vm_mem_def)
  have O: "\<exists>a v. owns ?k p a v" "cphys ?k p = cphys k p" if p: "p \<in> set ps" for p
  proof -
    obtain a v cp where o: "owns k p a v" "corePages k p = Some cp" using fr p unfolding frames_ok_def owns_def by blast
    obtain n where n: "h p = Some (cp\<lparr>cp_next := n\<rparr>)" using assms(2) [OF p o(2)] by blast
    then have "owns ?k p a v" using o S by (simp add: owns_def)
    then show "\<exists>a v. owns ?k p a v" by blast
    show "cphys ?k p = cphys k p" using o(2) n by (simp add: cphys_def)
  qed
  have img: "cphys ?k ` set ps = cphys k ` set ps" by (rule image_cong [OF HOL.refl O(2)])
  have "frames_ok ?k ps"
    unfolding frames_ok_def img S using fr O by (simp add: frames_ok_def inj_on_def)
  then show ?thesis using assms(1) unfolding vm_mem_def img S by simp
qed

text \<open>The pages before the victim, the victim, and what is left of the list.\<close>

lemma victim_split:
  assumes "ps \<noteq> []" and "distinct ps"
  shows "dropWhile u ps = v # ys \<Longrightarrow> victim u ps = v \<and> ps = takeWhile u ps @ v # ys \<and> remove1 (victim u ps) ps = takeWhile u ps @ ys"
    "dropWhile u ps = [] \<Longrightarrow> victim u ps = hd ps \<and> takeWhile u ps = ps \<and> remove1 (victim u ps) ps = tl ps"
proof -
  have s: "takeWhile u ps @ dropWhile u ps = ps" by simp
  show "victim u ps = v \<and> ps = takeWhile u ps @ v # ys \<and> remove1 (victim u ps) ps = takeWhile u ps @ ys" if d: "dropWhile u ps = v # ys"
  proof -
    have e: "ps = takeWhile u ps @ v # ys" using s d by simp
    then have "v \<notin> set (takeWhile u ps)" using assms(2) by (metis distinct_append disjoint_iff list.set_intros(1))
    then have "remove1 v (takeWhile u ps @ v # ys) = takeWhile u ps @ ys" by (simp add: remove1_append)
    then show ?thesis using e d by (simp add: victim_def)
  qed
  show "victim u ps = hd ps \<and> takeWhile u ps = ps \<and> remove1 (victim u ps) ps = tl ps" if d: "dropWhile u ps = []"
    using s d assms(1) by (cases ps) (auto simp: victim_def)
qed

text \<open>The state in which the victim is out of the list: what \<open>evictCorePage\<close> leaves behind.\<close>

definition evicted :: "nat list \<Rightarrow> nat \<Rightarrow> 'm vm_scheme \<Rightarrow> 'm vm_scheme \<Rightarrow> bool" where
  "evicted ps v k k' \<longleftrightarrow> vm_mem ps k' \<and> keeps k k' \<and> core_chain (corePages k') (cm_head (coreMap k')) (remove1 v ps) \<and>
     cm_tail (coreMap k') = Some (last ps) \<and> cm_size (coreMap k') = int (length ps) - 1 \<and> cm_capacity (coreMap k') = 32"

lemma head_evicted:
  assumes mem: "vm_mem (p # ps) k1" and kp: "keeps k k1" and cp: "corePages k1 p = Some cp" "core_chain (corePages k1) (cp_next cp) ps"
    and m: "coreMap k1 = (coreMap k)\<lparr>cm_size := cm_size (coreMap k) - 1\<rparr>" and ok: "core_ok k (p # ps)"
  shows "\<exists>k'. evict_head k1 = Inr (Some p, k') \<and> evicted (p # ps) p k k' \<and> (\<forall>q. used k' q = used k1 q)"
proof -
  let ?m = "(coreMap k1)\<lparr>cm_head := cp_next cp\<rparr>"
  let ?k' = "k1\<lparr>coreMap := ?m\<rparr>"
  have h: "cm_head (coreMap k) = Some p" using ok by (simp add: core_ok_def)
  then have run: "evict_head k1 = Inr (Some p, ?k')" using cp(1) m by (simp add: evict_head_def get_core_def)
  have "vm_mem (p # ps) (k1\<lparr>corePages := corePages k1, coreMap := ?m\<rparr>)"
    by (rule vm_mem_links [OF mem]) (metis CorePage.surjective CorePage.update_convs(1))
  then have mem': "vm_mem (p # ps) ?k'" by simp
  have "same_vm k1 ?k'" by (simp add: same_vm_def)
  note S = same_vmD [OF this]
  have "keeps k ?k'" using kp S by (simp add: keeps_def same_shape_def)
  moreover have "used ?k' q = used k1 q" for q
    by (simp add: used_def get_core_def core_pte_def core_table_def get_store_def get_space_def get_pte_def get_table_def split: option.split)
  ultimately show ?thesis using run mem' ok cp(2) m by (auto simp: evicted_def core_ok_def)
qed

lemma unlink_evicted:
  assumes mem: "vm_mem ps k1" and kp: "keeps k k1" and m: "coreMap k1 = (coreMap k)\<lparr>cm_size := cm_size (coreMap k) - 1\<rparr>"
    and cps: "corePages k1 = corePages k" and ok: "core_ok k ps" and ps: "ps = xs @ v # ys" "xs \<noteq> []"
  shows "evicted ps v k (unlink (last xs) v k1)" "q \<in> set ps \<Longrightarrow> used (unlink (last xs) v k1) q = used k1 q"
proof -
  let ?h = "(corePages k1)(last xs \<mapsto> (the (corePages k1 (last xs)))\<lparr>cp_next := cp_next (the (corePages k1 v))\<rparr>)"
  have u: "unlink (last xs) v k1 = k1\<lparr>corePages := ?h, coreMap := coreMap k1\<rparr>" by (simp add: unlink_def)
  have links: "\<exists>n. ?h p = Some (cp\<lparr>cp_next := n\<rparr>)" if "corePages k1 p = Some cp" for p cp
    using that by (cases "p = last xs") (auto intro: exI [of _ "cp_next cp"])
  have mem': "vm_mem ps (unlink (last xs) v k1)" unfolding u by (rule vm_mem_links [OF mem links])
  have "same_vm k1 (unlink (last xs) v k1)" by (simp add: same_vm_def unlink_def)
  note S = same_vmD [OF this]
  have kp': "keeps k (unlink (last xs) v k1)" using kp S by (simp add: keeps_def same_shape_def unlink_def)
  have d: "distinct (xs @ v # ys)" and ch: "core_chain (corePages k) (cm_head (coreMap k)) (xs @ v # ys)" using ok ps(1) by (simp_all add: core_ok_def)
  have "remove1 v ps = xs @ ys" using d ps(1) by (simp add: remove1_append)
  then have "core_chain ?h (cm_head (coreMap k)) (remove1 v ps)" using core_chain_unlink [OF ch ps(2) d] cps by simp
  then show "evicted ps v k (unlink (last xs) v k1)" using mem' kp' ok ps m unfolding evicted_def u by (simp add: core_ok_def del: fun_upd_apply)
  assume "q \<in> set ps"
  then obtain cp where cp: "corePages k1 q = Some cp" using mem unfolding vm_mem_def frames_ok_def owns_def by blast
  then obtain n where n: "corePages (unlink (last xs) v k1) q = Some (cp\<lparr>cp_next := n\<rparr>)" using links unfolding u by fastforce
  have "core_pte (cp\<lparr>cp_next := n\<rparr>) (unlink (last xs) v k1) = core_pte cp k1"
    by (simp add: core_pte_def core_table_def get_store_def get_space_def get_pte_def get_table_def unlink_def split: option.split)
  then show "used (unlink (last xs) v k1) q = used k1 q" using cp n by (simp add: used_def get_core_def)
qed

lemma vm_keeps_trans: "keeps k k1 \<Longrightarrow> keeps k1 k2 \<Longrightarrow> keeps k k2"
  by (auto simp: keeps_def same_shape_def)

text \<open>The search from the head, all of whose predecessors it clears.\<close>

lemma scan_from_head:
  assumes mem: "vm_mem ps k" and ps: "ps = p # qs" and d: "distinct ps" and own: "owns k p a v" and u: "used k p"
    and cp: "corePages k p = Some cp" "core_chain (corePages k) (cp_next cp) qs"
  shows "\<exists>k3. cleared (set (takeWhile (used k) ps)) k k3 \<and> vm_mem ps k3 \<and> keeps k k3 \<and>
    (\<forall>q \<in> set ps. used k3 q = (used k q \<and> q \<notin> set (takeWhile (used k) ps))) \<and>
    evict_scan (Some p) (cp_next cp) (set_pte a v ((pte k a v)\<lparr>use := False\<rparr>) k) = Some (Inr (case dropWhile (used k) ps of [] \<Rightarrow> (None, k3)
      | v # _ \<Rightarrow> (Some v, unlink (last (takeWhile (used k) ps)) v k3)))"
proof -
  let ?k2 = "set_pte a v ((pte k a v)\<lparr>use := False\<rparr>) k"
  have lay: "layout k" and fr: "frames_ok k ps" using mem by (simp_all add: vm_mem_def)
  have inj: "inj_on (cphys k) (set ps)" using fr by (simp add: frames_ok_def)
  have c1: "cleared {p} k ?k2" by (rule cleared_one [OF lay own])
  have lay2: "layout ?k2" "cphys ?k2 = cphys k" using c1 by (simp_all add: cleared_def cphys_def fun_eq_iff)
  have U: "used k' q = (used k q \<and> q \<notin> S)" if c: "cleared S k k'" and q: "q \<in> set ps" and S: "S \<subseteq> set ps" for S k' q
  proof -
    obtain aq vq where o: "owns k q aq vq" using fr q unfolding frames_ok_def by blast
    have "inj_on (cphys k) (insert q S)" using inj by (rule inj_on_subset) (use q S in simp)
    then show ?thesis using cleared_used [OF lay c _ o] by blast
  qed
  have u2: "used ?k2 q = used k q" if "q \<in> set qs" for q using U [OF c1, of q] that d ps by auto
  have tw: "takeWhile (used ?k2) qs = takeWhile (used k) qs" "dropWhile (used ?k2) qs = dropWhile (used k) qs"
    using u2 by (auto intro: takeWhile_cong dropWhile_cong)
  have O: "\<forall>q \<in> set qs. \<exists>a v. owns ?k2 q a v" using fr ps cleared_owns [OF c1] by (simp add: frames_ok_def)
  have I: "inj_on (cphys ?k2) (set qs)" using inj ps lay2(2) by simp
  obtain k3 where k3: "cleared (set (takeWhile (used k) qs)) ?k2 k3"
    "evict_scan (Some p) (cp_next cp) ?k2 = Some (Inr (case dropWhile (used k) qs of [] \<Rightarrow> (None, k3)
      | v # _ \<Rightarrow> (Some v, unlink (last (p # takeWhile (used k) qs)) v k3)))"
    using evict_scan_correct [OF lay2(1) O I, of "cp_next cp" p cp, unfolded tw] cp d ps by auto
  have e: "set (takeWhile (used k) ps) = {p} \<union> set (takeWhile (used k) qs)" "dropWhile (used k) ps = dropWhile (used k) qs"
    "takeWhile (used k) ps = p # takeWhile (used k) qs" using u ps by simp_all
  have c3: "cleared (set (takeWhile (used k) ps)) k k3" unfolding e(1) by (rule cleared_trans [OF c1 k3(1)])
  have "set (takeWhile (used k) ps) \<subseteq> set ps" by (auto dest: set_takeWhileD)
  then have "\<forall>q \<in> set ps. used k3 q = (used k q \<and> q \<notin> set (takeWhile (used k) ps))" using U [OF c3] by blast
  then show ?thesis using cleared_mem [OF mem c3] c3 k3(2) [folded e(2,3)] by blast
qed

lemma evict_second_chance:
  assumes inv: "vm_inv ps k" and lru: "LRU k \<noteq> 0" and two: "2 \<le> length ps"
  shows "\<exists>k'. evictCorePage k = Some (Inr (Some (victim (used k) ps), k')) \<and> evicted ps (victim (used k) ps) k k' \<and>
    (\<forall>p \<in> set ps. used k' p = (used k p \<and> p \<notin> set (takeWhile (used k) ps)))"
proof -
  have core: "core_ok k ps" and mem: "vm_mem ps k" using inv by (simp_all add: vm_inv_alt)
  obtain p qs where ps: "ps = p # qs" "qs \<noteq> []" using two by (cases ps; cases "tl ps") auto
  have lay: "layout k" and fr: "frames_ok k ps" and d: "distinct ps" using mem core by (simp_all add: vm_mem_def core_ok_def)
  have inj: "inj_on (cphys k) (set ps)" using fr by (simp add: frames_ok_def)
  have own: "\<exists>a v. owns k q a v" if "q \<in> set ps" for q using fr that by (simp add: frames_ok_def)
  obtain cp where cp: "cm_head (coreMap k) = Some p" "corePages k p = Some cp" "core_chain (corePages k) (cp_next cp) qs"
    using core ps by (auto simp: core_ok_def)
  let ?m = "(coreMap k)\<lparr>cm_size := cm_size (coreMap k) - 1\<rparr>"
  let ?k1 = "k\<lparr>coreMap := ?m\<rparr>"
  have sv: "same_vm k ?k1" by (simp add: same_vm_def)
  note S = same_vmD [OF sv]
  have mem1: "vm_mem ps ?k1" and kp1: "keeps k ?k1" using mem S by (simp_all add: vm_mem_def frames_ok_def owns_def cphys_def inj_on_def keeps_def same_shape_def)
  have O1: "owns ?k1 = owns k" "cphys ?k1 = cphys k" using S by (simp_all add: owns_def cphys_def fun_eq_iff)
  have u1: "used ?k1 = used k"
    by (rule ext) (simp add: used_def get_core_def core_pte_def core_table_def get_store_def get_space_def get_pte_def get_table_def split: option.split)
  have sz: "cm_size (coreMap k) \<noteq> 0" "cm_head ?m \<noteq> cm_tail ?m" "cm_head ?m = Some p"
    using core ps d cp(1) by (auto simp: core_ok_def)
  obtain a v where pa: "owns k p a v" using own [of p] ps by auto
  note E = core_entry [OF S(1) [THEN iffD2, OF lay], unfolded O1, OF pa, unfolded u1, of cp]
  show ?thesis
  proof (cases "used k p")
    case False
    have "evictCorePage k = Some (evict_head ?k1)"
      using sz lru cp(2) E False by (simp add: evictCorePage_def get_core_def Let_def)
    moreover obtain k' where "evict_head ?k1 = Inr (Some p, k')" "evicted ps p k k'" "\<forall>q. used k' q = used k q"
      using head_evicted [OF mem1 [unfolded ps(1)] kp1, of cp] cp core u1 ps(1) by auto
    ultimately show ?thesis using False ps(1) by (auto simp: victim_def)
  next
    case True
    obtain k3 where k3: "cleared (set (takeWhile (used k) ps)) ?k1 k3" "vm_mem ps k3" "keeps ?k1 k3"
      "\<forall>q \<in> set ps. used k3 q = (used k q \<and> q \<notin> set (takeWhile (used k) ps))"
      "evict_scan (Some p) (cp_next cp) (set_pte a v ((pte ?k1 a v)\<lparr>use := False\<rparr>) ?k1) = Some (Inr (case dropWhile (used k) ps of [] \<Rightarrow> (None, k3)
        | v # _ \<Rightarrow> (Some v, unlink (last (takeWhile (used k) ps)) v k3)))"
      using scan_from_head [OF mem1 ps(1) d, unfolded O1 u1, OF pa True, of cp] cp(2,3) by auto
    have m3: "coreMap k3 = ?m" "corePages k3 = corePages k" using k3(1) by (simp_all add: cleared_def)
    have kp3: "keeps k k3" by (rule vm_keeps_trans [OF kp1 k3(3)])
    have run: "evictCorePage k = bindO (Some (Inr (case dropWhile (used k) ps of [] \<Rightarrow> (None, k3)
        | v # _ \<Rightarrow> (Some v, unlink (last (takeWhile (used k) ps)) v k3)))) (\<lambda>(r, k). case r of Some n \<Rightarrow> Some (Inr (Some n, k)) | None \<Rightarrow> Some (evict_head k))"
      using sz lru cp(2) E True k3(5) by (simp add: evictCorePage_def get_core_def Let_def)
    show ?thesis
    proof (cases "dropWhile (used k) ps")
      case Nil
      then have vic: "victim (used k) ps = p" using victim_split(2) [OF _ d Nil] ps by simp
      obtain k' where "evict_head k3 = Inr (Some p, k')" "evicted ps p k k'" "\<forall>q. used k' q = used k3 q"
        using head_evicted [OF k3(2) [unfolded ps(1)] kp3, of cp] m3 cp core ps(1) by auto
      then show ?thesis using run Nil k3(4) vic by auto
    next
      case (Cons w ys)
      note sp = victim_split(1) [OF _ d Cons]
      have e: "ps = takeWhile (used k) ps @ w # ys" "victim (used k) ps = w" "takeWhile (used k) ps \<noteq> []" using sp ps True by auto
      show ?thesis
        using unlink_evicted [OF k3(2) kp3 m3 core e(1,3)] run Cons k3(4) unfolding e(2) by auto
    qed
  qed
qed

section \<open>Page faults\<close>

lemma used_counted: "used (counted k) = used k"
  by (rule ext) (simp add: used_def counted_def get_core_def core_pte_def core_table_def get_store_def get_space_def get_pte_def get_table_def split: option.split)

lemma remove1_last: "distinct ps \<Longrightarrow> v \<in> set ps \<Longrightarrow> v \<noteq> last ps \<Longrightarrow> remove1 v ps \<noteq> [] \<and> last (remove1 v ps) = last ps"
  by (induction ps) (auto split: if_splits)

lemma victim_in: "ps \<noteq> [] \<Longrightarrow> victim u ps \<in> set ps"
  using set_dropWhileD [of _ u ps] by (force simp: victim_def split: list.split)

text \<open>Evicting the victim, up to the links.\<close>

lemma evict_one_second_chance:
  assumes inv: "vm_inv ps k" and lru: "LRU k \<noteq> 0" and two: "2 \<le> length ps"
  shows "\<exists>k'. evict_one k = Some (Inr k') \<and> vm_mem (remove1 (victim (used k) ps) ps) k' \<and> keeps k k' \<and> corePages k' (victim (used k) ps) = None \<and>
    core_chain (corePages k') (cm_head (coreMap k')) (remove1 (victim (used k) ps) ps) \<and> cm_tail (coreMap k') = Some (last ps) \<and>
    cm_size (coreMap k') = int (length ps) - 1 \<and> cm_capacity (coreMap k') = 32"
proof -
  let ?v = "victim (used k) ps"
  have d: "distinct ps" and ne: "ps \<noteq> []" using inv two by (auto simp: vm_inv_def core_ok_def)
  obtain k1 where k1: "evictCorePage k = Some (Inr (Some ?v, k1))" "evicted ps ?v k k1" using evict_second_chance [OF inv lru two] by blast
  have set: "set (?v # remove1 ?v ps) = set ps" "?v \<notin> set (remove1 ?v ps)" using victim_in [OF ne, of "used k"] d by (auto simp: set_remove1_eq)
  have mem: "vm_mem (?v # remove1 ?v ps) k1" using k1(2) unfolding evicted_def vm_mem_def frames_ok_def set by blast
  obtain k' where k': "evict_one k = Some (Inr k')" "vm_mem (remove1 ?v ps) k'" "keeps k1 k'" "corePages k' = (corePages k1)(?v := None)" "coreMap k' = coreMap k1"
    using evict_one_victim [OF k1(1) mem set(2)] by blast
  have "keeps k k'" using vm_keeps_trans [OF _ k'(3)] k1(2) by (simp add: evicted_def)
  moreover have "core_chain (corePages k') (cm_head (coreMap k')) (remove1 ?v ps)"
    unfolding k'(4,5) core_chain_upd [OF set(2)] using k1(2) by (simp add: evicted_def)
  ultimately show ?thesis using k' k1(2) by (auto simp: evicted_def)
qed

text \<open>C25. Page faults with second-chance replacement: when the core map is not full, or the victim is not its last page, the fault succeeds with the
  guarantees of the FIFO policy. The victim is the first page in order of loading whose use bit is clear, or the oldest page when all are set.\<close>

theorem page_fault_second_chance:
  assumes inv: "vm_inv ps k" and lru: "LRU k \<noteq> 0" and nl: "length ps = 32 \<Longrightarrow> victim (used k) ps \<noteq> last ps"
    and cur: "threads k (currentThread k) = Some th" and sp: "t_space th = Some a"
    and p: "is_page k a v" and va: "v = unat (reg BadVAddrReg k) div 128" and inval: "\<not> valid (pte k a v)" and q: "q \<notin> set ps"
  shows "\<exists>k'. page_fault q k = Some (Inr (0, k')) \<and> vm_inv ((if length ps = 32 then remove1 (victim (used k) ps) ps else ps) @ [q]) k' \<and>
    valid (pte k' a v) \<and> (\<forall>a' v'. is_page k a' v' \<longrightarrow> page_content k' a' v' = page_content k a' v')"
proof (cases "length ps = 32")
  case False
  then have "\<not> isFull (coreMap k)" "length ps < 32" using inv core_map_bound [OF inv] by (simp_all add: vm_inv_def core_ok_def isFull_def)
  moreover have "keeps (counted k) (counted k)" by (simp add: keeps_def same_shape_def)
  ultimately show ?thesis using False page_fault_room [of k "counted k" ps q th a v] inv cur sp p va inval q by (auto simp: counted_same)
next
  case True
  let ?v = "victim (used k) ps"
  have d: "distinct ps" and ne: "ps \<noteq> []" and full: "isFull (coreMap (counted k))"
    using inv True by (auto simp: vm_inv_def core_ok_def isFull_def counted_same)
  obtain k1 where k1: "evict_one (counted k) = Some (Inr k1)" "vm_mem (remove1 ?v ps) k1" "keeps (counted k) k1"
    "core_chain (corePages k1) (cm_head (coreMap k1)) (remove1 ?v ps)" "cm_tail (coreMap k1) = Some (last ps)"
    "cm_size (coreMap k1) = int (length ps) - 1" "cm_capacity (coreMap k1) = 32"
    using evict_one_second_chance [of ps "counted k"] inv lru True unfolding used_counted by (auto simp: counted_same)
  have v: "?v \<in> set ps" by (rule victim_in [OF ne])
  note r = remove1_last [OF d v nl [OF True]]
  have "core_ok k1 (remove1 ?v ps)" using k1 r d v True by (simp add: core_ok_def length_remove1)
  then have inv1: "vm_inv (remove1 ?v ps) k1" using k1(2) by (simp add: vm_inv_alt)
  have room: "(if isFull (coreMap (counted k)) then evict_one (counted k) else Some (Inr (counted k))) = Some (Inr k1)" using full k1(1) by simp
  have "length (remove1 ?v ps) < 32" "q \<notin> set (remove1 ?v ps)" using v True q by (auto simp: length_remove1 dest: notin_set_remove1 [rotated])
  from page_fault_room [OF room inv1 k1(3) this cur sp p va inval] show ?thesis using True by auto
qed

text \<open>C37. The tail of the core map: when the search takes the last page of a full core map (all the pages before it have been used, the last has
  not), \<open>evictCorePage\<close> leaves the tail pointer on it, the handler deletes it, and \<open>addCorePage\<close> then writes the link of the new page through
  the dangling pointer.\<close>

theorem second_chance_dangling_tail:
  assumes inv: "vm_inv ps k" and lru: "LRU k \<noteq> 0" and full: "length ps = 32" and vic: "victim (used k) ps = last ps"
    and cur: "threads k (currentThread k) = Some th" and sp: "t_space th = Some a" and p: "spaces k a \<noteq> None" and q: "q \<notin> set ps"
  shows "page_fault q k = Some (Inl DanglingPointer)"
proof -
  let ?v = "last ps"
  have d: "distinct ps" and ne: "ps \<noteq> []" and fl: "isFull (coreMap (counted k))"
    using inv full by (auto simp: vm_inv_def core_ok_def isFull_def counted_same)
  obtain k1 where k1: "evict_one (counted k) = Some (Inr k1)" "vm_mem (remove1 ?v ps) k1" "keeps (counted k) k1" "corePages k1 ?v = None"
    "core_chain (corePages k1) (cm_head (coreMap k1)) (remove1 ?v ps)" "cm_tail (coreMap k1) = Some ?v"
    "cm_size (coreMap k1) = int (length ps) - 1" "cm_capacity (coreMap k1) = 32"
    using evict_one_second_chance [of ps "counted k"] inv lru full vic unfolding used_counted by (auto simp: counted_same)
  have lay: "layout k1" and mm: "mm_ok (memoryManager k1) (cphys k1 ` set (remove1 ?v ps))" using k1(2) by (simp_all add: vm_mem_def)
  have "length (remove1 ?v ps) = 31" using ne full by (simp add: length_remove1)
  then have "card (cphys k1 ` set (remove1 ?v ps)) < 32" using card_image_le [of "set (remove1 ?v ps)" "cphys k1"] card_length [of "remove1 ?v ps"] by simp
  then have "cphys k1 ` set (remove1 ?v ps) \<noteq> {0..<32}" by auto
  then obtain f m where al: "AllocPage (memoryManager k1) = Inr (f, m)" using AllocPage_free [OF mm] by blast
  have a: "spaces k1 a \<noteq> None" using k1(3) p by (simp add: keeps_def same_shape_def counted_def)
  note D = layoutD [OF lay a]
  have hd: "read_header (currentExecutable (the_space k1 a)) k1 = Inr (header_of k1 a)" "noffMagic (header_of k1 a) = NOFFMAGIC"
    using header_read [OF lay a] D(12) by (simp_all add: header_ok_def)
  have ch: "cm_head (coreMap k1) \<noteq> None" using k1(5) \<open>length (remove1 ?v ps) = 31\<close> by (cases "remove1 ?v ps") auto
  have "q \<noteq> ?v" using q ne by auto
  then have "addCorePage q (k1\<lparr>memoryManager := m, corePages := (corePages k1)(q \<mapsto> c)\<rparr>) = Inl DanglingPointer" for c
    using k1(4,6-8) ch full by (simp add: addCorePage_def setNext_def get_core_def Let_def)
  then have "allocVirtualPage q a (reg BadVAddrReg k) k1 = Inl DanglingPointer"
    using hd al D(1,4) by (simp add: allocVirtualPage_def get_space_def Let_def)
  then show ?thesis using page_fault_steps [OF _ k1(3) cur sp] fl k1(1) by simp
qed

section \<open>A full memory\<close>

text \<open>The process of \<open>example_process\<close> with its first 32 pages in memory, all modified, and a fault at its 33rd page. \<open>u\<close> says which pages
  have been used.\<close>

definition example_entry :: "(nat \<Rightarrow> bool) \<Rightarrow> nat \<Rightarrow> TranslationEntry" where
  "example_entry u i = \<lparr>virtualPage = of_nat i, physicalPage = of_nat i, valid = i < 32, readOnly = False, use = u i, dirty = i < 32\<rparr>"

definition example_core :: "nat \<Rightarrow> CorePage option" where
  "example_core p = (if p < 32 then Some \<lparr>cp_next = (if p < 31 then Some (Suc p) else None), cp_backingStore = 0, cp_physicalPage = int p, cp_virtualPage = int p\<rparr>
     else None)"

definition example_full :: "(nat \<Rightarrow> bool) \<Rightarrow> vm" where
  "example_full u = example_process\<lparr>tables := (tables example_process)(0 \<mapsto> map (example_entry u) [0..<45]), corePages := example_core,
     coreMap := \<lparr>cm_head = Some 0, cm_tail = Some 31, cm_size = 32, cm_capacity = 32\<rparr>,
     memoryManager := \<lparr>mm_lock = False, mm_pages = \<lparr>numBits = 32, numWords = 1, bm_map = [- 1]\<rparr>\<rparr>, LRU := 1,
     registers := (registers example_process)[39 := 4096]\<rparr>"

lemma example_chain: "n \<le> 32 \<Longrightarrow> core_chain example_core (if n < 32 then Some n else None) [n..<32]"
proof (induction "32 - n" arbitrary: n)
  case (Suc d)
  then have "n < 32" by simp
  then show ?case using Suc(1) [of "Suc n"] Suc(2) by (subst upt_conv_Cons) (auto simp: example_core_def split: if_splits)
qed simp

lemma example_heap_objects:
  "ptable example_process 0 = 0" "sid example_process 0 = 0" "bits (bs_pages (srec example_process 0)) = {}"
  "spaces example_process a \<noteq> None \<longleftrightarrow> a = 0" "length (entries example_process 0) = 45" "registers example_process = replicate 40 0"
proof -
  obtain junk b bm where k: "example_process = created 0 0 0 0 1 junk b bm example_header example_boot" "bitmap_wf bm"
    "numBits bm = uint (pages_needed example_header)" "bits bm = {}" using example_created by blast
  note new = created_new [OF example_fresh example_read example_header_ok k(2-4) k(1)]
  show "ptable example_process 0 = 0" "sid example_process 0 = 0" "bits (bs_pages (srec example_process 0)) = {}"
    "length (entries example_process 0) = 45" using new(2,4,6,8) example_pages by simp_all
  show "spaces example_process a \<noteq> None \<longleftrightarrow> a = 0" "registers example_process = replicate 40 0"
    unfolding k(1) using example_fields(1,13) by (auto simp: created_def)
qed

lemma example_full_selectors:
  "spaces (example_full u) = spaces example_process" "entries (example_full u) 0 = map (example_entry u) [0..<45]" "sid (example_full u) = sid example_process"
  "srec (example_full u) = srec example_process" "sfile (example_full u) = sfile example_process"
  "is_page (example_full u) a v \<longleftrightarrow> a = 0 \<and> v < 45" "v < 45 \<Longrightarrow> pte (example_full u) 0 v = example_entry u v" "v < 45 \<Longrightarrow> phys (example_full u) 0 v = int v"
proof -
  show sel: "spaces (example_full u) = spaces example_process" "sid (example_full u) = sid example_process"
    "srec (example_full u) = srec example_process" "sfile (example_full u) = sfile example_process"
    by (simp_all add: example_full_def selectors fun_eq_iff)
  have "ptable (example_full u) 0 = 0" using example_heap_objects(1) by (simp add: example_full_def ptable_def the_space_def)
  then show e: "entries (example_full u) 0 = map (example_entry u) [0..<45]" by (simp add: entries_def example_full_def)
  show "is_page (example_full u) a v \<longleftrightarrow> a = 0 \<and> v < 45" using e example_heap_objects(4) [of a] by (auto simp: is_page_def sel)
  show p: "pte (example_full u) 0 v = example_entry u v" if "v < 45" using that e by (simp add: pte_def)
  have "sint (of_nat v :: 32 word) = int v" if "v < 45"
    using that sint_sbintrunc' [of "int v", where 'a = 32] by (simp add: signed_take_bit_int_eq_self)
  then show "phys (example_full u) 0 v = int v" if "v < 45" using that p by (simp add: phys_def example_entry_def)
qed

lemma example_full_layout: "layout (example_full u)"
proof -
  have lay: "layout example_process" using example_state(1) by (simp add: vm_inv_def)
  note D = layoutD [OF lay, of 0]
  have sel: "the_space (example_full u) = the_space example_process" "ptable (example_full u) = ptable example_process" "ename (example_full u) = ename example_process"
    "econt (example_full u) = econt example_process" "files (example_full u) = files example_process" "stores (example_full u) = stores example_process"
    "openFiles (example_full u) = openFiles example_process" "mainMemory (example_full u) = mainMemory example_process"
    by (simp_all add: example_full_def selectors fun_eq_iff)
  have "get_file f (example_full u) = get_file f example_process" for f by (simp add: get_file_def sel split: option.split)
  then have "read_header f (example_full u) = read_header f example_process" for f
    by (rule read_header_cong) (simp add: example_full_def)
  then have hd: "header_of (example_full u) = header_of example_process" by (simp add: header_of_def sel fun_eq_iff)
  have t: "tables (example_full u) (ptable example_process 0) = Some (entries (example_full u) 0)"
    using example_heap_objects(1) example_full_selectors(2) by (simp add: example_full_def)
  have one: "spaces (example_full u) a \<noteq> None \<longleftrightarrow> a = 0" for a using example_heap_objects(4) example_full_selectors(1) by simp
  have "space_ok (example_full u) 0"
    using D example_heap_objects(4) t unfolding space_ok_def sel hd example_full_selectors(2-5) by (simp add: example_heap_objects(5))
  moreover have "ename example_process 0 \<noteq> bs_filename (srec example_process 0)" using layout_distinct(4) [OF lay, of 0 0] example_heap_objects(4) by simp
  ultimately show ?thesis
    using layout_memory [OF lay] one unfolding layout_def sel example_full_selectors(4) by auto
qed

lemma example_full_inv: "vm_inv [0..<32] (example_full u)"
proof -
  note E = example_full_selectors
  have cp: "cphys (example_full u) p = int p" if "p < 32" for p using that by (simp add: cphys_def example_full_def example_core_def)
  have img: "cphys (example_full u) ` {0..<32} = {0..<32}"
  proof -
    have "cphys (example_full u) ` {0..<32} = int ` {0..<32}" by (rule image_cong [OF HOL.refl]) (use cp in simp)
    then show ?thesis unfolding image_int_atLeastLessThan by simp
  qed
  have "paged (example_full u)"
  proof (rule pagedI)
    fix a v assume "is_page (example_full u) a v"
    then have v: "a = 0" "v < 45" using E(6) by blast+
    show "(valid (pte (example_full u) a v) \<longrightarrow> 0 \<le> phys (example_full u) a v \<and> phys (example_full u) a v < 32) \<and>
       (\<not> dirty (pte (example_full u) a v) \<longrightarrow> valid (pte (example_full u) a v) \<longrightarrow> frame (example_full u) (phys (example_full u) a v) = backing (example_full u) a v) \<and>
       (\<not> valid (pte (example_full u) a v) \<longrightarrow> \<not> dirty (pte (example_full u) a v)) \<and>
       (int v \<in> bits (bs_pages (srec (example_full u) a)) \<longrightarrow> v * 128 + 128 \<le> length (sfile (example_full u) a))"
      using v E(4,7,8) example_heap_objects(3) by (simp add: example_entry_def)
  next
    fix a v a' v' assume r: "is_page (example_full u) a v" "is_page (example_full u) a' v'" "phys (example_full u) a v = phys (example_full u) a' v'"
    then have x: "a = 0" "v < 45" "a' = 0" "v' < 45" using E(6) by blast+
    show "a = a' \<and> v = v'" using r(3) unfolding x E(8) [OF x(2)] E(8) [OF x(4)] by simp
  qed
  moreover have "core_ok (example_full u) [0..<32]"
  proof -
    have "core_chain example_core (Some 0) [0..<32]" "last [0..<32] = (31::nat)" using example_chain [of 0] last_upt [of 0 32] by auto
    then show ?thesis by (simp add: core_ok_def example_full_def)
  qed
  moreover have "frames_ok (example_full u) [0..<32]"
    unfolding frames_ok_def set_upt img
  proof (intro conjI ballI allI impI)
    fix p :: nat assume "p \<in> {0..<32}"
    then have "owns (example_full u) p 0 p" using E(3,6,7,8) example_heap_objects(2) by (simp add: owns_def example_entry_def example_full_def example_core_def)
    then show "\<exists>a v. owns (example_full u) p a v" by blast
  next
    show "inj_on (cphys (example_full u)) {0..<32}" using cp by (auto simp: inj_on_def)
    show "phys (example_full u) a v \<in> {0..<32}" if "is_page (example_full u) a v" "valid (pte (example_full u) a v)" for a v
    proof -
      have x: "a = 0" "v < 45" using that(1) E(6) by blast+
      show ?thesis using that(2) unfolding x E(7) [OF x(2)] E(8) [OF x(2)] by (simp add: example_entry_def)
    qed
  qed
  moreover have "mm_ok (memoryManager (example_full u)) (cphys (example_full u) ` set [0..<32])"
  proof -
    have "bits \<lparr>numBits = 32, numWords = 1, bm_map = [- 1]\<rparr> = {0..<32}" by (auto simp: bits_def)
    then show ?thesis unfolding set_upt img by (simp add: mm_ok_def example_full_def bitmap_wf_def divRoundUp_def BitsInWord_def)
  qed
  ultimately show ?thesis using example_full_layout by (simp add: vm_inv_def)
qed

lemma example_full_used: "p \<in> set [0..<32] \<Longrightarrow> used (example_full u) p = u p"
proof -
  assume "p \<in> set [0..<32]"
  then have p: "p < 32" by simp
  have o: "owns (example_full u) p 0 p" using p example_full_selectors(3,6,7,8) example_heap_objects(2)
    by (simp add: owns_def example_entry_def example_full_def example_core_def)
  obtain cp where "corePages (example_full u) p = Some cp" using o by (auto simp: owns_def)
  from core_entry(3) [OF example_full_layout o this] show ?thesis using p example_full_selectors(7) [of p] by (simp add: example_entry_def)
qed

lemma example_full_thread:
  "\<exists>th. threads (example_full u) (currentThread (example_full u)) = Some th \<and> t_space th = Some 0" "spaces (example_full u) 0 \<noteq> None" "LRU (example_full u) \<noteq> 0"
  "reg BadVAddrReg (example_full u) = 4096" "is_page (example_full u) 0 32" "\<not> valid (pte (example_full u) 0 32)"
  using example_state(5,6) example_heap_objects(4,6) example_full_selectors(1,6,7)
  by (simp_all add: example_full_def reg_def BadVAddrReg_def example_entry_def)

lemma victim_cong: "(\<And>p. p \<in> set ps \<Longrightarrow> u p = w p) \<Longrightarrow> victim u ps = victim w ps"
  by (simp add: victim_def cong: dropWhile_cong)

lemma example_victim: "victim (used (example_full u)) [0..<32] = victim u [0..<32]"
  by (rule victim_cong) (rule example_full_used)

lemma example_victims: "victim (\<lambda>i. i \<noteq> 31) [0..<32] = 31" "victim (\<lambda>i. i = 0) [0..<32] = 1"
proof -
  have "[0..<32] = [0..<31] @ [31]" using upt_Suc_append [of 0 31] by simp
  moreover have "dropWhile (\<lambda>i. i \<noteq> 31) ([0..<31] @ [31]) = [31 :: nat]" by (subst dropWhile_append2) auto
  ultimately show "victim (\<lambda>i. i \<noteq> 31) [0..<32] = 31" by (simp add: victim_def)
  have "[0..<32] = 0 # 1 # [2..<32]" by (simp add: upt_conv_Cons)
  then show "victim (\<lambda>i. i = 0) [0..<32] = 1" by (simp add: victim_def)
qed

theorem page_fault_second_chance_witness:
  "\<exists>k'. page_fault 40 (example_full (\<lambda>i. i = 0)) = Some (Inr (0, k')) \<and> vm_inv (remove1 1 [0..<32] @ [40]) k' \<and> valid (pte k' 0 32)"
proof -
  let ?k = "example_full (\<lambda>i. i = 0)"
  note E = example_full_thread [of "\<lambda>i. i = 0"]
  obtain th where th: "threads ?k (currentThread ?k) = Some th" "t_space th = Some 0" using E(1) by blast
  have v: "victim (used ?k) [0..<32] = 1" using example_victim example_victims(2) by simp
  have "victim (used ?k) [0..<32] \<noteq> last [0..<32]" using v last_upt [of 0 32] by simp
  then show ?thesis
    using page_fault_second_chance [OF example_full_inv E(3) _ th E(5) _ E(6), of 40] v E(4) by auto
qed

theorem second_chance_dangling_tail_witness: "page_fault 40 (example_full (\<lambda>i. i \<noteq> 31)) = Some (Inl DanglingPointer)"
proof -
  let ?k = "example_full (\<lambda>i. i \<noteq> 31)"
  note E = example_full_thread [of "\<lambda>i. i \<noteq> 31"]
  obtain th where th: "threads ?k (currentThread ?k) = Some th" "t_space th = Some 0" using E(1) by blast
  have "victim (used ?k) [0..<32] = last [0..<32]" using example_victim example_victims(1) last_upt [of 0 32] by simp
  then show ?thesis using second_chance_dangling_tail [OF example_full_inv E(3) _ _ th E(2), of 40] by simp
qed

end
