(* ===== verification/Console_Device.thy ===== *)
theory Console_Device
  imports Virtual_Memory Table_Pipe
begin

text \<open>
  The terminal (\<^verbatim>\<open>src/code/machine/console.cc\<close>) and its synchronous interface (\<^verbatim>\<open>src/code/userprog/SynchConsole.cc\<close>).

  The keyboard is the list of the characters that have been typed and not been read from the UNIX file yet, with a flag that its end has been reached, the display the list of the characters written. The device
  polls the keyboard by an interrupt that schedules itself again, keeps one character in \<open>incoming\<close> (\<open>EOF\<close>, that is -1, stands for none) and calls its read handler, which is \<open>V\<close> of the
  semaphore \<open>r\<close>; a character that is written is on the display at once, and its completion interrupt calls \<open>V\<close> of \<open>w\<close>.

  The two methods of \<open>SynchConsole\<close> are lists of statements. The first part runs them on the state of the kernel, as one call; calls that wait take as an argument what happens to the system while the calling
  thread sleeps (\<open>away\<close>). The second part executes the same lists statement by statement, interleaved with the device and with any number of other threads that read and write, on the steps of \<open>Synch\<close>.
\<close>

section \<open>The device\<close>

definition ConsoleTime :: int where "ConsoleTime = 100"
definition EOF_char :: int where "EOF_char = - 1"

record Console =
  keyboard :: "int list"
  kb_end :: bool
  display :: "int list"
  putBusy :: bool
  incoming :: int

record csys = vm +
  con :: Console
  sc_r :: nat
  sc_w :: nat

definition Console_new :: "int list \<Rightarrow> Console" where
  "Console_new kb = \<lparr>keyboard = kb, kb_end = False, display = [], putBusy = False, incoming = EOF_char\<rparr>"

text \<open>What the polling routine does to the device, and whether it calls the read handler. At the end of the input \<open>select\<close> reports that the file can be read, and the assertion of \<open>Read\<close> (\<^verbatim>\<open>machine/sysdep.cc\<close>)
  that a byte has been read fails.\<close>

definition poll :: "Console \<Rightarrow> (bool \<times> Console) res" where
  "poll c = (if incoming c \<noteq> EOF_char then Inr (False, c)
     else case keyboard c of [] \<Rightarrow> if kb_end c then Inl AssertFail else Inr (False, c) | ch # r \<Rightarrow> Inr (True, c\<lparr>incoming := ch, keyboard := r\<rparr>))"

definition take_char :: "Console \<Rightarrow> int \<times> Console" where
  "take_char c = (incoming c, c\<lparr>incoming := EOF_char\<rparr>)"

definition put_char :: "int \<Rightarrow> Console \<Rightarrow> Console res" where
  "put_char ch c = bindR (assertR (\<not> putBusy c)) (\<lambda>_. Inr (c\<lparr>display := display c @ [ch], putBusy := True\<rparr>))"

section \<open>The routines on the kernel\<close>

text \<open>\<open>SynchConsole::CheckCharAvail\<close> and \<open>SynchConsole::WriteDone\<close>, the handlers of the device.\<close>

definition Synch_CheckCharAvail :: "'m csys_scheme \<Rightarrow> 'm csys_scheme res" where
  "Synch_CheckCharAvail k = Semaphore_V (sc_r k) k"

definition Synch_WriteDone :: "'m csys_scheme \<Rightarrow> 'm csys_scheme res" where
  "Synch_WriteDone k = Semaphore_V (sc_w k) k"

definition Console_CheckCharAvail :: "'m csys_scheme \<Rightarrow> 'm csys_scheme res" where
  "Console_CheckCharAvail k =
     bindR (Schedule ConsoleReadPoll 0 ConsoleTime ConsoleReadInt k) (\<lambda>k.
     bindR (poll (con k)) (\<lambda>(avail, c).
       if avail then Synch_CheckCharAvail (k\<lparr>con := c, stats := (stats k)\<lparr>numConsoleCharsRead := numConsoleCharsRead (stats k) + 1\<rparr>\<rparr>) else Inr k))"

definition Console_WriteDone :: "'m csys_scheme \<Rightarrow> 'm csys_scheme res" where
  "Console_WriteDone k = Synch_WriteDone (k\<lparr>con := (con k)\<lparr>putBusy := False\<rparr>, stats := (stats k)\<lparr>numConsoleCharsWritten := numConsoleCharsWritten (stats k) + 1\<rparr>\<rparr>)"

definition console_dispatch :: "irq \<Rightarrow> int \<Rightarrow> 'm csys_scheme \<Rightarrow> 'm csys_scheme res" where
  "console_dispatch h a k = (if h = ConsoleReadPoll then Console_CheckCharAvail k else if h = ConsoleWriteDone then Console_WriteDone k else Inl NullPointer)"

definition Console_GetChar :: "'m csys_scheme \<Rightarrow> int \<times> 'm csys_scheme" where
  "Console_GetChar k = (let (ch, c) = take_char (con k) in (ch, k\<lparr>con := c\<rparr>))"

definition Console_PutChar :: "int \<Rightarrow> 'm csys_scheme \<Rightarrow> 'm csys_scheme res" where
  "Console_PutChar ch k = bindR (put_char ch (con k)) (\<lambda>c. Schedule ConsoleWriteDone 0 ConsoleTime ConsoleWriteInt (k\<lparr>con := c\<rparr>))"

definition SynchConsole_new :: "nat \<Rightarrow> nat \<Rightarrow> int list \<Rightarrow> 'm csys_scheme \<Rightarrow> 'm csys_scheme res" where
  "SynchConsole_new r w kb k = Schedule ConsoleReadPoll 0 ConsoleTime ConsoleReadInt
     (k\<lparr>sems := (sems k)(r \<mapsto> Semaphore_new 0, w \<mapsto> Semaphore_new 0), sc_r := r, sc_w := w, con := Console_new kb\<rparr>)"

definition SynchConsole_delete :: "'m csys_scheme \<Rightarrow> 'm csys_scheme res" where
  "SynchConsole_delete k = bindR (Semaphore_delete (sc_r k) k) (\<lambda>k. Semaphore_delete (sc_w k) k)"

text \<open>\<open>P\<close> to its end: a round that sleeps is followed by what happens until the thread runs again, and by the next round.\<close>

partial_function (option) P_wait :: "('m synch_scheme \<Rightarrow> 'm synch_scheme res option) \<Rightarrow> nat \<Rightarrow> 'm synch_scheme \<Rightarrow> 'm synch_scheme res option" where
  "P_wait away s k = bindO (Some (Semaphore_P s k)) (\<lambda>(ok, k). if ok then Some (Inr k) else bindO (away k) (P_wait away s))"

text \<open>Likewise \<open>Lock::Acquire\<close> and \<open>Condition::Wait\<close>.\<close>

partial_function (option) acquire_loop :: "('m synch_scheme \<Rightarrow> 'm synch_scheme res option) \<Rightarrow> nat \<Rightarrow> 'm synch_scheme \<Rightarrow> 'm synch_scheme res option" where
  "acquire_loop aw l k = bindO (Some (Acquire_round l k)) (\<lambda>(ok, k). if ok then Some (Inr k) else bindO (aw k) (acquire_loop aw l))"

definition acquire_wait :: "('m synch_scheme \<Rightarrow> 'm synch_scheme res option) \<Rightarrow> nat \<Rightarrow> 'm synch_scheme \<Rightarrow> 'm synch_scheme res option" where
  "acquire_wait aw l k = bindO (Some (Acquire_entry l k)) (\<lambda>_. acquire_loop aw l k)"

definition cond_wait :: "('m synch_scheme \<Rightarrow> 'm synch_scheme res option) \<Rightarrow> nat \<Rightarrow> nat \<Rightarrow> 'm synch_scheme \<Rightarrow> 'm synch_scheme res option" where
  "cond_wait aw c l k = bindO (Some (Wait c l k)) (\<lambda>k. bindO (aw k) (acquire_wait aw l))"

text \<open>The methods of \<open>SynchConsole\<close>. The local variable \<open>ch\<close> is the parameter of \<open>PutChar\<close> and the result of \<open>GetChar\<close>.\<close>

datatype con_stmt = Do_PutChar | Do_wP | Do_rP | Do_GetChar

definition PutChar_code :: "con_stmt list" where "PutChar_code = [Do_PutChar, Do_wP]"

definition GetChar_code :: "con_stmt list" where "GetChar_code = [Do_rP, Do_GetChar]"

fun run_con :: "('m csys_scheme \<Rightarrow> 'm csys_scheme res option) \<Rightarrow> con_stmt list \<Rightarrow> int \<Rightarrow> 'm csys_scheme \<Rightarrow> (int \<times> 'm csys_scheme) res option" where
  "run_con away [] ch k = Some (Inr (ch, k))"
| "run_con away (Do_PutChar # cs) ch k = bindO (Some (Console_PutChar ch k)) (run_con away cs ch)"
| "run_con away (Do_wP # cs) ch k = bindO (P_wait away (sc_w k) k) (run_con away cs ch)"
| "run_con away (Do_rP # cs) ch k = bindO (P_wait away (sc_r k) k) (run_con away cs ch)"
| "run_con away (Do_GetChar # cs) ch k = (case Console_GetChar k of (ch, k) \<Rightarrow> run_con away cs ch k)"

definition SynchConsole_PutChar :: "('m csys_scheme \<Rightarrow> 'm csys_scheme res option) \<Rightarrow> int \<Rightarrow> 'm csys_scheme \<Rightarrow> 'm csys_scheme res option" where
  "SynchConsole_PutChar away ch k = bindO (run_con away PutChar_code ch k) (\<lambda>(_, k). Some (Inr k))"

definition SynchConsole_GetChar :: "('m csys_scheme \<Rightarrow> 'm csys_scheme res option) \<Rightarrow> 'm csys_scheme \<Rightarrow> (int \<times> 'm csys_scheme) res option" where
  "SynchConsole_GetChar away k = run_con away GetChar_code 0 k"

section \<open>Readers, writers and the device\<close>

text \<open>A thread is outside, or in a call with some statements still to be executed. The device polls and completes writes by interrupts, at any time. A failed assertion ends the run: \<open>Put_failed\<close> is that of
  \<open>Console::PutChar\<close>, \<open>Poll_failed\<close> that of \<open>Read\<close> at the end of the input.\<close>

datatype cplace = NoCall | InCall "con_stmt list" int

datatype clabel = Typed int | Input_end | Got int | Put_label int | Quiet | Put_failed nat | Poll_failed

definition on_cpu :: "'m synch_scheme \<times> (nat \<Rightarrow> place) \<Rightarrow> nat \<Rightarrow> bool" where
  "on_cpu s t \<longleftrightarrow> currentThread (fst s) = t \<and> st (fst s) t = Some RUNNING \<and> snd s t = Free"

inductive cstep :: "nat \<Rightarrow> nat \<Rightarrow> ('m synch_scheme \<times> (nat \<Rightarrow> place)) \<times> Console \<times> (nat \<Rightarrow> cplace) \<Rightarrow> clabel \<Rightarrow>
    ('m synch_scheme \<times> (nat \<Rightarrow> place)) \<times> Console \<times> (nat \<Rightarrow> cplace) \<Rightarrow> bool" for r w where
  typed: "\<not> kb_end c \<Longrightarrow> cstep r w (s, c, q) (Typed ch) (s, c\<lparr>keyboard := keyboard c @ [ch]\<rparr>, q)"
| input_end: "cstep r w (s, c, q) Input_end (s, c\<lparr>kb_end := True\<rparr>, q)"
| poll_nothing: "poll c = Inr (False, c') \<Longrightarrow> cstep r w (s, c, q) Quiet (s, c', q)"
| poll_char: "poll c = Inr (True, c') \<Longrightarrow> kstep s (Gave (SemQ r)) s' \<Longrightarrow> cstep r w (s, c, q) Quiet (s', c', q)"
| poll_fails: "poll c = Inl e \<Longrightarrow> cstep r w (s, c, q) Poll_failed (s, c, q)"
| write_done: "putBusy c \<Longrightarrow> kstep s (Gave (SemQ w)) s' \<Longrightarrow> cstep r w (s, c, q) Quiet (s', c\<lparr>putBusy := False\<rparr>, q)"
| c_call: "on_cpu s t \<Longrightarrow> q t = NoCall \<Longrightarrow> code \<in> {PutChar_code, GetChar_code} \<Longrightarrow> cstep r w (s, c, q) Quiet (s, c, q(t := InCall code ch))"
| c_return: "on_cpu s t \<Longrightarrow> q t = InCall [] ch \<Longrightarrow> cstep r w (s, c, q) Quiet (s, c, q(t := NoCall))"
| put: "on_cpu s t \<Longrightarrow> q t = InCall (Do_PutChar # cs) ch \<Longrightarrow> put_char ch c = Inr c' \<Longrightarrow> cstep r w (s, c, q) (Put_label ch) (s, c', q(t := InCall cs ch))"
| put_fails: "on_cpu s t \<Longrightarrow> q t = InCall (Do_PutChar # cs) ch \<Longrightarrow> put_char ch c = Inl e \<Longrightarrow> cstep r w (s, c, q) (Put_failed t) (s, c, q)"
| put_P: "kstep s (Took (SemQ w)) s' \<Longrightarrow> q (currentThread (fst s)) = InCall (Do_wP # cs) ch \<Longrightarrow> cstep r w (s, c, q) Quiet (s', c, q(currentThread (fst s) := InCall cs ch))"
| get_P: "kstep s (Took (SemQ r)) s' \<Longrightarrow> q (currentThread (fst s)) = InCall (Do_rP # cs) ch \<Longrightarrow> cstep r w (s, c, q) Quiet (s', c, q(currentThread (fst s) := InCall cs ch))"
| get: "on_cpu s t \<Longrightarrow> q t = InCall (Do_GetChar # cs) ch0 \<Longrightarrow> take_char c = (ch, c') \<Longrightarrow> cstep r w (s, c, q) (Got ch) (s, c', q(t := InCall cs ch))"
| c_other: "kstep s e s' \<Longrightarrow> \<forall>x \<in> {r, w}. e \<noteq> Took (SemQ x) \<and> e \<noteq> Gave (SemQ x) \<Longrightarrow> cstep r w (s, c, q) Quiet (s', c, q)"

fun is_failure :: "clabel \<Rightarrow> bool" where
  "is_failure (Put_failed t) = True"
| "is_failure Poll_failed = True"
| "is_failure _ = False"

inductive creach :: "nat \<Rightarrow> nat \<Rightarrow> ('m synch_scheme \<times> (nat \<Rightarrow> place)) \<times> Console \<times> (nat \<Rightarrow> cplace) \<Rightarrow> clabel list \<Rightarrow>
    ('m synch_scheme \<times> (nat \<Rightarrow> place)) \<times> Console \<times> (nat \<Rightarrow> cplace) \<Rightarrow> bool" for r w where
  creach_start: "creach r w s [] s"
| creach_step: "creach r w s ls s1 \<Longrightarrow> list_all (\<lambda>l. \<not> is_failure l) ls \<Longrightarrow> cstep r w s1 l s2 \<Longrightarrow> creach r w s (ls @ [l]) s2"

fun typed_chars :: "clabel list \<Rightarrow> int list" where
  "typed_chars [] = []"
| "typed_chars (Typed ch # ls) = ch # typed_chars ls"
| "typed_chars (_ # ls) = typed_chars ls"

fun got_chars :: "clabel list \<Rightarrow> int list" where
  "got_chars [] = []"
| "got_chars (Got ch # ls) = ch # got_chars ls"
| "got_chars (_ # ls) = got_chars ls"

fun put_chars :: "clabel list \<Rightarrow> int list" where
  "put_chars [] = []"
| "put_chars (Put_label ch # ls) = ch # put_chars ls"
| "put_chars (_ # ls) = put_chars ls"

lemma chars_append:
  "typed_chars (ls @ ls') = typed_chars ls @ typed_chars ls'" "got_chars (ls @ ls') = got_chars ls @ got_chars ls'" "put_chars (ls @ ls') = put_chars ls @ put_chars ls'"
proof -
  show "typed_chars (ls @ ls') = typed_chars ls @ typed_chars ls'" by (induction ls rule: typed_chars.induct) simp_all
  show "got_chars (ls @ ls') = got_chars ls @ got_chars ls'" by (induction ls rule: got_chars.induct) simp_all
  show "put_chars (ls @ ls') = put_chars ls @ put_chars ls'" by (induction ls rule: put_chars.induct) simp_all
qed

definition buffered :: "Console \<Rightarrow> int list" where
  "buffered c = (if incoming c = EOF_char then [] else [incoming c])"

text \<open>The threads with the statements \<open>cs\<close> before them.\<close>

definition before :: "con_stmt list \<Rightarrow> (nat \<Rightarrow> cplace) \<Rightarrow> nat set" where
  "before cs q = {t. \<exists>ch. q t = InCall cs ch}"

text \<open>The characters, and the semaphores: a unit of \<open>r\<close>, or a reader past its \<open>P\<close>, for the character in the buffer; a unit of \<open>w\<close>, or a write that is not complete, for each writer before
  its \<open>P\<close>.\<close>

definition cinv :: "nat \<Rightarrow> nat \<Rightarrow> clabel list \<Rightarrow> ('m synch_scheme \<times> (nat \<Rightarrow> place)) \<times> Console \<times> (nat \<Rightarrow> cplace) \<Rightarrow> bool" where
  "cinv r w ls x \<longleftrightarrow> (case x of (s, c, q) \<Rightarrow> kinv (fst s) (snd s) \<and> finite {t. q t \<noteq> NoCall} \<and>
     (\<forall>t cs ch. q t = InCall cs ch \<longrightarrow> cs \<in> {PutChar_code, [Do_wP], GetChar_code, [Do_GetChar], []}) \<and>
     available (fst s) (SemQ r) + int (card (before [Do_GetChar] q)) = int (length (buffered c)) \<and>
     available (fst s) (SemQ w) + (if putBusy c then 1 else 0) = int (card (before [Do_wP] q)) \<and>
     typed_chars ls = got_chars ls @ buffered c @ keyboard c \<and> display c = put_chars ls \<and> (kb_end c \<longrightarrow> Input_end \<in> set ls))"

lemma kstep_available:
  assumes "kstep s e s'" and "kinv (fst s) (snd s)"
  shows "available (fst s') i = available (fst s) i + change e i" "kinv (fst s') (snd s')"
  using kreach_change [OF kreach_step [OF kreach_start assms(1)] assms(2), of i] kstep_refines_aux [OF assms] by simp_all

lemma card_before:
  assumes "finite {t. q t \<noteq> NoCall}"
  shows "int (card (before x (q(t := y)))) = int (card (before x q)) + (if \<exists>ch. y = InCall x ch then 1 else 0) - (if \<exists>ch. q t = InCall x ch then 1 else 0)"
proof -
  have fin: "finite (before x q)" by (rule finite_subset [OF _ assms]) (auto simp: before_def)
  have e: "before x (q(t := y)) = (if \<exists>ch. y = InCall x ch then insert t (before x q) else before x q - {t})" by (auto simp: before_def)
  have m: "t \<in> before x q \<longleftrightarrow> (\<exists>ch. q t = InCall x ch)" by (simp add: before_def)
  show ?thesis
  proof (cases "t \<in> before x q")
    case True
    then have "card (before x q) = Suc (card (before x q - {t}))" "insert t (before x q) = before x q" using card.remove [OF fin, of t] by auto
    then show ?thesis unfolding e using True m by simp
  next
    case False
    then have "before x q - {t} = before x q" by auto
    then show ?thesis unfolding e using False m fin by simp
  qed
qed

lemma finite_cplaces: "finite {t. q t \<noteq> NoCall} \<Longrightarrow> finite {u. (q(t := y)) u \<noteq> NoCall}"
  by (rule finite_subset [OF _ finite.insertI [of "{t. q t \<noteq> NoCall}" t]]) auto

lemmas codes = PutChar_code_def GetChar_code_def

text \<open>A call that goes from one statement to the next.\<close>

lemma cinv_move:
  assumes "cinv r w ls (s, c, q)" and "kinv (fst s') (snd s')" and "\<forall>cs ch. y = InCall cs ch \<longrightarrow> cs \<in> {PutChar_code, [Do_wP], GetChar_code, [Do_GetChar], []}"
    and "available (fst s') (SemQ r) + int (card (before [Do_GetChar] q)) + (if \<exists>ch. y = InCall [Do_GetChar] ch then 1 else 0) - (if \<exists>ch. q t = InCall [Do_GetChar] ch then 1 else 0) = int (length (buffered c'))"
    and "available (fst s') (SemQ w) + (if putBusy c' then 1 else 0) = int (card (before [Do_wP] q)) + (if \<exists>ch. y = InCall [Do_wP] ch then 1 else 0) - (if \<exists>ch. q t = InCall [Do_wP] ch then 1 else 0)"
    and "typed_chars ls' = got_chars ls' @ buffered c' @ keyboard c'" and "display c' = put_chars ls'" and "kb_end c' \<longrightarrow> Input_end \<in> set ls'"
  shows "cinv r w ls' (s', c', q(t := y))"
proof -
  have fin: "finite {t. q t \<noteq> NoCall}" using assms(1) by (simp add: cinv_def)
  show ?thesis
    unfolding cinv_def prod.case card_before [OF fin]
  proof (intro conjI)
    show "\<forall>u cs ch. (q(t := y)) u = InCall cs ch \<longrightarrow> cs \<in> {PutChar_code, [Do_wP], GetChar_code, [Do_GetChar], []}" using assms(1,3) by (auto simp: cinv_def)
    show "finite {u. (q(t := y)) u \<noteq> NoCall}" by (rule finite_cplaces [OF fin])
  qed (use assms(2,4-8) in linarith)+
qed

text \<open>The device alone.\<close>

lemma cinv_device:
  assumes "cinv r w ls (s, c, q)" and "kinv (fst s') (snd s')"
    and "available (fst s') (SemQ r) + int (card (before [Do_GetChar] q)) = int (length (buffered c'))"
    and "available (fst s') (SemQ w) + (if putBusy c' then 1 else 0) = int (card (before [Do_wP] q))"
    and "typed_chars ls' = got_chars ls' @ buffered c' @ keyboard c'" and "display c' = put_chars ls'" and "kb_end c' \<longrightarrow> Input_end \<in> set ls'"
  shows "cinv r w ls' (s', c', q)"
  using assms by (simp add: cinv_def)

lemma cinvD:
  assumes "cinv r w ls (s, c, q)"
  shows "kinv (fst s) (snd s)" "finite {t. q t \<noteq> NoCall}" "q t = InCall cs ch \<Longrightarrow> cs \<in> {PutChar_code, [Do_wP], GetChar_code, [Do_GetChar], []}"
    "available (fst s) (SemQ r) + int (card (before [Do_GetChar] q)) = int (length (buffered c))"
    "available (fst s) (SemQ w) + (if putBusy c then 1 else 0) = int (card (before [Do_wP] q))"
    "typed_chars ls = got_chars ls @ buffered c @ keyboard c" "display c = put_chars ls" "kb_end c \<Longrightarrow> Input_end \<in> set ls"
    "0 \<le> available (fst s) i" "finite (before cs q)"
proof -
  show D: "kinv (fst s) (snd s)" "finite {t. q t \<noteq> NoCall}" "q t = InCall cs ch \<Longrightarrow> cs \<in> {PutChar_code, [Do_wP], GetChar_code, [Do_GetChar], []}"
    "available (fst s) (SemQ r) + int (card (before [Do_GetChar] q)) = int (length (buffered c))"
    "available (fst s) (SemQ w) + (if putBusy c then 1 else 0) = int (card (before [Do_wP] q))"
    "typed_chars ls = got_chars ls @ buffered c @ keyboard c" "display c = put_chars ls" "kb_end c \<Longrightarrow> Input_end \<in> set ls"
    using assms unfolding cinv_def by blast+
  show "0 \<le> available (fst s) i" by (rule tokens_okD(3) [OF kinvD(5) [OF D(1)]])
  show "finite (before cs q)" by (rule finite_subset [OF _ D(2)]) (auto simp: before_def)
qed

lemma next_statement:
  assumes "cinv r w ls (s, c, q)"
  shows "q t = InCall (Do_PutChar # cs) ch \<Longrightarrow> cs = [Do_wP]" "q t = InCall (Do_wP # cs) ch \<Longrightarrow> cs = []" "q t = InCall (Do_rP # cs) ch \<Longrightarrow> cs = [Do_GetChar]"
    "q t = InCall (Do_GetChar # cs) ch \<Longrightarrow> cs = []"
  using cinvD(3) [OF assms, of t] by (auto simp: codes)

lemma reader_has_char:
  assumes "cinv r w ls (s, c, q)" and "q t = InCall [Do_GetChar] ch0"
  shows "buffered c = [incoming c]" "incoming c \<noteq> EOF_char" "available (fst s) (SemQ r) = 0" "card (before [Do_GetChar] q) = 1"
proof -
  note D = cinvD [OF assms(1)]
  have "t \<in> before [Do_GetChar] q" using assms(2) by (auto simp: before_def)
  then have "0 < card (before [Do_GetChar] q)" using D(10) by (auto simp: card_gt_0_iff)
  moreover have "length (buffered c) \<le> 1" by (simp add: buffered_def)
  ultimately have "length (buffered c) = 1" "card (before [Do_GetChar] q) = 1" "available (fst s) (SemQ r) = 0" using D(4) D(9) [of "SemQ r"] by linarith+
  then show "buffered c = [incoming c]" "incoming c \<noteq> EOF_char" "available (fst s) (SemQ r) = 0" "card (before [Do_GetChar] q) = 1" by (auto simp: buffered_def split: if_splits)
qed

text \<open>What a step may fail at, besides what it keeps.\<close>

definition fails_only :: "clabel list \<Rightarrow> (nat \<Rightarrow> cplace) \<Rightarrow> clabel \<Rightarrow> bool" where
  "fails_only ls q l \<longleftrightarrow> (\<forall>t. l = Put_failed t \<longrightarrow> (\<exists>u. u \<noteq> t \<and> u \<in> before [Do_wP] q)) \<and> (l = Poll_failed \<longrightarrow> Input_end \<in> set ls \<and> got_chars ls = typed_chars ls) \<and> l \<noteq> Got EOF_char"

lemma busy_writer: "cinv r w ls (s, c, q) \<Longrightarrow> putBusy c \<Longrightarrow> before [Do_wP] q \<noteq> {}"
  using cinvD(5) [of r w ls s c q] cinvD(9) [of r w ls s c q "SemQ w"] by auto

lemma cinv_step:
  assumes "cstep r w x l x'" and "cinv r w ls x" and "EOF_char \<notin> set (typed_chars (ls @ [l]))" and "r \<noteq> w"
  shows "cinv r w (ls @ [l]) x' \<and> fails_only ls (snd (snd x')) l"
  using assms
proof (induction rule: cstep.induct)
  case (typed c s q ch)
  note D = cinvD [OF typed.prems(1)]
  show ?case using D(4-7) typed.hyps by (intro conjI cinv_device [OF typed.prems(1) D(1)]) (auto simp: fails_only_def chars_append buffered_def)
next
  case (input_end s c q)
  note D = cinvD [OF input_end.prems(1)]
  show ?case using D(4-8) by (intro conjI cinv_device [OF input_end.prems(1) D(1)]) (auto simp: fails_only_def chars_append buffered_def)
next
  case (poll_nothing c c' s q)
  note D = cinvD [OF poll_nothing.prems(1)]
  have "c' = c" using poll_nothing.hyps by (auto simp: poll_def split: if_splits list.splits)
  then show ?case using D(4-8) by (intro conjI cinv_device [OF poll_nothing.prems(1) D(1)]) (auto simp: fails_only_def chars_append)
next
  case (poll_char c c' s s' q)
  note D = cinvD [OF poll_char.prems(1)] and K = kstep_available [OF poll_char.hyps(2)]
  have c: "incoming c = EOF_char" "keyboard c = incoming c' # keyboard c'" "putBusy c' = putBusy c" "display c' = display c" "kb_end c' = kb_end c"
    using poll_char.hyps(1) by (auto simp: poll_def split: if_splits list.splits)
  have b: "buffered c = []" "buffered c' = [incoming c']" using c D(6) poll_char.prems(2) by (auto simp: buffered_def chars_append)
  show ?case using D(4-8) K b c poll_char.prems(3) D(1)
    by (intro conjI cinv_device [OF poll_char.prems(1) K(2)]) (auto simp: fails_only_def chars_append change_def)
next
  case (poll_fails c e s q)
  note D = cinvD [OF poll_fails.prems(1)]
  have "incoming c = EOF_char" "keyboard c = []" "kb_end c" using poll_fails.hyps by (auto simp: poll_def split: if_splits list.splits)
  then show ?case using D(4-8) by (intro conjI cinv_device [OF poll_fails.prems(1) D(1)]) (auto simp: fails_only_def chars_append buffered_def)
next
  case (write_done c s s' q)
  note D = cinvD [OF write_done.prems(1)] and K = kstep_available [OF write_done.hyps(2)]
  show ?case using D(4-8) K write_done.hyps(1) write_done.prems(3) D(1)
    by (intro conjI cinv_device [OF write_done.prems(1) K(2)]) (auto simp: fails_only_def chars_append change_def buffered_def)
next
  case (c_call s t q code c ch)
  note D = cinvD [OF c_call.prems(1)]
  show ?case using D(4-8) c_call.hyps by (intro conjI cinv_move [OF c_call.prems(1) D(1)]) (auto simp: fails_only_def chars_append codes)
next
  case (c_return s t q ch c)
  note D = cinvD [OF c_return.prems(1)]
  show ?case using D(4-8) c_return.hyps by (intro conjI cinv_move [OF c_return.prems(1) D(1)]) (auto simp: fails_only_def chars_append)
next
  case (put s t q cs ch c c')
  note D = cinvD [OF put.prems(1)] and cs = next_statement(1) [OF put.prems(1) put.hyps(2)]
  have c: "\<not> putBusy c" "c' = c\<lparr>display := display c @ [ch], putBusy := True\<rparr>" using put.hyps(3) by (auto simp: put_char_def bindR_eq_Inr)
  show ?case using D(4-8) put.hyps(2) c cs by (intro conjI cinv_move [OF put.prems(1) D(1)]) (auto simp: fails_only_def chars_append buffered_def)
next
  case (put_fails s t q cs ch c e)
  note D = cinvD [OF put_fails.prems(1)]
  have "putBusy c" using put_fails.hyps(3) by (auto simp: put_char_def bindR_eq_Inl)
  then obtain u where "u \<in> before [Do_wP] q" using busy_writer [OF put_fails.prems(1)] by blast
  moreover from this have "u \<noteq> t" using put_fails.hyps(2) by (auto simp: before_def)
  ultimately have "\<exists>u. u \<noteq> t \<and> u \<in> before [Do_wP] q" by blast
  then show ?case using D(4-8) by (intro conjI cinv_device [OF put_fails.prems(1) D(1)]) (auto simp: fails_only_def chars_append)
next
  case (put_P s s' q cs ch c)
  note D = cinvD [OF put_P.prems(1)] and K = kstep_available [OF put_P.hyps(1)] and cs = next_statement(2) [OF put_P.prems(1) put_P.hyps(2)]
  show ?case using D(4-8) K D(1) put_P.hyps(2) put_P.prems(3) cs
    by (intro conjI cinv_move [OF put_P.prems(1) K(2)]) (auto simp: fails_only_def chars_append change_def)
next
  case (get_P s s' q cs ch c)
  note D = cinvD [OF get_P.prems(1)] and K = kstep_available [OF get_P.hyps(1)] and cs = next_statement(3) [OF get_P.prems(1) get_P.hyps(2)]
  show ?case using D(4-8) K D(1) get_P.hyps(2) get_P.prems(3) cs
    by (intro conjI cinv_move [OF get_P.prems(1) K(2)]) (auto simp: fails_only_def chars_append change_def)
next
  case (get s t q cs ch0 c ch c')
  note D = cinvD [OF get.prems(1)] and cs = next_statement(4) [OF get.prems(1) get.hyps(2)]
  note R = reader_has_char [OF get.prems(1) get.hyps(2) [unfolded cs]]
  have c: "ch = incoming c" "c' = c\<lparr>incoming := EOF_char\<rparr>" using get.hyps(3) by (auto simp: take_char_def)
  show ?case using D(4-8) R get.hyps(2) c cs by (intro conjI cinv_move [OF get.prems(1) D(1)]) (auto simp: fails_only_def chars_append buffered_def)
next
  case (c_other s e s' c q)
  note D = cinvD [OF c_other.prems(1)] and K = kstep_available [OF c_other.hyps(1)]
  show ?case using D(4-8) K D(1) c_other.hyps(2)
    by (intro conjI cinv_device [OF c_other.prems(1) K(2)]) (auto simp: fails_only_def chars_append change_def)
qed

lemma creach_inv:
  assumes "creach r w s ls s'" and "cinv r w [] s" and "EOF_char \<notin> set (typed_chars ls)" and "r \<noteq> w"
  shows "cinv r w ls s' \<and> EOF_char \<notin> set (got_chars ls) \<and> (\<forall>t. Put_failed t \<in> set ls \<longrightarrow> (\<exists>u. u \<noteq> t \<and> u \<in> before [Do_wP] (snd (snd s')))) \<and>
    (Poll_failed \<in> set ls \<longrightarrow> Input_end \<in> set ls \<and> got_chars ls = typed_chars ls)"
  using assms
proof (induction rule: creach.induct)
  case (creach_step s ls s1 l s2)
  have I: "cinv r w ls s1" "EOF_char \<notin> set (got_chars ls)" using creach_step by (simp_all add: chars_append)
  have n: "Put_failed t \<notin> set ls" "Poll_failed \<notin> set ls" for t using creach_step.hyps(2) by (auto simp: list_all_iff)
  have S: "cinv r w (ls @ [l]) s2" "fails_only ls (snd (snd s2)) l" using cinv_step [OF creach_step.hyps(3) I(1)] creach_step.prems by simp_all
  then show ?case using I(2) n by (cases l) (auto simp: chars_append fails_only_def)
qed simp

section \<open>Properties\<close>

text \<open>C16. The synchronous console, with any number of threads in \<open>GetChar\<close> and \<open>PutChar\<close>, executed statement by statement, and interrupts at any time. The characters handed to readers so far, the one the device holds
  and those still to be read from the keyboard are the characters typed, in their order, so every character is delivered once; no reader gets \<open>EOF\<close>; and the display shows the characters written in order. A run ends
  at a failed assertion in two cases only: that of \<open>Console::PutChar\<close> fails only while another thread is between the two statements of \<open>PutChar\<close>, so never when the callers exclude each other; that of \<open>Read\<close> fails only
  after the end of the input, when every character typed has been delivered. The hypothesis that the character -1 (byte 255) is not typed is needed: the device takes it for an empty buffer.
\<close>

theorem synch_console:
  assumes "creach r w ((k, pc), Console_new [], \<lambda>t. NoCall) ls ((k1, pc1), c1, q1)" and "kinv k pc" and "available k (SemQ r) = 0" and "available k (SemQ w) = 0" and "r \<noteq> w"
    and "EOF_char \<notin> set (typed_chars ls)"
  shows "typed_chars ls = got_chars ls @ buffered c1 @ keyboard c1 \<and> EOF_char \<notin> set (got_chars ls) \<and> display c1 = put_chars ls \<and>
    (\<forall>t. Put_failed t \<in> set ls \<longrightarrow> (\<exists>u. u \<noteq> t \<and> u \<in> before [Do_wP] q1)) \<and> (Poll_failed \<in> set ls \<longrightarrow> Input_end \<in> set ls \<and> got_chars ls = typed_chars ls)"
proof -
  have "cinv r w [] ((k, pc), Console_new [], \<lambda>t. NoCall)" using assms(2-4) by (simp add: cinv_def Console_new_def buffered_def before_def)
  from creach_inv [OF assms(1) this assms(6,5)] have I: "cinv r w ls ((k1, pc1), c1, q1)" and F: "EOF_char \<notin> set (got_chars ls)"
    "\<forall>t. Put_failed t \<in> set ls \<longrightarrow> (\<exists>u. u \<noteq> t \<and> u \<in> before [Do_wP] q1)" "Poll_failed \<in> set ls \<longrightarrow> Input_end \<in> set ls \<and> got_chars ls = typed_chars ls"
    unfolding snd_conv by blast+
  show ?thesis using cinvD(6,7) [OF I] F by blast
qed

theorem synch_console_witness:
  "\<exists>k1. creach 0 1 ((example_synch, \<lambda>t. Free), Console_new [], \<lambda>t. NoCall) [Typed 65, Quiet] ((k1, \<lambda>t. Free), (Console_new [])\<lparr>incoming := 65\<rparr>, \<lambda>t. NoCall) \<and>
     typed_chars [Typed 65, Quiet] = got_chars [Typed 65, Quiet] @ [65]"
proof -
  let ?k = "put_sem 0 (Semaphore_new 1) example_synch"
  have t: "cstep 0 1 ((example_synch, \<lambda>t. Free), Console_new [], \<lambda>t. NoCall) (Typed 65) ((example_synch, \<lambda>t. Free), (Console_new [])\<lparr>keyboard := [65]\<rparr>, \<lambda>t. NoCall)"
    using cstep.typed [of "Console_new []" 0 1 "(example_synch, \<lambda>t. Free)" "\<lambda>t. NoCall" 65] by (simp add: Console_new_def)
  have p: "cstep 0 1 ((example_synch, \<lambda>t. Free), (Console_new [])\<lparr>keyboard := [65]\<rparr>, \<lambda>t. NoCall) Quiet ((?k, \<lambda>t. Free), (Console_new [])\<lparr>incoming := 65\<rparr>, \<lambda>t. NoCall)"
    by (rule cstep.poll_char [OF _ example_V]) (simp add: poll_def Console_new_def)
  have r: "creach 0 1 ((example_synch, \<lambda>t. Free), Console_new [], \<lambda>t. NoCall) [Typed 65, Quiet] ((?k, \<lambda>t. Free), (Console_new [])\<lparr>incoming := 65\<rparr>, \<lambda>t. NoCall)"
    using creach_step [OF creach_step [OF creach_start _ t] _ p] by simp
  have "typed_chars [Typed 65, Quiet] = got_chars [Typed 65, Quiet] @ [65]"
    using synch_console [OF r example_kinv] by (simp add: example_queues EOF_char_def buffered_def Console_new_def)
  then show ?thesis using r by blast
qed

end
