(* ===== verification/Syscalls.thy ===== *)
theory Syscalls
  imports Console_Device Join_Finish
begin

text \<open>
  System calls and exceptions (\<^verbatim>\<open>src/code/userprog/exception.cc\<close>), and the start of a process (\<^verbatim>\<open>src/code/userprog/progtest.cc\<close>).

  The record \<open>sys\<close> is the whole state of a kernel with user programs: virtual memory and console, the process table, the table of backing stores, the pipes and the locks of the terminal.
  A system call is executed by the current thread from its entry to its end. Where the thread \<open>t\<close> sleeps or yields, \<open>resume t\<close> stands for what the rest of the system does until it runs again (\<open>None\<close> if
  that never happens); the routines of \<open>Synch\<close> are taken with interrupts off, as there. \<open>new\<close> gives the addresses of new objects, and the fields \<open>j_...\<close> what their memory held before.

  \<open>SysCallExit\<close> ends in \<open>Thread::Finish\<close>, which does not return: its definition gives the state in which \<open>Finish\<close> is called (\<open>Join_Finish\<close> and \<open>Threads\<close> have the rest). When an access to user memory inside
  a system call ends the thread in this way, the system call stops with \<open>ThreadFinished\<close>.
\<close>

unbundle bit_operations_syntax

section \<open>State and environment\<close>

text \<open>The routine a forked thread starts with: \<open>ProcessStartExec\<close>, or \<open>ForkedThread\<close> with the address of the user procedure.\<close>

datatype start_routine = StartExec | StartForked "32 word"

record sys = csys +
  TablePtr :: "nat Table"
  storeTable :: "nat Table"
  pipes :: "nat \<Rightarrow> Pipe option"
  freePipe :: "nat option"
  WriteLock :: nat
  ReadLock :: nat
  starts :: "nat \<Rightarrow> start_routine option"

datatype obj = OFile | OThread | OLock | OCond | OPipe | OStore | OSpace | OTable | OCore

record env =
  resume :: "nat \<Rightarrow> sys \<Rightarrow> sys res option"
  new :: "obj \<Rightarrow> sys \<Rightarrow> nat"
  j_thread :: Thread
  j_space :: AddrSpace
  j_store :: BackingStore
  j_pages :: "32 word list"
  j_pipe :: "int list"

definition away :: "env \<Rightarrow> sys \<Rightarrow> sys res option" where
  "away e k = resume e (currentThread k) k"

definition MAXSIZE :: nat where "MAXSIZE = 100"
definition TABLESIZE :: nat where "TABLESIZE = 50"
definition MAXPROCESS :: int where "MAXPROCESS = 14"

section \<open>Waiting\<close>

definition get_pipe :: "nat option \<Rightarrow> sys \<Rightarrow> Pipe res" where
  "get_pipe p k = (case p of None \<Rightarrow> Inl NullPointer | Some a \<Rightarrow> (case pipes k a of None \<Rightarrow> Inl DanglingPointer | Some x \<Rightarrow> Inr x))"

definition put_pipe :: "nat option \<Rightarrow> Pipe \<Rightarrow> sys \<Rightarrow> sys" where
  "put_pipe p x k = k\<lparr>pipes := (pipes k)(the p \<mapsto> x)\<rparr>"

partial_function (option) pipe_read_wait :: "(sys \<Rightarrow> sys res option) \<Rightarrow> nat option \<Rightarrow> sys \<Rightarrow> (int \<times> sys) res option" where
  "pipe_read_wait aw p k =
     bindO (Some (get_pipe p k)) (\<lambda>x. bindO (Some (Pipe_Read x)) (\<lambda>(a, x).
       case a of Waits \<Rightarrow> bindO (aw k) (pipe_read_wait aw p) | Returns c \<Rightarrow> Some (Inr (c, put_pipe p x k))))"

partial_function (option) pipe_write_wait :: "(sys \<Rightarrow> sys res option) \<Rightarrow> int \<Rightarrow> nat option \<Rightarrow> sys \<Rightarrow> (int \<times> sys) res option" where
  "pipe_write_wait aw ch p k =
     bindO (Some (get_pipe p k)) (\<lambda>x. bindO (Some (Pipe_Write ch x)) (\<lambda>(a, x).
       case a of Waits \<Rightarrow> bindO (aw k) (pipe_write_wait aw ch p) | Returns c \<Rightarrow> Some (Inr (c, put_pipe p x k))))"

section \<open>Exit\<close>

text \<open>The two ends of a pipe are closed separately; the second one to be closed deletes the pipe. The lock and the condition variables of a pipe are not objects of their own here (a call of \<open>Read\<close> or \<open>Write\<close> is one
  attempt or waits, see \<open>Table_Pipe\<close>), so the assertions of their destructors, which fail when another thread of a process still waits in the pipe as its last end is closed, are outside the model.\<close>

definition close_in :: "sys \<Rightarrow> sys res" where
  "close_in k =
     bindR (getInPipe (currentThread k) k) (\<lambda>p. bindR (get_pipe p k) (\<lambda>x.
       let x = setInOpen 0 x in Inr (if getOutOpen x = 0 then k\<lparr>pipes := (pipes k)(the p := None)\<rparr> else put_pipe p x k)))"

definition close_out :: "sys \<Rightarrow> sys res" where
  "close_out k =
     bindR (getOutPipe (currentThread k) k) (\<lambda>p. bindR (get_pipe p k) (\<lambda>x.
       let x = setOutOpen 0 x in Inr (if getInOpen x = 0 then k\<lparr>pipes := (pipes k)(the p := None)\<rparr> else put_pipe p x k)))"

text \<open>The loop over the process table, from \<open>i\<close> on: the threads of the address space are removed.\<close>

primrec release_from :: "nat \<Rightarrow> int \<Rightarrow> nat option \<Rightarrow> sys \<Rightarrow> sys res" where
  "release_from 0 i a k = Inr k"
| "release_from (Suc left) i a k =
     bindR (Table_Get i (TablePtr k)) (\<lambda>(temp, tb).
     bindR (case temp of None \<Rightarrow> Inr (k\<lparr>TablePtr := tb\<rparr>)
            | Some t \<Rightarrow> bindR (get_thread t k) (\<lambda>th.
                if t_space th = a then bindR (Table_Release i tb) (\<lambda>tb. Inr (k\<lparr>TablePtr := tb\<rparr>)) else Inr (k\<lparr>TablePtr := tb\<rparr>)))
       (release_from left (i + 1) a))"

definition setThreadCount :: "int \<Rightarrow> nat \<Rightarrow> sys \<Rightarrow> sys res" where
  "setThreadCount d a k = bindR (get_space a k) (\<lambda>sp. Inr (put_space a (sp\<lparr>threadCount := c_int (threadCount sp + d)\<rparr>) k))"

definition SysCallExit :: "int \<Rightarrow> sys \<Rightarrow> sys res" where
  "SysCallExit st_val k =
     bindR (getPipeValue (currentThread k) k) (\<lambda>pv.
     bindR (if pv AND 4 = 4 then close_in k else Inr k) (\<lambda>k.
     bindR (if pv AND 2 = 2 then close_out k else Inr k) (\<lambda>k.
     bindR (setJoinValue st_val (currentThread k) k) (\<lambda>k.
     bindR (get_thread (currentThread k) k) (\<lambda>th.
     bindR (release_from TABLESIZE 0 (t_space th) k) (\<lambda>k.
       case t_space th of None \<Rightarrow> Inl NullPointer | Some a \<Rightarrow> setThreadCount (- 1) a k))))))"

section \<open>Exceptions other than system calls\<close>

definition finish_thread :: "sys \<Rightarrow> 'a res option" where
  "finish_thread k = Some (Inl ThreadFinished)"

definition fault_trap :: "env \<Rightarrow> ExceptionType \<Rightarrow> sys \<Rightarrow> sys res option" where
  "fault_trap e which k =
     (if which = PageFaultException
      then bindO (page_fault (new e OCore k) k) (\<lambda>(val, k). if val \<noteq> 0 then bindO (Some (SysCallExit (- 1) k)) finish_thread else Some (Inr k))
      else bindO (Some (SysCallExit (- 1) k)) finish_thread)"

section \<open>User memory\<close>

text \<open>An access that raised an exception is tried again: after a page fault it succeeds.\<close>

definition read_twice :: "env \<Rightarrow> 32 word \<Rightarrow> nat \<Rightarrow> sys \<Rightarrow> (32 word option \<times> sys) res option" where
  "read_twice e addr sz k =
     bindO (ReadMem (fault_trap e) addr sz k) (\<lambda>(r, k). case r of Some v \<Rightarrow> Some (Inr (Some v, k)) | None \<Rightarrow> ReadMem (fault_trap e) addr sz k)"

definition write_twice :: "env \<Rightarrow> 32 word \<Rightarrow> 32 word \<Rightarrow> sys \<Rightarrow> (bool \<times> sys) res option" where
  "write_twice e addr v k =
     bindO (WriteMem (fault_trap e) addr 1 v k) (\<lambda>(ok, k). if ok then Some (Inr (True, k)) else WriteMem (fault_trap e) addr 1 v k)"

text \<open>\<open>readArgument\<close>: at most 50 characters with the terminating zero; the access is not repeated. The result comes without the zero.\<close>

primrec read_argument :: "env \<Rightarrow> nat \<Rightarrow> 32 word \<Rightarrow> 8 word list \<Rightarrow> sys \<Rightarrow> (8 word list option \<times> sys) res option" where
  "read_argument e 0 str arr k = Some (Inr (None, k))"
| "read_argument e (Suc left) str arr k =
     bindO (ReadMem (fault_trap e) (str + of_nat (length arr)) 1 k) (\<lambda>(r, k).
       case r of None \<Rightarrow> Some (Inr (None, k))
       | Some ch \<Rightarrow> if (ucast ch :: 8 word) = 0 then Some (Inr (Some arr, k)) else read_argument e left str (arr @ [ucast ch]) k)"

definition readArgument :: "env \<Rightarrow> 32 word \<Rightarrow> sys \<Rightarrow> (8 word list option \<times> sys) res option" where
  "readArgument e str k = read_argument e 50 str [] k"

text \<open>The file name of \<open>Exec2\<close>, at most \<open>MAXSIZE\<close> characters.\<close>

primrec read_name :: "env \<Rightarrow> nat \<Rightarrow> 32 word \<Rightarrow> 8 word list \<Rightarrow> sys \<Rightarrow> (8 word list option \<times> sys) res option" where
  "read_name e 0 nm arr k = Some (Inr (None, k))"
| "read_name e (Suc left) nm arr k =
     bindO (read_twice e (nm + of_nat (length arr)) 1 k) (\<lambda>(r, k).
       case r of None \<Rightarrow> Some (Inr (None, k))
       | Some ch \<Rightarrow> if (ucast ch :: 8 word) = 0 then Some (Inr (Some arr, k)) else read_name e left nm (arr @ [ucast ch]) k)"

section \<open>Exec\<close>

definition new_thread :: "env \<Rightarrow> string \<Rightarrow> int \<Rightarrow> sys \<Rightarrow> nat \<times> sys" where
  "new_thread e nm pjoin k =
     (let t = new e OThread k; l = new e OLock k; c = new e OCond k
      in (t, k\<lparr>threads := (threads k)(t \<mapsto> Thread_new (j_thread e) nm pjoin l c), locks := (locks k)(l \<mapsto> Lock_new), conds := (conds k)(c \<mapsto> Condition_new)\<rparr>))"

definition Thread_destroy :: "nat \<Rightarrow> sys \<Rightarrow> sys res" where
  "Thread_destroy t k =
     bindR (get_thread t k) (\<lambda>th. bindR (Thread_delete t k) (\<lambda>k. bindR (Lock_delete (t_lock th) k) (Condition_delete (t_cv th))))"

definition BackingStore_delete :: "nat \<Rightarrow> sys \<Rightarrow> sys res" where
  "BackingStore_delete s k =
     bindR (get_store s k) (\<lambda>b.
     bindR (if bs_flag b \<noteq> 0 then bindR (Table_Release (bs_storeID b) (storeTable k)) (\<lambda>tb. Inr (k\<lparr>storeTable := tb\<rparr>)) else Inr k) (\<lambda>k.
       Inr (k\<lparr>stores := (stores k)(s := None)\<rparr>)))"

text \<open>The pipes of the new thread. A pipe that is to be connected with the next process is kept in \<open>freePipe\<close>.\<close>

definition new_pipe :: "env \<Rightarrow> sys \<Rightarrow> sys" where
  "new_pipe e k = (let p = new e OPipe k in k\<lparr>pipes := (pipes k)(p \<mapsto> Pipe_new (j_pipe e) PIPE_SIZE), freePipe := Some p\<rparr>)"

definition open_in :: "nat \<Rightarrow> sys \<Rightarrow> sys res" where
  "open_in t k = bindR (setInPipe (freePipe k) t k) (\<lambda>k. bindR (get_pipe (freePipe k) k) (\<lambda>x. Inr (put_pipe (freePipe k) (setInOpen 1 x) k)))"

definition open_out :: "nat \<Rightarrow> sys \<Rightarrow> sys res" where
  "open_out t k = bindR (setOutPipe (freePipe k) t k) (\<lambda>k. bindR (get_pipe (freePipe k) k) (\<lambda>x. Inr (put_pipe (freePipe k) (setOutOpen 1 x) k)))"

definition connect_pipes :: "env \<Rightarrow> nat \<Rightarrow> int \<Rightarrow> sys \<Rightarrow> sys res" where
  "connect_pipes e t pv k =
     (if pv AND 6 = 6 then bindR (open_in t k) (\<lambda>k. open_out t (new_pipe e k))
      else if pv AND 4 = 4 then
        (if freePipe k = None then open_in t (new_pipe e k) else bindR (open_in t k) (\<lambda>k. Inr (k\<lparr>freePipe := None\<rparr>)))
      else if pv AND 2 = 2 then
        (if freePipe k = None then open_out t (new_pipe e k) else bindR (open_out t k) (\<lambda>k. Inr (k\<lparr>freePipe := None\<rparr>)))
      else Inr k)"

text \<open>The arguments; the two ways to fail differ in what is cleaned up.\<close>

datatype arguments = Args "8 word list list" | NoVector | NoString

primrec read_args :: "env \<Rightarrow> nat \<Rightarrow> 32 word \<Rightarrow> 8 word list list \<Rightarrow> sys \<Rightarrow> (arguments \<times> sys) res option" where
  "read_args e 0 argv arr k = Some (Inr (Args arr, k))"
| "read_args e (Suc left) argv arr k =
     bindO (read_twice e argv 4 k) (\<lambda>(r, k).
       case r of None \<Rightarrow> Some (Inr (NoVector, k))
       | Some ch \<Rightarrow> bindO (readArgument e ch k) (\<lambda>(s, k).
           case s of None \<Rightarrow> Some (Inr (NoString, k)) | Some str \<Rightarrow> read_args e left (argv + 4) (arr @ [str]) k))"

definition Fork_with :: "nat \<Rightarrow> start_routine \<Rightarrow> sys \<Rightarrow> sys res" where
  "Fork_with t r k = bindR (Fork t k) (\<lambda>k. Inr (k\<lparr>starts := (starts k)(t \<mapsto> r)\<rparr>))"

text \<open>The last part of \<open>Exec2\<close>: \<open>f\<close> is the executable, \<open>t\<close> the new thread, \<open>args\<close> the file name and the arguments.\<close>

definition exec_fail :: "nat \<Rightarrow> nat \<Rightarrow> nat \<Rightarrow> sys \<Rightarrow> (int \<times> sys) res" where
  "exec_fail s f a k = bindR (BackingStore_delete s k) (\<lambda>k. bindR (AddrSpace_delete a (OpenFile_delete f k)) (\<lambda>k. Inr (0, k)))"

definition exec_start :: "env \<Rightarrow> nat \<Rightarrow> nat \<Rightarrow> nat \<Rightarrow> nat \<Rightarrow> sys \<Rightarrow> (int \<times> sys) res" where
  "exec_start e s f a t k =
     bindR (setThreadCount 1 a k) (\<lambda>k.
     bindR (Fork_with t StartExec k) (\<lambda>k.
     bindR (Table_Alloc t (TablePtr k)) (\<lambda>(processID, tb).
       let k = k\<lparr>TablePtr := tb\<rparr> in if processID = - 1 then exec_fail s f a k else Inr (processID + 1, k))))"

definition exec_space :: "env \<Rightarrow> nat \<Rightarrow> nat \<Rightarrow> int \<Rightarrow> 8 word list list \<Rightarrow> sys \<Rightarrow> (int \<times> sys) res" where
  "exec_space e f t argc args k =
     (let s = new e OStore k; k = k\<lparr>stores := (stores k)(s \<mapsto> BackingStore_new (j_store e))\<rparr> in
      bindR (Table_Alloc s (storeTable k)) (\<lambda>(storeID, tb).
      let k = k\<lparr>storeTable := tb\<rparr> in
      if storeID = - 1 then Inr (0, k)
      else
        let a = new e OSpace k; k = AddrSpace_new a (j_space e) k in
        bindR (AddArguments a (argc + 1) args k) (\<lambda>k.
        bindR (update_thread t (t_space_update (\<lambda>_. Some a)) k) (\<lambda>k.
        bindR (AddrSpace_Initialize (new e OTable k) a f k) (\<lambda>(r, k).
          if r \<noteq> 0
          then bindR (Table_Release storeID (storeTable k)) (\<lambda>tb.
               bindR (AddrSpace_delete a (OpenFile_delete f (k\<lparr>storeTable := tb\<rparr>))) (\<lambda>k. bindR (Thread_destroy t k) (\<lambda>k. Inr (0, k))))
          else bindR (BackingStore_Initialize (j_pages e) s a (nat storeID) k) (\<lambda>(r, k).
               if r \<noteq> 0 then exec_fail s f a k else exec_start e s f a t k))))))"

definition name_of :: "8 word list \<Rightarrow> string" where
  "name_of bs = map (\<lambda>b. char_of (unat b)) bs"

definition Exec2 :: "env \<Rightarrow> 32 word \<Rightarrow> 32 word \<Rightarrow> 32 word \<Rightarrow> 32 word \<Rightarrow> sys \<Rightarrow> (int \<times> sys) res option" where
  "Exec2 e nm argc argv willJoin k =
     bindO (read_name e MAXSIZE nm [] k) (\<lambda>(r, k).
       case r of None \<Rightarrow> Some (Inr (0, k))
       | Some internalFilename \<Rightarrow>
         (case FileSystem_Open (new e OFile k) (name_of internalFilename) k of
           (None, k) \<Rightarrow> Some (Inr (0, k))
         | (Some executable, k) \<Rightarrow>
           let wj = sint willJoin; pv = (if wj AND 2 = 2 \<or> wj AND 4 = 4 \<or> wj AND 6 = 6 then wj else 0); (t, k) = new_thread e ''New Thread'' (wj AND 1) k in
           bindO (Some (setPipeValue pv t k)) (\<lambda>k.
           bindO (Some (connect_pipes e t pv k)) (\<lambda>k.
             if sint argc < 0 then Some (Inl OutOfBounds)
             else bindO (read_args e (nat (sint argc)) argv [internalFilename] k) (\<lambda>(r, k).
               case r of NoVector \<Rightarrow> Some (Inr (0, k)) | NoString \<Rightarrow> Some (Inr (0, OpenFile_delete executable k))
               | Args arr \<Rightarrow> Some (exec_space e executable t (sint argc) arr k))))))"

section \<open>Read and Write\<close>

definition current_space :: "sys \<Rightarrow> nat res" where
  "current_space k = bindR (get_thread (currentThread k) k) (\<lambda>th. case t_space th of None \<Rightarrow> Inl NullPointer | Some a \<Rightarrow> Inr a)"

text \<open>\<open>((unsigned int) addr) >= (currentThread->space->getNumPages()*PageSize)\<close>.\<close>

definition beyond :: "32 word \<Rightarrow> sys \<Rightarrow> bool res" where
  "beyond addr k = bindR (current_space k) (\<lambda>a. bindR (get_space a k) (\<lambda>sp. Inr (sp_numPages sp * of_nat PageSize \<le> addr)))"

text \<open>The loops, with \<open>left\<close> characters to go; \<open>None\<close> is the \<open>return -1\<close> inside the loop.\<close>

primrec read_console :: "env \<Rightarrow> nat \<Rightarrow> 32 word \<Rightarrow> int \<Rightarrow> sys \<Rightarrow> (int option \<times> sys) res option" where
  "read_console e 0 addr cnt k = Some (Inr (Some cnt, k))"
| "read_console e (Suc left) addr cnt k =
     bindO (Some (beyond addr k)) (\<lambda>b.
       if b then Some (Inr (Some cnt, k))
       else bindO (SynchConsole_GetChar (away e) k) (\<lambda>(character, k).
            bindO (write_twice e addr (word_of_int character) k) (\<lambda>(ok, k).
              if ok then read_console e left (addr + 1) (cnt + 1) k else Some (Inr (None, k)))))"

primrec read_pipe :: "env \<Rightarrow> nat \<Rightarrow> 32 word \<Rightarrow> int \<Rightarrow> sys \<Rightarrow> (int \<times> sys) res option" where
  "read_pipe e 0 addr cnt k = Some (Inr (cnt, k))"
| "read_pipe e (Suc left) addr cnt k =
     bindO (Some (beyond addr k)) (\<lambda>b.
       if b then Some (Inr (cnt, k))
       else bindO (Some (getInPipe (currentThread k) k)) (\<lambda>p.
            bindO (pipe_read_wait (away e) p k) (\<lambda>(ch, k).
              if ch \<noteq> PIPE_EOF
              then bindO (write_twice e addr (word_of_int ch) k) (\<lambda>(ok, k).
                   if ok then read_pipe e left (addr + 1) (cnt + 1) k else Some (Inr (- 1, k)))
              else read_pipe e left (addr + 1) cnt k)))"

definition Read2 :: "env \<Rightarrow> 32 word \<Rightarrow> 32 word \<Rightarrow> 32 word \<Rightarrow> sys \<Rightarrow> (int \<times> sys) res option" where
  "Read2 e buf sz fd k =
     (if fd \<noteq> 0 then Some (Inr (- 1, k))
      else bindO (Some (beyond buf k)) (\<lambda>b.
        if b then Some (Inr (- 1, k))
        else bindO (Some (getPipeValue (currentThread k) k)) (\<lambda>pv.
          if pv AND 4 \<noteq> 4 \<and> pv AND 6 \<noteq> 6
          then bindO (acquire_wait (away e) (ReadLock k) k) (\<lambda>k.
               bindO (read_console e (nat (sint sz)) buf 0 k) (\<lambda>(r, k).
                 case r of None \<Rightarrow> Some (Inr (- 1, k)) | Some cnt \<Rightarrow> bindO (Some (Release (ReadLock k) k)) (\<lambda>k. Some (Inr (cnt, k)))))
          else read_pipe e (nat (sint sz)) buf 0 k)))"

text \<open>\<open>(char) ch\<close> of a byte read by \<open>ReadMem\<close>, which extends its sign.\<close>

definition char_val :: "32 word \<Rightarrow> int" where
  "char_val v = sint (ucast v :: 8 word)"

primrec write_console :: "env \<Rightarrow> nat \<Rightarrow> 32 word \<Rightarrow> int \<Rightarrow> sys \<Rightarrow> (int option \<times> sys) res option" where
  "write_console e 0 addr cnt k = Some (Inr (Some cnt, k))"
| "write_console e (Suc left) addr cnt k =
     bindO (Some (beyond addr k)) (\<lambda>b.
       if b then Some (Inr (Some cnt, k))
       else bindO (read_twice e addr 1 k) (\<lambda>(r, k).
         case r of None \<Rightarrow> Some (Inr (None, k))
         | Some ch \<Rightarrow> bindO (SynchConsole_PutChar (away e) (char_val ch) k) (\<lambda>k. write_console e left (addr + 1) (cnt + 1) k)))"

primrec write_pipe :: "env \<Rightarrow> nat \<Rightarrow> 32 word \<Rightarrow> int \<Rightarrow> sys \<Rightarrow> (int \<times> sys) res option" where
  "write_pipe e 0 addr cnt k = Some (Inr (cnt, k))"
| "write_pipe e (Suc left) addr cnt k =
     bindO (Some (beyond addr k)) (\<lambda>b.
       if b then Some (Inr (cnt, k))
       else bindO (read_twice e addr 1 k) (\<lambda>(r, k).
         case r of None \<Rightarrow> Some (Inr (- 1, k))
         | Some ch \<Rightarrow>
             bindO (Some (getOutPipe (currentThread k) k)) (\<lambda>p.
             bindO (pipe_write_wait (away e) (char_val ch) p k) (\<lambda>(ok, k).
               write_pipe e left (addr + 1) (if ok \<noteq> 0 then cnt + 1 else cnt) k))))"

definition Write2 :: "env \<Rightarrow> 32 word \<Rightarrow> 32 word \<Rightarrow> 32 word \<Rightarrow> sys \<Rightarrow> (int \<times> sys) res option" where
  "Write2 e buf sz fd k =
     (if fd \<noteq> 1 then Some (Inr (- 1, k))
      else bindO (Some (beyond buf k)) (\<lambda>b.
        if b then Some (Inr (- 1, k))
        else bindO (Some (getPipeValue (currentThread k) k)) (\<lambda>pv.
          if pv AND 2 \<noteq> 2 \<and> pv AND 6 \<noteq> 6
          then bindO (acquire_wait (away e) (WriteLock k) k) (\<lambda>k.
               bindO (write_console e (nat (sint sz)) buf 0 k) (\<lambda>(r, k).
                 case r of None \<Rightarrow> Some (Inr (- 1, k)) | Some cnt \<Rightarrow> bindO (Some (Release (WriteLock k) k)) (\<lambda>k. Some (Inr (cnt, k)))))
          else write_pipe e (nat (sint sz)) buf 0 k)))"

section \<open>Join, Fork, Yield\<close>

definition join_view :: "Thread \<Rightarrow> join_data" where
  "join_view th = \<lparr>j_join = join th, j_readyToJoin = readyToJoin th, j_isForked = isForked th, j_cv = t_cv th\<rparr>"

text \<open>\<open>Thread::Join\<close> from its assertions to its end, on the lock and the condition variable of thread \<open>t\<close>.\<close>

definition Thread_Join :: "env \<Rightarrow> nat \<Rightarrow> sys \<Rightarrow> sys res option" where
  "Thread_Join e t k =
     bindO (Some (get_thread t k)) (\<lambda>th.
     bindO (Some (Join_start t (currentThread k) (join_view th))) (\<lambda>_.
     bindO (acquire_wait (away e) (t_lock th) k) (\<lambda>k.
     bindO (Some (update_thread t (readyToJoin_update (\<lambda>_. 1)) k)) (\<lambda>k.
     bindO (Some (Signal (t_cv th) (t_lock th) k)) (\<lambda>k.
     bindO (cond_wait (away e) (t_cv th) (t_lock th) k) (\<lambda>k.
     bindO (Some (Signal (t_cv th) (t_lock th) k)) (\<lambda>k. Some (Release (t_lock th) k))))))))"

definition Join2 :: "env \<Rightarrow> 32 word \<Rightarrow> sys \<Rightarrow> (int \<times> sys) res option" where
  "Join2 e sid k =
     bindO (Some (Table_Get (c_int (sint sid - 1)) (TablePtr k))) (\<lambda>(joinThread, tb).
     let k = k\<lparr>TablePtr := tb\<rparr> in
     case joinThread of None \<Rightarrow> Some (Inr (- 65535, k))
     | Some t \<Rightarrow>
         bindO (Some (canJoin t k)) (\<lambda>j.
           if j = 0 then Some (Inr (- 65535, k))
           else bindO (Thread_Join e t k) (\<lambda>k. bindO (Some (getJoinValue t k)) (\<lambda>retVal. Some (Inr (retVal, k))))))"

text \<open>The routines a new thread starts with, up to \<open>machine->Run()\<close>, and the end of a system call: the thread goes on with its program or is at \<open>Finish\<close>.\<close>

datatype outcome = Resumes sys | Exits sys

definition ProcessStartExec :: "env \<Rightarrow> sys \<Rightarrow> outcome res option" where
  "ProcessStartExec e k =
     bindO (Some (current_space k)) (\<lambda>a.
     bindO (Some (InitRegisters a k)) (\<lambda>k.
     bindO (Some (AddrSpace_RestoreState a k)) (\<lambda>k.
     bindO (LoadArguments (fault_trap e) a k) (\<lambda>(ok, k).
       if ok = 0 then bindO (Some (SysCallExit (- 1) k)) (\<lambda>k. Some (Inr (Exits k))) else Some (Inr (Resumes k))))))"

definition ForkedThread :: "32 word \<Rightarrow> sys \<Rightarrow> sys res" where
  "ForkedThread funcPtr k =
     bindR (current_space k) (\<lambda>a.
     bindR (InitRegisters a k) (\<lambda>k.
     bindR (AddrSpace_RestoreState a k) (\<lambda>k.
     bindR (WriteRegister (int PCReg) funcPtr k) (\<lambda>k. WriteRegister (int NextPCReg) (funcPtr + 4) k))))"

text \<open>What a thread does when it runs for the first time.\<close>

definition start_thread :: "env \<Rightarrow> sys \<Rightarrow> outcome res option" where
  "start_thread e k =
     (case starts k (currentThread k) of None \<Rightarrow> Some (Inl NullPointer)
      | Some StartExec \<Rightarrow> ProcessStartExec e k
      | Some (StartForked f) \<Rightarrow> bindO (Some (ForkedThread f k)) (\<lambda>k. Some (Inr (Resumes k))))"

definition Fork2 :: "env \<Rightarrow> 32 word \<Rightarrow> sys \<Rightarrow> sys res" where
  "Fork2 e funcPtr k =
     bindR (current_space k) (\<lambda>a.
     bindR (allocateThreadSpace (new e OTable k) a k) (\<lambda>(r, k).
       if r = 0 then Inr k
       else
         bindR (SaveUserState (currentThread k) k) (\<lambda>k.
         bindR (RestoreUserState (currentThread k) k) (\<lambda>k.
         let (t, k) = new_thread e ''Forked Thread'' 1 k in
         bindR (update_thread t (t_space_update (\<lambda>_. Some a)) k) (\<lambda>k.
         bindR (Table_Alloc t (TablePtr k)) (\<lambda>(_, tb).
         bindR (Fork_with t (StartForked funcPtr) (k\<lparr>TablePtr := tb\<rparr>)) (setThreadCount 1 a)))))))"

definition Yield2 :: "env \<Rightarrow> sys \<Rightarrow> sys res option" where
  "Yield2 e k = bindO (Some (Yield k)) (\<lambda>k'. if currentThread k' = currentThread k then Some (Inr k') else resume e (currentThread k) k')"

section \<open>The exception handler\<close>

definition SC_Halt :: "32 word" where "SC_Halt = 0"
definition SC_Exit :: "32 word" where "SC_Exit = 1"
definition SC_Exec :: "32 word" where "SC_Exec = 2"
definition SC_Join :: "32 word" where "SC_Join = 3"
definition SC_Read :: "32 word" where "SC_Read = 6"
definition SC_Write :: "32 word" where "SC_Write = 7"
definition SC_Fork :: "32 word" where "SC_Fork = 9"
definition SC_Yield :: "32 word" where "SC_Yield = 10"

lemmas SC_defs = SC_Halt_def SC_Exit_def SC_Exec_def SC_Join_def SC_Read_def SC_Write_def SC_Fork_def SC_Yield_def

definition advance_pc :: "sys \<Rightarrow> outcome res" where
  "advance_pc k =
     bindR (ReadRegister (int NextPCReg) k) (\<lambda>old.
     bindR (WriteRegister (int PCReg) old k) (\<lambda>k.
     bindR (WriteRegister (int NextPCReg) (old + 4) k) (\<lambda>k. Inr (Resumes k))))"

definition exit_thread :: "int \<Rightarrow> sys \<Rightarrow> outcome res option" where
  "exit_thread v k = bindO (Some (SysCallExit v k)) (\<lambda>k. Some (Inr (Exits k)))"

text \<open>A result goes to register 2.\<close>

definition give_result :: "(int \<times> sys) res option \<Rightarrow> outcome res option" where
  "give_result m = bindO m (\<lambda>(v, k). bindO (Some (WriteRegister 2 (word_of_int v) k)) (\<lambda>k. Some (advance_pc k)))"

definition syscall :: "env \<Rightarrow> sys \<Rightarrow> outcome res option" where
  "syscall e k =
     bindO (Some (ReadRegister 2 k)) (\<lambda>type. bindO (Some (ReadRegister 4 k)) (\<lambda>a1. bindO (Some (ReadRegister 5 k)) (\<lambda>a2.
     bindO (Some (ReadRegister 6 k)) (\<lambda>a3. bindO (Some (ReadRegister 7 k)) (\<lambda>a4.
       if type = SC_Halt then Some (Inl Halted)
       else if type = SC_Exec then give_result (Exec2 e a1 a2 a3 a4 k)
       else if type = SC_Exit then exit_thread (sint a1) k
       else if type = SC_Read then bindO (Read2 e a1 a2 a3 k) (\<lambda>(_, k). Some (advance_pc k))
       else if type = SC_Write then bindO (Write2 e a1 a2 a3 k) (\<lambda>(_, k). Some (advance_pc k))
       else if type = SC_Join then give_result (Join2 e a1 k)
       else if type = SC_Fork then bindO (Some (Fork2 e a1 k)) (\<lambda>k. Some (advance_pc k))
       else if type = SC_Yield then bindO (Yield2 e k) (\<lambda>k. Some (advance_pc k))
       else exit_thread (- 1) k)))))"

definition ExceptionHandler :: "env \<Rightarrow> ExceptionType \<Rightarrow> sys \<Rightarrow> outcome res option" where
  "ExceptionHandler e which k =
     (if which = SyscallException then syscall e k
      else if which = PageFaultException
      then bindO (page_fault (new e OCore k) k) (\<lambda>(val, k). if val \<noteq> 0 then exit_thread (- 1) k else Some (Inr (Resumes k)))
      else exit_thread (- 1) k)"

text \<open>\<open>Machine::Run\<close>: it never returns. The debugger is left out; \<open>tick\<close> is \<open>interrupt->OneTick()\<close>.\<close>

definition user_trap :: "env \<Rightarrow> ExceptionType \<Rightarrow> sys \<Rightarrow> sys res option" where
  "user_trap e which k = bindO (ExceptionHandler e which k) (\<lambda>r. case r of Resumes k \<Rightarrow> Some (Inr k) | Exits k \<Rightarrow> finish_thread k)"

partial_function (option) run_loop :: "(sys \<Rightarrow> sys res option) \<Rightarrow> env \<Rightarrow> sys \<Rightarrow> sys res option" where
  "run_loop tick e k = bindO (OneInstruction (user_trap e) k) (\<lambda>k. bindO (tick k) (run_loop tick e))"

definition Machine_Run :: "(sys \<Rightarrow> sys res option) \<Rightarrow> env \<Rightarrow> sys \<Rightarrow> sys res option" where
  "Machine_Run tick e k = run_loop tick e (setStatus UserMode k)"

section \<open>The first process\<close>

text \<open>\<open>StartProcess\<close>: the flag is false when it returns to its caller; otherwise the process starts at \<open>machine->Run()\<close>. \<open>r\<close> and \<open>w\<close> are the addresses of the semaphores of
  the console. When the program cannot be loaded, the memory manager and the process table are deleted too, which the model does not show: no other thread exists then, and none of them is used
  again.\<close>

definition StartProcess :: "env \<Rightarrow> nat \<Rightarrow> nat \<Rightarrow> int list \<Rightarrow> string \<Rightarrow> sys \<Rightarrow> (bool \<times> sys) res" where
  "StartProcess e r w kb filename k =
     (case FileSystem_Open (new e OFile k) filename k of (f, k) \<Rightarrow>
      bindR (MemoryManager_new (j_pages e) (int NumPhysPages)) (\<lambda>mm.
      bindR (SynchConsole_new r w kb (k\<lparr>memoryManager := mm, TablePtr := Table_new MAXPROCESS, storeTable := Table_new MAXPROCESS\<rparr>)) (\<lambda>k.
      let k = k\<lparr>coreMap := CoreMap_new (int NumPhysPages)\<rparr> in
      case f of None \<Rightarrow> Inr (False, k)
      | Some executable \<Rightarrow>
        let s = new e OStore k; k = k\<lparr>stores := (stores k)(s \<mapsto> BackingStore_new (j_store e))\<rparr> in
        bindR (Table_Alloc s (storeTable k)) (\<lambda>(storeID, tb).
        let k = k\<lparr>storeTable := tb\<rparr> in
        if storeID = - 1 then Inr (False, k)
        else
          let a = new e OSpace k; k = AddrSpace_new a (j_space e) k in
          bindR (update_thread (currentThread k) (t_space_update (\<lambda>_. Some a)) k) (\<lambda>k.
          bindR (AddrSpace_Initialize (new e OTable k) a executable k) (\<lambda>(rv, k).
            if rv \<noteq> 0
            then bindR (Table_Release storeID (storeTable k)) (\<lambda>tb.
                 bindR (BackingStore_delete s (OpenFile_delete executable (k\<lparr>storeTable := tb\<rparr>))) (\<lambda>k. Inr (False, k)))
            else
              bindR (BackingStore_Initialize (j_pages e) s a (nat storeID) k) (\<lambda>(rv, k).
                if rv \<noteq> 0 then Inr (False, k)
                else
                  bindR (setThreadCount 1 a k) (\<lambda>k.
                  bindR (InitRegisters a k) (\<lambda>k.
                  bindR (AddrSpace_RestoreState a k) (\<lambda>k.
                  bindR (Table_Alloc (currentThread k) (TablePtr k)) (\<lambda>(_, tb). Inr (True, k\<lparr>TablePtr := tb\<rparr>))))))))))))"

end
