(* ===== verification/Process_Calls.thy ===== *)
theory Process_Calls
  imports Syscalls Process_Memory
begin

text \<open>
  What the system calls do to processes: the end of a thread by \<open>Exit\<close> or an exception, and the creation of a process by \<open>Exec\<close>, on top of the tables (\<open>Table_Pipe\<close>), the
  threads and the virtual memory (\<open>Process_Memory\<close>).
\<close>

section \<open>The end of a thread\<close>

text \<open>The table without the threads of address space \<open>a\<close>.\<close>

definition without_space :: "nat option \<Rightarrow> sys \<Rightarrow> int \<Rightarrow> nat option" where
  "without_space a k j = (case Table_Pipe.entries (TablePtr k) j of None \<Rightarrow> None | Some t \<Rightarrow> if map_option t_space (threads k t) = Some a then None else Some t)"

definition table_live :: "sys \<Rightarrow> bool" where
  "table_live k \<longleftrightarrow> table_wf (TablePtr k) \<and> (\<forall>j t. Table_Pipe.entries (TablePtr k) j = Some t \<longrightarrow> threads k t \<noteq> None)"

lemma table_live_upd:
  assumes "table_live k" and "table_wf tb" and "\<And>j t. Table_Pipe.entries tb j = Some t \<Longrightarrow> Table_Pipe.entries (TablePtr k) j = Some t"
  shows "table_live (k\<lparr>TablePtr := tb\<rparr>)"
proof -
  have "threads k t \<noteq> None" if "Table_Pipe.entries tb j = Some t" for j t using assms(1) assms(3) [OF that] by (simp add: table_live_def)
  then show ?thesis using assms(2) by (simp add: table_live_def)
qed

lemma release_from_correct:
  "table_live k \<Longrightarrow> \<exists>tb. release_from left i a k = Inr (k\<lparr>TablePtr := tb\<rparr>) \<and> table_wf tb \<and> tableSize tb = tableSize (TablePtr k) \<and>
     Table_Pipe.entries tb = (\<lambda>j. if i \<le> j \<and> j < i + int left then without_space a k j else Table_Pipe.entries (TablePtr k) j)"
proof (induction left arbitrary: i k)
  case 0
  have "k\<lparr>TablePtr := TablePtr k\<rparr> = k" by simp
  then show ?case using 0 by (intro exI [of _ "TablePtr k"]) (auto simp: table_live_def fun_eq_iff)
next
  case (Suc left)
  have wf: "table_wf (TablePtr k)" using Suc.prems by (simp add: table_live_def)
  let ?e = "Table_Pipe.entries (TablePtr k)"
  obtain tb where tb: "release_from (Suc left) i a k = release_from left (i + 1) a (k\<lparr>TablePtr := tb\<rparr>)" "table_wf tb" "tableSize tb = tableSize (TablePtr k)"
    "Table_Pipe.entries tb = ?e(i := without_space a k i)"
  proof (cases "?e i")
    case None
    then show ?thesis using that [of "TablePtr k"] Table_Get_correct [OF wf, of i] wf by (simp add: without_space_def fun_upd_idem)
  next
    case (Some t)
    then obtain th where th: "threads k t = Some th" using Suc.prems by (auto simp: table_live_def)
    obtain t' where t': "Table_Release i (TablePtr k) = Inr t'" "table_wf t'" "tableSize t' = tableSize (TablePtr k)" "Table_Pipe.entries t' = ?e(i := None)"
      using Table_Release_correct [OF wf, of i] by blast
    show ?thesis
    proof (cases "t_space th = a")
      case True
      then show ?thesis using that [of t'] t' Table_Get_correct [OF wf, of i] Some th by (simp add: without_space_def get_thread_def)
    next
      case False
      then show ?thesis using that [of "TablePtr k"] wf Table_Get_correct [OF wf, of i] Some th by (simp add: without_space_def get_thread_def fun_upd_idem)
    qed
  qed
  have "table_live (k\<lparr>TablePtr := tb\<rparr>)"
    by (rule table_live_upd [OF Suc.prems tb(2)]) (auto simp: tb(4) without_space_def split: if_splits option.splits)
  from Suc.IH [OF this, of "i + 1"] obtain tb' where tb': "release_from left (i + 1) a (k\<lparr>TablePtr := tb\<rparr>) = Inr (k\<lparr>TablePtr := tb, TablePtr := tb'\<rparr>)" "table_wf tb'" "tableSize tb' = tableSize (TablePtr (k\<lparr>TablePtr := tb\<rparr>))"
    "Table_Pipe.entries tb' = (\<lambda>j. if i + 1 \<le> j \<and> j < i + 1 + int left then without_space a (k\<lparr>TablePtr := tb\<rparr>) j else Table_Pipe.entries (TablePtr (k\<lparr>TablePtr := tb\<rparr>)) j)" by blast
  have "without_space a (k\<lparr>TablePtr := tb\<rparr>) j = without_space a k j" if "j \<noteq> i" for j using that by (simp add: without_space_def tb(4) split: option.split)
  then have "Table_Pipe.entries tb' = (\<lambda>j. if i \<le> j \<and> j < i + int (Suc left) then without_space a k j else ?e j)" unfolding tb'(4) by (auto simp: fun_eq_iff tb(4))
  moreover have "release_from (Suc left) i a k = Inr (k\<lparr>TablePtr := tb'\<rparr>)" using tb(1) tb'(1) by simp
  ultimately show ?case using tb(3) tb'(2,3) by (intro exI [of _ tb']) simp
qed

text \<open>The pipes after the ends of a thread have been closed.\<close>

definition closed_in :: "int \<Rightarrow> nat option \<Rightarrow> (nat \<Rightarrow> Pipe option) \<Rightarrow> nat \<Rightarrow> Pipe option" where
  "closed_in pv p P = (if pv AND 4 = 4 then (case p of None \<Rightarrow> P | Some a \<Rightarrow> (case P a of None \<Rightarrow> P
     | Some x \<Rightarrow> if p_outOpen x = 0 then P(a := None) else P(a \<mapsto> x\<lparr>p_inOpen := 0\<rparr>))) else P)"

definition closed_out :: "int \<Rightarrow> nat option \<Rightarrow> (nat \<Rightarrow> Pipe option) \<Rightarrow> nat \<Rightarrow> Pipe option" where
  "closed_out pv p P = (if pv AND 2 = 2 then (case p of None \<Rightarrow> P | Some a \<Rightarrow> (case P a of None \<Rightarrow> P
     | Some x \<Rightarrow> if p_inOpen x = 0 then P(a := None) else P(a \<mapsto> x\<lparr>p_outOpen := 0\<rparr>))) else P)"

definition pipes_live :: "Thread \<Rightarrow> sys \<Rightarrow> bool" where
  "pipes_live th k \<longleftrightarrow> (pipeValue th AND 4 = 4 \<longrightarrow> (\<exists>p x. inPipe th = Some p \<and> pipes k p = Some x)) \<and>
     (pipeValue th AND 2 = 2 \<longrightarrow> (\<exists>p x. outPipe th = Some p \<and> pipes k p = Some x \<and> (pipeValue th AND 4 = 4 \<longrightarrow> inPipe th \<noteq> Some p)))"

lemma close_in_eq:
  assumes "threads k (currentThread k) = Some th" and "inPipe th = Some p" and "pipes k p = Some x" and "pipeValue th AND 4 = 4"
  shows "close_in k = Inr (k\<lparr>pipes := closed_in (pipeValue th) (inPipe th) (pipes k)\<rparr>)"
  using assms by (simp add: close_in_def getInPipe_def get_thread_def get_pipe_def put_pipe_def setInOpen_def getOutOpen_def closed_in_def Let_def)

lemma close_out_eq:
  assumes "threads k (currentThread k) = Some th" and "outPipe th = Some p" and "pipes k p = Some x" and "pipeValue th AND 2 = 2"
  shows "close_out k = Inr (k\<lparr>pipes := closed_out (pipeValue th) (outPipe th) (pipes k)\<rparr>)"
  using assms by (simp add: close_out_def getOutPipe_def get_thread_def get_pipe_def put_pipe_def setOutOpen_def getInOpen_def closed_out_def Let_def)

lemma SysCallExit_correct:
  assumes live: "table_live k" and sz: "tableSize (TablePtr k) \<le> int TABLESIZE" and th: "threads k (currentThread k) = Some th" and a: "t_space th = Some a" and sp: "spaces k a = Some sp"
    and pp: "pipes_live th k"
  shows "\<exists>tb. SysCallExit v k = Inr (k\<lparr>pipes := closed_out (pipeValue th) (outPipe th) (closed_in (pipeValue th) (inPipe th) (pipes k)),
      threads := (threads k)(currentThread k \<mapsto> th\<lparr>joinValue := v\<rparr>), TablePtr := tb, spaces := (spaces k)(a \<mapsto> sp\<lparr>threadCount := c_int (threadCount sp - 1)\<rparr>)\<rparr>) \<and>
    table_wf tb \<and> Table_Pipe.entries tb = without_space (Some a) k"
proof -
  let ?P1 = "closed_in (pipeValue th) (inPipe th) (pipes k)" and ?P2 = "closed_out (pipeValue th) (outPipe th) (closed_in (pipeValue th) (inPipe th) (pipes k))"
  let ?k1 = "k\<lparr>pipes := ?P1\<rparr>" and ?k2 = "k\<lparr>pipes := ?P2\<rparr>"
  have 1: "(if pipeValue th AND 4 = 4 then close_in k else Inr k) = Inr ?k1"
    using pp close_in_eq [OF th] by (auto simp: pipes_live_def closed_in_def)
  have 2: "(if pipeValue th AND 2 = 2 then close_out ?k1 else Inr ?k1) = Inr ?k2"
  proof (cases "pipeValue th AND 2 = 2")
    case True
    then obtain p x where p: "outPipe th = Some p" "pipes k p = Some x" "pipeValue th AND 4 = 4 \<longrightarrow> inPipe th \<noteq> Some p" using pp by (auto simp: pipes_live_def)
    then have "?P1 p = Some x" by (auto simp: closed_in_def split: option.splits)
    then show ?thesis using close_out_eq [of ?k1 th p x] th p(1) True by simp
  qed (simp add: closed_out_def)
  let ?k3 = "?k2\<lparr>threads := (threads k)(currentThread k \<mapsto> th\<lparr>joinValue := v\<rparr>)\<rparr>"
  have 3: "setJoinValue v (currentThread ?k2) ?k2 = Inr ?k3" "get_thread (currentThread ?k3) ?k3 = Inr (th\<lparr>joinValue := v\<rparr>)"
    using th by (simp_all add: setJoinValue_def update_thread_def get_thread_def)
  have "table_live ?k3" using live by (auto simp: table_live_def)
  from release_from_correct [OF this, of TABLESIZE 0 "Some a"] obtain tb where tb: "release_from TABLESIZE 0 (Some a) ?k3 = Inr (?k3\<lparr>TablePtr := tb\<rparr>)" "table_wf tb"
    "Table_Pipe.entries tb = (\<lambda>j. if 0 \<le> j \<and> j < int TABLESIZE then without_space (Some a) ?k3 j else Table_Pipe.entries (TablePtr ?k3) j)" by auto
  have "without_space (Some a) ?k3 j = without_space (Some a) k j" for j using th by (auto simp: without_space_def split: option.split)
  moreover have "Table_Pipe.entries (TablePtr k) j = without_space (Some a) k j" if "\<not> (0 \<le> j \<and> j < int TABLESIZE)" for j
    using that sz by (auto simp: without_space_def Table_Pipe.entries_def)
  ultimately have e: "Table_Pipe.entries tb = without_space (Some a) k" unfolding tb(3) by (auto simp: fun_eq_iff)
  have "SysCallExit v k = Inr (?k3\<lparr>TablePtr := tb, spaces := (spaces k)(a \<mapsto> sp\<lparr>threadCount := c_int (threadCount sp - 1)\<rparr>)\<rparr>)"
    unfolding SysCallExit_def getPipeValue_def using th 1 2 3 tb(1) a sp
    by (simp add: get_thread_def setThreadCount_def get_space_def put_space_def)
  then show ?thesis using tb(2) e by auto
qed

text \<open>C11. A thread that calls \<open>Exit\<close>, calls the kernel with an unknown number or raises an exception other than a page fault ends: the handler comes to \<open>Thread::Finish\<close> with the exit status
  (-1 for an exception) as its join value, every thread of its address space, and no other one, has left the process table, its pipe ends are closed and a pipe with no open end is deleted, and the
  thread count of the address space has gone down; nothing else has changed. The hypotheses say that the process table holds existing threads and that the thread has an address space and the pipes its
  \<open>pipeValue\<close> speaks of.\<close>

theorem thread_exit:
  assumes "table_live k" and "tableSize (TablePtr k) \<le> int TABLESIZE" and "threads k (currentThread k) = Some th" and "t_space th = Some a" and "spaces k a = Some sp" and "pipes_live th k"
    and "which \<notin> {SyscallException, PageFaultException} \<and> v = - 1 \<or>
      which = SyscallException \<and> (reg 2 k = SC_Exit \<and> v = sint (reg 4 k) \<or> reg 2 k \<notin> {SC_Halt, SC_Exit, SC_Exec, SC_Join, SC_Read, SC_Write, SC_Fork, SC_Yield} \<and> v = - 1)"
  shows "\<exists>tb. ExceptionHandler e which k = Some (Inr (Exits (k\<lparr>pipes := closed_out (pipeValue th) (outPipe th) (closed_in (pipeValue th) (inPipe th) (pipes k)),
      threads := (threads k)(currentThread k \<mapsto> th\<lparr>joinValue := v\<rparr>), TablePtr := tb, spaces := (spaces k)(a \<mapsto> sp\<lparr>threadCount := c_int (threadCount sp - 1)\<rparr>)\<rparr>))) \<and>
    table_wf tb \<and> Table_Pipe.entries tb = without_space (Some a) k"
proof -
  have r: "ReadRegister i k = Inr (reg (nat i) k)" if "0 \<le> i" "i < 40" for i using that by (simp add: ReadRegister_def NumTotalRegs_def)
  have "ExceptionHandler e which k = exit_thread v k"
    using assms(7)
  proof (elim disjE conjE)
    assume "which = SyscallException" "reg 2 k = SC_Exit" "v = sint (reg 4 k)"
    then show ?thesis by (simp add: ExceptionHandler_def syscall_def r SC_defs)
  next
    assume "which = SyscallException" "reg 2 k \<notin> {SC_Halt, SC_Exit, SC_Exec, SC_Join, SC_Read, SC_Write, SC_Fork, SC_Yield}" "v = - 1"
    then show ?thesis by (simp add: ExceptionHandler_def syscall_def r)
  qed (simp add: ExceptionHandler_def)
  then show ?thesis using SysCallExit_correct [OF assms(1-6), of v] by (auto simp: exit_thread_def)
qed

text \<open>A system for examples: two threads, of which the first one runs in address space 0, both in the process table.\<close>

definition sys_of :: "vm \<Rightarrow> nat option list \<Rightarrow> sys" where
  "sys_of v ts = csys.extend (vm.extend v (csys.fields (Console_new []) 0 1))
     (sys.fields \<lparr>tbl_locked = False, tableptr = ts, tableSize = int (length ts)\<rparr> (Table_new MAXPROCESS) Map.empty None 0 1 Map.empty)"

lemma sys_of_fields:
  "TablePtr (sys_of v ts) = \<lparr>tbl_locked = False, tableptr = ts, tableSize = int (length ts)\<rparr>" "threads (sys_of v ts) = threads v" "currentThread (sys_of v ts) = currentThread v"
  "spaces (sys_of v ts) = spaces v" "pipes (sys_of v ts) = Map.empty" "freePipe (sys_of v ts) = None" "storeTable (sys_of v ts) = Table_new MAXPROCESS" "stores (sys_of v ts) = stores v"
  "tables (sys_of v ts) = tables v" "files (sys_of v ts) = files v" "openFiles (sys_of v ts) = openFiles v" "stack_junk (sys_of v ts) = stack_junk v" "registers (sys_of v ts) = registers v"
  "coreMap (sys_of v ts) = coreMap v" "corePages (sys_of v ts) = corePages v" "memoryManager (sys_of v ts) = memoryManager v" "mainMemory (sys_of v ts) = mainMemory v"
  "readyList (sys_of v ts) = readyList v"
  by (simp_all add: sys_of_def vm.defs csys.defs sys.defs)

definition example_env :: env where
  "example_env = \<lparr>resume = \<lambda>t k. None, new = \<lambda>ob k. 0, j_thread = Thread_new (\<lparr>t_name = [], t_status = READY, t_stack = None, t_started = False, priority = 0, joinValue = 0, pipeValue = 0,
     inPipe = None, outPipe = None, isForked = 0, join = 0, readyToJoin = 0, t_cv = 0, t_lock = 0, userRegisters = [], t_space = None\<rparr>) [] 0 0 0,
     j_space = example_junk, j_store = \<lparr>bs_pages = \<lparr>numBits = 0, numWords = 0, bm_map = []\<rparr>, bs_space = 0, bs_filename = [], bs_storeID = 0, bs_charID = [], bs_flag = 0\<rparr>,
     j_pages = [], j_pipe = []\<rparr>"

lemma example_threads: "\<exists>th. threads example_boot 0 = Some th \<and> t_space th = Some 0 \<and> pipeValue th = 0" "\<exists>th. threads example_boot 1 = Some th"
  by (simp_all add: example_boot_def two_threads_def Machine_new_def Interrupt_new_def isys.defs Machine.defs kernel.defs synch.defs vm.defs)

theorem thread_exit_witness:
  "\<exists>k' th. ExceptionHandler example_env OverflowException (sys_of (example_boot\<lparr>spaces := [0 \<mapsto> example_junk]\<rparr>) [Some 0, None]) = Some (Inr (Exits k')) \<and>
     threads k' 0 = Some th \<and> joinValue th = - 1 \<and> Table_Pipe.entries (TablePtr k') 0 = None"
proof -
  let ?k = "sys_of (example_boot\<lparr>spaces := [0 \<mapsto> example_junk]\<rparr>) [Some 0, None]"
  obtain th where th: "threads example_boot 0 = Some th" "t_space th = Some 0" "pipeValue th = 0" using example_threads(1) by blast
  have e: "Table_Pipe.entries \<lparr>tbl_locked = False, tableptr = [Some 0, None], tableSize = 2\<rparr> j = (if j = 0 then Some (0 :: nat) else None)" for j
    by (auto simp: Table_Pipe.entries_def nth_Cons split: nat.split)
  have "table_live ?k" using th by (simp add: table_live_def e sys_of_fields table_wf_def) 
  moreover have "pipes_live th ?k" using th(3) by (simp add: pipes_live_def)
  ultimately show ?thesis
    using thread_exit [of ?k th 0 example_junk OverflowException "- 1" example_env] th example_fields(11)
    by (auto simp: sys_of_fields TABLESIZE_def without_space_def e)
qed

section \<open>A new process\<close>

lemma same_vm_read: "same_vm k k' \<Longrightarrow> read_header f k' = read_header f k"
proof -
  assume "same_vm k k'"
  then have "get_file f k' = get_file f k" "stack_junk k' = stack_junk k" by (simp_all add: same_vm_def get_file_def split: option.split)
  then show ?thesis by (rule read_header_cong)
qed

lemma vm_inv_same:
  assumes "same_vm k k'" and "coreMap k' = coreMap k" and "corePages k' = corePages k" and "memoryManager k' = memoryManager k"
  shows "vm_inv ps k' = vm_inv ps k"
  using same_vmD [OF assms(1)] assms(2-4) by (simp add: vm_inv_def core_ok_def frames_ok_def owns_def cphys_def inj_on_def)

lemma fresh_same: "same_vm k k' \<Longrightarrow> fresh_process a p s f ID k' = fresh_process a p s f ID k"
  using same_vm_sel [of k k'] same_vm_read [of k k' f] same_vmD(9) [of k k'] by (auto simp: fresh_process_def same_vm_def ename_def the_space_def)

lemma add_store:
  assumes inv: "vm_inv ps k" and s: "stores k s = None" and k': "k' = k\<lparr>stores := (stores k)(s \<mapsto> b)\<rparr>"
  shows "vm_inv ps k'" "is_page k' = is_page k" "is_page k a v \<Longrightarrow> page_content k' a v = page_content k a v"
proof -
  have lay: "layout k" using inv by (simp add: vm_inv_def)
  have sel: "the_space k' = the_space k" "ptable k' = ptable k" "Paging.entries k' = Paging.entries k" "sid k' = sid k" "ename k' = ename k" "econt k' = econt k" "frame k' = frame k"
    by (simp_all add: fun_eq_iff selectors frame_def k')
  have pg: "pte k' = pte k" "phys k' = phys k" by (simp_all add: fun_eq_iff pte_def phys_def sel)
  show isp: "is_page k' = is_page k" by (simp add: fun_eq_iff is_page_def sel) (simp add: k')
  have ne: "sid k a \<noteq> s" if "spaces k a \<noteq> None" for a using lay that s by (auto simp: layout_def space_ok_def)
  then have sr: "srec k' a = srec k a" "sfile k' a = sfile k a" if "spaces k a \<noteq> None" for a using that sel(4) by (auto simp: srec_def sfile_def k')
  have "get_file f k' = get_file f k" for f by (simp add: get_file_def k' split: option.split)
  then have "read_header f k' = read_header f k" for f by (rule read_header_cong) (simp add: k')
  then have hd: "header_of k' a = header_of k a" for a by (simp add: header_of_def sel)
  have bk: "backing k' a v = backing k a v" if "spaces k a \<noteq> None" for a v using sr [OF that] by (simp add: backing_def sel hd)
  have sp: "spaces k' = spaces k" by (simp add: k')
  have so: "space_ok k' a = space_ok k a" if "spaces k a \<noteq> None" for a unfolding space_ok_def sel hd sr [OF that] using ne [OF that] by (simp add: k')
  have mem: "mainMemory k' = mainMemory k" and cf: "corePages k' = corePages k" "coreMap k' = coreMap k" "memoryManager k' = memoryManager k" by (simp_all add: k')
  have "layout k'" using lay unfolding layout_def sp sel mem by (simp add: so sr)
  moreover have "paged k'" using inv sr bk unfolding vm_inv_def paged_def isp pg sel by (auto simp: is_page_def)
  moreover have "core_ok k' ps" "frames_ok k' ps" "mm_ok (memoryManager k') (cphys k' ` set ps)"
    using inv cf by (simp_all add: vm_inv_def core_ok_def frames_ok_def owns_def cphys_def inj_on_def isp pg sel)
  ultimately show "vm_inv ps k'" by (simp add: vm_inv_def)
  show "page_content k' a v = page_content k a v" if "is_page k a v" using that bk by (simp add: page_content_def pg sel is_page_def)
qed

lemma process_created_run:
  assumes "vm_inv ps k" and "fresh_process a p s f ID k" and "read_header f k = Inr h"
  shows "\<exists>k1. AddrSpace_Initialize p a f (AddrSpace_new a junk k) = Inr (0, k1)"
proof -
  have "noffMagic h = NOFFMAGIC" using assms(2,3) by (auto simp: fresh_process_def header_ok_def)
  moreover have "get_file f (put_space a junk k) = get_file f k" by (simp add: get_file_def put_space_def split: option.split)
  then have "read_header f (put_space a junk k) = Inr h" using read_header_cong [of f "put_space a junk k" k] assms(3) by (simp add: put_space_def)
  ultimately show ?thesis by (simp add: AddrSpace_Initialize_def AddrSpace_new_def get_space_def put_space_def Let_def)
qed

lemma spaces_threads: "threads (put_space a sp k) = threads k" "put_space a sp k\<lparr>threads := x\<rparr> = put_space a sp (k\<lparr>threads := x\<rparr>)"
  by (simp add: put_space_def) (cases k, simp add: put_space_def)

lemma exec_space_unfold:
  assumes "new e OStore k = s" and "\<And>k'. new e OSpace k' = a" and "\<And>k'. new e OTable k' = p" and "Table_Alloc s (storeTable k) = Inr (int ID, tb)" and "threads k t = Some th"
  shows "exec_space e f t argc args k =
    bindR (AddrSpace_Initialize p a f (AddrSpace_new a ((j_space e)\<lparr>sp_argc := argc + 1, sp_argv := args\<rparr>)
        (k\<lparr>stores := (stores k)(s \<mapsto> BackingStore_new (j_store e)), storeTable := tb, threads := (threads k)(t \<mapsto> th\<lparr>t_space := Some a\<rparr>)\<rparr>))) (\<lambda>(r, k).
      if r \<noteq> 0
      then bindR (Table_Release (int ID) (storeTable k)) (\<lambda>tb. bindR (AddrSpace_delete a (OpenFile_delete f (k\<lparr>storeTable := tb\<rparr>))) (\<lambda>k. bindR (Thread_destroy t k) (\<lambda>k. Inr (0, k))))
      else bindR (BackingStore_Initialize (j_pages e) s a ID k) (\<lambda>(r, k). if r \<noteq> 0 then exec_fail s f a k else exec_start e s f a t k))"
proof -
  let ?ks = "k\<lparr>stores := (stores k)(s \<mapsto> BackingStore_new (j_store e)), storeTable := tb\<rparr>" and ?j = "(j_space e)\<lparr>sp_argc := argc + 1, sp_argv := args\<rparr>"
  have "AddArguments a (argc + 1) args (AddrSpace_new a (j_space e) ?ks) = Inr (AddrSpace_new a ?j ?ks)"
    by (simp add: AddrSpace_new_def AddArguments_def get_space_def put_space_def)
  moreover have "update_thread t (t_space_update (\<lambda>_. Some a)) (AddrSpace_new a ?j ?ks) = Inr (AddrSpace_new a ?j (?ks\<lparr>threads := (threads k)(t \<mapsto> th\<lparr>t_space := Some a\<rparr>)\<rparr>))"
    using assms(5) by (simp add: update_thread_def get_thread_def AddrSpace_new_def spaces_threads)
  ultimately show ?thesis using assms(4) by (simp add: exec_space_def assms(1-3) Let_def cong: if_cong)
qed

text \<open>C9. \<open>Exec\<close> creates a process: when the process table and the table of backing stores have a free slot and the file is a sound executable, the last part of \<open>Exec2\<close> returns the number of a
  process, which is one more than a free slot of the process table, now taken by the new thread; the backing store has its slot; the thread is forked and in the ready list; the paging invariant holds; the new
  address space has one page for each 128 bytes of code, data, stack and arguments, with the bytes of the program; and no page of another process has changed.\<close>

theorem exec_creates_process:
  assumes inv: "vm_inv ps k" and tp: "table_wf (TablePtr k)" "\<exists>j. 0 \<le> j \<and> j < tableSize (TablePtr k) \<and> Table_Pipe.entries (TablePtr k) j = None"
    and st: "table_wf (storeTable k)" "int ID < tableSize (storeTable k)" "Table_Pipe.entries (storeTable k) (int ID) = None" "\<forall>j. 0 \<le> j \<and> j < int ID \<longrightarrow> Table_Pipe.entries (storeTable k) j \<noteq> None"
    and nw: "new e OStore k = s" "\<And>k'. new e OSpace k' = a" "\<And>k'. new e OTable k' = p" and s: "stores k s = None"
    and fresh: "fresh_process a p s f ID (k\<lparr>stores := (stores k)(s \<mapsto> BackingStore_new (j_store e))\<rparr>)" and h: "read_header f k = Inr h" and th: "threads k t = Some th"
  shows "\<exists>k' pid. exec_space e f t argc args k = Inr (pid, k') \<and> 0 < pid \<and> Table_Pipe.entries (TablePtr k) (pid - 1) = None \<and>
    Table_Pipe.entries (TablePtr k') = (Table_Pipe.entries (TablePtr k))(pid - 1 \<mapsto> t) \<and> Table_Pipe.entries (storeTable k') = (Table_Pipe.entries (storeTable k))(int ID \<mapsto> s) \<and>
    threads k' = (threads k)(t \<mapsto> th\<lparr>t_space := Some a, t_stack := Some STACK_FENCEPOST, t_started := False, isForked := 1, t_status := READY\<rparr>) \<and> starts k' t = Some StartExec \<and>
    readyList k' = sorted_insert (c_int (- priority th)) t (readyList k) \<and> vm_inv ps k' \<and> length (Paging.entries k' a) = unat (pages_needed h) \<and>
    (\<forall>v < unat (pages_needed h). is_page k' a v \<and> page_content k' a v = image (econt k' a) h (int v)) \<and>
    (\<forall>a' v. is_page k a' v \<longrightarrow> is_page k' a' v \<and> page_content k' a' v = page_content k a' v)"
proof -
  let ?b = "BackingStore_new (j_store e)"
  define ks where "ks = k\<lparr>stores := (stores k)(s \<mapsto> ?b)\<rparr>"
  note AS = add_store [OF inv s ks_def]
  obtain tb where tb: "Table_Alloc s (storeTable k) = Inr (int ID, tb)" "Table_Pipe.entries tb = (Table_Pipe.entries (storeTable k))(int ID \<mapsto> s)"
  proof -
    obtain j tb where jt: "Table_Alloc s (storeTable k) = Inr (j, tb)" "0 \<le> j" "Table_Pipe.entries (storeTable k) j = None" "\<forall>i. 0 \<le> i \<and> i < j \<longrightarrow> Table_Pipe.entries (storeTable k) i \<noteq> None"
      "Table_Pipe.entries tb = (Table_Pipe.entries (storeTable k))(j \<mapsto> s)"
      using Table_Alloc_correct [OF st(1), of s] st(2,3) by (auto split: if_splits)
    have "j = int ID" using jt(2-4) st(3,4) by (meson linorder_less_linear of_nat_0_le_iff)
    then show ?thesis using that jt by auto
  qed
  define k1 where "k1 = ks\<lparr>storeTable := tb, threads := (threads k)(t \<mapsto> th\<lparr>t_space := Some a\<rparr>)\<rparr>"
  define junk where "junk = (j_space e)\<lparr>sp_argc := argc + 1, sp_argv := args\<rparr>"
  have sv: "same_vm ks k1" by (simp add: same_vm_def k1_def)
  have inv1: "vm_inv ps k1" using vm_inv_same [OF sv] AS(1) by (simp add: k1_def)
  have fr1: "fresh_process a p s f ID k1" using fresh_same [OF sv] fresh by (simp add: ks_def)
  have "get_file f k1 = get_file f k" by (simp add: get_file_def k1_def ks_def split: option.split)
  then have h1: "read_header f k1 = Inr h" using read_header_cong [of f k1 k] h by (simp add: k1_def ks_def)
  have ok: "header_ok h" using fr1 h1 by (auto simp: fresh_process_def)
  have b1: "stores k1 s = Some ?b" by (simp add: k1_def ks_def)
  obtain bm where bm: "BitMap_new (j_pages e) (uint (pages_needed h)) = Inr bm" "bitmap_wf bm" "numBits bm = uint (pages_needed h)" "bits bm = {}"
    using BitMap_new_correct [of "uint (pages_needed h)" "j_pages e"] by auto
  define kc where "kc jk = created a p s f ID jk ?b bm h k1" for jk
  have run: "bindR (AddrSpace_Initialize p a f (AddrSpace_new a junk k1)) (\<lambda>(_, k). BackingStore_Initialize (j_pages e) s a ID k) = Inr (0, kc junk)"
    unfolding kc_def by (rule initialize_created [OF h1 _ b1 bm(1)]) (use ok in \<open>simp add: header_ok_def\<close>)
  obtain k2 where k2: "AddrSpace_Initialize p a f (AddrSpace_new a junk k1) = Inr (0, k2)" "BackingStore_Initialize (j_pages e) s a ID k2 = Inr (0, kc junk)"
    using process_created_run [OF inv1 fr1 h1, of junk] run by auto
  define junk2 where "junk2 = junk\<lparr>threadCount := c_int (threadCount junk + 1)\<rparr>"
  have cnt: "setThreadCount 1 a (kc junk) = Inr (kc junk2)"
    by (cases junk) (simp add: setThreadCount_def get_space_def put_space_def kc_def created_def junk2_def)
  let ?th = "th\<lparr>t_space := Some a, t_stack := Some STACK_FENCEPOST, t_started := False, isForked := 1, t_status := READY\<rparr>"
  define k3 where "k3 = (kc junk2)\<lparr>threads := (threads k)(t \<mapsto> ?th), readyList := sorted_insert (c_int (- priority th)) t (readyList k)\<rparr>"
  have kcf: "threads (kc junk2) = (threads k)(t \<mapsto> th\<lparr>t_space := Some a\<rparr>)" "readyList (kc junk2) = readyList k" "TablePtr (kc junk2) = TablePtr k" "storeTable (kc junk2) = tb"
    by (simp_all add: kc_def created_def k1_def ks_def)
  have fork: "Fork_with t StartExec (kc junk2) = Inr (k3\<lparr>starts := (starts k3)(t \<mapsto> StartExec)\<rparr>)"
    by (simp add: Fork_with_def Fork_def StackAllocate_def update_thread_def get_thread_def kcf ReadyToRun_def thread_setStatus_def getPriority_def Let_def k3_def)
  obtain j tb2 where j: "Table_Alloc t (TablePtr k) = Inr (j, tb2)" "0 \<le> j" "Table_Pipe.entries (TablePtr k) j = None" "Table_Pipe.entries tb2 = (Table_Pipe.entries (TablePtr k))(j \<mapsto> t)"
    using Table_Alloc_correct [OF tp(1), of t] tp(2) by (auto split: if_splits)
  define k4 where "k4 = k3\<lparr>TablePtr := tb2, starts := (starts k3)(t \<mapsto> StartExec)\<rparr>"
  have "exec_space e f t argc args k = Inr (j + 1, k4)"
    using exec_space_unfold [OF nw tb(1) th, where argc = argc and args = args and f = f] k2 cnt fork j(1,2) kcf(3)
    by (simp add: junk_def k1_def ks_def exec_start_def k3_def k4_def)
  moreover note CI = created_inv [where junk = junk2 and b = ?b, OF inv1 fr1 h1 ok bm(2-4) HOL.refl, folded kc_def]
  have sv4: "same_vm (kc junk2) k4" by (simp add: same_vm_def k4_def k3_def)
  note S4 = same_vmD [OF sv4] same_vm_sel [OF sv4]
  have "vm_inv ps k4" using vm_inv_same [OF sv4] CI(1) by (simp add: k4_def k3_def)
  moreover have "is_page k4 a' v \<and> page_content k4 a' v = page_content k a' v" if "is_page k a' v" for a' v
    using that CI(2) S4 AS(2,3) same_vmD [OF sv] by simp
  moreover have "is_page k4 a v \<and> page_content k4 a v = image (econt k4 a) h (int v)" if "v < unat (pages_needed h)" for v using that CI(3) S4 by simp
  moreover have "length (Paging.entries k4 a) = unat (pages_needed h)"
    using created_new(4) [where junk = junk2 and b = ?b, OF fr1 h1 ok bm(2-4) HOL.refl, folded kc_def] S4 by simp
  moreover have "storeTable k4 = tb" "TablePtr k4 = tb2" "threads k4 = (threads k)(t \<mapsto> ?th)" "readyList k4 = sorted_insert (c_int (- priority th)) t (readyList k)" "starts k4 t = Some StartExec"
    by (simp_all add: k4_def k3_def kcf(4))
  ultimately show ?thesis using j tb(2) by (intro exI [of _ k4] exI [of _ "j + 1"]) simp
qed

definition exec_env :: env where
  "exec_env = example_env\<lparr>new := \<lambda>ob k. if ob = OStore then 1 else 0\<rparr>"

lemma example_sys_inv: "vm_inv [] (sys_of example_boot ts)"
  by (simp add: vm_inv_def layout_def paged_def core_ok_def frames_ok_def mm_ok_def is_page_def sys_of_fields example_fields CoreMap_new_def bitmap_wf_def bits_def divRoundUp_def BitsInWord_def)

lemma example_sys_read: "read_header 0 (sys_of example_boot ts) = Inr example_header"
  by (simp add: read_header_def OpenFile_ReadAt_def get_file_def sys_of_fields example_fields example_program_def example_header_def file_bytes_def word_of_bytes_def
      segment_at_def NOFFMAGIC_def Let_def)

theorem exec_creates_process_witness:
  "\<exists>k' pid. exec_space exec_env 0 1 0 [] (sys_of example_boot [None]) = Inr (pid, k') \<and> 0 < pid \<and> length (Paging.entries k' 0) = 45 \<and> vm_inv [] k'"
proof -
  let ?k = "sys_of example_boot [None]"
  obtain th where th: "threads ?k 1 = Some th" using example_threads(2) by (auto simp: sys_of_fields)
  have st: "stores ?k 1 = None" by (simp add: sys_of_fields example_boot_def two_threads_def Machine_new_def Interrupt_new_def isys.defs Machine.defs kernel.defs synch.defs vm.defs)
  have tb: "table_wf (TablePtr ?k)" "Table_Pipe.entries (TablePtr ?k) 0 = None" "tableSize (TablePtr ?k) = 1" "table_wf (storeTable ?k)" "Table_Pipe.entries (storeTable ?k) = Map.empty"
    "tableSize (storeTable ?k) = 14"
    using Table_new_wf [of MAXPROCESS] by (simp_all add: sys_of_fields table_wf_def Table_Pipe.entries_def MAXPROCESS_def Table_new_def)
  have nw: "new exec_env OStore ?k = 1" "\<And>k'. new exec_env OSpace k' = 0" "\<And>k'. new exec_env OTable k' = 0" by (simp_all add: exec_env_def)
  let ?ks = "?k\<lparr>stores := (stores ?k)(1 \<mapsto> BackingStore_new (j_store exec_env))\<rparr>"
  have "get_file 0 ?ks = get_file 0 ?k" by (simp add: get_file_def split: option.split)
  then have "read_header 0 ?ks = Inr example_header" using read_header_cong [of 0 ?ks ?k] example_sys_read by simp
  then have fr: "fresh_process 0 0 1 0 0 ?ks" using example_header_ok example_fields by (simp add: fresh_process_def store_name_def id_digits.simps sys_of_fields)
  show ?thesis
    using exec_creates_process [OF example_sys_inv tb(1) _ tb(4) _ _ _ nw st fr example_sys_read th, of 0 "[]"] tb example_pages by fastforce
qed

section \<open>Results, pipes and arguments\<close>

lemma advance_pc_eq:
  assumes "length (registers k) = NumTotalRegs"
  shows "\<exists>k'. advance_pc k = Inr (Resumes k') \<and> reg PCReg k' = reg NextPCReg k \<and> reg NextPCReg k' = reg NextPCReg k + 4 \<and> (\<forall>i. i \<noteq> PCReg \<and> i \<noteq> NextPCReg \<longrightarrow> reg i k' = reg i k)"
  using assms by (simp add: advance_pc_def ReadRegister_def WriteRegister_def set_reg_def reg_def PCReg_def NextPCReg_def NumTotalRegs_def)

text \<open>C40. The results of \<open>Read\<close> and \<open>Write\<close> do not reach the program. Whatever number \<open>Read2\<close> or \<open>Write2\<close> returns, the handler resumes the program after the call with every register but the two program counters
  as the routine left it; the number goes nowhere. In particular, when they refuse the call and return -1, because of the descriptor or because the buffer starts beyond the address space, the program finds
  in register 2 what it has put there itself, the number of the call.\<close>

theorem read_write_result_lost:
  assumes "length (registers k) = NumTotalRegs" and "reg 2 k = SC_Read \<and> call = Read2 \<and> fd = 0 \<or> reg 2 k = SC_Write \<and> call = Write2 \<and> fd = 1"
  shows "(call e (reg 4 k) (reg 5 k) (reg 6 k) k = Some (Inr (v, k1)) \<and> length (registers k1) = NumTotalRegs \<longrightarrow>
      (\<exists>k'. ExceptionHandler e SyscallException k = Some (Inr (Resumes k')) \<and> reg PCReg k' = reg NextPCReg k1 \<and> reg NextPCReg k' = reg NextPCReg k1 + 4 \<and>
        (\<forall>i. i \<noteq> PCReg \<and> i \<noteq> NextPCReg \<longrightarrow> reg i k' = reg i k1))) \<and>
    (reg 6 k \<noteq> fd \<or> beyond (reg 4 k) k = Inr True \<longrightarrow>
      call e (reg 4 k) (reg 5 k) (reg 6 k) k = Some (Inr (- 1, k)) \<and> (\<exists>k'. ExceptionHandler e SyscallException k = Some (Inr (Resumes k')) \<and> reg 2 k' = reg 2 k))"
proof -
  have r: "ReadRegister i k = Inr (reg (nat i) k)" if "0 \<le> i" "i < 40" for i using that by (simp add: ReadRegister_def NumTotalRegs_def)
  have go: "ExceptionHandler e SyscallException k = bindO (call e (reg 4 k) (reg 5 k) (reg 6 k) k) (\<lambda>(_, k). Some (advance_pc k))"
    using assms(2) by (auto simp: ExceptionHandler_def syscall_def r SC_defs)
  have refused: "call e (reg 4 k) (reg 5 k) (reg 6 k) k = Some (Inr (- 1, k))" if "reg 6 k \<noteq> fd \<or> beyond (reg 4 k) k = Inr True"
    using that assms(2) by (auto simp: Read2_def Write2_def)
  show ?thesis
  proof (intro conjI impI)
    assume "call e (reg 4 k) (reg 5 k) (reg 6 k) k = Some (Inr (v, k1)) \<and> length (registers k1) = NumTotalRegs"
    then show "\<exists>k'. ExceptionHandler e SyscallException k = Some (Inr (Resumes k')) \<and> reg PCReg k' = reg NextPCReg k1 \<and> reg NextPCReg k' = reg NextPCReg k1 + 4 \<and>
        (\<forall>i. i \<noteq> PCReg \<and> i \<noteq> NextPCReg \<longrightarrow> reg i k' = reg i k1)" using advance_pc_eq [of k1] go by auto
  next
    assume "reg 6 k \<noteq> fd \<or> beyond (reg 4 k) k = Inr True"
    then show "call e (reg 4 k) (reg 5 k) (reg 6 k) k = Some (Inr (- 1, k))" by (rule refused)
  next
    assume "reg 6 k \<noteq> fd \<or> beyond (reg 4 k) k = Inr True"
    from refused [OF this] show "\<exists>k'. ExceptionHandler e SyscallException k = Some (Inr (Resumes k')) \<and> reg 2 k' = reg 2 k"
      using advance_pc_eq [OF assms(1)] go by (auto simp: PCReg_def NextPCReg_def)
  qed
qed

theorem read_write_result_lost_witness:
  "\<exists>k'. ExceptionHandler example_env SyscallException (sys_of (example_boot\<lparr>registers := (replicate 40 0)[2 := 7]\<rparr>) []) = Some (Inr (Resumes k')) \<and> reg 2 k' = 7"
  using read_write_result_lost [of "sys_of (example_boot\<lparr>registers := (replicate 40 0)[2 := 7]\<rparr>) []" Write2 1 example_env] by (auto simp: sys_of_fields reg_def NumTotalRegs_def SC_Write_def)

text \<open>A user program can stop the kernel: \<open>Exec\<close> with both pipe bits set while no pipe is waiting to be connected follows a null pointer.\<close>

theorem exec_null_pipe:
  assumes "read_name e MAXSIZE nm [] k = Some (Inr (Some fn, k1))" and "files k1 (name_of fn) \<noteq> None" and "freePipe k1 = None" and "sint willJoin AND 6 = 6"
  shows "Exec2 e nm argc argv willJoin k = Some (Inl NullPointer)"
proof -
  obtain c where c: "files k1 (name_of fn) = Some c" using assms(2) by blast
  show ?thesis
    using assms(1,3,4) c
    by (simp add: Exec2_def FileSystem_Open_def new_thread_def setPipeValue_def update_thread_def get_thread_def connect_pipes_def open_in_def setInPipe_def get_pipe_def Let_def)
qed

text \<open>A machine whose only page is full of zeros, and a file with the empty name.\<close>

definition zero_page :: sys where
  "zero_page = sys_of (example_boot\<lparr>pageTable := Some 3, pageTableSize := 1, mainMemory := replicate 4096 0, files := [[] \<mapsto> []],
     tables := [3 \<mapsto> [\<lparr>virtualPage = 0, physicalPage = 0, valid = True, readOnly = False, use = False, dirty = False\<rparr>]]\<rparr>) []"

lemma zero_page_fields:
  "tlb zero_page = None" "pageTable zero_page = Some 3" "pageTableSize zero_page = 1" "mainMemory zero_page = replicate 4096 0" "files zero_page = [[] \<mapsto> []]" "freePipe zero_page = None"
  "tables zero_page = [3 \<mapsto> [\<lparr>virtualPage = 0, physicalPage = 0, valid = True, readOnly = False, use = False, dirty = False\<rparr>]]"
  by (simp_all add: zero_page_def sys_of_def example_boot_def two_threads_def Machine_new_def Interrupt_new_def isys.defs Machine.defs kernel.defs synch.defs vm.defs csys.defs sys.defs)

lemma zero_page_read:
  "\<exists>k1. ReadMem trap 0 1 zero_page = Some (Inr (Some 0, k1)) \<and> files k1 = [[] \<mapsto> []] \<and> freePipe k1 = None"
  by (simp add: ReadMem_def Translate_addr_def misaligned_def find_entry_def entry_load_def entry_store_def zero_page_fields load8_def Let_def NumPhysPages_def PageSize_def)

theorem exec_null_pipe_witness: "Exec2 example_env 0 0 0 6 zero_page = Some (Inl NullPointer)"
proof -
  obtain k1 where k1: "ReadMem (fault_trap example_env) 0 1 zero_page = Some (Inr (Some 0, k1))" "files k1 = [[] \<mapsto> []]" "freePipe k1 = None" using zero_page_read by blast
  have "read_name example_env (Suc 99) 0 [] zero_page = Some (Inr (Some [], k1))" using k1(1) by (simp only: read_name.simps read_twice_def) simp
  then have "\<exists>k1. read_name example_env MAXSIZE 0 [] zero_page = Some (Inr (Some [], k1)) \<and> files k1 (name_of []) \<noteq> None \<and> freePipe k1 = None"
    using k1(2,3) by (simp add: MAXSIZE_def name_of_def)
  then show ?thesis using exec_null_pipe [of example_env 0 zero_page "[]"] by auto
qed

text \<open>An argument in a page that is not in memory: the page fault is handled, but the access is not repeated, and \<open>readArgument\<close> fails.\<close>

lemma readArgument_page_fault:
  assumes "Translate_addr str 1 False k = Inr (Inl PageFaultException, k1)" and "RaiseException (fault_trap e) PageFaultException str k1 = Some (Inr k2)"
  shows "readArgument e str k = Some (Inr (None, k2))"
proof -
  have "read_argument e (Suc 49) str [] k = Some (Inr (None, k2))" using assms by (simp only: read_argument.simps ReadMem_def) simp
  then show ?thesis by (simp only: readArgument_def eval_nat_numeral BitM.simps)
qed

text \<open>\<open>Machine::Run\<close> does not return.\<close>

lemma run_loop_never_returns: "run_loop tick e k \<noteq> Some (Inr k')"
proof
  assume "run_loop tick e k = Some (Inr k')"
  then have "\<exists>x. (Inr k' :: sys res) = Inl x"
  proof (rule run_loop.raw_induct [rotated, where P = "\<lambda>tick e k r. \<exists>x. r = Inl x"])
    fix rl :: "(sys \<Rightarrow> sys res option) \<Rightarrow> env \<Rightarrow> sys \<Rightarrow> sys res option" and tick e k r
    assume IH: "\<And>tick e k r. rl tick e k = Some r \<Longrightarrow> \<exists>x. r = Inl x" and r: "bindO (OneInstruction (user_trap e) k) (\<lambda>k. bindO (tick k) (rl tick e)) = Some r"
    show "\<exists>x. r = Inl x"
    proof (cases r)
      case (Inr y)
      then obtain k1 k2 where "rl tick e k2 = Some (Inr y)" using r by (auto simp: bindO_eq_Inr)
      then show ?thesis using IH by blast
    qed simp
  qed
  then show False by simp
qed

lemma Machine_Run_never_returns: "Machine_Run tick e k \<noteq> Some (Inr k')"
  by (simp add: Machine_Run_def run_loop_never_returns)

end
