(* ===== verification/Startup.thy ===== *)
theory Startup
  imports Process_Calls
begin

text \<open>
  Starting Nachos (\<^verbatim>\<open>src/code/threads/main.cc\<close>, \<^verbatim>\<open>system.cc\<close>, the debug flags of \<^verbatim>\<open>utility.cc\<close>), as the build in \<^verbatim>\<open>src/code/userprog\<close> configures it: user programs on the stub file
  system. The arguments come without the name of the command. The state given to \<open>Initialize\<close> is that of the program's variables before \<open>main\<close>; \<open>rand\<close> is the generator of the C library, which gives a
  sequence for every seed. \<open>dev\<close> gives the addresses of the semaphores and the pending input of a new console; when a program could not be started and another one is, the old console, which nobody uses, is
  dropped.

  Command lines end in one of three ways: user code runs (\<open>Runs\<close>), the main thread calls \<open>Finish\<close> (\<open>MainEnds\<close>), or the machine stops. Deleting the objects in \<open>Cleanup\<close> is left out.
\<close>

section \<open>Flags\<close>

record flags =
  debugArgs :: string
  seed :: int
  randomYield :: bool
  debugUserProg :: bool
  format_disk :: bool

text \<open>Without \<open>srand\<close> the C library starts as if from the seed 1.\<close>

definition no_flags :: flags where
  "no_flags = \<lparr>debugArgs = [], seed = 1, randomYield = False, debugUserProg = False, format_disk = False\<rparr>"

definition is_space :: "char \<Rightarrow> bool" where
  "is_space c \<longleftrightarrow> c = CHR '' '' \<or> (9 \<le> (of_char c :: int) \<and> (of_char c :: int) \<le> 13)"

fun digits_value :: "int \<Rightarrow> string \<Rightarrow> int" where
  "digits_value v [] = v"
| "digits_value v (c # cs) = (let d = of_char c - 48 in if 0 \<le> d \<and> d \<le> 9 then digits_value (10 * v + d) cs else v)"

definition atoi :: "string \<Rightarrow> int" where
  "atoi s = c_int (case dropWhile is_space s of
     CHR ''-'' # cs \<Rightarrow> - digits_value 0 cs | CHR ''+'' # cs \<Rightarrow> digits_value 0 cs | cs \<Rightarrow> digits_value 0 cs)"

text \<open>One round of the loop: \<open>argCount\<close> and the flags.\<close>

definition init_arg :: "string \<Rightarrow> string list \<Rightarrow> flags \<Rightarrow> (nat \<times> flags) res" where
  "init_arg a rest fl =
     bindR (if a = ''-d'' then (case rest of [] \<Rightarrow> Inr (1, fl\<lparr>debugArgs := ''+''\<rparr>) | x # _ \<Rightarrow> Inr (2, fl\<lparr>debugArgs := x\<rparr>))
            else if a = ''-rs'' then (case rest of [] \<Rightarrow> Inl AssertFail | x # _ \<Rightarrow> Inr (2, fl\<lparr>seed := atoi x, randomYield := True\<rparr>))
            else Inr (1, fl)) (\<lambda>(argCount, fl).
       let fl = (if a = ''-s'' then fl\<lparr>debugUserProg := True\<rparr> else fl) in
       Inr (argCount, if a = ''-f'' then fl\<lparr>format_disk := True\<rparr> else fl))"

function init_args :: "string list \<Rightarrow> flags \<Rightarrow> flags res" where
  "init_args [] fl = Inr fl"
| "init_args (a # rest) fl = bindR (init_arg a rest fl) (\<lambda>(argCount, fl). init_args (drop (argCount - 1) rest) fl)"
  by pat_completeness auto
termination by (relation "measure (\<lambda>(argv, fl). length argv)") auto

definition DebugIsEnabled :: "string option \<Rightarrow> char \<Rightarrow> bool" where
  "DebugIsEnabled enableFlags flag =
     (case enableFlags of None \<Rightarrow> False | Some fs \<Rightarrow> (flag \<in> set fs \<or> flag = CHR 0x00) \<or> CHR ''+'' \<in> set fs)"

section \<open>Initialize\<close>

text \<open>\<open>Yield\<close> with its calls of \<open>SetLevel\<close>, of the main thread, which is alone: enabling interrupts at the end lets time pass, and the timer may make the thread yield again, without an end if the timer
  is always set to the next tick. The machine does not exist yet.\<close>

lemma OneTick_mono [partial_function_mono]:
  assumes "\<And>s. mono_option (\<lambda>f. Y f s)"
  shows "mono_option (\<lambda>f. OneTick dl disp (\<lambda>s. Y f s) k)"
  unfolding OneTick_def Let_def by (intro partial_function_mono assms)

lemma SetLevel_mono [partial_function_mono]:
  assumes "\<And>s. mono_option (\<lambda>f. Y f s)"
  shows "mono_option (\<lambda>f. SetLevel dl disp (\<lambda>s. Y f s) l k)"
  unfolding SetLevel_def Let_def by (intro partial_function_mono assms)

partial_function (option) main_Yield :: "Timer \<Rightarrow> 'm kernel_scheme \<Rightarrow> 'm kernel_scheme res option" where
  "main_Yield t k =
     bindO (SetLevel Inr (timer_dispatch t) (\<lambda>k. main_Yield t k) IntOff k) (\<lambda>(old, k).
     bindO (Some (Yield k)) (\<lambda>k. bindO (SetLevel Inr (timer_dispatch t) (\<lambda>k. main_Yield t k) old k) (\<lambda>(_, k). Some (Inr k))))"

text \<open>The result is \<open>enableFlags\<close> and the new state. Without a timer nothing is pending, and no handler is called.\<close>

definition Initialize :: "env \<Rightarrow> (int \<Rightarrow> nat \<Rightarrow> int) \<Rightarrow> string list \<Rightarrow> sys \<Rightarrow> (string \<times> sys) res option" where
  "Initialize e rand argv k =
     bindO (Some (init_args argv no_flags)) (\<lambda>fl.
     let k = (isys.extend (Interrupt_new (rand (seed fl))) (isys.more k))\<lparr>readyList := []\<rparr> in
     bindO (Some (if randomYield fl then Timer_new 0 True k else Inr (\<lparr>randomize = False, tm_arg = 0\<rparr>, k))) (\<lambda>(timer, k).
     let (t, k) = new_thread e ''main'' 0 (k\<lparr>threadToBeDestroyed := None\<rparr>) in
     bindO (Some (thread_setStatus RUNNING t (k\<lparr>currentThread := t\<rparr>))) (\<lambda>k.
     bindO (Enable Inr (timer_dispatch timer) (main_Yield timer) k) (\<lambda>k.
     let k = Machine.extend (Machine_new (isys.truncate k) (pageTableSize k) (runUntilTime k) (debugUserProg fl)) (Machine.more k) in
     bindO (Some (assertR CheckEndian)) (\<lambda>_. Some (Inr (debugArgs fl, k)))))))"

section \<open>Commands\<close>

text \<open>The loop of \<open>ConsoleTest\<close>: 113 is the character q.\<close>

partial_function (option) echo_loop :: "(sys \<Rightarrow> sys res option) \<Rightarrow> sys \<Rightarrow> sys res option" where
  "echo_loop aw k =
     bindO (SynchConsole_GetChar aw k) (\<lambda>(ch, k). bindO (SynchConsole_PutChar aw ch k) (\<lambda>k. if ch = 113 then Some (Inr k) else echo_loop aw k))"

definition ConsoleTest :: "env \<Rightarrow> nat \<times> nat \<times> int list \<Rightarrow> sys \<Rightarrow> sys res option" where
  "ConsoleTest e = (\<lambda>(r, w, kb) k. bindO (Some (SynchConsole_new r w kb k)) (echo_loop (away e)))"

datatype started = Runs sys | MainEnds sys

fun main_args :: "env \<Rightarrow> (sys \<Rightarrow> nat \<times> nat \<times> int list) \<Rightarrow> string list \<Rightarrow> sys \<Rightarrow> started res option" where
  "main_args e dev [] k = Some (Inr (MainEnds k))"
| "main_args e dev (a # rest) k =
     (let k = (if a = ''-e'' then k\<lparr>LRU := 1\<rparr> else k) in
      if a = ''-x'' then
        (case rest of [] \<Rightarrow> Some (Inl AssertFail)
         | prog # rest' \<Rightarrow> (case dev k of (r, w, kb) \<Rightarrow>
             bindO (Some (StartProcess e r w kb prog k)) (\<lambda>(runs, k). if runs then Some (Inr (Runs k)) else main_args e dev rest' k)))
      else if a = ''-c'' then
        (if length rest = 1 then Some (Inl AssertFail) else bindO (ConsoleTest e (dev k) k) (\<lambda>k. Some (Halt k)))
      else main_args e dev rest k)"

definition nachos_main :: "env \<Rightarrow> (int \<Rightarrow> nat \<Rightarrow> int) \<Rightarrow> (sys \<Rightarrow> nat \<times> nat \<times> int list) \<Rightarrow> string list \<Rightarrow> sys \<Rightarrow> started res option" where
  "nachos_main e rand dev argv k = bindO (Initialize e rand argv k) (\<lambda>(_, k). main_args e dev argv k)"


section \<open>The first ticks of the clock\<close>

abbreviation random_timer :: Timer where "random_timer \<equiv> \<lparr>randomize = True, tm_arg = 0\<rparr>"

text \<open>The machine is in the kernel with at most the timer pending.\<close>

definition booting :: "'m isys_scheme \<Rightarrow> bool" where
  "booting s \<longleftrightarrow> status s = SystemMode \<and> \<not> inHandler s \<and> \<not> yieldOnReturn s \<and> random_nonneg s \<and>
     (pending s = [] \<or> (\<exists>w p. pending s = [(w, p)] \<and> handler p = TimerHandler \<and> type p = TimerInt))"

definition kernel_tick :: "'m isys_scheme \<Rightarrow> 'm isys_scheme" where
  "kernel_tick s = s\<lparr>stats := (stats s)\<lparr>totalTicks := now s + SystemTick, systemTicks := systemTicks (stats s) + SystemTick\<rparr>, level := IntOn\<rparr>"

lemma tick_calm:
  assumes "booting s" and "\<forall>(w, p) \<in> set (pending s). w > now s + SystemTick"
  shows "OneTick dl disp y s = Some (Inr (kernel_tick s))"
proof -
  let ?s = "ChangeLevel IntOn IntOff (advance_ticks s)"
  have "CheckIfDue dl disp False ?s = Inr (False, ?s)"
    using assms by (auto simp: booting_def CheckIfDue_def ChangeLevel_def advance_ticks_def Let_def sorted_insert_def)
  then have "fire_due dl disp ?s = Some (Inr ?s)" by (subst fire_due.simps) simp
  then show ?thesis using assms(1) by (simp add: OneTick_def booting_def kernel_tick_def ChangeLevel_def advance_ticks_def)
qed

definition next_timer :: "'m isys_scheme \<Rightarrow> (int \<times> PendingInterrupt) list" where
  "next_timer s = (let w = now s + (1 + rng s (rng_pos s) mod 200) in [(w, PendingInterrupt_new TimerHandler 0 w TimerInt)])"

definition timer_fired :: "'m isys_scheme \<Rightarrow> 'm isys_scheme" where
  "timer_fired s = (kernel_tick s)\<lparr>pending := next_timer (kernel_tick s), rng_pos := Suc (rng_pos s)\<rparr>"

lemma random_timer_set: "0 \<le> rng s (rng_pos s) \<Longrightarrow> pending s = [] \<Longrightarrow> Timer_schedule random_timer s = Inr (s\<lparr>rng_pos := Suc (rng_pos s), pending := next_timer s\<rparr>)"
proof -
  assume r: "0 \<le> rng s (rng_pos s)" and e: "pending s = []"
  have "rng s (rng_pos s) smod 200 = rng s (rng_pos s) mod 200" "0 < 1 + rng s (rng_pos s) mod 200" using r by (simp_all add: add_pos_nonneg)
  then show ?thesis using e by (simp add: Timer_schedule_def TimeOfNextInterrupt_def Random_def TimerTicks_def Schedule_def next_timer_def Let_def sorted_insert_def)
qed

lemma tick_timer:
  assumes "booting s" and "pending s = [(w, p)]" and "w \<le> now s + SystemTick"
  shows "OneTick Inr (timer_dispatch random_timer) y s = bindO (y (timer_fired s)) (\<lambda>s'. Some (Inr (s'\<lparr>status := SystemMode\<rparr>)))"
proof -
  let ?d = "timer_dispatch random_timer" and ?s = "ChangeLevel IntOn IntOff (advance_ticks s)"
  let ?h = "?s\<lparr>pending := [], inHandler := True, status := SystemMode\<rparr>"
  let ?s1 = "?s\<lparr>pending := next_timer ?s, rng_pos := Suc (rng_pos s), yieldOnReturn := True\<rparr>"
  have b: "status s = SystemMode" "\<not> inHandler s" "0 \<le> rng s (rng_pos s)" "handler p = TimerHandler" using assms(1,2) by (auto simp: booting_def random_nonneg_def)
  have "?d TimerHandler (arg p) ?h = Inr (?h\<lparr>pending := next_timer ?s, rng_pos := Suc (rng_pos s), yieldOnReturn := True\<rparr>)"
    using random_timer_set [of ?h] b
    by (simp add: timer_dispatch_def TimerExpired_def TimerInterruptHandler_def YieldOnReturn_def getStatus_def next_timer_def ChangeLevel_def advance_ticks_def)
  then have "CheckIfDue Inr ?d False ?s = Inr (True, ?s1)"
    using assms(2,3) b by (simp add: CheckIfDue_def ChangeLevel_def advance_ticks_def Let_def)
  moreover have "0 < 1 + rng s (rng_pos s) mod 200" using b(3) by (simp add: add_pos_nonneg)
  then have "CheckIfDue Inr ?d False ?s1 = Inr (False, ?s1)"
    using b by (simp add: CheckIfDue_def ChangeLevel_def advance_ticks_def Let_def next_timer_def sorted_insert_def)
  ultimately have "fire_due Inr ?d ?s = Some (Inr ?s1)" by (subst fire_due.simps, simp, subst fire_due.simps, simp)
  moreover have "(ChangeLevel IntOff IntOn ?s1)\<lparr>yieldOnReturn := False, status := SystemMode\<rparr> = timer_fired s"
    using assms(1) b by (simp add: booting_def timer_fired_def kernel_tick_def ChangeLevel_def advance_ticks_def next_timer_def)
  ultimately show ?thesis using b(1) by (simp add: OneTick_def ChangeLevel_def)
qed


text \<open>What the first ticks leave: a kernel that differs only in its clock and timer.\<close>

definition settled :: "'m isys_scheme \<Rightarrow> 'm isys_scheme \<Rightarrow> bool" where
  "settled s s' \<longleftrightarrow> isys.more s' = isys.more s \<and> rng s' = rng s \<and> status s' = SystemMode \<and> level s' = IntOn \<and> \<not> inHandler s' \<and> \<not> yieldOnReturn s' \<and> pending_sorted s' \<and>
     (\<forall>(w, p) \<in> set (pending s'). now s' < w)"

lemma kernel_tick_settled:
  assumes "booting s" and "\<forall>(w, p) \<in> set (pending s). w > now s + SystemTick"
  shows "settled s (kernel_tick s)"
  using assms by (auto simp: settled_def kernel_tick_def booting_def)

lemma timer_fired_booting: "booting s \<Longrightarrow> booting (timer_fired s)" "rng (timer_fired s) = rng s" "rng_pos (timer_fired s) = Suc (rng_pos s)"
  "isys.more (timer_fired s) = isys.more s" "level (timer_fired s) = IntOn"
  by (auto simp: booting_def timer_fired_def kernel_tick_def next_timer_def random_nonneg_def PendingInterrupt_new_def Let_def)

lemma main_Yield_alone:
  assumes "booting k" and "readyList k = []" and "level k = IntOn"
  shows "main_Yield t k = OneTick Inr (timer_dispatch t) (main_Yield t) k"
proof -
  let ?k = "k\<lparr>level := IntOff\<rparr>"
  have 1: "SetLevel Inr (timer_dispatch t) (main_Yield t) IntOff k = Some (Inr (IntOn, ?k))" using assms by (simp add: SetLevel_def ChangeLevel_def)
  have 2: "Yield ?k = Inr ?k" using assms(2) by (simp add: Yield_def FindNextToRun_def)
  have "?k\<lparr>level := IntOn\<rparr> = k" using assms(3) by simp
  then have 3: "SetLevel Inr (timer_dispatch t) (main_Yield t) IntOn ?k = bindO (OneTick Inr (timer_dispatch t) (main_Yield t) k) (\<lambda>k. Some (Inr (IntOff, k)))"
    using assms(1) by (simp add: SetLevel_def ChangeLevel_def booting_def)
  have "bindO (bindO m (\<lambda>k. Some (Inr (IntOff, k)))) (\<lambda>(_, k). Some (Inr k)) = m" for m :: "'a kernel_scheme res option" by (cases m; cases "the m") auto
  then show ?thesis by (subst main_Yield.simps) (simp add: 1 2 3)
qed

text \<open>The timer is not set to the next tick for ever, so the first ticks come to an end.\<close>

lemma first_ticks:
  assumes "booting k" and "readyList k = []" and "rng_pos k \<le> i" and "10 \<le> rng k i mod 200"
  shows "\<exists>k'. OneTick Inr (timer_dispatch random_timer) (main_Yield random_timer) k = Some (Inr k') \<and> settled k k'"
  using assms
proof (induction "i - rng_pos k" arbitrary: k rule: less_induct)
  case less
  show ?case
  proof (cases "\<forall>(w, p) \<in> set (pending k). w > now k + SystemTick")
    case True
    then show ?thesis using tick_calm [OF less(2) True] kernel_tick_settled [OF less(2) True] by blast
  next
    case False
    then obtain w p where w: "pending k = [(w, p)]" "w \<le> now k + SystemTick" using less(2) by (auto simp: booting_def)
    let ?f = "timer_fired k"
    note F = timer_fired_booting [where s = k]
    have b: "booting ?f" using F(1) less(2) by blast
    have r: "readyList ?f = []" using less(3) by (simp add: timer_fired_def kernel_tick_def)
    have "\<exists>k'. OneTick Inr (timer_dispatch random_timer) (main_Yield random_timer) ?f = Some (Inr k') \<and> settled ?f k'"
    proof (cases "i = rng_pos k")
      case True
      then have c: "\<forall>(w, p) \<in> set (pending ?f). w > now ?f + SystemTick" using less(5) by (simp add: timer_fired_def next_timer_def kernel_tick_def SystemTick_def Let_def)
      show ?thesis using tick_calm [OF b c] kernel_tick_settled [OF b c] by blast
    next
      case False
      then show ?thesis using less(1) [OF _ b r] less(4,5) F by simp
    qed
    then show ?thesis using tick_timer [OF less(2) w, of "main_Yield random_timer"] main_Yield_alone [OF b r] F by (auto simp: settled_def)
  qed
qed


section \<open>The state after Initialize\<close>

text \<open>Before \<open>main\<close> no object exists. Afterwards there is the main thread, which runs, and the machine with cleared memory and registers.\<close>

definition at_start :: "sys \<Rightarrow> bool" where
  "at_start k \<longleftrightarrow> threads k = Map.empty \<and> spaces k = Map.empty \<and> stores k = Map.empty \<and> openFiles k = Map.empty \<and> LRU k = 0"

definition main_thread :: "env \<Rightarrow> Thread \<Rightarrow> bool" where
  "main_thread e th \<longleftrightarrow> (\<exists>l c. th = (Thread_new (j_thread e) ''main'' 0 l c)\<lparr>t_status := RUNNING\<rparr>)"

definition initialized :: "env \<Rightarrow> flags \<Rightarrow> sys \<Rightarrow> sys \<Rightarrow> bool" where
  "initialized e fl k0 k \<longleftrightarrow> (\<exists>th. main_thread e th \<and> threads k = [currentThread k \<mapsto> th]) \<and> readyList k = [] \<and> threadToBeDestroyed k = None \<and>
     spaces k = Map.empty \<and> tables k = Map.empty \<and> stores k = Map.empty \<and> openFiles k = Map.empty \<and> files k = files k0 \<and> stack_junk k = stack_junk k0 \<and> LRU k = 0 \<and>
     mainMemory k = replicate MemorySize 0 \<and> registers k = replicate NumTotalRegs 0 \<and> tlb k = None \<and> singleStep k = debugUserProg fl \<and> level k = IntOn \<and> status k = SystemMode \<and> pending_sorted k"

lemma same_kernel_more:
  fixes k k' :: sys
  assumes "Machine.more k' = Machine.more k"
  shows "threads k' = threads k" "currentThread k' = currentThread k" "readyList k' = readyList k" "threadToBeDestroyed k' = threadToBeDestroyed k" "spaces k' = spaces k" "stores k' = stores k"
    "openFiles k' = openFiles k" "files k' = files k" "stack_junk k' = stack_junk k" "LRU k' = LRU k"
  using assms by (cases k; cases k'; simp)+

text \<open>The state in which interrupts are enabled.\<close>

definition before_enable :: "env \<Rightarrow> (nat \<Rightarrow> int) \<Rightarrow> sys \<Rightarrow> sys \<Rightarrow> bool" where
  "before_enable e r k0 k \<longleftrightarrow> booting k \<and> level k = IntOff \<and> rng k = r \<and> readyList k = [] \<and> threadToBeDestroyed k = None \<and>
     (\<exists>th. main_thread e th \<and> threads k = [currentThread k \<mapsto> th]) \<and>
     spaces k = Map.empty \<and> stores k = Map.empty \<and> openFiles k = Map.empty \<and> files k = files k0 \<and> stack_junk k = stack_junk k0 \<and> LRU k = 0"

lemma enable_settles:
  assumes "before_enable e r k0 k" and "\<forall>n. 0 \<le> r n"
    and "tm = random_timer \<and> rng_pos k \<le> i \<and> 10 \<le> r i mod 200 \<or> (\<forall>(w, p) \<in> set (pending k). w > now k + SystemTick)"
  shows "\<exists>k'. Enable Inr (timer_dispatch tm) (main_Yield tm) k = Some (Inr k') \<and> settled k k'"
proof -
  let ?k = "k\<lparr>level := IntOn\<rparr>"
  have b: "booting ?k" "\<not> inHandler k" "level k = IntOff" "readyList ?k = []" "rng k = r" using assms(1) by (auto simp: before_enable_def booting_def random_nonneg_def)
  have "\<exists>k'. OneTick Inr (timer_dispatch tm) (main_Yield tm) ?k = Some (Inr k') \<and> settled ?k k'"
  proof (cases "\<forall>(w, p) \<in> set (pending k). w > now k + SystemTick")
    case True
    then have c: "\<forall>(w, p) \<in> set (pending ?k). w > now ?k + SystemTick" by simp
    show ?thesis using tick_calm [OF b(1) c] kernel_tick_settled [OF b(1) c] by blast
  next
    case False
    then show ?thesis using first_ticks [OF b(1,4), of i] assms(3) b(5) by auto
  qed
  then show ?thesis using b(2,3) by (auto simp: Enable_def SetLevel_def ChangeLevel_def settled_def)
qed

lemma Machine_new_fields:
  assumes "k' = Machine.extend (Machine_new (isys.truncate k) j1 j2 d) (Machine.more k)"
  shows "tables k' = Map.empty" "mainMemory k' = replicate MemorySize 0" "registers k' = replicate NumTotalRegs 0" "tlb k' = None" "singleStep k' = d" "isys.truncate k' = isys.truncate k"
    "Machine.more k' = Machine.more k"
  using assms by (simp_all add: Machine_new_def isys.defs Machine.defs)


lemma machine_initialized:
  assumes "before_enable e r k0 k" and "settled k k1" and "k' = Machine.extend (Machine_new (isys.truncate k1) (pageTableSize k1) (runUntilTime k1) (debugUserProg fl)) (Machine.more k1)"
  shows "initialized e fl k0 k'"
proof -
  have t: "level k' = level k1" "status k' = status k1" "pending k' = pending k1" using Machine_new_fields(6) [OF assms(3)] by (simp_all add: isys.defs)
  note m = same_kernel_more [OF Machine_new_fields(7) [OF assms(3)]]
  have "isys.more k1 = isys.more k" "level k1 = IntOn" "status k1 = SystemMode" "pending_sorted k1" using assms(2) by (simp_all add: settled_def)
  moreover from this(1) have "Machine.more k1 = Machine.more k" by (cases k1; cases k) simp
  note s = same_kernel_more [OF this]
  ultimately show ?thesis using assms(1) t unfolding initialized_def before_enable_def m s Machine_new_fields(1-5) [OF assms(3)] by simp
qed

lemma interrupts_created:
  fixes k0 :: sys
  assumes "k1 = (isys.extend (Interrupt_new r) (isys.more k0))\<lparr>readyList := []\<rparr>"
  shows "threads k1 = threads k0" "readyList k1 = []" "spaces k1 = spaces k0" "stores k1 = stores k0" "openFiles k1 = openFiles k0" "files k1 = files k0" "stack_junk k1 = stack_junk k0" "LRU k1 = LRU k0"
    "level k1 = IntOff" "pending k1 = []" "\<not> inHandler k1" "\<not> yieldOnReturn k1" "status k1 = SystemMode" "now k1 = 0" "rng k1 = r" "rng_pos k1 = 0"
proof -
  let ?k = "isys.extend (Interrupt_new r) (isys.more k0)"
  have "Machine.more ?k = Machine.more k0" by (cases k0) (simp add: isys.defs Interrupt_new_def)
  note m = same_kernel_more [OF this]
  show "threads k1 = threads k0" "readyList k1 = []" "spaces k1 = spaces k0" "stores k1 = stores k0" "openFiles k1 = openFiles k0" "files k1 = files k0" "stack_junk k1 = stack_junk k0" "LRU k1 = LRU k0"
    unfolding assms by (simp_all add: m)
  show "level k1 = IntOff" "pending k1 = []" "\<not> inHandler k1" "\<not> yieldOnReturn k1" "status k1 = SystemMode" "now k1 = 0" "rng k1 = r" "rng_pos k1 = 0"
    unfolding assms by (simp_all add: isys.defs Interrupt_new_def Statistics_new_def)
qed

lemma Initialize_ok:
  assumes fl: "init_args argv no_flags = Inr fl" and nn: "\<forall>n. 0 \<le> rand (seed fl) n" and calm: "randomYield fl \<longrightarrow> (\<exists>i. 10 \<le> rand (seed fl) i mod 200)" and start: "at_start k0"
  shows "\<exists>k. Initialize e rand argv k0 = Some (Inr (debugArgs fl, k)) \<and> initialized e fl k0 k"
proof -
  let ?r = "rand (seed fl)"
  define k1 where "k1 = (isys.extend (Interrupt_new ?r) (isys.more k0))\<lparr>readyList := []\<rparr>"
  note i = interrupts_created [OF k1_def]
  let ?t = "\<lparr>randomize = randomYield fl, tm_arg = 0\<rparr>"
  define k2 where "k2 = (if randomYield fl then k1\<lparr>rng_pos := 1, pending := next_timer k1\<rparr> else k1)"
  have tm: "(if randomYield fl then Timer_new 0 True k1 else Inr (\<lparr>randomize = False, tm_arg = 0\<rparr>, k1)) = Inr (?t, k2)"
    using random_timer_set [of k1] nn i by (simp add: Timer_new_def k2_def)
  define t where "t = new e OThread (k2\<lparr>threadToBeDestroyed := None\<rparr>)"
  define l where "l = new e OLock (k2\<lparr>threadToBeDestroyed := None\<rparr>)"
  define c where "c = new e OCond (k2\<lparr>threadToBeDestroyed := None\<rparr>)"
  define k3 where "k3 = k2\<lparr>threadToBeDestroyed := None, threads := (threads k2)(t \<mapsto> Thread_new (j_thread e) ''main'' 0 l c), locks := (locks k2)(l \<mapsto> Lock_new), conds := (conds k2)(c \<mapsto> Condition_new)\<rparr>"
  have nt: "new_thread e ''main'' 0 (k2\<lparr>threadToBeDestroyed := None\<rparr>) = (t, k3)" by (simp add: new_thread_def Let_def t_def l_def c_def k3_def)
  define k4 where "k4 = k3\<lparr>currentThread := t, threads := (threads k3)(t \<mapsto> (Thread_new (j_thread e) ''main'' 0 l c)\<lparr>t_status := RUNNING\<rparr>)\<rparr>"
  have run: "thread_setStatus RUNNING t (k3\<lparr>currentThread := t\<rparr>) = Inr k4" by (simp add: thread_setStatus_def update_thread_def get_thread_def k3_def k4_def)
  have f2: "threads k2 = threads k1" "readyList k2 = readyList k1" "spaces k2 = spaces k1" "stores k2 = stores k1" "openFiles k2 = openFiles k1" "files k2 = files k1" "stack_junk k2 = stack_junk k1"
    "LRU k2 = LRU k1" "level k2 = level k1" "inHandler k2 = inHandler k1" "yieldOnReturn k2 = yieldOnReturn k1" "status k2 = status k1" "rng k2 = rng k1" "now k2 = 0"
    "pending k2 = (if randomYield fl then next_timer k1 else [])" "rng_pos k2 = (if randomYield fl then 1 else 0)"
    using i by (simp_all add: k2_def)
  have f4: "threads k4 = (threads k2)(t \<mapsto> (Thread_new (j_thread e) ''main'' 0 l c)\<lparr>t_status := RUNNING\<rparr>)" "currentThread k4 = t" "threadToBeDestroyed k4 = None" "readyList k4 = readyList k2" "spaces k4 = spaces k2"
    "stores k4 = stores k2" "openFiles k4 = openFiles k2" "files k4 = files k2" "stack_junk k4 = stack_junk k2" "LRU k4 = LRU k2" "level k4 = level k2" "inHandler k4 = inHandler k2"
    "yieldOnReturn k4 = yieldOnReturn k2" "status k4 = status k2" "rng k4 = rng k2" "now k4 = now k2" "pending k4 = pending k2" "rng_pos k4 = rng_pos k2"
    by (simp_all add: k4_def k3_def)
  have b: "before_enable e ?r k0 k4"
    unfolding before_enable_def booting_def random_nonneg_def f4 f2 i
    using start nn i(11,12) by (auto simp: at_start_def main_thread_def next_timer_def PendingInterrupt_new_def Let_def)
  have "?t = random_timer \<and> rng_pos k4 \<le> j \<and> 10 \<le> ?r j mod 200 \<or> (\<forall>(w, p) \<in> set (pending k4). w > now k4 + SystemTick)"
    if "randomYield fl \<longrightarrow> 10 \<le> ?r j mod 200" for j
    unfolding f4 f2 using that i by (cases j) (auto simp: next_timer_def SystemTick_def Let_def)
  then obtain k5 where k5: "Enable Inr (timer_dispatch ?t) (main_Yield ?t) k4 = Some (Inr k5)" "settled k4 k5" using enable_settles [OF b nn] calm by meson
  define k6 where "k6 = Machine.extend (Machine_new (isys.truncate k5) (pageTableSize k5) (runUntilTime k5) (debugUserProg fl)) (Machine.more k5)"
  have "CheckEndian" by (simp add: CheckEndian_def)
  then have "Initialize e rand argv k0 = Some (Inr (debugArgs fl, k6))"
    using fl tm nt run k5(1) by (simp add: Initialize_def Let_def k6_def flip: k1_def split del: if_split cong: if_cong)
  then show ?thesis using machine_initialized [OF b k5(2) k6_def] by blast
qed


section \<open>Starting a program\<close>

lemma clear_registers_eq:
  "left \<le> NumTotalRegs \<Longrightarrow> length (registers k) = NumTotalRegs \<Longrightarrow>
   clear_registers left k = Inr (k\<lparr>registers := take (NumTotalRegs - left) (registers k) @ replicate left 0\<rparr>)"
proof (induction left arbitrary: k)
  case (Suc left)
  let ?i = "NumTotalRegs - Suc left"
  have n: "nat (int NumTotalRegs - int (Suc left)) = ?i" "?i < NumTotalRegs" "NumTotalRegs - left = Suc ?i" using Suc.prems(1) by auto
  then have "WriteRegister (int NumTotalRegs - int (Suc left)) 0 k = Inr (k\<lparr>registers := (registers k)[?i := 0]\<rparr>)"
    using Suc.prems(1) by (simp add: WriteRegister_def set_reg_def)
  moreover have "take (NumTotalRegs - left) ((registers k)[?i := 0]) = take ?i (registers k) @ [0]"
    using n(2) Suc.prems(2) unfolding n(3) by (simp add: take_Suc_conv_app_nth)
  ultimately show ?case using Suc.IH [of "k\<lparr>registers := (registers k)[?i := 0]\<rparr>"] Suc.prems by simp
qed simp

definition start_registers :: "32 word \<Rightarrow> 32 word list" where
  "start_registers pages = (replicate NumTotalRegs 0)[NextPCReg := 4, StackReg := pages * of_nat PageSize - 16]"

lemma InitRegisters_eq:
  assumes "spaces k a = Some sp" and "length (registers k) = NumTotalRegs"
  shows "InitRegisters a k = Inr (k\<lparr>registers := start_registers (sp_numPages sp)\<rparr>)"
proof -
  have "clear_registers NumTotalRegs k = Inr (k\<lparr>registers := replicate NumTotalRegs 0\<rparr>)" using clear_registers_eq [of NumTotalRegs k] assms(2) by simp
  moreover have "(replicate NumTotalRegs 0)[PCReg := 0] = (replicate NumTotalRegs 0 :: 32 word list)" by (simp add: list_eq_iff_nth_eq nth_list_update NumTotalRegs_def PCReg_def)
  ultimately show ?thesis
    using assms(1) by (simp add: InitRegisters_def get_space_def WriteRegister_def set_reg_def start_registers_def NumTotalRegs_def PCReg_def NextPCReg_def StackReg_def)
qed


text \<open>The user program is about to run: the main thread is the only one, it has the address space of the program, the machine has its page table and its first registers, and every page holds its part of the
  program.\<close>

definition program_started :: "8 word list \<Rightarrow> NoffHeader \<Rightarrow> sys \<Rightarrow> bool" where
  "program_started c h k \<longleftrightarrow> (\<exists>th a. threads k = [currentThread k \<mapsto> th] \<and> t_name th = ''main'' \<and> t_space th = Some a \<and> sched_wf k \<and> readyList k = [] \<and>
     Table_Pipe.entries (TablePtr k) = [0 \<mapsto> currentThread k] \<and> Table_Pipe.entries (storeTable k) = [0 \<mapsto> sid k a] \<and>
     pageTable k = Some (ptable k a) \<and> pageTableSize k = pages_needed h \<and> registers k = start_registers (pages_needed h) \<and>
     vm_inv [] k \<and> dom (spaces k) = {a} \<and> length (Paging.entries k a) = unat (pages_needed h) \<and>
     (\<forall>v < unat (pages_needed h). is_page k a v \<and> page_content k a v = image c h (int v)))"

text \<open>An empty memory fulfils the invariant of the virtual memory.\<close>

lemma vm_inv_empty:
  assumes "spaces k = Map.empty" and "length (mainMemory k) = MemorySize" and "coreMap k = CoreMap_new 32" and "MemoryManager_new j 32 = Inr (memoryManager k)"
  shows "vm_inv [] k"
proof -
  obtain b where b: "BitMap_new j 32 = Inr b" "bitmap_wf b" "numBits b = 32" "bits b = {}" using BitMap_new_correct [of 32 j] by auto
  then have "memoryManager k = \<lparr>mm_lock = False, mm_pages = b\<rparr>" using assms(4) by (simp add: MemoryManager_new_def)
  then show ?thesis using assms(1-3) b(2-4) by (simp add: vm_inv_def layout_def paged_def core_ok_def frames_ok_def mm_ok_def is_page_def CoreMap_new_def)
qed

lemma read_header_other:
  "get_file f k' = get_file g k \<Longrightarrow> stack_junk k' = stack_junk k \<Longrightarrow> read_header f k' = read_header g k"
  by (simp add: read_header_def OpenFile_ReadAt_def)

lemma Table_Alloc_first:
  fixes x :: 'a
  assumes "0 < n"
  shows "\<exists>tb. Table_Alloc x (Table_new n) = Inr (0, tb) \<and> Table_Pipe.entries tb = [0 \<mapsto> x]"
proof -
  have e: "Table_Pipe.entries (Table_new n :: 'a Table) = Map.empty" "table_wf (Table_new n :: 'a Table)" "tableSize (Table_new n :: 'a Table) = n"
    using assms by (simp_all add: Table_new_wf) (simp add: Table_new_def)
  obtain j tb where j: "Table_Alloc x (Table_new n) = Inr (j, tb)" "0 \<le> j" "\<forall>i. 0 \<le> i \<and> i < j \<longrightarrow> Table_Pipe.entries (Table_new n :: 'a Table) i \<noteq> None" "Table_Pipe.entries tb = [j \<mapsto> x]"
    using Table_Alloc_correct [OF e(2), of x] e assms by (auto split: if_splits)
  have "\<not> 0 < j" using j(3) e(1) by auto
  then have "j = 0" using j(2) by simp
  then show ?thesis using j by simp
qed

text \<open>\<open>StartProcess\<close> up to the creation of the address space.\<close>

definition before_space :: "env \<Rightarrow> string \<Rightarrow> nat \<Rightarrow> nat \<Rightarrow> nat \<Rightarrow> Thread \<Rightarrow> sys \<Rightarrow> sys \<Rightarrow> bool" where
  "before_space e prog f s a th k k1 \<longleftrightarrow> threads k1 = [currentThread k1 \<mapsto> th\<lparr>t_space := Some a\<rparr>] \<and> currentThread k1 = currentThread k \<and> openFiles k1 = [f \<mapsto> prog] \<and>
     stores k1 = [s \<mapsto> BackingStore_new (j_store e)] \<and> spaces k1 = Map.empty \<and> tables k1 = Map.empty \<and> files k1 = files k \<and> stack_junk k1 = stack_junk k \<and> LRU k1 = LRU k \<and>
     readyList k1 = [] \<and> threadToBeDestroyed k1 = None \<and> TablePtr k1 = Table_new MAXPROCESS \<and> Table_Pipe.entries (storeTable k1) = [0 \<mapsto> s] \<and> registers k1 = registers k \<and> vm_inv [] k1"


definition finish_start :: "nat \<Rightarrow> sys \<Rightarrow> (bool \<times> sys) res" where
  "finish_start a k =
     bindR (setThreadCount 1 a k) (\<lambda>k. bindR (InitRegisters a k) (\<lambda>k. bindR (AddrSpace_RestoreState a k) (\<lambda>k.
     bindR (Table_Alloc (currentThread k) (TablePtr k)) (\<lambda>(_, tb). Inr (True, k\<lparr>TablePtr := tb\<rparr>)))))"

lemma StartProcess_space:
  assumes init: "initialized e fl k0 k1" "k = k1\<lparr>LRU := l\<rparr>" and th: "threads k = [currentThread k \<mapsto> th]" and prog: "files k prog \<noteq> None"
  shows "\<exists>f s a p kk. before_space e prog f s a th k kk \<and> (\<forall>k2 k3. AddrSpace_Initialize p a f (AddrSpace_new a (j_space e) kk) = Inr (0, k2) \<longrightarrow>
    BackingStore_Initialize (j_pages e) s a 0 k2 = Inr (0, k3) \<longrightarrow> StartProcess e r w kb prog k = finish_start a k3)"
proof -
  define f where "f = new e OFile k"
  define k2 where "k2 = k\<lparr>openFiles := [f \<mapsto> prog]\<rparr>"
  have I: "readyList k = []" "threadToBeDestroyed k = None" "spaces k = Map.empty" "tables k = Map.empty" "stores k = Map.empty" "openFiles k = Map.empty" "mainMemory k = replicate MemorySize 0"
    using init by (simp_all add: initialized_def)
  have op: "FileSystem_Open f prog k = (Some f, k2)" using prog I(6) by (simp add: FileSystem_Open_def k2_def)
  obtain mm where mm: "MemoryManager_new (j_pages e) 32 = Inr mm" using BitMap_new_correct [of 32 "j_pages e"] by (auto simp: MemoryManager_new_def)
  define k3 where "k3 = k2\<lparr>memoryManager := mm, TablePtr := Table_new MAXPROCESS, storeTable := Table_new MAXPROCESS\<rparr>"
  obtain kS where kS: "SynchConsole_new r w kb k3 = Inr kS" "\<exists>pd. kS = k3\<lparr>sems := (sems k3)(r \<mapsto> Semaphore_new 0, w \<mapsto> Semaphore_new 0), sc_r := r, sc_w := w, con := Console_new kb, pending := pd\<rparr>"
    by (simp add: SynchConsole_new_def Schedule_def ConsoleTime_def Let_def) blast
  then have S: "readyList kS = []" "threadToBeDestroyed kS = None" "spaces kS = Map.empty" "tables kS = Map.empty" "stores kS = Map.empty" "openFiles kS = [f \<mapsto> prog]"
      "mainMemory kS = replicate MemorySize 0" "currentThread kS = currentThread k" "threads kS = threads k" "files kS = files k" "stack_junk kS = stack_junk k" "LRU kS = LRU k"
      "TablePtr kS = Table_new MAXPROCESS" "storeTable kS = Table_new MAXPROCESS" "registers kS = registers k" "memoryManager kS = mm"
    using I by (auto simp: k3_def k2_def)
  define k4 where "k4 = kS\<lparr>coreMap := CoreMap_new 32\<rparr>"
  define s where "s = new e OStore k4"
  obtain tb where tb: "Table_Alloc s (Table_new MAXPROCESS) = Inr (0, tb)" "Table_Pipe.entries tb = [0 \<mapsto> s]" using Table_Alloc_first [of MAXPROCESS s] by (auto simp: MAXPROCESS_def)
  define k5 where "k5 = k4\<lparr>stores := [s \<mapsto> BackingStore_new (j_store e)], storeTable := tb\<rparr>"
  define a where "a = new e OSpace k5"
  define kk where "kk = k5\<lparr>threads := [currentThread k \<mapsto> th\<lparr>t_space := Some a\<rparr>]\<rparr>"
  define p where "p = new e OTable (AddrSpace_new a (j_space e) kk)"
  have c: "update_thread (currentThread k) (t_space_update (\<lambda>_. Some a)) (AddrSpace_new a (j_space e) k5) = Inr (AddrSpace_new a (j_space e) kk)"
    using th by (simp add: update_thread_def get_thread_def AddrSpace_new_def spaces_threads kk_def k5_def k4_def S)
  have e5: "currentThread (AddrSpace_new a (j_space e) k5) = currentThread k" by (simp add: AddrSpace_new_def put_space_def k5_def k4_def S)
  have "StartProcess e r w kb prog k = finish_start a y"
    if x: "AddrSpace_Initialize p a f (AddrSpace_new a (j_space e) kk) = Inr (0, x)" and y: "BackingStore_Initialize (j_pages e) s a 0 x = Inr (0, y)" for x y
    using op mm kS(1) tb(1) c e5 x y S(5,14) unfolding StartProcess_def f_def [symmetric] op
    by (simp add: Let_def finish_start_def flip: k3_def k4_def s_def k5_def a_def p_def)
  moreover have "vm_inv [] kk" by (rule vm_inv_empty [of _ "j_pages e"]) (simp_all add: kk_def k5_def k4_def S mm)
  then have "before_space e prog f s a th k kk"
    using tb(2) by (simp add: before_space_def kk_def k5_def k4_def S)
  ultimately show ?thesis by blast
qed


lemma finish_start_ok:
  assumes B: "before_space e prog f s a th k kk" and reg: "length (registers k) = NumTotalRegs" and th: "t_name th = ''main''" "t_status th = RUNNING" "t_stack th = None"
    and fresh: "fresh_process a p s f 0 kk" and h: "read_header f kk = Inr h" and c: "files kk prog = Some c" and bm: "bitmap_wf bm" "numBits bm = uint (pages_needed h)" "bits bm = {}"
  shows "\<exists>k'. finish_start a (created a p s f 0 junk (BackingStore_new (j_store e)) bm h kk) = Inr (True, k') \<and> program_started c h k' \<and> LRU k' = LRU k"
proof -
  let ?kc = "\<lambda>junk. created a p s f 0 junk (BackingStore_new (j_store e)) bm h kk"
  define k2 where "k2 = ?kc (junk\<lparr>threadCount := c_int (threadCount junk + 1)\<rparr>)"
  have ok: "header_ok h" using fresh h by (auto simp: fresh_process_def)
  have "setThreadCount 1 a (?kc junk) = Inr k2" by (cases junk) (simp add: setThreadCount_def get_space_def put_space_def created_def k2_def)
  moreover obtain sp where sp: "spaces k2 = (spaces kk)(a \<mapsto> sp)" "sp_numPages sp = pages_needed h" "sp_pageTable sp = Some p" by (simp add: k2_def created_def)
  have f2: "registers k2 = registers kk" "threads k2 = threads kk" "currentThread k2 = currentThread kk" "TablePtr k2 = TablePtr kk" "storeTable k2 = storeTable kk" "LRU k2 = LRU kk" "readyList k2 = readyList kk"
    "threadToBeDestroyed k2 = threadToBeDestroyed kk" by (simp_all add: k2_def created_def)
  define k3 where "k3 = k2\<lparr>registers := start_registers (pages_needed h)\<rparr>"
  have "InitRegisters a k2 = Inr k3" using InitRegisters_eq [of k2 a sp] sp reg B f2(1) by (simp add: before_space_def k3_def)
  moreover define k4 where "k4 = k3\<lparr>pageTable := Some p, pageTableSize := pages_needed h\<rparr>"
  have "AddrSpace_RestoreState a k3 = Inr k4" using sp by (simp add: AddrSpace_RestoreState_def k3_def k4_def)
  moreover obtain tb where tb: "Table_Alloc (currentThread k) (TablePtr kk) = Inr (0, tb)" "Table_Pipe.entries tb = [0 \<mapsto> currentThread k]"
    using Table_Alloc_first [of MAXPROCESS "currentThread k"] B by (auto simp: MAXPROCESS_def before_space_def)
  define k' where "k' = k4\<lparr>TablePtr := tb\<rparr>"
  have f4: "currentThread k4 = currentThread k" "TablePtr k4 = TablePtr kk" using f2 B by (simp_all add: k4_def k3_def before_space_def)
  ultimately have "finish_start a (?kc junk) = Inr (True, k')" using tb(1) by (simp add: finish_start_def k'_def)
  moreover have inv: "vm_inv [] kk" using B by (simp add: before_space_def)
  note C = created_inv [OF inv fresh h ok bm k2_def] and N = created_new [OF fresh h ok bm k2_def]
  have sv: "same_vm k2 k'" by (simp add: same_vm_def k'_def k4_def k3_def)
  note S = same_vmD [OF sv] same_vm_sel [OF sv]
  have ec: "econt k' a = c" "ptable k' a = p" "sid k' a = s" "length (Paging.entries k' a) = unat (pages_needed h)" using N(2,4,7,8) S B c by (auto simp: before_space_def)
  have pg: "is_page k' a v \<and> page_content k' a v = image c h (int v)" if "v < unat (pages_needed h)" for v using that C(3) S ec(1) by simp
  have inv': "vm_inv [] k'" using vm_inv_same [OF sv] C(1) by (simp add: k'_def k4_def k3_def)
  have F: "threads k' = [currentThread k' \<mapsto> th\<lparr>t_space := Some a\<rparr>]" "readyList k' = []" "threadToBeDestroyed k' = None" "spaces k' = [a \<mapsto> sp]"
    "Table_Pipe.entries (storeTable k') = [0 \<mapsto> s]" "TablePtr k' = tb" "currentThread k' = currentThread k" "pageTable k' = Some p" "pageTableSize k' = pages_needed h"
    "registers k' = start_registers (pages_needed h)"
    using B f2 sp by (simp_all add: k'_def k4_def k3_def before_space_def)
  then have "sched_wf k'" using th by (auto simp: sched_wf_def sched_core_def ready_wf_def static_ok_def st_def ready_def split: if_splits)
  then have "program_started c h k'"
    unfolding program_started_def by (intro exI [of _ "th\<lparr>t_space := Some a\<rparr>"] exI [of _ a]) (use F th(1) tb(2) ec(2-4) pg inv' in simp)
  moreover have "LRU k' = LRU k" using B f2 by (simp add: k'_def k4_def k3_def before_space_def)
  ultimately show ?thesis by blast
qed


lemma StartProcess_ok:
  assumes init: "initialized e fl k0 k1" "k = k1\<lparr>LRU := l\<rparr>" and c: "files k0 prog = Some c" "prog \<noteq> store_name 0" and h: "read_header 0 (k0\<lparr>openFiles := [0 \<mapsto> prog]\<rparr>) = Inr h" "header_ok h"
  shows "\<exists>k'. StartProcess e r w kb prog k = Inr (True, k') \<and> program_started c h k' \<and> LRU k' = l"
proof -
  obtain th where th: "main_thread e th" "threads k = [currentThread k \<mapsto> th]" using init by (auto simp: initialized_def)
  have fk: "files k = files k0" "stack_junk k = stack_junk k0" "length (registers k) = NumTotalRegs" using init by (simp_all add: initialized_def)
  obtain f s a p kk where B: "before_space e prog f s a th k kk" and run: "\<forall>k2 k3. AddrSpace_Initialize p a f (AddrSpace_new a (j_space e) kk) = Inr (0, k2) \<longrightarrow>
      BackingStore_Initialize (j_pages e) s a 0 k2 = Inr (0, k3) \<longrightarrow> StartProcess e r w kb prog k = finish_start a k3"
    using StartProcess_space [OF init th(2), of prog r w kb] c(1) fk(1) by fastforce
  have kk: "files kk prog = Some c" "stores kk s = Some (BackingStore_new (j_store e))" "vm_inv [] kk" using B c(1) fk(1) by (simp_all add: before_space_def)
  have "get_file f kk = get_file 0 (k0\<lparr>openFiles := [0 \<mapsto> prog]\<rparr>)" using B fk c(1) by (simp add: get_file_def before_space_def)
  then have h1: "read_header f kk = Inr h" using read_header_other [of f kk 0 "k0\<lparr>openFiles := [0 \<mapsto> prog]\<rparr>"] h(1) B fk by (simp add: before_space_def)
  have fr: "fresh_process a p s f 0 kk" using B h1 h(2) c(2) kk(1) by (simp add: fresh_process_def before_space_def)
  obtain bm where bm: "BitMap_new (j_pages e) (uint (pages_needed h)) = Inr bm" "bitmap_wf bm" "numBits bm = uint (pages_needed h)" "bits bm = {}"
    using BitMap_new_correct [of "uint (pages_needed h)" "j_pages e"] by auto
  let ?kc = "created a p s f 0 (j_space e) (BackingStore_new (j_store e)) bm h kk"
  have "bindR (AddrSpace_Initialize p a f (AddrSpace_new a (j_space e) kk)) (\<lambda>(_, k). BackingStore_Initialize (j_pages e) s a 0 k) = Inr (0, ?kc)"
    by (rule initialize_created [OF h1 _ kk(2) bm(1)]) (use h(2) in \<open>simp add: header_ok_def\<close>)
  moreover obtain k2 where k2: "AddrSpace_Initialize p a f (AddrSpace_new a (j_space e) kk) = Inr (0, k2)" using process_created_run [OF kk(3) fr h1] by blast
  ultimately have "StartProcess e r w kb prog k = finish_start a ?kc" using run k2 by simp
  moreover have "t_name th = ''main''" "t_status th = RUNNING" "t_stack th = None" using th(1) by (auto simp: main_thread_def Thread_new_def)
  moreover have "LRU k = l" using init(2) by simp
  ultimately show ?thesis using finish_start_ok [OF B fk(3) _ _ _ fr h1 kk(1) bm(2-4)] by metis
qed

section \<open>Properties\<close>

lemma main_args_skip:
  "''-x'' \<notin> set pre \<Longrightarrow> ''-c'' \<notin> set pre \<Longrightarrow> main_args e dev (pre @ rest) k = main_args e dev rest (k\<lparr>LRU := if ''-e'' \<in> set pre then 1 else LRU k\<rparr>)"
proof (induction pre arbitrary: k)
  case (Cons a pre)
  then show ?case by (cases "a = ''-e''") auto
qed simp

text \<open>C10. Nachos boots: a command line with \<open>-x\<close> and the name of a sound executable, after any flags that start no command, brings the kernel from its first statement to the program, unless the timer, asked for by \<open>-rs\<close>,
  is set to the very next tick for ever. The program is in the only address space, that of the main thread, page by page with the bytes of the executable; registers and page table are those of a program that
  starts; the invariants of the scheduler and of the virtual memory hold, the process table and the table of backing stores have their first entry; the second-chance policy is in force exactly when
  \<open>-e\<close> comes before \<open>-x\<close>.\<close>

theorem boot_runs_program:
  assumes start: "at_start k0" and fl: "init_args (pre @ [''-x'', prog] @ post) no_flags = Inr fl" and pre: "''-x'' \<notin> set pre" "''-c'' \<notin> set pre"
    and rand: "\<forall>n. 0 \<le> rand (seed fl) n" "randomYield fl \<longrightarrow> (\<exists>i. 10 \<le> rand (seed fl) i mod 200)"
    and c: "files k0 prog = Some c" "prog \<noteq> store_name 0" and h: "read_header 0 (k0\<lparr>openFiles := [0 \<mapsto> prog]\<rparr>) = Inr h" "header_ok h"
  shows "\<exists>k'. nachos_main e rand dev (pre @ [''-x'', prog] @ post) k0 = Some (Inr (Runs k')) \<and> program_started c h k' \<and> LRU k' = (if ''-e'' \<in> set pre then 1 else 0)"
proof -
  obtain k1 where k1: "Initialize e rand (pre @ [''-x'', prog] @ post) k0 = Some (Inr (debugArgs fl, k1))" "initialized e fl k0 k1" using Initialize_ok [where rand = rand, OF fl rand start] by blast
  let ?k = "k1\<lparr>LRU := if ''-e'' \<in> set pre then 1 else 0\<rparr>"
  obtain r w kb where dev: "dev ?k = (r, w, kb)" by (cases "dev ?k") auto
  obtain k' where "StartProcess e r w kb prog ?k = Inr (True, k')" "program_started c h k'" "LRU k' = (if ''-e'' \<in> set pre then 1 else 0)"
    using StartProcess_ok [OF k1(2) HOL.refl c h] by blast
  moreover have "LRU k1 = 0" using k1(2) by (simp add: initialized_def)
  then have "main_args e dev (pre @ [''-x'', prog] @ post) k1 = main_args e dev (''-x'' # prog # post) ?k" using main_args_skip [OF pre, of e dev "''-x'' # prog # post" k1] by simp
  ultimately show ?thesis using k1(1) dev by (simp add: nachos_main_def Let_def)
qed


definition example_start :: sys where
  "example_start = sys_of (example_boot\<lparr>threads := Map.empty, stores := Map.empty, openFiles := Map.empty\<rparr>) []"

lemma example_start_fields: "at_start example_start" "files example_start = [''prog'' \<mapsto> example_program]" "stack_junk example_start = []"
  using example_fields by (simp_all add: example_start_def at_start_def sys_of_fields) (simp add: sys_of_def vm.defs csys.defs sys.defs)

lemma example_start_header: "read_header 0 (example_start\<lparr>openFiles := [0 \<mapsto> ''prog'']\<rparr>) = Inr example_header"
proof -
  have "get_file 0 (example_start\<lparr>openFiles := [0 \<mapsto> ''prog'']\<rparr>) = get_file 0 example_boot" using example_start_fields example_fields by (simp add: get_file_def)
  then show ?thesis using example_read example_start_fields(3) example_fields(10) by (simp add: read_header_def OpenFile_ReadAt_def)
qed

lemma example_flags: "init_args [''-rs'', ''7'', ''-e'', ''-x'', ''prog''] no_flags = Inr (no_flags\<lparr>seed := 7, randomYield := True\<rparr>)"
  by (simp add: init_arg_def atoi_def is_space_def c_int_def no_flags_def Let_def)

theorem boot_runs_program_witness:
  "\<exists>k'. nachos_main example_env (\<lambda>sd n. if n < 3 then 5 else 120) (\<lambda>k. (1, 2, [])) [''-rs'', ''7'', ''-e'', ''-x'', ''prog''] example_start = Some (Inr (Runs k')) \<and>
     program_started example_program example_header k' \<and> LRU k' = 1"
proof -
  let ?pre = "[''-rs'', ''7'', ''-e'']" and ?fl = "no_flags\<lparr>seed := 7, randomYield := True\<rparr>" and ?r = "\<lambda>sd n. if n < (3 :: nat) then 5 else 120 :: int"
  have fl: "init_args (?pre @ [''-x'', ''prog''] @ []) no_flags = Inr ?fl" using example_flags by simp
  have "10 \<le> ?r (seed ?fl) 3 mod 200" by simp
  then have r: "\<forall>n. 0 \<le> ?r (seed ?fl) n" "randomYield ?fl \<longrightarrow> (\<exists>i. 10 \<le> ?r (seed ?fl) i mod 200)" by (simp, blast)
  have c: "files example_start ''prog'' = Some example_program" "''prog'' \<noteq> store_name 0" using example_start_fields(2) by (simp_all add: store_name_def)
  show ?thesis
    using boot_runs_program [where rand = ?r and fl = ?fl, OF example_start_fields(1) fl _ _ r c example_start_header example_header_ok, of example_env "\<lambda>k. (1, 2, [])"] by simp
qed

end
