(* ===== verification/User_Memory.thy ===== *)
theory User_Memory
  imports Startup Second_Chance
begin

text \<open>
  What memory is for a user program: an array of bytes of its own, whatever the kernel does with frames, backing stores and page faults.

  The theory puts together address translation (\<open>Translate\<close>), the page fault path (\<open>Paging\<close>, \<open>Process_Memory\<close>) and the two trap handlers through which user memory is accessed: that of the
  machine running a program (\<open>user_trap\<close>) and that of system calls (\<open>fault_trap\<close>). The locale \<open>demand_paging\<close> is what both promise: a page fault that could be handled resumes.
\<close>

unbundle bit_operations_syntax

section \<open>The machine during a page fault\<close>

text \<open>No page is read-only; the page fault path keeps that, the page table registers of the machine, and that there are finitely many core pages.\<close>

definition writable :: "'m Machine_scheme \<Rightarrow> bool" where
  "writable k \<longleftrightarrow> (\<forall>t es e. tables k t = Some es \<longrightarrow> e \<in> set es \<longrightarrow> \<not> readOnly e)"

definition same_mmu :: "'m vm_scheme \<Rightarrow> 'm vm_scheme \<Rightarrow> bool" where
  "same_mmu k k' \<longleftrightarrow> tlb k' = tlb k \<and> pageTable k' = pageTable k \<and> pageTableSize k' = pageTableSize k \<and> (writable k \<longrightarrow> writable k') \<and>
     (finite (dom (corePages k)) \<longrightarrow> finite (dom (corePages k')))"

named_theorems mmu \<open>routines that leave the page table registers alone\<close>

lemma same_mmu_refl [simp]: "same_mmu k k"
  by (simp add: same_mmu_def)

lemma same_mmu_trans: "same_mmu k k1 \<Longrightarrow> same_mmu k1 k2 \<Longrightarrow> same_mmu k k2"
  by (simp add: same_mmu_def)

lemma same_mmu_updates [simp]:
  "same_mmu k (k\<lparr>stats := a\<rparr>)" "same_mmu k (k\<lparr>mainMemory := b\<rparr>)" "same_mmu k (k\<lparr>registers := c\<rparr>)"
  by (simp_all add: same_mmu_def writable_def)

lemma get_pte_writable: "get_pte p i k = Inr e \<Longrightarrow> writable k \<Longrightarrow> \<not> readOnly e"
  by (auto simp: get_pte_def get_table_def writable_def bindR_eq_Inr split: option.splits if_splits)

lemma put_pte_mmu: "put_pte p i e k = Inr k' \<Longrightarrow> (writable k \<Longrightarrow> \<not> readOnly e) \<Longrightarrow> same_mmu k k'"
  by (auto simp: put_pte_def get_table_def same_mmu_def writable_def bindR_eq_Inr split: option.splits if_splits dest!: set_update_subset_insert [THEN subsetD])

lemma store_bytes_mmu [mmu]: "store_bytes b bs k = Inr k' \<Longrightarrow> same_mmu k k'"
  by (auto simp: store_bytes_def split: if_splits)

lemma pageOut_mmu [mmu]: "pageOut s vp k = Inr k' \<Longrightarrow> same_mmu k k'"
proof -
  assume "pageOut s vp k = Inr k'"
  then consider "k' = k" | t e k1 where "get_pte t vp k = Inr e" "put_pte t vp (e\<lparr>valid := False, dirty := False\<rparr>) k1 = Inr k'" "tables k1 = tables k" "tlb k1 = tlb k"
    "pageTable k1 = pageTable k" "pageTableSize k1 = pageTableSize k" "corePages k1 = corePages k"
    by (auto simp: pageOut_def bindR_eq_Inr Let_def split: if_splits option.splits)
  then show ?thesis
  proof cases
    case 2
    have w: "writable k1 = writable k" using 2(3) by (simp add: writable_def)
    then have "same_mmu k1 k'" using put_pte_mmu [OF 2(2)] get_pte_writable [OF 2(1)] by simp
    then show ?thesis using 2(4-7) w by (simp add: same_mmu_def)
  qed simp
qed

lemma pageIn_mmu [mmu]: "pageIn s vp k = Inr k' \<Longrightarrow> same_mmu k k'"
proof -
  assume "pageIn s vp k = Inr k'"
  then obtain t e c k1 where r: "get_pte t vp k = Inr e" "store_bytes (frame_base e) c k = Inr k1" "put_pte t vp (e\<lparr>valid := True\<rparr>) k1 = Inr k'"
    by (auto simp: pageIn_def bindR_eq_Inr split: option.splits)
  have m: "same_mmu k k1" using r(2) by (rule mmu)
  moreover have "tables k1 = tables k" using r(2) by (auto simp: store_bytes_def split: if_splits)
  then have "same_mmu k1 k'" using put_pte_mmu [OF r(3)] get_pte_writable [OF r(1)] by (simp add: writable_def)
  ultimately show ?thesis by (rule same_mmu_trans)
qed

lemma fill_byte_mmu [mmu]: "fill_byte sp h vpn wr flag k = Inr (fl, k') \<Longrightarrow> same_mmu k k'"
  by (auto simp: fill_byte_def writeMemoryToPage_def bindR_eq_Inr Let_def split: if_splits intro: mmu)

lemma fill_page_mmu [mmu]: "fill_page n sp h vpn flag k = Inr (fl, k') \<Longrightarrow> same_mmu k k'"
proof (induction n arbitrary: flag k)
  case (Suc n)
  then obtain f1 k1 where "fill_byte sp h vpn (int PageSize - int (Suc n)) flag k = Inr (f1, k1)" "fill_page n sp h vpn f1 k1 = Inr (fl, k')" by (auto simp: bindR_eq_Inr)
  then show ?case using Suc.IH fill_byte_mmu same_mmu_trans by blast
qed simp

lemma addCorePage_mmu [mmu]: "addCorePage c k = Inr (r, k') \<Longrightarrow> same_mmu k k'"
  by (auto simp: addCorePage_def setNext_def bindR_eq_Inr Let_def same_mmu_def writable_def split: if_splits)

lemma evict_one_mmu:
  assumes "evict_one k = Some (Inr k')" and "LRU k = 0"
  shows "same_mmu k k'"
proof -
  obtain c k1 where c: "evictCorePage k = Some (Inr (c, k1))" using assms(1) by (auto simp: evict_one_def bindO_eq_Inr)
  then obtain cp :: CorePage and k2 mm where r: "pageOut (cp_backingStore cp) (cp_virtualPage cp) k1 = Inr k2" "k2\<lparr>memoryManager := mm, corePages := (corePages k2)(the c := None)\<rparr> = k'"
    using assms(1) by (simp add: evict_one_def bindO_eq_Inr) blast
  have "same_mmu k k1" using c assms(2) by (auto simp: evictCorePage_def evict_head_def bindR_eq_Inr Let_def same_mmu_def writable_def split: if_splits)
  moreover have "same_mmu k1 k2" using r(1) by (rule mmu)
  moreover have "same_mmu k2 k'" by (simp add: r(2) [symmetric] same_mmu_def writable_def)
  ultimately show ?thesis by (blast intro: same_mmu_trans)
qed


lemma allocVirtualPage_mmu [mmu]:
  assumes "allocVirtualPage p a va k = Inr (r, k')"
  shows "same_mmu k k'"
proof -
  obtain sp h where sp: "get_space a k = Inr sp" "read_header (currentExecutable sp) k = Inr h" using assms by (auto simp: allocVirtualPage_def bindR_eq_Inr)
  show ?thesis
  proof (cases "noffMagic h = NOFFMAGIC")
    case False
    then show ?thesis using assms sp by (simp add: allocVirtualPage_def)
  next
    case True
    let ?t = "sp_pageTable sp" and ?v = "uint (va div 128)"
    obtain f mm s where a: "AllocPage (memoryManager k) = Inr (f, mm)" "backingStore sp = Some s" using assms sp True by (auto simp: allocVirtualPage_def bindR_eq_Inr Let_def split: option.splits)
    define k1 where "k1 = k\<lparr>memoryManager := mm, corePages := (corePages k)(p \<mapsto> CorePage_new s f ?v)\<rparr>"
    obtain i k2 e k3 k4 there b k5 e' where r: "addCorePage p k1 = Inr (i, k2)" "get_pte ?t ?v k2 = Inr e" "put_pte ?t ?v (e\<lparr>physicalPage := word_of_int f\<rparr>) k2 = Inr k3"
      "store_bytes (f * int PageSize) (replicate PageSize 0) k3 = Inr k4" "contains ?v b = Inr there"
      "(if \<not> there then bindR (fill_page PageSize sp h ?v False k4) (\<lambda>(flag, k). Inr (if flag then count_page_in k else k)) else bindR (pageIn s ?v k4) (\<lambda>k. Inr (count_page_in k))) = Inr k5"
      "get_pte ?t ?v k5 = Inr e'" "put_pte ?t ?v (e'\<lparr>valid := True\<rparr>) k5 = Inr k'"
      using assms sp True a by (simp add: allocVirtualPage_def bindR_eq_Inr Let_def k1_def del: page_const) blast
    have 5: "same_mmu k4 k5"
    proof (cases there)
      case True
      then obtain x where "pageIn s ?v k4 = Inr x" "k5 = count_page_in x" using r(6) by (auto simp: bindR_eq_Inr)
      then show ?thesis using pageIn_mmu [of s ?v k4 x] by (auto simp: count_page_in_def intro: same_mmu_trans)
    next
      case False
      then obtain fl x where "fill_page PageSize sp h ?v False k4 = Inr (fl, x)" "k5 = (if fl then count_page_in x else x)" using r(6) by (auto simp: bindR_eq_Inr simp del: page_const)
      then show ?thesis using fill_page_mmu [of PageSize sp h ?v False k4 fl x] by (auto simp: count_page_in_def intro: same_mmu_trans)
    qed
    have "same_mmu k k1" by (simp add: k1_def same_mmu_def writable_def)
    moreover have "same_mmu k1 k2" using r(1) by (rule mmu)
    moreover have "same_mmu k2 k3" using put_pte_mmu [OF r(3)] get_pte_writable [OF r(2)] by simp
    moreover have "same_mmu k3 k4" using r(4) by (rule mmu)
    moreover have "same_mmu k5 k'" using put_pte_mmu [OF r(8)] get_pte_writable [OF r(7)] by simp
    ultimately show ?thesis using 5 by (blast intro: same_mmu_trans)
  qed
qed

lemma page_fault_mmu:
  assumes "page_fault q k = Some (Inr (r, k'))" and "LRU k = 0"
  shows "same_mmu k k'"
proof -
  obtain k1 a va where r: "(if isFull (coreMap (counted k)) then evict_one (counted k) else Some (Inr (counted k))) = Some (Inr k1)" "allocVirtualPage q a va k1 = Inr (r, k')"
    using assms(1) unfolding page_fault_def Let_def counted_def [symmetric] by (auto simp: bindO_eq_Inr split: option.splits)
  have "same_mmu k (counted k)" by (simp add: counted_def)
  moreover have "same_mmu (counted k) k1" using r(1) assms(2) evict_one_mmu [of "counted k" k1] by (auto simp: counted_same split: if_splits)
  moreover have "same_mmu k1 k'" using r(2) by (rule mmu)
  ultimately show ?thesis by (blast intro: same_mmu_trans)
qed


section \<open>Accesses to a page in memory\<close>

text \<open>An access marks the entry of a valid page; a store also changes its frame.\<close>

definition touched :: "nat \<Rightarrow> nat \<Rightarrow> bool \<Rightarrow> 8 word list \<Rightarrow> 'm vm_scheme \<Rightarrow> 'm vm_scheme" where
  "touched a v w m k = (set_pte a v ((pte k a v)\<lparr>use := True, dirty := w \<or> dirty (pte k a v)\<rparr>) k)\<lparr>mainMemory := m\<rparr>"

lemma touched_correct:
  assumes inv: "vm_inv ps k" and p: "is_page k a v" and val: "valid (pte k a v)" and m: "length m = 4096" "w \<or> m = mainMemory k"
    and fr: "\<And>h. 0 \<le> h \<Longrightarrow> h < 32 \<Longrightarrow> h \<noteq> phys k a v \<Longrightarrow> frame (k\<lparr>mainMemory := m\<rparr>) h = frame k h"
  shows "vm_inv ps (touched a v w m k)" "is_page (touched a v w m k) a' v' = is_page k a' v'"
    "is_page k a' v' \<Longrightarrow> page_content (touched a v w m k) a' v' = (if a' = a \<and> v' = v then frame (k\<lparr>mainMemory := m\<rparr>) (phys k a v) else page_content k a' v')"
proof -
  let ?e = "(pte k a v)\<lparr>use := True, dirty := w \<or> dirty (pte k a v)\<rparr>"
  let ?k1 = "set_pte a v ?e k" and ?k = "touched a v w m k"
  have lay: "layout k" and pg: "paged k" and core: "core_ok k ps" and fo: "frames_ok k ps" and mm: "mm_ok (memoryManager k) (cphys k ` set ps)" using inv by (simp_all add: vm_inv_def)
  have sp: "spaces k a \<noteq> None" using page_space [OF p] .
  have lay1: "layout ?k1" by (rule set_pte_layout [OF lay sp])
  have isp: "is_page ?k a' v' = is_page k a' v'" for a' v' using lay sp by (simp add: touched_def)
  have P: "pte ?k a' v' = (if a' = a \<and> v' = v then ?e else pte k a' v')" if "is_page k a' v'" for a' v' using set_pte_pte [OF lay p that] by (simp add: touched_def)
  then have V: "valid (pte ?k a' v') = valid (pte k a' v')" "phys ?k a' v' = phys k a' v'" if "is_page k a' v'" for a' v' using that by (simp_all add: phys_def)
  have F: "frame ?k h = frame (k\<lparr>mainMemory := m\<rparr>) h" for h by (simp add: touched_def frame_def)
  have bk: "backing ?k = backing k" "srec ?k = srec k" "sfile ?k = sfile k" by (simp_all add: touched_def backing_def fun_eq_iff)
  have fr2: "frame ?k (phys k a' v') = frame k (phys k a' v')" if "is_page k a' v'" "valid (pte k a' v')" "\<not> (a' = a \<and> v' = v)" for a' v'
    using fr [of "phys k a' v'"] paged_page(1,2) [OF pg that(1,2)] paged_inj [OF pg p that(1) val that(2)] that(3) F by (metis)
  have pg': "paged ?k"
  proof (rule pagedI)
    fix a' v' assume "is_page ?k a' v'"
    then have r: "is_page k a' v'" using isp by simp
    note Q = paged_page [OF pg r]
    have "\<not> dirty (pte ?k a' v') \<longrightarrow> valid (pte ?k a' v') \<longrightarrow> frame ?k (phys ?k a' v') = backing ?k a' v'"
    proof (cases "a' = a \<and> v' = v")
      case True
      then show ?thesis using Q(3) P [OF r] V [OF r] m(2) bk(1) F by (auto simp: frame_def)
    next
      case False
      then have "pte ?k a' v' = pte k a' v'" using P [OF r] by (simp only: if_False)
      then show ?thesis using Q(3) V [OF r] fr2 [OF r _ False] bk(1) by simp
    qed
    moreover have "\<not> valid (pte ?k a' v') \<longrightarrow> \<not> dirty (pte ?k a' v')" using Q(4) P [OF r] val by auto
    ultimately show "(valid (pte ?k a' v') \<longrightarrow> 0 \<le> phys ?k a' v' \<and> phys ?k a' v' < 32) \<and>
       (\<not> dirty (pte ?k a' v') \<longrightarrow> valid (pte ?k a' v') \<longrightarrow> frame ?k (phys ?k a' v') = backing ?k a' v') \<and>
       (\<not> valid (pte ?k a' v') \<longrightarrow> \<not> dirty (pte ?k a' v')) \<and> (int v' \<in> bits (bs_pages (srec ?k a')) \<longrightarrow> v' * 128 + 128 \<le> length (sfile ?k a'))"
      using Q(1,2,5) V [OF r] bk by simp
  next
    fix a1 v1 a2 v2 assume "is_page ?k a1 v1" "is_page ?k a2 v2" and r: "valid (pte ?k a1 v1)" "valid (pte ?k a2 v2)" "phys ?k a1 v1 = phys ?k a2 v2"
    then have q: "is_page k a1 v1" "is_page k a2 v2" using isp by simp_all
    show "a1 = a2 \<and> v1 = v2" by (rule paged_inj [OF pg q(2,1)]) (use r V [OF q(1)] V [OF q(2)] in simp_all)
  qed
  have lay': "layout ?k" using memory_layout [OF lay1 m(1)] by (simp add: touched_def)
  have cf: "corePages ?k = corePages k" "coreMap ?k = coreMap k" "memoryManager ?k = memoryManager k" "sid ?k = sid k" by (simp_all add: touched_def)
  have own: "owns ?k q a' v' = owns k q a' v'" for q a' v' using V [of a' v'] isp cf by (auto simp: owns_def)
  have "frames_ok ?k ps" using fo unfolding frames_ok_def own cphys_def cf isp by (metis V)
  then show "vm_inv ps ?k" using lay' pg' core mm by (simp add: vm_inv_def core_ok_def cphys_def cf)
  show "is_page ?k a' v' = is_page k a' v'" by (rule isp)
  show "page_content ?k a' v' = (if a' = a \<and> v' = v then frame (k\<lparr>mainMemory := m\<rparr>) (phys k a v) else page_content k a' v')" if r: "is_page k a' v'"
    using V [OF r] F fr2 [OF r] val bk(1) by (auto simp: page_content_def)
qed


text \<open>The memory of a process, byte by byte, and the value of the bytes of a load.\<close>

definition user_byte :: "'m vm_scheme \<Rightarrow> nat \<Rightarrow> nat \<Rightarrow> 8 word" where
  "user_byte k a x = page_content k a (x div 128) ! (x mod 128)"

definition bytes_value :: "nat \<Rightarrow> (nat \<Rightarrow> 8 word) \<Rightarrow> 32 word" where
  "bytes_value sz f =
     (if sz = 1 then scast (f 0)
      else if sz = 2 then ucast (ucast (f 0) OR push_bit 8 (ucast (f 1)) :: 16 word)
      else ucast (f 0) OR push_bit 8 (ucast (f 1)) OR push_bit 16 (ucast (f 2)) OR push_bit 24 (ucast (f 3)))"

lemma load_mem_value: "load_mem pa sz m = bytes_value sz (\<lambda>i. mainMemory m ! (pa + i))"
  by (simp add: load_mem_def bytes_value_def load8_def load16_def load32_def)

lemma bytes_value_cong: "sz \<in> {1, 2, 4} \<Longrightarrow> (\<And>i. i < sz \<Longrightarrow> f i = g i) \<Longrightarrow> bytes_value sz f = bytes_value sz g"
  by (auto simp: bytes_value_def)

lemma store_mem_byte:
  assumes "sz \<in> {1, 2, 4}" and "pa + sz \<le> length (mainMemory m)"
  shows "mainMemory (store_mem pa sz v m) ! x = (if pa \<le> x \<and> x < pa + sz then ucast (drop_bit (8 * (x - pa)) v) else mainMemory m ! x)"
proof -
  have b: "ucast (drop_bit 8 (ucast v :: 16 word)) = (ucast (drop_bit 8 v) :: 8 word)" "ucast (ucast v :: 16 word) = (ucast v :: 8 word)"
    by (auto intro!: bit_word_eqI simp: bit_simps)
  consider "\<not> (pa \<le> x \<and> x < pa + sz)" | i where "x = pa + i" "i < sz" by (metis le_Suc_ex nat_add_left_cancel_less)
  then show ?thesis
  proof cases
    case 1
    then show ?thesis using store_mem_frame [OF assms(1), of x pa] by auto
  next
    case 2
    then have "i = 0 \<or> i = 1 \<or> i = 2 \<or> i = 3" using assms(1) by auto
    then show ?thesis using assms 2 by (auto simp: store_mem_def store8_def store16_def store32_def ucast_low b nth_list_update)
  qed
qed

lemma store_mem_state: "store_mem pa sz v m = m\<lparr>mainMemory := mainMemory (store_mem pa sz v m)\<rparr>"
  by (simp add: store_mem_def store8_def store16_def store32_def)

lemma store_mem_only_memory: "mainMemory m' = mainMemory m \<Longrightarrow> mainMemory (store_mem pa sz v m') = mainMemory (store_mem pa sz v m)"
  by (simp add: store_mem_def store8_def store16_def store32_def)

lemma frame_nth: "length (mainMemory k) = 4096 \<Longrightarrow> 0 \<le> h \<Longrightarrow> h < 32 \<Longrightarrow> i < 128 \<Longrightarrow> frame k h ! i = mainMemory k ! (nat h * 128 + i)"
  by (simp add: frame_def)

lemma length_frame: "length (mainMemory k) = 4096 \<Longrightarrow> 0 \<le> h \<Longrightarrow> h < 32 \<Longrightarrow> length (frame k h) = 128"
proof -
  assume a: "length (mainMemory k) = 4096" "0 \<le> h" "h < 32"
  then have "nat h < 32" by linarith
  then have "nat h * 128 + 128 \<le> 4096" by linarith
  then show ?thesis using a(1) by (simp add: frame_def)
qed

section \<open>A running program\<close>

text \<open>The machine uses the page table of the current thread's address space \<open>a\<close>. A load in progress goes to one of the 32 general registers.\<close>

definition user_ok :: "nat list \<Rightarrow> nat \<Rightarrow> 'm vm_scheme \<Rightarrow> bool" where
  "user_ok ps a k \<longleftrightarrow> vm_inv ps k \<and> LRU k = 0 \<and> writable k \<and> tlb k = None \<and> spaces k a \<noteq> None \<and> pageTable k = Some (ptable k a) \<and>
     unat (pageTableSize k) = length (Paging.entries k a) \<and> (\<exists>th. threads k (currentThread k) = Some th \<and> t_space th = Some a) \<and>
     length (registers k) = NumTotalRegs \<and> unat (reg LoadReg k) < NumGPRegs \<and> finite (dom (corePages k))"

lemma user_paging:
  assumes "user_ok ps a k"
  shows "paging_wf k" "entries_of k = Paging.entries k a" "tables k (ptable k a) = Some (Paging.entries k a)" "layout k" "paged k" "length (mainMemory k) = 4096"
proof -
  have lay: "layout k" "spaces k a \<noteq> None" "pageTable k = Some (ptable k a)" "tlb k = None" "unat (pageTableSize k) = length (Paging.entries k a)" "paged k"
    using assms by (simp_all add: user_ok_def vm_inv_def)
  then show t: "tables k (ptable k a) = Some (Paging.entries k a)" using layoutD(3) by blast
  show "paging_wf k" "entries_of k = Paging.entries k a" "layout k" "paged k" "length (mainMemory k) = 4096"
    using lay t layout_memory by (simp_all add: paging_wf_def entries_of_def)
qed

definition same_memory :: "'m vm_scheme \<Rightarrow> 'm vm_scheme \<Rightarrow> bool" where
  "same_memory k k' \<longleftrightarrow> (\<forall>a v. is_page k' a v = is_page k a v \<and> (is_page k a v \<longrightarrow> page_content k' a v = page_content k a v))"

lemma user_access:
  assumes ok: "user_ok ps a k" and al: "unat addr mod sz = 0" and v: "v = unat addr div 128" "is_page k a v"
  shows "access addr sz w k = (if valid (pte k a v) then Inr (nat (phys k a v) * 128 + unat addr mod 128) else Inl PageFaultException)"
proof -
  note U = user_paging [OF ok]
  have l: "v < unat (pageTableSize k)" "v < length (Paging.entries k a)" using ok v(2) by (simp_all add: user_ok_def is_page_def)
  have ro: "\<not> readOnly (pte k a v)" using ok U(3) l(2) by (auto simp: user_ok_def writable_def pte_def)
  have ph: "unat (physicalPage (pte k a v)) = nat (phys k a v)" "nat (phys k a v) < 32" if "valid (pte k a v)"
    using paged_page(1,2) [OF U(5) v(2) that] sint32 [of "physicalPage (pte k a v)"] uint32(2,3) [of "physicalPage (pte k a v)"] by (auto simp: phys_def split: if_splits)
  show ?thesis using l al ro ph unfolding access_def U(2) pte_def v(1) by (auto simp: Let_def pte_def)
qed

lemma user_mark: "user_ok ps a k \<Longrightarrow> mark_entry v w k = touched a v w (mainMemory k) k"
  using user_paging(2,3) [of ps a k]
  by (simp add: user_ok_def mark_entry_def set_entry_def entry_store_def touched_def set_pte_def pte_def Let_def)

lemma touched_user:
  assumes ok: "user_ok ps a k" and p: "is_page k a v" and inv: "vm_inv ps (touched a v w m k)"
  shows "user_ok ps a (touched a v w m k)"
proof -
  note U = user_paging [OF ok]
  have sp: "spaces k a \<noteq> None" using ok by (simp add: user_ok_def)
  have en: "Paging.entries (touched a v w m k) a = (Paging.entries k a)[v := (pte k a v)\<lparr>use := True, dirty := w \<or> dirty (pte k a v)\<rparr>]" "ptable (touched a v w m k) a = ptable k a"
    using U(4) sp by (simp_all add: touched_def set_pte_entries)
  have ro: "\<not> readOnly (pte k a v)" using ok U(3) p by (auto simp: user_ok_def writable_def pte_def is_page_def)
  have "writable (touched a v w m k)"
    using ok U(3) ro by (auto simp: user_ok_def writable_def touched_def set_pte_def split: if_splits dest!: set_update_subset_insert [THEN subsetD])
  then show ?thesis using ok inv en by (simp add: user_ok_def reg_def) (simp add: touched_def set_pte_def)
qed

text \<open>Where the bytes of an aligned access are: in one page.\<close>

lemma access_page:
  assumes "sz \<in> {1, 2, 4}" and "(n :: nat) mod sz = 0" and "i < sz"
  shows "(n + i) div 128 = n div 128" "(n + i) mod 128 = n mod 128 + i"
proof -
  have f: "n mod 128 + i < 128" using aligned_fits [OF assms(1,2)] assms(3) by simp
  have "(128 * q + r) div 128 = q" "(128 * q + r) mod 128 = r" if "r < 128" for q r :: nat using that by simp_all
  from this [OF f, of "n div 128"] show "(n + i) div 128 = n div 128" "(n + i) mod 128 = n mod 128 + i" by (simp_all only: add.assoc [symmetric] mult_div_mod_eq)
qed

lemma user_byte_frame:
  assumes "length (mainMemory k) = 4096" and "0 \<le> phys k a (x div 128)" and "phys k a (x div 128) < 32" and "valid (pte k a (x div 128))"
  shows "user_byte k a x = mainMemory k ! (nat (phys k a (x div 128)) * 128 + x mod 128)"
  using assms by (simp add: user_byte_def page_content_def frame_nth)

lemma load_hit:
  assumes ok: "user_ok ps a k" and sz: "sz \<in> {1, 2, 4}" "unat addr mod sz = 0" and p: "is_page k a (unat addr div 128)" "valid (pte k a (unat addr div 128))"
  shows "\<exists>k'. ReadMem T addr sz k = Some (Inr (Some (bytes_value sz (\<lambda>i. user_byte k a (unat addr + i))), k')) \<and> user_ok ps a k' \<and> same_memory k k'"
proof -
  let ?v = "unat addr div 128" let ?k = "touched a ?v False (mainMemory k) k"
  note U = user_paging [OF ok]
  note ph = paged_page(1,2) [OF U(5) p]
  have inv: "vm_inv ps k" using ok by (simp add: user_ok_def)
  note C = touched_correct [OF inv p U(6), of False, simplified]
  have "bytes_value sz (\<lambda>i. mainMemory k ! (nat (phys k a ?v) * 128 + unat addr mod 128 + i)) = bytes_value sz (\<lambda>i. user_byte k a (unat addr + i))"
    by (rule bytes_value_cong [OF sz(1)]) (use access_page [OF sz] user_byte_frame [OF U(6)] ph p(2) in \<open>simp add: add.assoc\<close>)
  then have "ReadMem T addr sz k = Some (Inr (Some (bytes_value sz (\<lambda>i. user_byte k a (unat addr + i))), ?k))"
    using p(2) by (simp add: ReadMem_access [OF U(1) sz(1)] user_access [OF ok sz(2) HOL.refl p(1)] user_mark [OF ok] load_mem_value Let_def) (simp add: touched_def)
  moreover have "user_ok ps a ?k" by (rule touched_user [OF ok p(1) C(1)])
  moreover have "same_memory k ?k" using C(2,3) p(2) by (auto simp: same_memory_def page_content_def frame_def)
  ultimately show ?thesis by blast
qed

text \<open>A store in an array of bytes.\<close>

definition flat_store :: "nat \<Rightarrow> nat \<Rightarrow> 32 word \<Rightarrow> (nat \<Rightarrow> 8 word) \<Rightarrow> nat \<Rightarrow> 8 word" where
  "flat_store n sz v f x = (if n \<le> x \<and> x < n + sz then ucast (drop_bit (8 * (x - n)) v) else f x)"

lemma store_frames:
  assumes len: "length (mainMemory k) = 4096" and h: "0 \<le> h" "h < 32" "0 \<le> h'" "h' < 32" and sz: "sz \<in> {1, 2, 4}" and off: "off + sz \<le> 128" and k': "k' = store_mem (nat h * 128 + off) sz v k"
  shows "h' \<noteq> h \<Longrightarrow> frame k' h' = frame k h'" "i < 128 \<Longrightarrow> frame k' h ! i = flat_store off sz v ((!) (frame k h)) i"
proof -
  have n: "nat h < 32" "nat h' < 32" using h by linarith+
  have l: "length (mainMemory k') = 4096" using len by (simp add: k')
  have b: "mainMemory k' ! x = flat_store (nat h * 128 + off) sz v ((!) (mainMemory k)) x" for x
    unfolding k' flat_store_def by (rule store_mem_byte [OF sz]) (use n(1) off len in linarith)
  show "frame k' h' = frame k h'" if "h' \<noteq> h"
  proof (rule nth_equalityI)
    fix i assume "i < length (frame k' h')"
    then have i: "i < 128" using length_frame [OF l h(3,4)] by simp
    have "nat h < nat h' \<or> nat h' < nat h" using that h by linarith
    then have "\<not> (nat h * 128 + off \<le> nat h' * 128 + i \<and> nat h' * 128 + i < nat h * 128 + off + sz)" using i off by linarith
    then show "frame k' h' ! i = frame k h' ! i" using b i by (auto simp: frame_nth [OF l h(3,4)] frame_nth [OF len h(3,4)] flat_store_def)
  qed (simp add: length_frame [OF len h(3,4)] length_frame [OF l h(3,4)])
  show "frame k' h ! i = flat_store off sz v ((!) (frame k h)) i" if i: "i < 128"
    using b i by (simp add: frame_nth [OF l h(1,2)] frame_nth [OF len h(1,2)] flat_store_def)
qed

lemma store_hit:
  assumes ok: "user_ok ps a k" and sz: "sz \<in> {1, 2, 4}" "unat addr mod sz = 0" and p: "is_page k a (unat addr div 128)" "valid (pte k a (unat addr div 128))"
  shows "\<exists>k'. WriteMem T addr sz v k = Some (Inr (True, k')) \<and> user_ok ps a k' \<and> (\<forall>a' v'. is_page k' a' v' = is_page k a' v') \<and>
    (\<forall>a' x. is_page k a' (x div 128) \<longrightarrow> user_byte k' a' x = (if a' = a then flat_store (unat addr) sz v (user_byte k a) x else user_byte k a' x))"
proof -
  let ?v = "unat addr div 128" let ?off = "unat addr mod 128" let ?h = "phys k a ?v"
  define k1 where "k1 = store_mem (nat ?h * 128 + ?off) sz v k"
  let ?k = "touched a ?v True (mainMemory k1) k"
  note U = user_paging [OF ok]
  note ph = paged_page(1,2) [OF U(5) p]
  have inv: "vm_inv ps k" using ok by (simp add: user_ok_def)
  have off: "?off + sz \<le> 128" by (rule aligned_fits [OF sz])
  have l: "length (mainMemory k1) = 4096" using U(6) by (simp add: k1_def)
  have fk: "frame (k\<lparr>mainMemory := mainMemory k1\<rparr>) h = frame k1 h" for h by (simp add: frame_def)
  note S = store_frames [OF U(6) ph(1,2) _ _ sz(1) off k1_def]
  note C = touched_correct [OF inv p l, where w = True, unfolded fk, OF _ S(1)]
  have "WriteMem T addr sz v k = Some (Inr (True, ?k))"
    using p(2) store_mem_state [of "nat ?h * 128 + ?off" sz v "touched a ?v True (mainMemory k) k"]
      store_mem_only_memory [of "touched a ?v True (mainMemory k) k" k "nat ?h * 128 + ?off" sz v]
    by (simp add: WriteMem_access [OF U(1) sz(1)] user_access [OF ok sz(2) HOL.refl p(1)] user_mark [OF ok] k1_def) (simp add: touched_def)
  moreover have "user_ok ps a ?k" by (rule touched_user [OF ok p(1) C(1)]) simp_all
  moreover have "is_page ?k a' v' = is_page k a' v'" for a' v' by (rule C(2)) simp_all
  moreover have "user_byte ?k a' x = (if a' = a then flat_store (unat addr) sz v (user_byte k a) x else user_byte k a' x)" if q: "is_page k a' (x div 128)" for a' x
  proof -
    have pc: "page_content ?k a' (x div 128) = (if a' = a \<and> x div 128 = ?v then frame k1 ?h else page_content k a' (x div 128))" by (rule C(3) [OF _ _ _ _ q]) simp_all
    show ?thesis
    proof (cases "a' = a \<and> x div 128 = ?v")
      case True
      then have "x = 128 * ?v + x mod 128" "unat addr = 128 * ?v + ?off" by (metis mult_div_mod_eq, simp)
      then have "flat_store (unat addr) sz v (user_byte k a) x = flat_store ?off sz v ((!) (frame k ?h)) (x mod 128)"
        using True p(2) unfolding flat_store_def user_byte_def page_content_def by (smt (verit) add_diff_cancel_left add_less_cancel_left add_le_cancel_left add.assoc)
      then show ?thesis using pc True S(2) [of 0 "x mod 128"] by (simp add: user_byte_def)
    next
      case False
      have "\<not> (unat addr \<le> x \<and> x < unat addr + sz)" if "a' = a"
        using False that access_page(1) [OF sz, of "x - unat addr"] by (metis le_add_diff_inverse nat_add_left_cancel_less)
      then show ?thesis using pc False by (auto simp: user_byte_def flat_store_def)
    qed
  qed
  ultimately show ?thesis by blast
qed

section \<open>Page faults of a running program\<close>

text \<open>An exception changes registers and the status of the machine, nothing of the memory of a process.\<close>

lemma user_ok_regs:
  assumes "user_ok ps a k" and "length rg = NumTotalRegs" and "unat (rg ! LoadReg) < NumGPRegs"
  shows "user_ok ps a (k\<lparr>registers := rg, status := ms\<rparr>)" "same_memory k (k\<lparr>registers := rg, status := ms\<rparr>)"
    "pte (k\<lparr>registers := rg, status := ms\<rparr>) = pte k" "is_page (k\<lparr>registers := rg, status := ms\<rparr>) = is_page k"
proof -
  let ?k = "k\<lparr>registers := rg, status := ms\<rparr>"
  have sv: "same_vm k ?k" by (simp add: same_vm_def)
  note S = same_vmD [OF sv] and L = same_vm_sel [OF sv]
  have "vm_inv ps ?k" using assms(1) vm_inv_same [OF sv] by (simp add: user_ok_def)
  then show "user_ok ps a ?k" using assms L by (simp add: user_ok_def writable_def reg_def)
  show "same_memory k ?k" "pte ?k = pte k" "is_page ?k = is_page k" using S by (simp_all add: same_memory_def page_content_def)
qed

lemma raise_registers:
  assumes "length (registers k) = NumTotalRegs" and "unat (reg LoadReg k) < NumGPRegs"
  shows "\<exists>rg. RaiseException T exc addr k = bindO (T exc (k\<lparr>registers := rg, status := SystemMode\<rparr>)) (\<lambda>m. Some (Inr (setStatus UserMode m))) \<and>
    length rg = NumTotalRegs \<and> rg ! LoadReg = 0 \<and> rg ! BadVAddrReg = addr"
proof -
  let ?n = "unat (registers k ! LoadReg)"
  let ?rg = "(registers k)[BadVAddrReg := addr, ?n := registers k ! LoadValueReg, LoadReg := 0, LoadValueReg := 0, 0 := 0]"
  have "DelayedLoad 0 0 (set_reg BadVAddrReg addr k) = Inr (k\<lparr>registers := ?rg\<rparr>)" using assms by (simp add: DelayedLoad_def set_reg_def reg_def Let_def)
  then show ?thesis using assms by (intro exI [of _ ?rg]) (simp add: RaiseException_def setStatus_def reg_def)
qed

definition fresh_core :: "('m vm_scheme \<Rightarrow> nat) \<Rightarrow> bool" where
  "fresh_core core \<longleftrightarrow> (\<forall>k. finite (dom (corePages k)) \<longrightarrow> corePages k (core k) = None)"

lemma core_page_used: "core_chain h p ps \<Longrightarrow> q \<in> set ps \<Longrightarrow> h q \<noteq> None"
  by (induction ps arbitrary: p) auto

lemma page_fault_user:
  assumes ok: "user_ok ps a k" and fresh: "fresh_core core" and p: "is_page k a v" "\<not> valid (pte k a v)" and v: "v = unat (reg BadVAddrReg k) div 128"
  shows "\<exists>ps' k'. page_fault (core k) k = Some (Inr (0, k')) \<and> user_ok ps' a k' \<and> same_memory k k' \<and> valid (pte k' a v)"
proof -
  obtain th where th: "threads k (currentThread k) = Some th" "t_space th = Some a" and inv: "vm_inv ps k" and fifo: "LRU k = 0" using ok by (auto simp: user_ok_def)
  let ?ps = "if length ps = 32 then tl ps else ps"
  obtain k1 where k1: "(if isFull (coreMap (counted k)) then evict_one (counted k) else Some (Inr (counted k))) = Some (Inr k1)" "vm_inv ?ps k1" "keeps (counted k) k1"
    using make_room [of ps "counted k"] inv fifo by (auto simp: counted_same)
  have q: "core k \<notin> set ps" using ok fresh core_page_used inv by (force simp: user_ok_def fresh_core_def vm_inv_def core_ok_def)
  have len: "length ?ps < 32" using core_map_bound [OF inv] by (auto)
  have q': "core k \<notin> set ?ps" using q by (auto dest: list.set_sel(2) [rotated] split: if_splits)
  obtain k' where k': "page_fault (core k) k = Some (Inr (0, k'))" "vm_inv (?ps @ [core k]) k'" "valid (pte k' a v)" "same_shape k k'"
      "\<forall>a' v'. is_page k a' v' \<longrightarrow> page_content k' a' v' = page_content k a' v'"
    using page_fault_room [OF k1 len q' th p(1) v p(2)] by blast
  have m: "same_mmu k k'" by (rule page_fault_mmu [OF k'(1) fifo])
  have sp: "spaces k' = spaces k" "\<And>a v. is_page k' a v = is_page k a v" using k'(4) by (simp_all add: same_shape_def)
  have "v < length (Paging.entries k' a) \<longleftrightarrow> v < length (Paging.entries k a)" for v using sp(2) [of a v] ok by (simp add: is_page_def sp(1) user_ok_def)
  then have "length (Paging.entries k' a) = length (Paging.entries k a)" by (meson linorder_neq_iff)
  moreover have "ptable k' a = ptable k a" using sp(1) by (simp add: ptable_def the_space_def)
  ultimately have "user_ok (?ps @ [core k]) a k'" using ok m k'(2,4) by (simp add: user_ok_def same_mmu_def same_shape_def reg_def)
  then show ?thesis using k'(1,3,5) sp(2) by (auto simp: same_memory_def)
qed

section \<open>Memory as an array of bytes\<close>

text \<open>An instruction that raised a page fault is executed again, and so is the access of a system call.\<close>

definition load_retry :: "(ExceptionType \<Rightarrow> sys \<Rightarrow> sys res option) \<Rightarrow> 32 word \<Rightarrow> nat \<Rightarrow> sys \<Rightarrow> (32 word option \<times> sys) res option" where
  "load_retry T addr sz k = bindO (ReadMem T addr sz k) (\<lambda>(r, k). case r of Some v \<Rightarrow> Some (Inr (Some v, k)) | None \<Rightarrow> ReadMem T addr sz k)"

definition store_retry :: "(ExceptionType \<Rightarrow> sys \<Rightarrow> sys res option) \<Rightarrow> 32 word \<Rightarrow> nat \<Rightarrow> 32 word \<Rightarrow> sys \<Rightarrow> (bool \<times> sys) res option" where
  "store_retry T addr sz v k = bindO (WriteMem T addr sz v k) (\<lambda>(ok, k). if ok then Some (Inr (True, k)) else WriteMem T addr sz v k)"

datatype user_access = Load "32 word" nat | Store "32 word" nat "32 word"

text \<open>A sequence of accesses, with the value of each (\<open>None\<close>: it failed), on the machine and on an array.\<close>

fun run_accesses :: "(ExceptionType \<Rightarrow> sys \<Rightarrow> sys res option) \<Rightarrow> user_access list \<Rightarrow> sys \<Rightarrow> (32 word option list \<times> sys) res option" where
  "run_accesses T [] k = Some (Inr ([], k))"
| "run_accesses T (Load addr sz # xs) k = bindO (load_retry T addr sz k) (\<lambda>(r, k). bindO (run_accesses T xs k) (\<lambda>(rs, k). Some (Inr (r # rs, k))))"
| "run_accesses T (Store addr sz v # xs) k =
     bindO (store_retry T addr sz v k) (\<lambda>(ok, k). bindO (run_accesses T xs k) (\<lambda>(rs, k). Some (Inr ((if ok then Some v else None) # rs, k))))"

fun flat_accesses :: "user_access list \<Rightarrow> (nat \<Rightarrow> 8 word) \<Rightarrow> 32 word list \<times> (nat \<Rightarrow> 8 word)" where
  "flat_accesses [] f = ([], f)"
| "flat_accesses (Load addr sz # xs) f = (case flat_accesses xs f of (vs, g) \<Rightarrow> (bytes_value sz (\<lambda>i. f (unat addr + i)) # vs, g))"
| "flat_accesses (Store addr sz v # xs) f = (case flat_accesses xs (flat_store (unat addr) sz v f) of (vs, g) \<Rightarrow> (v # vs, g))"

fun access_ok :: "nat \<Rightarrow> user_access \<Rightarrow> bool" where
  "access_ok n (Load addr sz) \<longleftrightarrow> sz \<in> {1, 2, 4} \<and> unat addr mod sz = 0 \<and> unat addr < n"
| "access_ok n (Store addr sz v) \<longleftrightarrow> sz \<in> {1, 2, 4} \<and> unat addr mod sz = 0 \<and> unat addr < n"

text \<open>The size of an address space, and that it holds the bytes of an array.\<close>

definition user_size :: "'m vm_scheme \<Rightarrow> nat \<Rightarrow> nat" where "user_size k a = 128 * length (Paging.entries k a)"

definition holds_array :: "nat \<Rightarrow> (nat \<Rightarrow> 8 word) \<Rightarrow> 'm vm_scheme \<Rightarrow> bool" where
  "holds_array a f k \<longleftrightarrow> (\<forall>x < user_size k a. user_byte k a x = f x)"

lemma user_size_page: "user_ok ps a k \<Longrightarrow> x < user_size k a \<longleftrightarrow> is_page k a (x div 128)"
  by (auto simp: user_size_def is_page_def user_ok_def less_mult_imp_div_less mult.commute dest: div_less_iff_less_mult [THEN iffD1, rotated])

lemma same_pages_size:
  assumes "user_ok ps a k" and "user_ok ps' a k'" and "\<And>v. is_page k' a v = is_page k a v"
  shows "user_size k' a = user_size k a"
proof -
  have "v < length (Paging.entries k' a) \<longleftrightarrow> v < length (Paging.entries k a)" for v using assms by (simp add: is_page_def user_ok_def)
  then show ?thesis unfolding user_size_def by (metis linorder_neq_iff)
qed

lemma same_memory_byte: "same_memory k k' \<Longrightarrow> is_page k a (x div 128) \<Longrightarrow> user_byte k' a x = user_byte k a x"
  by (simp add: same_memory_def user_byte_def)

text \<open>What a trap handler promises to the program: a fault the kernel could handle resumes.\<close>

locale demand_paging =
  fixes T :: "ExceptionType \<Rightarrow> sys \<Rightarrow> sys res option" and core :: "sys \<Rightarrow> nat"
  assumes resumes: "page_fault (core k) k = Some (Inr (0, k')) \<Longrightarrow> T PageFaultException k = Some (Inr k')"
begin

lemma fault_handled:
  assumes ok: "user_ok ps a k" and fresh: "fresh_core core" and p: "is_page k a (unat addr div 128)" "\<not> valid (pte k a (unat addr div 128))"
  shows "\<exists>ps' k'. RaiseException T PageFaultException addr k = Some (Inr k') \<and> user_ok ps' a k' \<and> same_memory k k' \<and> valid (pte k' a (unat addr div 128))"
proof -
  obtain rg where rg: "RaiseException T PageFaultException addr k = bindO (T PageFaultException (k\<lparr>registers := rg, status := SystemMode\<rparr>)) (\<lambda>m. Some (Inr (setStatus UserMode m)))"
      "length rg = NumTotalRegs" "rg ! LoadReg = 0" "rg ! BadVAddrReg = addr"
    using raise_registers [of k T PageFaultException addr] ok by (auto simp: user_ok_def)
  let ?k = "k\<lparr>registers := rg, status := SystemMode\<rparr>"
  have "unat (rg ! LoadReg) < NumGPRegs" using rg(3) by simp
  note R = user_ok_regs [OF ok rg(2) this, of SystemMode]
  have "is_page ?k a (unat addr div 128)" "\<not> valid (pte ?k a (unat addr div 128))" "unat addr div 128 = unat (reg BadVAddrReg ?k) div 128" using p R(3,4) rg(4) by (simp_all add: reg_def)
  from page_fault_user [OF R(1) fresh this] obtain ps' k' where k': "page_fault (core ?k) ?k = Some (Inr (0, k'))" "user_ok ps' a k'" "same_memory ?k k'" "valid (pte k' a (unat addr div 128))" by blast
  let ?k' = "k'\<lparr>registers := registers k', status := UserMode\<rparr>"
  have "length (registers k') = NumTotalRegs" "unat (registers k' ! LoadReg) < NumGPRegs" using k'(2) by (simp_all add: user_ok_def reg_def)
  note R' = user_ok_regs [OF k'(2) this, of UserMode]
  have "RaiseException T PageFaultException addr k = Some (Inr ?k')" using rg(1) resumes [OF k'(1)] by (simp add: setStatus_def)
  moreover have "same_memory k ?k'" using R(2) k'(3) R'(2) by (simp add: same_memory_def)
  ultimately show ?thesis using R'(1,3) k'(4) by metis
qed

lemma load_array:
  assumes ok: "user_ok ps a k" and fresh: "fresh_core core" and sz: "sz \<in> {1, 2, 4}" "unat addr mod sz = 0" and p: "is_page k a (unat addr div 128)"
  shows "\<exists>ps' k'. load_retry T addr sz k = Some (Inr (Some (bytes_value sz (\<lambda>i. user_byte k a (unat addr + i))), k')) \<and> user_ok ps' a k' \<and> same_memory k k'"
proof (cases "valid (pte k a (unat addr div 128))")
  case True
  then show ?thesis using load_hit [OF ok sz p True, of T] by (auto simp: load_retry_def)
next
  case False
  obtain ps1 k1 where k1: "RaiseException T PageFaultException addr k = Some (Inr k1)" "user_ok ps1 a k1" "same_memory k k1" "valid (pte k1 a (unat addr div 128))"
    using fault_handled [OF ok fresh p False] by blast
  have p1: "is_page k1 a (unat addr div 128)" using k1(3) p by (simp add: same_memory_def)
  obtain k2 where k2: "ReadMem T addr sz k1 = Some (Inr (Some (bytes_value sz (\<lambda>i. user_byte k1 a (unat addr + i))), k2))" "user_ok ps1 a k2" "same_memory k1 k2"
    using load_hit [OF k1(2) sz p1 k1(4), of T] by blast
  have "ReadMem T addr sz k = Some (Inr (None, k1))"
    using False k1(1) by (simp add: ReadMem_access [OF user_paging(1) [OF ok] sz(1)] user_access [OF ok sz(2) HOL.refl p])
  moreover have "bytes_value sz (\<lambda>i. user_byte k1 a (unat addr + i)) = bytes_value sz (\<lambda>i. user_byte k a (unat addr + i))"
    by (rule bytes_value_cong [OF sz(1)]) (use same_memory_byte [OF k1(3)] access_page(1) [OF sz] p in simp)
  moreover have "same_memory k k2" using k1(3) k2(3) by (simp add: same_memory_def)
  ultimately show ?thesis using k2(1,2) by (auto simp: load_retry_def)
qed

lemma store_array:
  assumes ok: "user_ok ps a k" and fresh: "fresh_core core" and sz: "sz \<in> {1, 2, 4}" "unat addr mod sz = 0" and p: "is_page k a (unat addr div 128)"
  shows "\<exists>ps' k'. store_retry T addr sz v k = Some (Inr (True, k')) \<and> user_ok ps' a k' \<and> (\<forall>a' v'. is_page k' a' v' = is_page k a' v') \<and>
    (\<forall>a' x. is_page k a' (x div 128) \<longrightarrow> user_byte k' a' x = (if a' = a then flat_store (unat addr) sz v (user_byte k a) x else user_byte k a' x))"
proof (cases "valid (pte k a (unat addr div 128))")
  case True
  then show ?thesis using store_hit [OF ok sz p True, of T v] by (auto simp: store_retry_def)
next
  case False
  obtain ps1 k1 where k1: "RaiseException T PageFaultException addr k = Some (Inr k1)" "user_ok ps1 a k1" "same_memory k k1" "valid (pte k1 a (unat addr div 128))"
    using fault_handled [OF ok fresh p False] by blast
  have i: "is_page k1 a' v' = is_page k a' v'" for a' v' using k1(3) by (simp add: same_memory_def)
  obtain k2 where k2: "WriteMem T addr sz v k1 = Some (Inr (True, k2))" "user_ok ps1 a k2" "\<forall>a' v'. is_page k2 a' v' = is_page k1 a' v'"
      "\<forall>a' x. is_page k1 a' (x div 128) \<longrightarrow> user_byte k2 a' x = (if a' = a then flat_store (unat addr) sz v (user_byte k1 a) x else user_byte k1 a' x)"
    using store_hit [OF k1(2) sz _ k1(4), of T v] i p by auto
  have "WriteMem T addr sz v k = Some (Inr (False, k1))"
    using False k1(1) by (simp add: WriteMem_access [OF user_paging(1) [OF ok] sz(1)] user_access [OF ok sz(2) HOL.refl p])
  moreover have "user_byte k2 a' x = (if a' = a then flat_store (unat addr) sz v (user_byte k a) x else user_byte k a' x)" if "is_page k a' (x div 128)" for a' x
    using k2(4) same_memory_byte [OF k1(3) that] that i by (auto simp: flat_store_def)
  ultimately show ?thesis using k2(1-3) i by (auto simp: store_retry_def)
qed

lemma accesses_ok:
  assumes "fresh_core core"
  shows "user_ok ps a k \<Longrightarrow> \<forall>op \<in> set ops. access_ok (user_size k a) op \<Longrightarrow> holds_array a f k \<Longrightarrow> flat_accesses ops f = (vs, g) \<Longrightarrow>
    \<exists>ps' k'. run_accesses T ops k = Some (Inr (map Some vs, k')) \<and> user_ok ps' a k' \<and> user_size k' a = user_size k a \<and> holds_array a g k' \<and>
      (\<forall>a' x. a' \<noteq> a \<longrightarrow> is_page k a' (x div 128) \<longrightarrow> is_page k' a' (x div 128) \<and> user_byte k' a' x = user_byte k a' x)"
proof (induction ops arbitrary: ps k f vs)
  case Nil
  then show ?case by auto
next
  case (Cons op ops)
  note ok = Cons.prems(1)
  show ?case
  proof (cases op)
    case (Load addr sz)
    then have c: "sz \<in> {1, 2, 4}" "unat addr mod sz = 0" "is_page k a (unat addr div 128)" using Cons.prems(2) user_size_page [OF ok] by simp_all
    obtain ps1 k1 where k1: "load_retry T addr sz k = Some (Inr (Some (bytes_value sz (\<lambda>i. user_byte k a (unat addr + i))), k1))" "user_ok ps1 a k1" "same_memory k k1"
      using load_array [OF ok assms c] by blast
    have i: "is_page k1 a' v' = is_page k a' v'" for a' v' using k1(3) by (simp add: same_memory_def)
    have s: "user_size k1 a = user_size k a" by (rule same_pages_size [OF ok k1(2) i])
    obtain vs1 where v: "flat_accesses ops f = (vs1, g)" "vs = bytes_value sz (\<lambda>i. f (unat addr + i)) # vs1" using Cons.prems(4) Load by (auto split: prod.splits)
    have b: "bytes_value sz (\<lambda>i. user_byte k a (unat addr + i)) = bytes_value sz (\<lambda>i. f (unat addr + i))"
      by (rule bytes_value_cong [OF c(1)]) (use Cons.prems(3) user_size_page [OF ok] access_page(1) [OF c(1,2)] c(3) in \<open>simp add: holds_array_def\<close>)
    have "holds_array a f k1" using Cons.prems(3) same_memory_byte [OF k1(3)] user_size_page [OF ok] by (simp add: holds_array_def s)
    then obtain ps2 k2 where "run_accesses T ops k1 = Some (Inr (map Some vs1, k2))" "user_ok ps2 a k2" "user_size k2 a = user_size k1 a" "holds_array a g k2"
        "\<forall>a' x. a' \<noteq> a \<longrightarrow> is_page k1 a' (x div 128) \<longrightarrow> is_page k2 a' (x div 128) \<and> user_byte k2 a' x = user_byte k1 a' x"
      using Cons.IH [OF k1(2) _ _ v(1)] Cons.prems(2) s by auto
    then show ?thesis using k1(1) Load v(2) b s i same_memory_byte [OF k1(3)] by auto
  next
    case (Store addr sz v)
    then have c: "sz \<in> {1, 2, 4}" "unat addr mod sz = 0" "is_page k a (unat addr div 128)" using Cons.prems(2) user_size_page [OF ok] by simp_all
    obtain ps1 k1 where k1: "store_retry T addr sz v k = Some (Inr (True, k1))" "user_ok ps1 a k1" "\<And>a' v'. is_page k1 a' v' = is_page k a' v'"
        "\<And>a' x. is_page k a' (x div 128) \<Longrightarrow> user_byte k1 a' x = (if a' = a then flat_store (unat addr) sz v (user_byte k a) x else user_byte k a' x)"
      using store_array [OF ok assms c, of v] by blast
    have s: "user_size k1 a = user_size k a" by (rule same_pages_size [OF ok k1(2,3)])
    obtain vs1 where v: "flat_accesses ops (flat_store (unat addr) sz v f) = (vs1, g)" "vs = v # vs1" using Cons.prems(4) Store by (auto split: prod.splits)
    have "holds_array a (flat_store (unat addr) sz v f) k1" using Cons.prems(3) k1(4) user_size_page [OF ok] by (simp add: holds_array_def s flat_store_def)
    then obtain ps2 k2 where "run_accesses T ops k1 = Some (Inr (map Some vs1, k2))" "user_ok ps2 a k2" "user_size k2 a = user_size k1 a" "holds_array a g k2"
        "\<forall>a' x. a' \<noteq> a \<longrightarrow> is_page k1 a' (x div 128) \<longrightarrow> is_page k2 a' (x div 128) \<and> user_byte k2 a' x = user_byte k1 a' x"
      using Cons.IH [OF k1(2) _ _ v(1)] Cons.prems(2) s by auto
    then show ?thesis using k1(1) Store v(2) s k1(3,4) by auto
  qed
qed

end

interpretation syscall_memory: demand_paging "fault_trap e" "new e OCore" for e
  by unfold_locales (simp add: fault_trap_def)

interpretation program_memory: demand_paging "user_trap e" "new e OCore" for e
  by unfold_locales (simp add: user_trap_def ExceptionHandler_def)

text \<open>The accesses of system calls to user memory are such pairs of attempts.\<close>

lemma syscall_access: "read_twice e addr sz k = load_retry (fault_trap e) addr sz k" "write_twice e addr v k = store_retry (fault_trap e) addr 1 v k"
  by (simp_all only: read_twice_def write_twice_def load_retry_def store_retry_def)

text \<open>C2. Demand paging is transparent: with FIFO replacement, whatever sequence of aligned loads and stores a program (through \<open>user_trap\<close>) or a system call on its behalf (through \<open>fault_trap\<close>)
  makes within its address space, each access succeeds, at once or when it is repeated after its page fault, and the loads return and the stores leave exactly what they would on an array of bytes that starts
  with the content of the address space. No byte of another address space changes, and the invariants hold again at the end.\<close>

theorem paged_memory_is_array:
  assumes "T = user_trap e \<or> T = fault_trap e" and "user_ok ps a k" and "fresh_core (new e OCore)" and "\<forall>op \<in> set ops. access_ok (user_size k a) op"
    and "flat_accesses ops (user_byte k a) = (vs, f)"
  shows "\<exists>ps' k'. run_accesses T ops k = Some (Inr (map Some vs, k')) \<and> user_ok ps' a k' \<and> user_size k' a = user_size k a \<and> (\<forall>x < user_size k a. user_byte k' a x = f x) \<and>
    (\<forall>a' x. a' \<noteq> a \<longrightarrow> is_page k a' (x div 128) \<longrightarrow> is_page k' a' (x div 128) \<and> user_byte k' a' x = user_byte k a' x)"
proof -
  have h: "holds_array a (user_byte k a) k" by (simp add: holds_array_def)
  obtain ps' k' where r: "run_accesses T ops k = Some (Inr (map Some vs, k'))" "user_ok ps' a k'" "user_size k' a = user_size k a" "holds_array a f k'"
      "\<forall>a' x. a' \<noteq> a \<longrightarrow> is_page k a' (x div 128) \<longrightarrow> is_page k' a' (x div 128) \<and> user_byte k' a' x = user_byte k a' x"
    using program_memory.accesses_ok [OF assms(3,2,4) h assms(5)] syscall_memory.accesses_ok [OF assms(3,2,4) h assms(5)] assms(1) by blast
  then show ?thesis by (auto simp: holds_array_def)
qed

section \<open>A program in a full memory\<close>

text \<open>The invariant of the virtual memory does not depend on what the state is extended with.\<close>

lemma vm_inv_sys_of: "vm_inv ps (sys_of u ts) = vm_inv ps u"
proof -
  let ?k = "sys_of u ts"
  have sel: "the_space ?k = the_space u" "ptable ?k = ptable u" "Paging.entries ?k = Paging.entries u" "sid ?k = sid u" "srec ?k = srec u" "sfile ?k = sfile u" "ename ?k = ename u"
      "econt ?k = econt u" "frame ?k = frame u"
    by (simp_all add: selectors frame_def fun_eq_iff sys_of_fields)
  have "get_file f ?k = get_file f u" for f by (simp add: get_file_def sys_of_fields cong: option.case_cong)
  then have "read_header f ?k = read_header f u" for f by (simp add: read_header_def OpenFile_ReadAt_def sys_of_fields)
  then have hd: "header_of ?k = header_of u" by (simp add: header_of_def fun_eq_iff sel)
  have pg: "pte ?k = pte u" "phys ?k = phys u" "is_page ?k = is_page u" "backing ?k = backing u"
    by (simp_all add: pte_def phys_def is_page_def backing_def fun_eq_iff sel hd sys_of_fields)
  have "layout ?k = layout u" unfolding layout_def space_ok_def sel hd by (simp add: sys_of_fields)
  moreover have "paged ?k = paged u" unfolding paged_def sel pg ..
  ultimately show ?thesis by (simp add: vm_inv_def core_ok_def frames_ok_def owns_def cphys_def inj_on_def pg sel sys_of_fields)
qed

definition full_program :: sys where
  "full_program = sys_of (example_full (\<lambda>_. False)\<lparr>LRU := 0, tlb := None, pageTable := Some 0, pageTableSize := 45, registers := replicate 40 0\<rparr>) []"

text \<open>An allocator of core pages: one past the highest address in use.\<close>

definition paging_env :: env where
  "paging_env = example_env\<lparr>new := \<lambda>ob k. Suc (Max (insert 0 (dom (corePages k))))\<rparr>"

lemma paging_env_fresh: "fresh_core (new paging_env OCore)"
proof -
  have "Suc (Max (insert 0 A)) \<notin> A" if "finite A" for A :: "nat set"
    using Max_ge [of "insert 0 A" "Suc (Max (insert 0 A))"] that by (meson finite.insertI insertI2 not_less_eq_eq order_refl)
  then show ?thesis unfolding fresh_core_def paging_env_def by (auto simp: domIff)
qed

lemma full_program_ok: "user_ok [0..<32] 0 full_program" "user_size full_program 0 = 5760"
proof -
  let ?u = "example_full (\<lambda>_. False)"
  let ?v = "?u\<lparr>LRU := 0, tlb := None, pageTable := Some 0, pageTableSize := 45, registers := replicate 40 0\<rparr>"
  have f: "tlb full_program = None" "pageTable full_program = Some 0" "pageTableSize full_program = 45" "LRU full_program = 0"
    by (simp_all add: full_program_def sys_of_def vm.defs csys.defs sys.defs)
  have sv: "same_vm ?u ?v" by (simp add: same_vm_def)
  have inv: "vm_inv [0..<32] full_program" using vm_inv_same [OF sv] example_full_inv vm_inv_sys_of [of _ ?v] by (simp add: full_program_def)
  obtain junk b bm where pr: "example_process = created 0 0 0 0 1 junk b bm example_header example_boot" using example_created by blast
  have "tables example_process t = None" if "t \<noteq> 0" for t using that example_fields(2) unfolding pr by (simp add: created_def)
  then have w: "writable full_program" by (auto simp: writable_def full_program_def sys_of_fields example_full_def example_entry_def split: if_splits)
  have en: "Paging.entries full_program 0 = map (example_entry (\<lambda>_. False)) [0..<45]" "ptable full_program 0 = 0"
    using example_full_selectors(1,2) [of "\<lambda>_. False"] example_heap_objects(1) by (simp_all add: full_program_def ptable_def the_space_def Paging.entries_def sys_of_fields)
  have "dom (corePages full_program) \<subseteq> {..<32}" by (auto simp: full_program_def sys_of_fields example_full_def example_core_def split: if_splits)
  then have fin: "finite (dom (corePages full_program))" by (rule finite_subset) simp
  show "user_ok [0..<32] 0 full_program"
    using inv w en f example_full_thread(1,2) fin by (simp add: user_ok_def) (simp add: full_program_def sys_of_fields reg_def NumTotalRegs_def)
  show "user_size full_program 0 = 5760" by (simp add: user_size_def en)
qed

theorem paged_memory_is_array_witness:
  "\<exists>ps k. run_accesses (user_trap paging_env) [Store 4096 4 0xDEADBEEF, Store 0 1 7, Load 4098 2, Load 0 1] full_program = Some (Inr ([Some 0xDEADBEEF, Some 7, Some 0xDEAD, Some 7], k)) \<and>
     user_ok ps 0 k \<and> user_byte k 0 4099 = 0xDE"
proof -
  let ?ops = "[Store 4096 4 0xDEADBEEF, Store 0 1 7, Load 4098 2, Load 0 1]"
  have ok: "\<forall>op \<in> set ?ops. access_ok (user_size full_program 0) op" by (simp add: full_program_ok(2))
  have "flat_accesses ?ops (user_byte full_program 0) =
      ([0xDEADBEEF, 7, 0xDEAD, 7], flat_store 0 1 7 (flat_store 4096 4 0xDEADBEEF (user_byte full_program 0)))" by (simp add: flat_store_def bytes_value_def)
  from paged_memory_is_array [OF disjI1 [OF HOL.refl] full_program_ok(1) paging_env_fresh ok this]
  obtain ps k where "run_accesses (user_trap paging_env) ?ops full_program = Some (Inr ([Some 0xDEADBEEF, Some 7, Some 0xDEAD, Some 7], k))" "user_ok ps 0 k"
      "\<forall>x < user_size full_program 0. user_byte k 0 x = flat_store 0 1 7 (flat_store 4096 4 0xDEADBEEF (user_byte full_program 0)) x" by auto
  moreover from this(3) have "user_byte k 0 4099 = 0xDE" by (simp add: full_program_ok(2) flat_store_def)
  ultimately show ?thesis by blast
qed

end
