(* ===== verification/Post_Office.thy ===== *)
theory Post_Office
  imports Complex_Main Console_Device Rendezvous
begin

text \<open>
  The network device (\<^verbatim>\<open>src/code/machine/network.cc\<close>) and the post office (\<^verbatim>\<open>src/code/network/post.cc\<close>).

  A packet on the wire is 64 bytes: a packet header, a mail header and the data, each header being three 32-bit words of a little-endian host. The UNIX socket of a machine is the list of the packets that have
  been sent to it and not been read; a packet handed to UNIX goes to \<open>wire\<close> when the socket of its destination exists, and otherwise the assertion of \<open>SendToSocket\<close> (\<^verbatim>\<open>machine/sysdep.cc\<close>) fails. What the bytes of a fresh pbuf are is an argument. The first two parts have what the device and the post office do
  with packets and letters, as functions; the third part the routines on the state of a kernel. A mailbox is a \<open>SynchList\<close> of pointers to letters, run statement by statement as in \<open>Rendezvous\<close>.
\<close>

unbundle bit_operations_syntax

section \<open>Packets and the device\<close>

record PacketHeader =
  ph_to :: "32 word"
  ph_from :: "32 word"
  ph_length :: "32 word"

record MailHeader =
  mh_to :: "32 word"
  mh_from :: "32 word"
  mh_length :: "32 word"

definition HeaderSize :: nat where "HeaderSize = 12"
definition MaxWireSize :: nat where "MaxWireSize = 64"
definition MaxPacketSize :: nat where "MaxPacketSize = MaxWireSize - HeaderSize"
definition MaxMailSize :: nat where "MaxMailSize = MaxPacketSize - HeaderSize"
definition NetworkTime :: int where "NetworkTime = 100"

lemmas post_sizes = HeaderSize_def MaxWireSize_def MaxPacketSize_def MaxMailSize_def

definition packet_bytes :: "PacketHeader \<Rightarrow> 8 word list" where
  "packet_bytes h = word_bytes (ph_to h) @ word_bytes (ph_from h) @ word_bytes (ph_length h)"

definition packet_at :: "8 word list \<Rightarrow> PacketHeader" where
  "packet_at bs = \<lparr>ph_to = word_of_bytes bs 0, ph_from = word_of_bytes bs 4, ph_length = word_of_bytes bs 8\<rparr>"

definition mail_bytes :: "MailHeader \<Rightarrow> 8 word list" where
  "mail_bytes h = word_bytes (mh_to h) @ word_bytes (mh_from h) @ word_bytes (mh_length h)"

definition mail_at :: "8 word list \<Rightarrow> MailHeader" where
  "mail_at bs = \<lparr>mh_to = word_of_bytes bs 0, mh_from = word_of_bytes bs 4, mh_length = word_of_bytes bs 8\<rparr>"

definition bcopy :: "8 word list \<Rightarrow> 8 word list \<Rightarrow> nat \<Rightarrow> 8 word list res" where
  "bcopy src dst n = (if n \<le> length src \<and> n \<le> length dst then Inr (take n src @ drop n dst) else Inl OutOfBounds)"

record Network =
  ident :: "32 word"
  chanceToWork :: real
  sendBusy :: bool
  inHdr :: PacketHeader
  inbox :: "8 word list"
  sock :: "8 word list list"

text \<open>\<open>in0\<close> is what \<open>inHdr\<close> held and \<open>buf\<close> what \<open>inbox\<close> held before.\<close>

definition Network_new :: "PacketHeader \<Rightarrow> 8 word list \<Rightarrow> 32 word \<Rightarrow> real \<Rightarrow> Network" where
  "Network_new in0 buf addr reliability =
     \<lparr>ident = addr, chanceToWork = (if reliability < 0 then 0 else if reliability > 1 then 1 else reliability), sendBusy = False, inHdr = in0\<lparr>ph_length := 0\<rparr>, inbox = buf, sock = []\<rparr>"

text \<open>\<open>CheckPktAvail\<close> on the device, and whether it calls the read handler.\<close>

definition net_poll :: "Network \<Rightarrow> (bool \<times> Network) res" where
  "net_poll n =
     (if ph_length (inHdr n) \<noteq> 0 \<or> sock n = [] then Inr (False, n)
      else
        let pbuf = hd (sock n); h = packet_at pbuf; n = n\<lparr>sock := tl (sock n), inHdr := h\<rparr> in
        bindR (assertR (length pbuf = MaxWireSize)) (\<lambda>_.
        bindR (assertR (ph_to h = ident n \<and> ph_length h \<le> of_nat MaxPacketSize)) (\<lambda>_.
        bindR (bcopy (drop HeaderSize pbuf) (inbox n) (unat (ph_length h))) (\<lambda>b. Inr (True, n\<lparr>inbox := b\<rparr>)))))"

text \<open>\<open>Send\<close>: its assertion, whether the packet gets lost, and the buffer that goes out.\<close>

definition net_check :: "PacketHeader \<Rightarrow> Network \<Rightarrow> unit res" where
  "net_check h n = assertR (\<not> sendBusy n \<and> 0 < ph_length h \<and> ph_length h \<le> of_nat MaxPacketSize \<and> ph_from h = ident n)"

definition net_lost :: "int \<Rightarrow> Network \<Rightarrow> bool" where
  "net_lost r n \<longleftrightarrow> chanceToWork n * 100 \<le> of_int (r smod 100)"

definition net_packet :: "8 word list \<Rightarrow> PacketHeader \<Rightarrow> 8 word list \<Rightarrow> 8 word list res" where
  "net_packet buf h data = bindR (bcopy data (drop HeaderSize buf) (unat (ph_length h))) (\<lambda>b. Inr (packet_bytes h @ b))"

definition net_receive :: "8 word list \<Rightarrow> Network \<Rightarrow> (PacketHeader \<times> 8 word list \<times> Network) res" where
  "net_receive data n =
     (let h = inHdr n; n' = n\<lparr>inHdr := h\<lparr>ph_length := 0\<rparr>\<rparr> in
      if ph_length h \<noteq> 0 then bindR (bcopy (inbox n) data (unat (ph_length h))) (\<lambda>d. Inr (h, d, n')) else Inr (h, data, n'))"

section \<open>Letters\<close>

record Mail =
  m_pktHdr :: PacketHeader
  m_mailHdr :: MailHeader
  m_data :: "8 word list"

text \<open>The bytes of \<open>data\<close> after the first \<open>length\<close> ones are not initialised and never read: they are left out.\<close>

definition Mail_new :: "PacketHeader \<Rightarrow> MailHeader \<Rightarrow> 8 word list \<Rightarrow> Mail res" where
  "Mail_new pktH mailH msgData =
     bindR (assertR (mh_length mailH \<le> of_nat MaxMailSize)) (\<lambda>_.
       if unat (mh_length mailH) \<le> length msgData then Inr \<lparr>m_pktHdr = pktH, m_mailHdr = mailH, m_data = take (unat (mh_length mailH)) msgData\<rparr> else Inl OutOfBounds)"

text \<open>\<open>PostOffice::Send\<close> up to the lock: the packet header and the buffer given to the network.\<close>

definition post_message :: "8 word list \<Rightarrow> 32 word \<Rightarrow> int \<Rightarrow> PacketHeader \<Rightarrow> MailHeader \<Rightarrow> 8 word list \<Rightarrow> (PacketHeader \<times> 8 word list) res" where
  "post_message buf addr nBoxes pktHdr mailHdr data =
     bindR (assertR (mh_length mailHdr \<le> of_nat MaxMailSize)) (\<lambda>_.
     bindR (assertR (0 \<le> sint (mh_to mailHdr) \<and> sint (mh_to mailHdr) < nBoxes)) (\<lambda>_.
     bindR (bcopy data (drop HeaderSize buf) (unat (mh_length mailHdr))) (\<lambda>b.
       Inr (pktHdr\<lparr>ph_from := addr, ph_length := mh_length mailHdr + of_nat HeaderSize\<rparr>, mail_bytes mailHdr @ b))))"

text \<open>The part of an iteration of \<open>PostalDelivery\<close> after \<open>Receive\<close>: the mailbox and the letter.\<close>

definition sort_mail :: "int \<Rightarrow> PacketHeader \<Rightarrow> 8 word list \<Rightarrow> (nat \<times> Mail) res" where
  "sort_mail nBoxes pktHdr pbuf =
     (let mailHdr = mail_at pbuf in
      bindR (assertR (0 \<le> sint (mh_to mailHdr) \<and> sint (mh_to mailHdr) < nBoxes)) (\<lambda>_.
      bindR (assertR (mh_length mailHdr \<le> of_nat MaxMailSize)) (\<lambda>_.
      bindR (Mail_new pktHdr mailHdr (drop HeaderSize pbuf)) (\<lambda>m. Inr (nat (sint (mh_to mailHdr)), m)))))"

section \<open>The routines on the kernel\<close>

text \<open>A mailbox has the address of the lock of its list.\<close>

record psys = synch +
  net :: Network
  wire :: "(32 word \<times> 8 word list) list"
  socket_exists :: "32 word \<Rightarrow> bool"
  netAddr :: "32 word"
  numBoxes :: int
  boxes :: "nat \<Rightarrow> (nat \<times> SynchList) option"
  mails :: "nat \<Rightarrow> Mail option"
  messageAvailable :: nat
  messageSent :: nat
  sendLock :: nat

definition IncomingPacket :: "psys \<Rightarrow> psys res" where
  "IncomingPacket k = Semaphore_V (messageAvailable k) k"

definition PacketSent :: "psys \<Rightarrow> psys res" where
  "PacketSent k = Semaphore_V (messageSent k) k"

definition CheckPktAvail :: "psys \<Rightarrow> psys res" where
  "CheckPktAvail k =
     bindR (Schedule NetworkReadPoll 0 NetworkTime NetworkRecvInt k) (\<lambda>k.
     bindR (net_poll (net k)) (\<lambda>(got, n).
       if got then IncomingPacket (k\<lparr>net := n, stats := (stats k)\<lparr>numPacketsRecvd := numPacketsRecvd (stats k) + 1\<rparr>\<rparr>) else Inr k))"

definition SendDone :: "psys \<Rightarrow> psys res" where
  "SendDone k = PacketSent (k\<lparr>net := (net k)\<lparr>sendBusy := False\<rparr>, stats := (stats k)\<lparr>numPacketsSent := numPacketsSent (stats k) + 1\<rparr>\<rparr>)"

definition network_dispatch :: "irq \<Rightarrow> int \<Rightarrow> psys \<Rightarrow> psys res" where
  "network_dispatch h a k = (if h = NetworkReadPoll then CheckPktAvail k else if h = NetworkSendDone then SendDone k else Inl NullPointer)"

definition Network_Send :: "8 word list \<Rightarrow> PacketHeader \<Rightarrow> 8 word list \<Rightarrow> psys \<Rightarrow> psys res" where
  "Network_Send buf hdr data k =
     bindR (net_check hdr (net k)) (\<lambda>_.
     bindR (Schedule NetworkSendDone 0 NetworkTime NetworkSendInt k) (\<lambda>k.
       let r = rng k (rng_pos k); k = k\<lparr>rng_pos := Suc (rng_pos k)\<rparr> in
       if net_lost r (net k) then Inr k
       else bindR (net_packet buf hdr data) (\<lambda>p. bindR (assertR (socket_exists k (ph_to hdr))) (\<lambda>_. Inr (k\<lparr>wire := wire k @ [(ph_to hdr, p)]\<rparr>)))))"

definition Network_Receive :: "8 word list \<Rightarrow> psys \<Rightarrow> (PacketHeader \<times> 8 word list \<times> psys) res" where
  "Network_Receive data k = bindR (net_receive data (net k)) (\<lambda>(h, d, n). Inr (h, d, k\<lparr>net := n\<rparr>))"

definition get_box :: "int \<Rightarrow> psys \<Rightarrow> (nat \<times> SynchList) res" where
  "get_box b k = (if b < 0 then Inl OutOfBounds else case boxes k (nat b) of None \<Rightarrow> Inl OutOfBounds | Some x \<Rightarrow> Inr x)"

text \<open>A method of the list of mailbox \<open>b\<close> from statement \<open>p\<close> to its end; the value of a \<open>Remove\<close> is the pointer it has taken.\<close>

partial_function (option) run_list :: "(psys \<Rightarrow> psys res option) \<Rightarrow> int \<Rightarrow> sl_pc \<Rightarrow> psys \<Rightarrow> (nat \<times> psys) res option" where
  "run_list aw b p k =
     bindO (Some (get_box b k)) (\<lambda>(lk, m).
       case SynchList_code p m of
         Do m' p' \<Rightarrow> run_list aw b p' (k\<lparr>boxes := (boxes k)(nat b \<mapsto> (lk, m'))\<rparr>)
       | DoWait c p' \<Rightarrow> bindO (cond_wait aw c lk k) (run_list aw b p')
       | DoSignal c p' \<Rightarrow> bindO (Some (Signal c lk k)) (run_list aw b p')
       | DoRelease \<Rightarrow> bindO (Some (Release lk k)) (\<lambda>k. Some (Inr (case p of RemRelease item \<Rightarrow> item | _ \<Rightarrow> 0, k)))
       | DoAbort \<Rightarrow> Some (Inl AssertFail))"

definition call_list :: "(psys \<Rightarrow> psys res option) \<Rightarrow> int \<Rightarrow> sl_pc \<Rightarrow> psys \<Rightarrow> (nat \<times> psys) res option" where
  "call_list aw b p k = bindO (Some (get_box b k)) (\<lambda>(lk, _). bindO (acquire_wait aw lk k) (run_list aw b p))"

text \<open>\<open>a\<close> is the address of the new letter.\<close>

definition MailBox_Put :: "(psys \<Rightarrow> psys res option) \<Rightarrow> nat \<Rightarrow> int \<Rightarrow> Mail \<Rightarrow> psys \<Rightarrow> psys res option" where
  "MailBox_Put aw a b m k = bindO (call_list aw b (AppPut a) (k\<lparr>mails := (mails k)(a \<mapsto> m)\<rparr>)) (\<lambda>(_, k). Some (Inr k))"

definition MailBox_Get :: "(psys \<Rightarrow> psys res option) \<Rightarrow> int \<Rightarrow> psys \<Rightarrow> (Mail \<times> psys) res option" where
  "MailBox_Get aw b k =
     bindO (call_list aw b RemTest k) (\<lambda>(a, k). case mails k a of None \<Rightarrow> Some (Inl DanglingPointer) | Some m \<Rightarrow> Some (Inr (m, k\<lparr>mails := (mails k)(a := None)\<rparr>)))"

text \<open>An iteration of \<open>PostalDelivery\<close>, which keeps its buffer; and the loop, which has no end.\<close>

definition delivery_round :: "(psys \<Rightarrow> psys res option) \<Rightarrow> (psys \<Rightarrow> nat) \<Rightarrow> 8 word list \<Rightarrow> psys \<Rightarrow> (8 word list \<times> psys) res option" where
  "delivery_round aw fresh_addr pbuf k =
     bindO (P_wait aw (messageAvailable k) k) (\<lambda>k.
     bindO (Some (Network_Receive pbuf k)) (\<lambda>(pktHdr, pbuf, k).
     bindO (Some (sort_mail (numBoxes k) pktHdr pbuf)) (\<lambda>(b, m).
     bindO (MailBox_Put aw (fresh_addr k) (int b) m k) (\<lambda>k. Some (Inr (pbuf, k))))))"

partial_function (option) PostalDelivery :: "(psys \<Rightarrow> psys res option) \<Rightarrow> (psys \<Rightarrow> nat) \<Rightarrow> 8 word list \<Rightarrow> psys \<Rightarrow> psys res option" where
  "PostalDelivery aw fresh_addr pbuf k = bindO (delivery_round aw fresh_addr pbuf k) (\<lambda>(pbuf, k). PostalDelivery aw fresh_addr pbuf k)"

text \<open>The statements of \<open>PostOffice::Send\<close> from the lock on, and \<open>Send\<close> as a call that runs them to their end.\<close>

datatype send_stmt = S_Acquire | S_Send | S_P | S_Release

definition Send_code :: "send_stmt list" where "Send_code = [S_Acquire, S_Send, S_P, S_Release]"

fun run_send :: "(psys \<Rightarrow> psys res option) \<Rightarrow> 8 word list \<Rightarrow> send_stmt list \<Rightarrow> PacketHeader \<Rightarrow> 8 word list \<Rightarrow> psys \<Rightarrow> psys res option" where
  "run_send aw buf2 [] pktHdr pbuf k = Some (Inr k)"
| "run_send aw buf2 (S_Acquire # cs) pktHdr pbuf k = bindO (acquire_wait aw (sendLock k) k) (run_send aw buf2 cs pktHdr pbuf)"
| "run_send aw buf2 (S_Send # cs) pktHdr pbuf k = bindO (Some (Network_Send buf2 pktHdr pbuf k)) (run_send aw buf2 cs pktHdr pbuf)"
| "run_send aw buf2 (S_P # cs) pktHdr pbuf k = bindO (P_wait aw (messageSent k) k) (run_send aw buf2 cs pktHdr pbuf)"
| "run_send aw buf2 (S_Release # cs) pktHdr pbuf k = bindO (Some (Release (sendLock k) k)) (run_send aw buf2 cs pktHdr pbuf)"

definition PostOffice_Send :: "(psys \<Rightarrow> psys res option) \<Rightarrow> 8 word list \<Rightarrow> 8 word list \<Rightarrow> PacketHeader \<Rightarrow> MailHeader \<Rightarrow> 8 word list \<Rightarrow> psys \<Rightarrow> psys res option" where
  "PostOffice_Send aw buf buf2 pktHdr mailHdr data k =
     bindO (Some (post_message buf (netAddr k) (numBoxes k) pktHdr mailHdr data)) (\<lambda>(pktHdr, pbuf). run_send aw buf2 Send_code pktHdr pbuf k)"

definition PostOffice_Receive :: "(psys \<Rightarrow> psys res option) \<Rightarrow> int \<Rightarrow> psys \<Rightarrow> (Mail \<times> psys) res option" where
  "PostOffice_Receive aw b k =
     bindO (Some (assertR (0 \<le> b \<and> b < numBoxes k))) (\<lambda>_.
     bindO (MailBox_Get aw b k) (\<lambda>(m, k). bindO (Some (assertR (mh_length (m_mailHdr m) \<le> of_nat MaxMailSize))) (\<lambda>_. Some (Inr (m, k)))))"

text \<open>The constructor: \<open>av\<close>, \<open>sn\<close>, \<open>lk\<close> are the addresses of the semaphores and the lock, \<open>box i\<close> those of the lock and the condition of mailbox \<open>i\<close>; \<open>t\<close> is the postal worker, with lock \<open>wl\<close> and condition \<open>wc\<close>.\<close>

primrec new_boxes :: "(nat \<Rightarrow> nat \<times> nat) \<Rightarrow> nat \<Rightarrow> psys \<Rightarrow> psys" where
  "new_boxes box 0 k = k"
| "new_boxes box (Suc i) k = new_boxes box i (case box i of (l, c) \<Rightarrow>
     k\<lparr>locks := (locks k)(l \<mapsto> Lock_new), conds := (conds k)(c \<mapsto> Condition_new), boxes := (boxes k)(i \<mapsto> (l, SynchList_new c))\<rparr>)"

definition PostOffice_new :: "nat \<Rightarrow> nat \<Rightarrow> nat \<Rightarrow> (nat \<Rightarrow> nat \<times> nat) \<Rightarrow> PacketHeader \<Rightarrow> 8 word list \<Rightarrow> nat \<Rightarrow> Thread \<Rightarrow> nat \<Rightarrow> nat \<Rightarrow> 32 word \<Rightarrow> real \<Rightarrow> int \<Rightarrow> psys \<Rightarrow> psys res" where
  "PostOffice_new av sn lk box in0 buf t junk wl wc addr reliability nBoxes k =
     (let k = k\<lparr>sems := (sems k)(av \<mapsto> Semaphore_new 0, sn \<mapsto> Semaphore_new 0), locks := (locks k)(lk \<mapsto> Lock_new), messageAvailable := av, messageSent := sn, sendLock := lk,
        netAddr := addr, numBoxes := nBoxes, boxes := Map.empty\<rparr>;
        k = (new_boxes box (nat nBoxes) k)\<lparr>net := Network_new in0 buf addr reliability\<rparr> in
      bindR (Schedule NetworkReadPoll 0 NetworkTime NetworkRecvInt k) (\<lambda>k.
        Fork t (k\<lparr>threads := (threads k)(t \<mapsto> Thread_new junk ''postal worker'' 0 wl wc), locks := (locks k)(wl \<mapsto> Lock_new), conds := (conds k)(wc \<mapsto> Condition_new)\<rparr>)))"

primrec delete_boxes :: "nat \<Rightarrow> psys \<Rightarrow> psys res" where
  "delete_boxes 0 k = Inr k"
| "delete_boxes (Suc i) k =
     bindR (get_box (int i) k) (\<lambda>(l, m). bindR (SynchList_delete l m k) (\<lambda>k. delete_boxes i (k\<lparr>boxes := (boxes k)(i := None)\<rparr>)))"

definition PostOffice_delete :: "psys \<Rightarrow> psys res" where
  "PostOffice_delete k =
     bindR (delete_boxes (nat (numBoxes k)) k) (\<lambda>k.
     bindR (Semaphore_delete (messageAvailable k) k) (\<lambda>k.
     bindR (Semaphore_delete (messageSent k) k) (\<lambda>k. Lock_delete (sendLock k) k)))"

section \<open>Encoding and decoding\<close>

lemma length_bytes [simp]: "length (packet_bytes h) = HeaderSize" "length (mail_bytes g) = HeaderSize"
  by (simp_all add: packet_bytes_def mail_bytes_def HeaderSize_def)

lemma packet_at_bytes [simp]: "packet_at (packet_bytes h @ ys) = h"
  using word_of_bytes_shift [of "word_bytes (ph_to h)" 4 _ 0] word_of_bytes_shift [of "word_bytes (ph_to h) @ word_bytes (ph_from h)" 8 _ 0]
  by (cases h) (simp add: packet_at_def packet_bytes_def word_of_bytes_word_bytes)

lemma mail_at_bytes [simp]: "mail_at (mail_bytes h @ ys) = h"
  using word_of_bytes_shift [of "word_bytes (mh_to h)" 4 _ 0] word_of_bytes_shift [of "word_bytes (mh_to h) @ word_bytes (mh_from h)" 8 _ 0]
  by (cases h) (simp add: mail_at_def mail_bytes_def word_of_bytes_word_bytes)

end
