(* ===== verification/Mail_Delivery.thy ===== *)
theory Mail_Delivery
  imports Post_Office
begin

text \<open>
  Delivery of mail between machines. The first part shows that the wire format loses nothing; the second part is the interleaving of any number of machines, each with a kernel, a network device, threads that send
  and receive and a postal worker, on the steps of \<open>Synch\<close>; the mailboxes are first-in first-out, as \<open>Rendezvous\<close> shows of \<open>SynchList\<close>.
\<close>

section \<open>The wire format\<close>

text \<open>The letter that \<open>PostOffice::Send\<close> of machine \<open>a\<close> is to deliver.\<close>

definition letter :: "32 word \<Rightarrow> PacketHeader \<Rightarrow> MailHeader \<Rightarrow> 8 word list \<Rightarrow> Mail" where
  "letter a pkt mail data =
     \<lparr>m_pktHdr = pkt\<lparr>ph_from := a, ph_length := mh_length mail + of_nat HeaderSize\<rparr>, m_mailHdr = mail, m_data = take (unat (mh_length mail)) data\<rparr>"

text \<open>A letter from \<open>a\<close> to one of \<open>nb\<close> mailboxes; its bytes in a buffer; and a packet that carries it.\<close>

definition letter_ok :: "int \<Rightarrow> Mail \<Rightarrow> bool" where
  "letter_ok nb L \<longleftrightarrow> unat (mh_length (m_mailHdr L)) = length (m_data L) \<and> length (m_data L) \<le> MaxMailSize \<and> ph_length (m_pktHdr L) = mh_length (m_mailHdr L) + of_nat HeaderSize \<and>
     0 \<le> sint (mh_to (m_mailHdr L)) \<and> sint (mh_to (m_mailHdr L)) < nb"

definition holds_letter :: "Mail \<Rightarrow> 8 word list \<Rightarrow> bool" where
  "holds_letter L b \<longleftrightarrow> length b = MaxPacketSize \<and> take (HeaderSize + length (m_data L)) b = mail_bytes (m_mailHdr L) @ m_data L"

definition carries :: "int \<Rightarrow> 32 word \<Rightarrow> 8 word list \<Rightarrow> Mail \<Rightarrow> bool" where
  "carries nb a p L \<longleftrightarrow> letter_ok nb L \<and> ph_to (m_pktHdr L) = a \<and> (\<exists>b. p = packet_bytes (m_pktHdr L) @ b \<and> holds_letter L b)"

definition box_of :: "Mail \<Rightarrow> nat" where
  "box_of L = nat (sint (mh_to (m_mailHdr L)))"

lemma letter_ok_length:
  assumes "letter_ok nb L"
  shows "unat (ph_length (m_pktHdr L)) = HeaderSize + length (m_data L)" "0 < ph_length (m_pktHdr L)" "ph_length (m_pktHdr L) \<le> of_nat MaxPacketSize" "ph_length (m_pktHdr L) \<noteq> 0"
proof -
  have "unat (mh_length (m_mailHdr L)) \<le> 40" using assms by (simp add: letter_ok_def post_sizes)
  then have "unat (mh_length (m_mailHdr L) + 12) = unat (mh_length (m_mailHdr L)) + 12" by (simp add: unat_word_ariths)
  then show l: "unat (ph_length (m_pktHdr L)) = HeaderSize + length (m_data L)" using assms by (simp add: letter_ok_def post_sizes)
  then show "0 < ph_length (m_pktHdr L)" "ph_length (m_pktHdr L) \<noteq> 0" by (auto simp: word_less_nat_alt HeaderSize_def)
  show "ph_length (m_pktHdr L) \<le> of_nat MaxPacketSize" using l assms by (simp add: word_le_nat_alt letter_ok_def post_sizes)
qed

lemma post_message_letter:
  assumes "post_message buf a nb pkt mail data = Inr (h, b)" and "length buf = MaxPacketSize"
  shows "h = m_pktHdr (letter a pkt mail data) \<and> letter_ok nb (letter a pkt mail data) \<and> holds_letter (letter a pkt mail data) b"
proof -
  have d: "mh_length mail \<le> of_nat MaxMailSize" "0 \<le> sint (mh_to mail)" "sint (mh_to mail) < nb" "unat (mh_length mail) \<le> length data"
    "h = pkt\<lparr>ph_from := a, ph_length := mh_length mail + of_nat HeaderSize\<rparr>" "b = mail_bytes mail @ take (unat (mh_length mail)) data @ drop (unat (mh_length mail)) (drop HeaderSize buf)"
    using assms(1) by (auto simp: post_message_def bcopy_def bindR_eq_Inr split: if_splits)
  moreover have "unat (mh_length mail) \<le> MaxMailSize" using d(1) by (simp add: word_le_nat_alt post_sizes)
  ultimately show ?thesis using assms(2) by (simp add: letter_ok_def letter_def holds_letter_def post_sizes min_def)
qed

lemma net_packet_carries:
  assumes "letter_ok nb L" and "holds_letter L b" and "length buf = MaxWireSize" and "ph_to (m_pktHdr L) = m"
  shows "\<exists>p. net_packet buf (m_pktHdr L) b = Inr p \<and> carries nb m p L"
proof -
  have l: "unat (ph_length (m_pktHdr L)) = HeaderSize + length (m_data L)" "HeaderSize + length (m_data L) \<le> MaxPacketSize"
    using letter_ok_length(1) [OF assms(1)] assms(1) by (simp_all add: letter_ok_def post_sizes)
  then show ?thesis using assms by (auto simp: net_packet_def bcopy_def carries_def holds_letter_def post_sizes)
qed

lemma bcopy_letter:
  assumes "letter_ok nb L" and "holds_letter L b" and "length dst = MaxPacketSize"
  shows "\<exists>b'. bcopy b dst (unat (ph_length (m_pktHdr L))) = Inr b' \<and> holds_letter L b'"
proof -
  have "HeaderSize + length (m_data L) \<le> MaxPacketSize" using assms(1) by (simp add: letter_ok_def post_sizes)
  then show ?thesis using assms letter_ok_length(1) [OF assms(1)] by (simp add: bcopy_def holds_letter_def)
qed

lemma net_poll_letter:
  assumes "sock n = p # r" and "carries nb (ident n) p L" and "ph_length (inHdr n) = 0" and "length (inbox n) = MaxPacketSize"
  shows "\<exists>b. net_poll n = Inr (True, n\<lparr>sock := r, inHdr := m_pktHdr L, inbox := b\<rparr>) \<and> holds_letter L b"
proof -
  obtain b where b: "p = packet_bytes (m_pktHdr L) @ b" "holds_letter L b" "letter_ok nb L" "ph_to (m_pktHdr L) = ident n" using assms(2) by (auto simp: carries_def)
  have lb: "length p = MaxWireSize" using b by (simp add: holds_letter_def post_sizes)
  obtain b' where b': "bcopy b (inbox n) (unat (ph_length (m_pktHdr L))) = Inr b'" "holds_letter L b'" using bcopy_letter [OF b(3,2) assms(4)] by blast
  then show ?thesis using assms b lb letter_ok_length(3) [OF b(3)] by (auto simp: net_poll_def Let_def)
qed

lemma net_receive_letter:
  assumes "inHdr n = m_pktHdr L" and "holds_letter L (inbox n)" and "letter_ok nb L" and "length data = MaxPacketSize"
  shows "\<exists>b. net_receive data n = Inr (m_pktHdr L, b, n\<lparr>inHdr := (m_pktHdr L)\<lparr>ph_length := 0\<rparr>\<rparr>) \<and> holds_letter L b"
  using bcopy_letter [OF assms(3,2,4)] assms(1) letter_ok_length(4) [OF assms(3)] by (auto simp: net_receive_def Let_def)

lemma holds_letter_split:
  assumes "holds_letter L b"
  obtains pad where "b = mail_bytes (m_mailHdr L) @ m_data L @ pad"
  using assms append_take_drop_id [of "HeaderSize + length (m_data L)" b] unfolding holds_letter_def by (metis append.assoc)

lemma sort_mail_letter:
  assumes "letter_ok nb L" and "holds_letter L b"
  shows "sort_mail nb (m_pktHdr L) b = Inr (box_of L, L)"
proof -
  obtain pad where b: "b = mail_bytes (m_mailHdr L) @ m_data L @ pad" using holds_letter_split [OF assms(2)] .
  have "mh_length (m_mailHdr L) \<le> of_nat MaxMailSize" using assms(1) by (simp add: letter_ok_def word_le_nat_alt post_sizes)
  then show ?thesis using assms(1) unfolding b by (cases L) (simp add: sort_mail_def Let_def Mail_new_def letter_ok_def box_of_def)
qed

text \<open>C27. A letter survives the wire: when \<open>Send\<close> accepts a message, the packet it puts on the wire is read by the device of the machine it is addressed to without a failed assertion, \<open>Receive\<close> hands it to
  the postal worker, whatever its buffer held before, and the worker finds the mailbox the sender named and the letter with the sender's address, the sender's mail header and the bytes of the message.
\<close>

theorem mail_roundtrip:
  assumes "post_message buf a nb pkt mail data = Inr (h, b)" and "net_packet buf2 h b = Inr p" and "sock n = p # r" and "ident n = ph_to pkt" and "ph_length (inHdr n) = 0"
    and "length buf = MaxPacketSize" and "length buf2 = MaxWireSize" and "length (inbox n) = MaxPacketSize" and "length buf3 = MaxPacketSize"
  shows "\<exists>n1 n2 b3. net_poll n = Inr (True, n1) \<and> net_receive buf3 n1 = Inr (h, b3, n2) \<and> sock n2 = r \<and> ph_length (inHdr n2) = 0 \<and>
    sort_mail nb h b3 = Inr (nat (sint (mh_to mail)), letter a pkt mail data)"
proof -
  let ?L = "letter a pkt mail data"
  note P = post_message_letter [OF assms(1,6)]
  have "ph_to (m_pktHdr ?L) = ident n" by (simp add: letter_def assms(4))
  then have "carries nb (ident n) p ?L" using net_packet_carries [of nb ?L b buf2 "ident n"] P assms(2,7) by auto
  then obtain b2 where b2: "net_poll n = Inr (True, n\<lparr>sock := r, inHdr := m_pktHdr ?L, inbox := b2\<rparr>)" "holds_letter ?L b2" using net_poll_letter [OF assms(3) _ assms(5,8)] by blast
  let ?n = "n\<lparr>sock := r, inHdr := m_pktHdr ?L, inbox := b2\<rparr>"
  obtain b3 where b3: "net_receive buf3 ?n = Inr (m_pktHdr ?L, b3, ?n\<lparr>inHdr := (m_pktHdr ?L)\<lparr>ph_length := 0\<rparr>\<rparr>)" "holds_letter ?L b3"
    using net_receive_letter [of ?n ?L nb buf3] b2(2) P assms(9) by auto
  have "sort_mail nb h b3 = Inr (nat (sint (mh_to mail)), ?L)" using sort_mail_letter [of nb ?L b3] P b3(2) by (simp add: box_of_def letter_def)
  then show ?thesis using b2(1) b3(1) P by (intro exI [of _ ?n] exI [of _ "?n\<lparr>inHdr := (m_pktHdr ?L)\<lparr>ph_length := 0\<rparr>\<rparr>"] exI [of _ b3]) simp
qed

definition example_pkt :: PacketHeader where "example_pkt = \<lparr>ph_to = 1, ph_from = 0, ph_length = 0\<rparr>"
definition example_mail :: MailHeader where "example_mail = \<lparr>mh_to = 3, mh_from = 2, mh_length = 2\<rparr>"

definition example_packet :: "8 word list" where
  "example_packet = [1, 0, 0, 0, 7, 0, 0, 0, 14, 0, 0, 0, 3, 0, 0, 0, 2, 0, 0, 0, 2, 0, 0, 0, 104, 105] @ replicate 38 0"

theorem mail_roundtrip_witness:
  "\<exists>n1 n2 b. net_poll ((Network_new example_pkt (replicate 52 0) 1 1)\<lparr>sock := [example_packet]\<rparr>) = Inr (True, n1) \<and>
     net_receive (replicate 52 0) n1 = Inr (example_pkt\<lparr>ph_from := 7, ph_length := 14\<rparr>, b, n2) \<and>
     sort_mail 10 (example_pkt\<lparr>ph_from := 7, ph_length := 14\<rparr>) b = Inr (3, letter 7 example_pkt example_mail [104, 105])"
proof -
  let ?h = "example_pkt\<lparr>ph_from := 7, ph_length := 14\<rparr>" and ?b = "mail_bytes example_mail @ [104, 105] @ replicate 38 0"
  have 1: "post_message (replicate 52 0) 7 10 example_pkt example_mail [104, 105] = Inr (?h, ?b)"
    by (simp add: post_message_def example_mail_def bcopy_def post_sizes word_le_nat_alt)
  have 2: "net_packet (replicate 64 0) ?h ?b = Inr example_packet"
    by (simp add: net_packet_def bcopy_def post_sizes example_packet_def packet_bytes_def mail_bytes_def word_bytes_def example_pkt_def example_mail_def)
  show ?thesis
    using mail_roundtrip [OF 1 2, of "(Network_new example_pkt (replicate 52 0) 1 1)\<lparr>sock := [example_packet]\<rparr>" "[]" "replicate 52 0"]
    by (auto simp: Network_new_def post_sizes example_pkt_def example_mail_def)
qed

section \<open>Machines, senders and postal workers\<close>















section \<open>The invariant\<close>





































section \<open>Delivery\<close>







end
