(* ===== verification/Disk.thy ===== *)
theory Disk
  imports Interrupts
begin

text \<open>
  The simulated disk (\<^verbatim>\<open>src/code/machine/disk.cc\<close>, \<^verbatim>\<open>disk.h\<close>) and its synchronous interface (\<^verbatim>\<open>src/code/filesys/synchdisk.cc\<close>).

  The UNIX file behind the disk is a list of bytes: a magic number, then 1024 sectors of 128 bytes. A request moves the data at once and schedules the
  interrupt that reports its completion after the latency of the disk. The synchronous interface waits for it: the file system runs in one
  thread, so the processor idles meanwhile (\<open>Interrupt::Idle\<close>), and the lock of the interface is free when a call starts. For a client the two calls
  read and write an array of sectors; that is the locale \<open>sector_store\<close>.
\<close>

section \<open>The device\<close>

definition SectorsPerTrack :: int where "SectorsPerTrack = 32"
definition NumTracks :: int where "NumTracks = 32"
definition NumSectors :: int where "NumSectors = SectorsPerTrack * NumTracks"
definition DiskSectorSize :: nat where "DiskSectorSize = 128"
definition RotationTime :: int where "RotationTime = 500"
definition SeekTime :: int where "SeekTime = 500"

definition MagicBytes :: "8 word list" where "MagicBytes = [0xab, 0x89, 0x67, 0x45]"
definition MagicSize :: nat where "MagicSize = 4"
definition DiskSize :: nat where "DiskSize = MagicSize + nat NumSectors * DiskSectorSize"

lemmas disk_constants [simp] = SectorsPerTrack_def NumTracks_def NumSectors_def DiskSectorSize_def RotationTime_def SeekTime_def MagicSize_def DiskSize_def

record Disk =
  d_file :: "8 word list"
  active :: bool
  lastSector :: int
  bufferInit :: int

record dsys = isys +
  disk :: Disk
  sd_lock :: bool
  sd_value :: nat

text \<open>The constructor: the file is checked when it exists and created otherwise.\<close>

definition Disk_new :: "8 word list option \<Rightarrow> Disk res" where
  "Disk_new unix_file =
     bindR (case unix_file of
        Some c \<Rightarrow> bindR (assertR (length c \<ge> MagicSize)) (\<lambda>_. bindR (assertR (take MagicSize c = MagicBytes)) (\<lambda>_. Inr c))
      | None \<Rightarrow> Inr (MagicBytes @ replicate (DiskSize - MagicSize) 0)) (\<lambda>c.
     Inr \<lparr>d_file = c, active = False, lastSector = 0, bufferInit = 0\<rparr>)"

text \<open>\<open>TimeToSeek\<close> returns the seek time and the rotation up to the next sector boundary.\<close>

definition TimeToSeek :: "int \<Rightarrow> 'm dsys_scheme \<Rightarrow> int \<times> int" where
  "TimeToSeek newSector k =
     (let newTrack = newSector sdiv SectorsPerTrack;
          oldTrack = lastSector (disk k) sdiv SectorsPerTrack;
          seek = \<bar>newTrack - oldTrack\<bar> * SeekTime;
          over = (totalTicks (stats k) + seek) smod RotationTime
      in (seek, if over > 0 then RotationTime - over else 0))"

definition ModuloDiff :: "int \<Rightarrow> int \<Rightarrow> int" where
  "ModuloDiff to from =
     (let toOffset = to smod SectorsPerTrack; fromOffset = from smod SectorsPerTrack
      in ((toOffset - fromOffset) + SectorsPerTrack) smod SectorsPerTrack)"

definition ComputeLatency :: "int \<Rightarrow> bool \<Rightarrow> 'm dsys_scheme \<Rightarrow> int" where
  "ComputeLatency newSector writing k =
     (let (seek, rotation) = TimeToSeek newSector k;
          timeAfter = totalTicks (stats k) + seek + rotation
      in if \<not> writing \<and> seek = 0 \<and>
            (timeAfter - bufferInit (disk k)) sdiv RotationTime > ModuloDiff newSector (bufferInit (disk k) sdiv RotationTime)
         then RotationTime
         else seek + (rotation + ModuloDiff newSector (timeAfter sdiv RotationTime) * RotationTime) + RotationTime)"

definition UpdateLast :: "int \<Rightarrow> 'm dsys_scheme \<Rightarrow> 'm dsys_scheme" where
  "UpdateLast newSector k =
     (let (seek, rotate) = TimeToSeek newSector k;
          d = disk k;
          d = (if seek \<noteq> 0 then d\<lparr>bufferInit := totalTicks (stats k) + seek + rotate\<rparr> else d)
      in k\<lparr>disk := d\<lparr>lastSector := newSector\<rparr>\<rparr>)"

text \<open>\<open>Lseek\<close> and \<open>Read\<close> of a sector: \<open>Read\<close> stops unless it gets all the bytes. \<open>Lseek\<close> and \<open>WriteFile\<close> of a sector.\<close>

definition sector_pos :: "int \<Rightarrow> nat" where "sector_pos n = DiskSectorSize * nat n + MagicSize"

definition read_sector_at :: "int \<Rightarrow> 8 word list \<Rightarrow> 8 word list res" where
  "read_sector_at n c = bindR (assertR (sector_pos n + DiskSectorSize \<le> length c)) (\<lambda>_. Inr (take DiskSectorSize (drop (sector_pos n) c)))"

definition write_sector_at :: "int \<Rightarrow> 8 word list \<Rightarrow> 8 word list \<Rightarrow> 8 word list" where
  "write_sector_at n data c =
     (let c = c @ replicate (sector_pos n + DiskSectorSize - length c) 0
      in take (sector_pos n) c @ take DiskSectorSize data @ drop (sector_pos n + DiskSectorSize) c)"

definition ReadRequest :: "int \<Rightarrow> 'm dsys_scheme \<Rightarrow> (8 word list \<times> 'm dsys_scheme) res" where
  "ReadRequest sectorNumber k =
     (let ticks = ComputeLatency sectorNumber False k in
      bindR (assertR (\<not> active (disk k))) (\<lambda>_.
      bindR (assertR (0 \<le> sectorNumber \<and> sectorNumber < NumSectors)) (\<lambda>_.
      bindR (read_sector_at sectorNumber (d_file (disk k))) (\<lambda>data.
        let k = UpdateLast sectorNumber (k\<lparr>disk := (disk k)\<lparr>active := True\<rparr>\<rparr>);
            k = k\<lparr>stats := (stats k)\<lparr>numDiskReads := numDiskReads (stats k) + 1\<rparr>\<rparr>
        in bindR (Schedule DiskDone 0 ticks DiskInt k) (\<lambda>k. Inr (data, k))))))"

definition WriteRequest :: "int \<Rightarrow> 8 word list \<Rightarrow> 'm dsys_scheme \<Rightarrow> 'm dsys_scheme res" where
  "WriteRequest sectorNumber data k =
     (let ticks = ComputeLatency sectorNumber True k in
      bindR (assertR (\<not> active (disk k))) (\<lambda>_.
      bindR (assertR (0 \<le> sectorNumber \<and> sectorNumber < NumSectors)) (\<lambda>_.
      bindR (assertR (length data \<ge> DiskSectorSize)) (\<lambda>_.
        let k = UpdateLast sectorNumber (k\<lparr>disk := (disk k)\<lparr>active := True, d_file := write_sector_at sectorNumber data (d_file (disk k))\<rparr>\<rparr>);
            k = k\<lparr>stats := (stats k)\<lparr>numDiskWrites := numDiskWrites (stats k) + 1\<rparr>\<rparr>
        in Schedule DiskDone 0 ticks DiskInt k))))"

section \<open>The synchronous interface\<close>

text \<open>\<open>RequestDone\<close> is the handler that \<open>HandleInterrupt\<close> calls.\<close>

definition RequestDone :: "'m dsys_scheme \<Rightarrow> 'm dsys_scheme" where
  "RequestDone k = k\<lparr>sd_value := Suc (sd_value k)\<rparr>"

definition HandleInterrupt :: "'m dsys_scheme \<Rightarrow> 'm dsys_scheme" where
  "HandleInterrupt k = RequestDone (k\<lparr>disk := (disk k)\<lparr>active := False\<rparr>\<rparr>)"

definition disk_dispatch :: "irq \<Rightarrow> int \<Rightarrow> 'm dsys_scheme \<Rightarrow> 'm dsys_scheme res" where
  "disk_dispatch h a k = (if h = DiskDone then Inr (HandleInterrupt k) else Inl NullPointer)"

text \<open>\<open>semaphore->P()\<close>: with value 0 the only thread sleeps, with interrupts off, and the processor idles until an interrupt.\<close>

definition wait_for_interrupt :: "'m dsys_scheme \<Rightarrow> 'm dsys_scheme res option" where
  "wait_for_interrupt k =
     bindO (if sd_value k = 0
            then bindO (Idle Inr disk_dispatch (k\<lparr>level := IntOff\<rparr>)) (\<lambda>k'. Some (Inr (k'\<lparr>level := level k\<rparr>)))
            else Some (Inr k)) (\<lambda>k.
     bindO (Some (assertR (sd_value k > 0))) (\<lambda>_. Some (Inr (k\<lparr>sd_value := sd_value k - 1\<rparr>))))"

definition SynchDisk_new :: "8 word list option \<Rightarrow> isys \<Rightarrow> dsys res" where
  "SynchDisk_new unix_file s = bindR (Disk_new unix_file) (\<lambda>d. Inr (isys.extend s (dsys.fields d False 0)))"

definition ReadSector :: "int \<Rightarrow> 'm dsys_scheme \<Rightarrow> (8 word list \<times> 'm dsys_scheme) res option" where
  "ReadSector sectorNumber k =
     bindO (Some (assertR (\<not> sd_lock k))) (\<lambda>_.
     bindO (Some (ReadRequest sectorNumber (k\<lparr>sd_lock := True\<rparr>))) (\<lambda>(data, k).
     bindO (wait_for_interrupt k) (\<lambda>k.
     Some (Inr (data, k\<lparr>sd_lock := False\<rparr>)))))"

definition WriteSector :: "int \<Rightarrow> 8 word list \<Rightarrow> 'm dsys_scheme \<Rightarrow> 'm dsys_scheme res option" where
  "WriteSector sectorNumber data k =
     bindO (Some (assertR (\<not> sd_lock k))) (\<lambda>_.
     bindO (Some (WriteRequest sectorNumber data (k\<lparr>sd_lock := True\<rparr>))) (\<lambda>k.
     bindO (wait_for_interrupt k) (\<lambda>k.
     Some (Inr (k\<lparr>sd_lock := False\<rparr>)))))"

section \<open>Latency\<close>

lemma ModuloDiff_mod: "0 \<le> to \<Longrightarrow> 0 \<le> from \<Longrightarrow> ModuloDiff to from = (to - from) mod 32"
proof -
  assume "0 \<le> to" "0 \<le> from"
  then have "ModuloDiff to from = (to mod 32 - from mod 32 + 32) smod 32" by (simp add: ModuloDiff_def Let_def)
  also have "\<dots> = (to mod 32 - from mod 32 + 32) mod 32"
    by (rule smod_nonneg) (simp_all add: add_increasing pos_mod_bound less_imp_le order_trans [OF less_imp_le [OF pos_mod_bound]])
  also have "\<dots> = (to - from) mod 32" by (simp add: mod_diff_eq)
  finally show ?thesis .
qed

definition head_ok :: "'m dsys_scheme \<Rightarrow> bool" where
  "head_ok k \<longleftrightarrow> 0 \<le> totalTicks (stats k) \<and> 0 \<le> lastSector (disk k) \<and> lastSector (disk k) < NumSectors \<and> 0 \<le> bufferInit (disk k)"

lemma seek_bounds:
  assumes "head_ok k" and "0 \<le> n" and "n < NumSectors" and "TimeToSeek n k = (seek, rot)"
  shows "0 \<le> seek" "seek \<le> 15500" "0 \<le> rot" "rot < 500" "(totalTicks (stats k) + seek + rot) mod 500 = 0"
proof -
  have "0 \<le> n div 32" "n div 32 < 32" "0 \<le> lastSector (disk k) div 32" "lastSector (disk k) div 32 < 32" using assms(1-3) by (auto simp: head_ok_def)
  then have "\<bar>n div 32 - lastSector (disk k) div 32\<bar> \<le> 31" by linarith
  moreover have seek: "seek = \<bar>n div 32 - lastSector (disk k) div 32\<bar> * 500" using assms by (auto simp: TimeToSeek_def head_ok_def Let_def)
  ultimately show s: "0 \<le> seek" "seek \<le> 15500" by simp_all
  have rot: "rot = (if (totalTicks (stats k) + seek) mod 500 > 0 then 500 - (totalTicks (stats k) + seek) mod 500 else 0)"
    using assms s(1) seek by (auto simp: TimeToSeek_def head_ok_def Let_def)
  have "(totalTicks (stats k) + seek) mod 500 < 500" "0 \<le> (totalTicks (stats k) + seek) mod 500" by simp_all
  then show "0 \<le> rot" "rot < 500" using rot by auto
  have "(t + (if t mod 500 > 0 then 500 - t mod 500 else 0)) mod 500 = 0" for t :: int by presburger
  then show "(totalTicks (stats k) + seek + rot) mod 500 = 0" unfolding rot by blast
qed

lemma latency_cases:
  assumes ok: "head_ok k" and n: "0 \<le> n" "n < NumSectors" and t: "TimeToSeek n k = (seek, rot)"
  shows "ComputeLatency n writing k = 500 \<and> \<not> writing \<or>
    ComputeLatency n writing k = seek + (rot + (n - (totalTicks (stats k) + seek + rot) div 500) mod 32 * 500) + 500"
proof -
  note b = seek_bounds [OF ok n t]
  have "0 \<le> totalTicks (stats k)" using ok by (simp add: head_ok_def)
  then have d: "ModuloDiff n ((totalTicks (stats k) + seek + rot) sdiv RotationTime) = (n - (totalTicks (stats k) + seek + rot) div 500) mod 32"
    using ModuloDiff_mod [of n "(totalTicks (stats k) + seek + rot) div 500"] n b(1,3) by simp
  show ?thesis unfolding ComputeLatency_def t Let_def prod.case d by simp
qed

lemma latency_positive:
  assumes "head_ok k" and "0 \<le> n" and "n < NumSectors"
  shows "500 \<le> ComputeLatency n writing k \<and> ComputeLatency n writing k < 32000"
proof -
  obtain seek rot where t: "TimeToSeek n k = (seek, rot)" by (cases "TimeToSeek n k")
  note b = seek_bounds [OF assms t]
  have "0 \<le> (n - (totalTicks (stats k) + seek + rot) div 500) mod 32" "(n - (totalTicks (stats k) + seek + rot) div 500) mod 32 < 32" by simp_all
  then show ?thesis using latency_cases [OF assms t, of writing] b(1-4) by linarith
qed

text \<open>Disk latency: a request takes at least the transfer of a sector (500 ticks) and less than 32000 ticks, so that the completion interrupt always lies in
  the future; unless the track buffer serves the request, the transfer starts at a sector boundary with the head over the sector asked for.\<close>

theorem latency_correct:
  assumes ok: "head_ok k" and n: "0 \<le> n" "n < NumSectors"
  shows "RotationTime \<le> ComputeLatency n writing k \<and> ComputeLatency n writing k < 32000 \<and>
    (ComputeLatency n writing k = RotationTime \<and> \<not> writing \<or>
     (let start = totalTicks (stats k) + ComputeLatency n writing k - RotationTime in start mod RotationTime = 0 \<and> (start div RotationTime) mod 32 = n mod 32))"
proof -
  obtain seek rot where t: "TimeToSeek n k = (seek, rot)" by (cases "TimeToSeek n k")
  note b = seek_bounds [OF ok n t]
  let ?after = "totalTicks (stats k) + seek + rot"
  let ?m = "(n - ?after div 500) mod 32"
  consider (buf) "ComputeLatency n writing k = 500" "\<not> writing" | (disk) "ComputeLatency n writing k = seek + (rot + ?m * 500) + 500"
    using latency_cases [OF ok n t, of writing] by blast
  then show ?thesis
  proof cases
    case disk
    have e: "totalTicks (stats k) + ComputeLatency n writing k - RotationTime = ?after + ?m * 500" using disk by simp
    have "(?after + ?m * 500) div 500 = ?after div 500 + ?m" by simp
    moreover have "(?after div 500 + ?m) mod 32 = n mod 32" by (simp add: mod_add_right_eq)
    moreover have "(?after + ?m * 500) mod 500 = 0" using b(5) by simp
    ultimately have "let start = totalTicks (stats k) + ComputeLatency n writing k - RotationTime in start mod RotationTime = 0 \<and> (start div RotationTime) mod 32 = n mod 32"
      unfolding e Let_def by (simp add: add.commute)
    then show ?thesis using latency_positive [OF ok n, of writing] by simp
  qed (use latency_positive [OF ok n, of writing] in simp)
qed

definition example_head :: dsys where
  "example_head = isys.extend (Interrupt_new (\<lambda>n. 0)) (dsys.fields \<lparr>d_file = [], active = False, lastSector = 0, bufferInit = 0\<rparr> False 0)"

theorem latency_correct_witness:
  "ComputeLatency 100 True example_head = 2500 \<and> (let start = totalTicks (stats example_head) + 2500 - RotationTime in (start div RotationTime) mod 32 = 100 mod 32)"
proof -
  have h: "head_ok example_head" by (simp add: head_ok_def example_head_def isys.defs dsys.defs Interrupt_new_def Statistics_new_def)
  have "ComputeLatency 100 True example_head = 2500"
    by (simp add: ComputeLatency_def TimeToSeek_def ModuloDiff_def example_head_def isys.defs dsys.defs Interrupt_new_def Statistics_new_def Let_def)
  then show ?thesis using latency_correct [OF h, of 100 True] by (simp add: Let_def)
qed

section \<open>The disk as an array of sectors\<close>

definition sector :: "'m dsys_scheme \<Rightarrow> int \<Rightarrow> 8 word list" where
  "sector k n = take 128 (drop (sector_pos n) (d_file (disk k)))"

text \<open>The state between two calls: no request is active, no interrupt is pending.\<close>

definition disk_ready :: "'m dsys_scheme \<Rightarrow> bool" where
  "disk_ready k \<longleftrightarrow> length (d_file (disk k)) = DiskSize \<and> \<not> active (disk k) \<and> pending k = [] \<and> \<not> sd_lock k \<and> sd_value k = 0 \<and> head_ok k"

lemma sector_length: "disk_ready k \<Longrightarrow> 0 \<le> n \<Longrightarrow> n < NumSectors \<Longrightarrow> length (sector k n) = 128"
  by (simp add: sector_def disk_ready_def sector_pos_def)

text \<open>The interrupt of the request that has just been scheduled ends the wait.\<close>

lemma wait_one:
  assumes "pending k = [(w, PendingInterrupt_new DiskDone 0 w DiskInt)]" and "sd_value k = 0"
  shows "\<exists>s st. wait_for_interrupt k = Some (Inr (k\<lparr>pending := [], disk := (disk k)\<lparr>active := False\<rparr>, sd_value := 0, stats := s, status := st, inHandler := False,
    yieldOnReturn := False\<rparr>)) \<and> totalTicks s \<ge> totalTicks (stats k)"
proof -
  let ?s = "if w > totalTicks (stats k) then (stats k)\<lparr>idleTicks := idleTicks (stats k) + (w - totalTicks (stats k)), totalTicks := w\<rparr> else stats k"
  have "wait_for_interrupt k = Some (Inr (k\<lparr>pending := [], disk := (disk k)\<lparr>active := False\<rparr>, sd_value := 0, stats := ?s, status := SystemMode, inHandler := False,
    yieldOnReturn := False\<rparr>))"
    using assms by (simp add: wait_for_interrupt_def Idle_def CheckIfDue_def fire_due.simps PendingInterrupt_new_def disk_dispatch_def HandleInterrupt_def
        RequestDone_def Let_def)
  then show ?thesis by fastforce
qed

lemma UpdateLast_state:
  assumes "head_ok k" and "0 \<le> n" and "n < NumSectors"
  shows "\<exists>b. UpdateLast n k = k\<lparr>disk := (disk k)\<lparr>bufferInit := b, lastSector := n\<rparr>\<rparr> \<and> 0 \<le> b"
proof -
  obtain seek rot where t: "TimeToSeek n k = (seek, rot)" by (cases "TimeToSeek n k")
  have "0 \<le> totalTicks (stats k) + seek + rot" using seek_bounds [OF assms t] assms(1) by (simp add: head_ok_def)
  moreover have "0 \<le> bufferInit (disk k)" using assms(1) by (simp add: head_ok_def)
  ultimately show ?thesis using t by (cases "seek = 0") (auto simp: UpdateLast_def intro: exI [of _ "bufferInit (disk k)"])
qed

text \<open>The common part of the two calls: from the request to the end of the wait, with the contents \<open>c\<close> of the disk.\<close>

lemma request_done:
  assumes rdy: "disk_ready k" and n: "0 \<le> n" "n < NumSectors" and c: "length c = DiskSize"
    and k1: "k1 = UpdateLast n (k\<lparr>sd_lock := True, disk := (disk k)\<lparr>active := True, d_file := c\<rparr>\<rparr>)" and s: "totalTicks s = totalTicks (stats k)"
  shows "\<exists>k2 k'. Schedule DiskDone 0 (ComputeLatency n wr (k\<lparr>sd_lock := True\<rparr>)) DiskInt (k1\<lparr>stats := s\<rparr>) = Inr k2 \<and> wait_for_interrupt k2 = Some (Inr k') \<and>
    disk_ready (k'\<lparr>sd_lock := False\<rparr>) \<and> d_file (disk k') = c \<and> dsys.more k' = dsys.more k"
proof -
  have h: "head_ok k" and h': "head_ok (k\<lparr>sd_lock := True\<rparr>)" and h1: "head_ok (k\<lparr>sd_lock := True, disk := (disk k)\<lparr>active := True, d_file := c\<rparr>\<rparr>)"
    using rdy by (simp_all add: disk_ready_def head_ok_def)
  obtain b where b: "k1 = k\<lparr>sd_lock := True, disk := (disk k)\<lparr>active := True, d_file := c, bufferInit := b, lastSector := n\<rparr>\<rparr>" "0 \<le> b"
    using UpdateLast_state [OF h1 n] k1 by auto
  let ?t = "ComputeLatency n wr (k\<lparr>sd_lock := True\<rparr>)"
  have "0 < ?t" using seek_bounds [OF h' n] latency_positive [OF h' n, of wr] by simp
  let ?k2 = "k1\<lparr>stats := s, pending := [(totalTicks s + ?t, PendingInterrupt_new DiskDone 0 (totalTicks s + ?t) DiskInt)]\<rparr>"
  have run: "Schedule DiskDone 0 ?t DiskInt (k1\<lparr>stats := s\<rparr>) = Inr ?k2"
    using rdy \<open>0 < ?t\<close> b(1) by (simp add: Schedule_def disk_ready_def Let_def)
  have v: "sd_value ?k2 = 0" "pending ?k2 = [(totalTicks s + ?t, PendingInterrupt_new DiskDone 0 (totalTicks s + ?t) DiskInt)]"
    using rdy b(1) by (simp_all add: disk_ready_def)
  obtain s' st where w: "wait_for_interrupt ?k2 = Some (Inr (?k2\<lparr>pending := [], disk := (disk ?k2)\<lparr>active := False\<rparr>, sd_value := 0, stats := s', status := st,
      inHandler := False, yieldOnReturn := False\<rparr>))" "totalTicks s' \<ge> totalTicks (stats ?k2)" using wait_one [OF v(2,1)] by blast
  then show ?thesis using run rdy b c n h s by (auto simp: disk_ready_def head_ok_def)
qed

lemma ReadSector_ok:
  assumes rdy: "disk_ready k" and n: "0 \<le> n" "n < NumSectors"
  shows "\<exists>k'. ReadSector n k = Some (Inr (sector k n, k')) \<and> disk_ready k' \<and> d_file (disk k') = d_file (disk k) \<and> dsys.more k' = dsys.more k"
proof -
  have len: "length (d_file (disk k)) = DiskSize" using rdy by (simp add: disk_ready_def)
  let ?k1 = "UpdateLast n (k\<lparr>sd_lock := True, disk := (disk k)\<lparr>active := True, d_file := d_file (disk k)\<rparr>\<rparr>)"
  let ?s = "(stats ?k1)\<lparr>numDiskReads := numDiskReads (stats ?k1) + 1\<rparr>"
  have st: "totalTicks ?s = totalTicks (stats k)" by (simp add: UpdateLast_def Let_def split: prod.split)
  obtain k2 k' where r: "Schedule DiskDone 0 (ComputeLatency n False (k\<lparr>sd_lock := True\<rparr>)) DiskInt (?k1\<lparr>stats := ?s\<rparr>) = Inr k2"
    "wait_for_interrupt k2 = Some (Inr k')" "disk_ready (k'\<lparr>sd_lock := False\<rparr>)" "d_file (disk k') = d_file (disk k)" "dsys.more k' = dsys.more k"
    using request_done [OF rdy n len HOL.refl st, of False] by blast
  have pos: "sector_pos n + DiskSectorSize \<le> length (d_file (disk k))" using n len by (simp add: sector_pos_def)
  have f: "(disk k)\<lparr>active := True, d_file := d_file (disk k)\<rparr> = (disk k)\<lparr>active := True\<rparr>" by simp
  have "ReadSector n k = Some (Inr (sector k n, k'\<lparr>sd_lock := False\<rparr>))"
    using rdy n pos r(1,2) unfolding ReadSector_def ReadRequest_def read_sector_at_def Let_def f
    by (simp add: disk_ready_def sector_def)
  then show ?thesis using r(3-5) by simp
qed

lemma take_drop_before:
  assumes "p + n \<le> q" and "q \<le> length c"
  shows "take n (drop p (take q c @ r)) = take n (drop p c)"
proof -
  have "drop p (take q c @ r) = take (q - p) (drop p c) @ r" using assms by (simp add: drop_take)
  moreover have "n \<le> length (take (q - p) (drop p c))" using assms by simp
  ultimately show ?thesis using assms by (simp add: min_def)
qed

lemma sector_write:
  assumes c: "length c = DiskSize" and n: "0 \<le> n" "n < NumSectors" and m: "0 \<le> m" "m < NumSectors" and d: "length data = 128"
  shows "take 128 (drop (sector_pos m) (write_sector_at n data c)) = (if m = n then data else take 128 (drop (sector_pos m) c))"
    "length (write_sector_at n data c) = DiskSize"
proof -
  have w: "write_sector_at n data c = take (sector_pos n) c @ data @ drop (sector_pos n + 128) c"
    using c n d by (simp add: write_sector_at_def sector_pos_def Let_def)
  have pn: "sector_pos n + 128 \<le> length c" and pm: "sector_pos m + 128 \<le> length c" using n m c by (simp_all add: sector_pos_def)
  then show l: "length (write_sector_at n data c) = DiskSize" using w c d by simp
  consider "m = n" | "sector_pos m + 128 \<le> sector_pos n" | "sector_pos n + 128 \<le> sector_pos m"
    using n m by (cases m n rule: linorder_cases) (auto simp: sector_pos_def)
  then show "take 128 (drop (sector_pos m) (write_sector_at n data c)) = (if m = n then data else take 128 (drop (sector_pos m) c))"
  proof cases
    case 1
    then show ?thesis using pn d unfolding w by simp
  next
    case 2
    then have "m \<noteq> n" by auto
    moreover have "sector_pos n \<le> length c" using pn by simp
    ultimately show ?thesis using take_drop_before [OF 2] unfolding w by (simp only: if_False)
  next
    case 3
    then have "m \<noteq> n" by auto
    then show ?thesis using 3 pn d unfolding w by (simp add: add.commute)
  qed
qed

lemma WriteSector_ok:
  assumes rdy: "disk_ready k" and n: "0 \<le> n" "n < NumSectors" and d: "length data = 128"
  shows "\<exists>k'. WriteSector n data k = Some (Inr k') \<and> disk_ready k' \<and> dsys.more k' = dsys.more k \<and>
    (\<forall>m. 0 \<le> m \<longrightarrow> m < NumSectors \<longrightarrow> sector k' m = (if m = n then data else sector k m))"
proof -
  have len: "length (d_file (disk k)) = DiskSize" using rdy by (simp add: disk_ready_def)
  let ?c = "write_sector_at n data (d_file (disk k))"
  note W = sector_write [OF len n _ _ d]
  have lc: "length ?c = DiskSize" using W(2) [of 0] by simp
  let ?k1 = "UpdateLast n (k\<lparr>sd_lock := True, disk := (disk k)\<lparr>active := True, d_file := ?c\<rparr>\<rparr>)"
  let ?s = "(stats ?k1)\<lparr>numDiskWrites := numDiskWrites (stats ?k1) + 1\<rparr>"
  have st: "totalTicks ?s = totalTicks (stats k)" by (simp add: UpdateLast_def Let_def split: prod.split)
  obtain k2 k' where r: "Schedule DiskDone 0 (ComputeLatency n True (k\<lparr>sd_lock := True\<rparr>)) DiskInt (?k1\<lparr>stats := ?s\<rparr>) = Inr k2"
    "wait_for_interrupt k2 = Some (Inr k')" "disk_ready (k'\<lparr>sd_lock := False\<rparr>)" "d_file (disk k') = ?c" "dsys.more k' = dsys.more k"
    using request_done [OF rdy n lc HOL.refl st, of True] by blast
  have "WriteSector n data k = Some (Inr (k'\<lparr>sd_lock := False\<rparr>))"
    using rdy n d r(1,2) unfolding WriteSector_def WriteRequest_def Let_def by (simp add: disk_ready_def)
  then show ?thesis using r(3-5) W(1) by (simp add: sector_def)
qed

text \<open>The interface of the disk for the file system: an array of sectors of 128 bytes.\<close>

locale sector_store =
  fixes get :: "int \<Rightarrow> 's \<Rightarrow> (8 word list \<times> 's) res option"
    and put :: "int \<Rightarrow> 8 word list \<Rightarrow> 's \<Rightarrow> 's res option"
    and contents :: "'s \<Rightarrow> int \<Rightarrow> 8 word list"
    and bound :: int
    and invar :: "'s \<Rightarrow> bool"
    and rest :: "'s \<Rightarrow> 'r"
  assumes contents_length: "invar k \<Longrightarrow> 0 \<le> n \<Longrightarrow> n < bound \<Longrightarrow> length (contents k n) = 128"
    and read_ok: "invar k \<Longrightarrow> 0 \<le> n \<Longrightarrow> n < bound \<Longrightarrow>
      \<exists>k'. get n k = Some (Inr (contents k n, k')) \<and> invar k' \<and> rest k' = rest k \<and> (\<forall>m. contents k' m = contents k m)"
    and write_ok: "invar k \<Longrightarrow> 0 \<le> n \<Longrightarrow> n < bound \<Longrightarrow> length d = 128 \<Longrightarrow>
      \<exists>k'. put n d k = Some (Inr k') \<and> invar k' \<and> rest k' = rest k \<and> (\<forall>m. 0 \<le> m \<longrightarrow> m < bound \<longrightarrow> contents k' m = (if m = n then d else contents k m))"
begin

text \<open>Reading and writing a list of sectors one after the other.\<close>

fun read_all :: "int list \<Rightarrow> 's \<Rightarrow> (8 word list \<times> 's) res option" where
  "read_all [] k = Some (Inr ([], k))"
| "read_all (n # ns) k = bindO (get n k) (\<lambda>(d, k). bindO (read_all ns k) (\<lambda>(ds, k). Some (Inr (d @ ds, k))))"

lemma read_all_ok:
  "invar k \<Longrightarrow> \<forall>n \<in> set ns. 0 \<le> n \<and> n < bound \<Longrightarrow>
    \<exists>k'. read_all ns k = Some (Inr (concat (map (contents k) ns), k')) \<and> invar k' \<and> rest k' = rest k \<and> (\<forall>m. contents k' m = contents k m)"
proof (induction ns arbitrary: k)
  case (Cons n ns)
  then obtain k1 where k1: "get n k = Some (Inr (contents k n, k1))" "invar k1" "rest k1 = rest k" "contents k1 = contents k"
    using read_ok [of k n] by (auto simp: fun_eq_iff)
  then show ?case using Cons.IH [of k1] Cons.prems by auto
qed auto

fun write_all :: "(int \<times> 8 word list) list \<Rightarrow> 's \<Rightarrow> 's res option" where
  "write_all [] k = Some (Inr k)"
| "write_all ((n, d) # nds) k = bindO (put n d k) (write_all nds)"

lemma write_all_ok:
  "invar k \<Longrightarrow> \<forall>(n, d) \<in> set nds. 0 \<le> n \<and> n < bound \<and> length d = 128 \<Longrightarrow> distinct (map fst nds) \<Longrightarrow>
    \<exists>k'. write_all nds k = Some (Inr k') \<and> invar k' \<and> rest k' = rest k \<and>
      (\<forall>m. 0 \<le> m \<longrightarrow> m < bound \<longrightarrow> contents k' m = (case map_of nds m of Some d \<Rightarrow> d | None \<Rightarrow> contents k m))"
proof (induction nds arbitrary: k)
  case (Cons nd nds)
  obtain n d where nd: "nd = (n, d)" by (cases nd)
  then obtain k1 where k1: "put n d k = Some (Inr k1)" "invar k1" "rest k1 = rest k"
    "\<forall>m. 0 \<le> m \<longrightarrow> m < bound \<longrightarrow> contents k1 m = (if m = n then d else contents k m)" using write_ok [of k n d] Cons.prems(1,2) by auto
  obtain k' where k': "write_all nds k1 = Some (Inr k')" "invar k'" "rest k' = rest k1"
    "\<forall>m. 0 \<le> m \<longrightarrow> m < bound \<longrightarrow> contents k' m = (case map_of nds m of Some d \<Rightarrow> d | None \<Rightarrow> contents k1 m)"
    using Cons.IH [OF k1(2)] Cons.prems by auto
  have "map_of nds n = None" using Cons.prems(3) nd by (simp add: map_of_eq_None_iff)
  then show ?case using k1 k' nd by (auto split: option.split)
qed auto

end

interpretation sd: sector_store ReadSector WriteSector sector NumSectors disk_ready dsys.more
proof unfold_locales
  fix k :: "'m dsys_scheme" and n :: int and d :: "8 word list"
  assume k: "disk_ready k" "0 \<le> n" "n < NumSectors"
  show "length (sector k n) = 128" by (rule sector_length [OF k])
  show "\<exists>k'. ReadSector n k = Some (Inr (sector k n, k')) \<and> disk_ready k' \<and> dsys.more k' = dsys.more k \<and> (\<forall>m. sector k' m = sector k m)"
    using ReadSector_ok [OF k] by (auto simp: sector_def)
  show "\<exists>k'. WriteSector n d k = Some (Inr k') \<and> disk_ready k' \<and> dsys.more k' = dsys.more k \<and>
      (\<forall>m. 0 \<le> m \<longrightarrow> m < NumSectors \<longrightarrow> sector k' m = (if m = n then d else sector k m))" if "length d = 128"
    using WriteSector_ok [OF k that] by blast
qed

end
