(* ===== verification/File_System.thy ===== *)
theory File_System
  imports Disk Bit_Map Byte_Order
begin

text \<open>
  The Nachos file system (\<^verbatim>\<open>src/code/filesys/\<close>): file headers, open files, the directory and the operations on files.

  What is on the disk is bytes: a header, a bitmap and a directory are written as the memory of the C++ object, little endian, and read back
  by a cast. The encodings are written out (\<open>hdr_bytes\<close>, \<open>words_bytes\<close>, \<open>entry_bytes\<close>). A buffer that \<open>new\<close> leaves uninitialised gets the contents
  of an argument \<open>junk\<close>. As in the source, the operations assume that there is no concurrent access to the file system.
\<close>

unbundle bit_operations_syntax

section \<open>Objects as bytes\<close>

definition words_bytes :: "32 word list \<Rightarrow> 8 word list" where
  "words_bytes ws = concat (map word_bytes ws)"

definition bytes_words :: "nat \<Rightarrow> 8 word list \<Rightarrow> 32 word list" where
  "bytes_words n bs = map (\<lambda>i. word_of_bytes bs (4 * i)) [0..<n]"

text \<open>\<open>bcopy\<close> of \<open>bs\<close> into a buffer, and an uninitialised buffer.\<close>

definition copy_into :: "8 word list \<Rightarrow> nat \<Rightarrow> 8 word list \<Rightarrow> 8 word list" where
  "copy_into buf off bs = take off buf @ bs @ drop (off + length bs) buf"

definition new_buffer :: "8 word list \<Rightarrow> nat \<Rightarrow> 8 word list" where
  "new_buffer junk n = take n (junk @ replicate n 0)"

section \<open>File headers\<close>

definition NumDirect :: nat where "NumDirect = 30"

record FileHeader =
  numBytes :: "32 word"
  numSectors :: "32 word"
  dataSectors :: "32 word list"

definition hdr_bytes :: "FileHeader \<Rightarrow> 8 word list" where
  "hdr_bytes h = words_bytes (numBytes h # numSectors h # dataSectors h)"

definition hdr_of_bytes :: "8 word list \<Rightarrow> FileHeader" where
  "hdr_of_bytes bs = (let ws = bytes_words (2 + NumDirect) bs in \<lparr>numBytes = ws ! 0, numSectors = ws ! 1, dataSectors = drop 2 ws\<rparr>)"

text \<open>\<open>Allocate\<close>: a store past the end of \<open>dataSectors\<close> stops.\<close>

primrec alloc_sectors :: "nat \<Rightarrow> nat \<Rightarrow> 32 word list \<Rightarrow> BitMap \<Rightarrow> (32 word list \<times> BitMap) res" where
  "alloc_sectors 0 i ds freeMap = Inr (ds, freeMap)"
| "alloc_sectors (Suc left) i ds freeMap =
     bindR (Find freeMap) (\<lambda>(s, freeMap).
       if i < length ds then alloc_sectors left (Suc i) (ds[i := word_of_int s]) freeMap else Inl OutOfBounds)"

definition FileHeader_Allocate :: "FileHeader \<Rightarrow> BitMap \<Rightarrow> int \<Rightarrow> (bool \<times> FileHeader \<times> BitMap) res" where
  "FileHeader_Allocate h freeMap fileSize =
     (let n = divRoundUp fileSize (int DiskSectorSize);
          h = h\<lparr>numBytes := word_of_int fileSize, numSectors := word_of_int n\<rparr>
      in bindR (NumClear freeMap) (\<lambda>c.
           if c < n then Inr (False, h, freeMap)
           else bindR (alloc_sectors (nat n) 0 (dataSectors h) freeMap) (\<lambda>(ds, freeMap). Inr (True, h\<lparr>dataSectors := ds\<rparr>, freeMap))))"

primrec dealloc_sectors :: "nat \<Rightarrow> nat \<Rightarrow> 32 word list \<Rightarrow> BitMap \<Rightarrow> BitMap res" where
  "dealloc_sectors 0 i ds freeMap = Inr freeMap"
| "dealloc_sectors (Suc left) i ds freeMap =
     (if i < length ds
      then bindR (Test (sint (ds ! i)) freeMap) (\<lambda>t.
           bindR (assertR t) (\<lambda>_.
           bindR (Clear (sint (ds ! i)) freeMap) (\<lambda>freeMap. dealloc_sectors left (Suc i) ds freeMap)))
      else Inl OutOfBounds)"

definition FileHeader_Deallocate :: "FileHeader \<Rightarrow> BitMap \<Rightarrow> BitMap res" where
  "FileHeader_Deallocate h freeMap = dealloc_sectors (nat (sint (numSectors h))) 0 (dataSectors h) freeMap"

definition FileHeader_FetchFrom :: "int \<Rightarrow> 'm dsys_scheme \<Rightarrow> (FileHeader \<times> 'm dsys_scheme) res option" where
  "FileHeader_FetchFrom sec k = bindO (ReadSector sec k) (\<lambda>(bs, k). Some (Inr (hdr_of_bytes bs, k)))"

definition FileHeader_WriteBack :: "FileHeader \<Rightarrow> int \<Rightarrow> 'm dsys_scheme \<Rightarrow> 'm dsys_scheme res option" where
  "FileHeader_WriteBack h sec k = WriteSector sec (hdr_bytes h) k"

definition ByteToSector :: "FileHeader \<Rightarrow> int \<Rightarrow> int res" where
  "ByteToSector h offset =
     (let i = offset sdiv int DiskSectorSize in
      if 0 \<le> i \<and> i < int (length (dataSectors h)) then Inr (sint (dataSectors h ! nat i)) else Inl OutOfBounds)"

definition FileLength :: "FileHeader \<Rightarrow> int" where
  "FileLength h = sint (numBytes h)"

section \<open>Open files\<close>

record OpenFile =
  of_hdr :: FileHeader
  seekPosition :: int

definition OpenFile_new :: "int \<Rightarrow> 'm dsys_scheme \<Rightarrow> (OpenFile \<times> 'm dsys_scheme) res option" where
  "OpenFile_new sec k = bindO (FileHeader_FetchFrom sec k) (\<lambda>(h, k). Some (Inr (\<lparr>of_hdr = h, seekPosition = 0\<rparr>, k)))"

definition Seek :: "int \<Rightarrow> OpenFile \<Rightarrow> OpenFile" where
  "Seek position f = f\<lparr>seekPosition := position\<rparr>"

text \<open>The loop of \<open>ReadAt\<close>: the sectors from \<open>i\<close> on, \<open>left\<close> of them.\<close>

primrec read_sectors :: "nat \<Rightarrow> int \<Rightarrow> FileHeader \<Rightarrow> 'm dsys_scheme \<Rightarrow> (8 word list \<times> 'm dsys_scheme) res option" where
  "read_sectors 0 i h k = Some (Inr ([], k))"
| "read_sectors (Suc left) i h k =
     bindO (Some (ByteToSector h (i * int DiskSectorSize))) (\<lambda>s.
     bindO (ReadSector s k) (\<lambda>(d, k).
     bindO (read_sectors left (i + 1) h k) (\<lambda>(ds, k). Some (Inr (d @ ds, k)))))"

text \<open>The sums \<open>position + numBytes\<close> and \<open>position + numBytes - 1\<close> are those of C integers, which wrap around. The request is then not cut off at the end of the file, and the number of sectors is
  negative: the allocation of the buffer fails, given here as \<open>OutOfBounds\<close>.\<close>

definition ReadAt :: "OpenFile \<Rightarrow> int \<Rightarrow> int \<Rightarrow> 'm dsys_scheme \<Rightarrow> (8 word list \<times> 'm dsys_scheme) res option" where
  "ReadAt f n position k =
     (let fileLength = FileLength (of_hdr f) in
      if n \<le> 0 \<or> position \<ge> fileLength then Some (Inr ([], k))
      else
        let n = (if c_int (position + n) > fileLength then fileLength - position else n);
            firstSector = position sdiv int DiskSectorSize;
            lastSector = c_int (position + n - 1) sdiv int DiskSectorSize;
            count = 1 + lastSector - firstSector;
            off = position - firstSector * int DiskSectorSize
        in if count < 0 then Some (Inl OutOfBounds)
           else bindO (read_sectors (nat count) firstSector (of_hdr f) k) (\<lambda>(buf, k).
             if off < 0 then Some (Inl OutOfBounds) else Some (Inr (take (nat n) (drop (nat off) buf), k))))"

primrec write_sectors :: "nat \<Rightarrow> int \<Rightarrow> FileHeader \<Rightarrow> 8 word list \<Rightarrow> 'm dsys_scheme \<Rightarrow> 'm dsys_scheme res option" where
  "write_sectors 0 i h buf k = Some (Inr k)"
| "write_sectors (Suc left) i h buf k =
     bindO (Some (ByteToSector h (i * int DiskSectorSize))) (\<lambda>s.
     bindO (WriteSector s (take DiskSectorSize buf) k) (\<lambda>k. write_sectors left (i + 1) h (drop DiskSectorSize buf) k))"

text \<open>\<open>WriteAt\<close> returns the number of bytes written. A sector that is modified in part is read first.\<close>

definition WriteAt :: "8 word list \<Rightarrow> OpenFile \<Rightarrow> 8 word list \<Rightarrow> int \<Rightarrow> int \<Rightarrow> 'm dsys_scheme \<Rightarrow> (int \<times> 'm dsys_scheme) res option" where
  "WriteAt junk f from n position k =
     (let fileLength = FileLength (of_hdr f) in
      if n \<le> 0 \<or> position \<ge> fileLength then Some (Inr (0, k))
      else
        let n = (if c_int (position + n) > fileLength then fileLength - position else n);
            sz = int DiskSectorSize;
            firstSector = position sdiv sz;
            lastSector = c_int (position + n - 1) sdiv sz;
            count = 1 + lastSector - firstSector;
            buf = new_buffer junk (nat (count * sz));
            firstAligned = (position = firstSector * sz);
            lastAligned = (c_int (position + n) = (lastSector + 1) * sz);
            off = position - firstSector * sz
        in if count < 0 then Some (Inl OutOfBounds)
           else bindO (if \<not> firstAligned
                  then bindO (ReadAt f sz (firstSector * sz) k) (\<lambda>(d, k). Some (Inr (copy_into buf 0 d, k)))
                  else Some (Inr (buf, k))) (\<lambda>(buf, k).
           bindO (if \<not> lastAligned \<and> (firstSector \<noteq> lastSector \<or> firstAligned)
                  then bindO (ReadAt f sz (lastSector * sz) k) (\<lambda>(d, k). Some (Inr (copy_into buf (nat ((lastSector - firstSector) * sz)) d, k)))
                  else Some (Inr (buf, k))) (\<lambda>(buf, k).
             if off < 0 \<or> int (length from) < n then Some (Inl OutOfBounds)
             else
               bindO (write_sectors (nat count) firstSector (of_hdr f) (copy_into buf (nat off) (take (nat n) from)) k) (\<lambda>k.
               Some (Inr (n, k))))))"

definition OpenFile_Read :: "OpenFile \<Rightarrow> int \<Rightarrow> 'm dsys_scheme \<Rightarrow> (8 word list \<times> OpenFile \<times> 'm dsys_scheme) res option" where
  "OpenFile_Read f n k =
     bindO (ReadAt f n (seekPosition f) k) (\<lambda>(bs, k). Some (Inr (bs, f\<lparr>seekPosition := seekPosition f + int (length bs)\<rparr>, k)))"

definition OpenFile_Write :: "8 word list \<Rightarrow> OpenFile \<Rightarrow> 8 word list \<Rightarrow> int \<Rightarrow> 'm dsys_scheme \<Rightarrow> (int \<times> OpenFile \<times> 'm dsys_scheme) res option" where
  "OpenFile_Write junk f from n k =
     bindO (WriteAt junk f from n (seekPosition f) k) (\<lambda>(r, k). Some (Inr (r, f\<lparr>seekPosition := seekPosition f + r\<rparr>, k)))"

definition OpenFile_Length :: "OpenFile \<Rightarrow> int" where
  "OpenFile_Length f = FileLength (of_hdr f)"

text \<open>A bitmap in a file.\<close>

definition BitMap_FetchFrom :: "OpenFile \<Rightarrow> BitMap \<Rightarrow> 'm dsys_scheme \<Rightarrow> (BitMap \<times> 'm dsys_scheme) res option" where
  "BitMap_FetchFrom f b k =
     bindO (ReadAt f (numWords b * 4) 0 k) (\<lambda>(bs, k).
       Some (Inr (b\<lparr>bm_map := bytes_words (length (bm_map b)) (copy_into (words_bytes (bm_map b)) 0 bs)\<rparr>, k)))"

definition BitMap_WriteBack :: "8 word list \<Rightarrow> OpenFile \<Rightarrow> BitMap \<Rightarrow> 'm dsys_scheme \<Rightarrow> 'm dsys_scheme res option" where
  "BitMap_WriteBack junk f b k = bindO (WriteAt junk f (words_bytes (bm_map b)) (numWords b * 4) 0 k) (\<lambda>(_, k). Some (Inr k))"

section \<open>The directory\<close>

definition FileNameMaxLen :: nat where "FileNameMaxLen = 9"
definition EntrySize :: nat where "EntrySize = 20"

text \<open>An entry takes 20 bytes: the flag, three bytes of padding, the sector, ten bytes of name, two of padding.\<close>

record DirectoryEntry =
  inUse :: bool
  de_sector :: "32 word"
  de_name :: "8 word list"
  de_pad :: "8 word list"

definition entry_bytes :: "DirectoryEntry \<Rightarrow> 8 word list" where
  "entry_bytes e = (if inUse e then 1 else 0) # take 3 (de_pad e) @ word_bytes (de_sector e) @ de_name e @ drop 3 (de_pad e)"

definition entry_of_bytes :: "8 word list \<Rightarrow> DirectoryEntry" where
  "entry_of_bytes bs = \<lparr>inUse = (bs ! 0 \<noteq> 0), de_sector = word_of_bytes bs 4, de_name = take 10 (drop 8 bs),
     de_pad = take 3 (drop 1 bs) @ take 2 (drop 18 bs)\<rparr>"

definition dir_bytes :: "DirectoryEntry list \<Rightarrow> 8 word list" where
  "dir_bytes t = concat (map entry_bytes t)"

definition dir_of_bytes :: "nat \<Rightarrow> 8 word list \<Rightarrow> DirectoryEntry list" where
  "dir_of_bytes n bs = map (\<lambda>i. entry_of_bytes (drop (EntrySize * i) bs)) [0..<n]"

text \<open>\<open>strncmp(a, b, n) == 0\<close> and \<open>strncpy(dst, src, n)\<close>; a string ends at its first zero byte, or with the list.\<close>

fun strncmp_eq :: "nat \<Rightarrow> 8 word list \<Rightarrow> 8 word list \<Rightarrow> bool" where
  "strncmp_eq 0 a b = True"
| "strncmp_eq (Suc n) a b =
     (let x = (case a of [] \<Rightarrow> 0 | c # _ \<Rightarrow> c); y = (case b of [] \<Rightarrow> 0 | c # _ \<Rightarrow> c)
      in x = y \<and> (x = 0 \<or> strncmp_eq n (tl a) (tl b)))"

definition strncpy :: "8 word list \<Rightarrow> 8 word list \<Rightarrow> nat \<Rightarrow> 8 word list" where
  "strncpy dst src n = (let s = takeWhile (\<lambda>c. c \<noteq> 0) (take n src) in s @ replicate (n - length s) 0 @ drop n dst)"

definition Directory_new :: "DirectoryEntry list \<Rightarrow> DirectoryEntry list" where
  "Directory_new junk = map (\<lambda>e. e\<lparr>inUse := False\<rparr>) junk"

definition Directory_FetchFrom :: "OpenFile \<Rightarrow> DirectoryEntry list \<Rightarrow> 'm dsys_scheme \<Rightarrow> (DirectoryEntry list \<times> 'm dsys_scheme) res option" where
  "Directory_FetchFrom f t k =
     bindO (ReadAt f (int (length t) * int EntrySize) 0 k) (\<lambda>(bs, k). Some (Inr (dir_of_bytes (length t) (copy_into (dir_bytes t) 0 bs), k)))"

definition Directory_WriteBack :: "8 word list \<Rightarrow> OpenFile \<Rightarrow> DirectoryEntry list \<Rightarrow> 'm dsys_scheme \<Rightarrow> 'm dsys_scheme res option" where
  "Directory_WriteBack junk f t k = bindO (WriteAt junk f (dir_bytes t) (int (length t) * int EntrySize) 0 k) (\<lambda>(_, k). Some (Inr k))"

primrec find_index :: "8 word list \<Rightarrow> int \<Rightarrow> DirectoryEntry list \<Rightarrow> int" where
  "find_index name i [] = - 1"
| "find_index name i (e # es) = (if inUse e \<and> strncmp_eq FileNameMaxLen (de_name e) name then i else find_index name (i + 1) es)"

definition FindIndex :: "8 word list \<Rightarrow> DirectoryEntry list \<Rightarrow> int" where
  "FindIndex name t = find_index name 0 t"

definition Directory_Find :: "8 word list \<Rightarrow> DirectoryEntry list \<Rightarrow> int" where
  "Directory_Find name t = (let i = FindIndex name t in if i \<noteq> - 1 then sint (de_sector (t ! nat i)) else - 1)"

primrec add_entry :: "8 word list \<Rightarrow> int \<Rightarrow> DirectoryEntry list \<Rightarrow> bool \<times> DirectoryEntry list" where
  "add_entry name newSector [] = (False, [])"
| "add_entry name newSector (e # es) =
     (if \<not> inUse e then (True, e\<lparr>inUse := True, de_name := strncpy (de_name e) name FileNameMaxLen, de_sector := word_of_int newSector\<rparr> # es)
      else let (r, es) = add_entry name newSector es in (r, e # es))"

definition Directory_Add :: "8 word list \<Rightarrow> int \<Rightarrow> DirectoryEntry list \<Rightarrow> bool \<times> DirectoryEntry list" where
  "Directory_Add name newSector t = (if FindIndex name t \<noteq> - 1 then (False, t) else add_entry name newSector t)"

definition Directory_Remove :: "8 word list \<Rightarrow> DirectoryEntry list \<Rightarrow> bool \<times> DirectoryEntry list" where
  "Directory_Remove name t =
     (let i = FindIndex name t in if i = - 1 then (False, t) else (True, t[nat i := (t ! nat i)\<lparr>inUse := False\<rparr>]))"

text \<open>\<open>List\<close>, as the names it prints.\<close>

definition Directory_List :: "DirectoryEntry list \<Rightarrow> 8 word list list" where
  "Directory_List t = map (\<lambda>e. takeWhile (\<lambda>c. c \<noteq> 0) (de_name e)) (filter inUse t)"

section \<open>The file system\<close>

definition FreeMapSector :: int where "FreeMapSector = 0"
definition DirectorySector :: int where "DirectorySector = 1"
definition FreeMapFileSize :: int where "FreeMapFileSize = NumSectors div 8"
definition NumDirEntries :: nat where "NumDirEntries = 10"
definition DirectoryFileSize :: int where "DirectoryFileSize = int EntrySize * int NumDirEntries"

record fsys = dsys +
  freeMapFile :: OpenFile
  directoryFile :: OpenFile

text \<open>The uninitialised memory a call of the file system gets from \<open>new\<close>: for a bitmap, a directory table of ten entries, a header and a buffer.\<close>

record junk =
  j_words :: "32 word list"
  j_table :: "DirectoryEntry list"
  j_hdr :: FileHeader
  j_buf :: "8 word list"

text \<open>The constructor; with \<open>format\<close> the disk gets an empty directory.\<close>

definition format_disk :: "junk \<Rightarrow> 'm fsys_scheme \<Rightarrow> 'm fsys_scheme res option" where
  "format_disk j k =
     bindO (Some (BitMap_new (j_words j) NumSectors)) (\<lambda>freeMap.
     bindO (Some (Mark FreeMapSector freeMap)) (\<lambda>freeMap.
     bindO (Some (Mark DirectorySector freeMap)) (\<lambda>freeMap.
     bindO (Some (FileHeader_Allocate (j_hdr j) freeMap FreeMapFileSize)) (\<lambda>(ok, mapHdr, freeMap).
     bindO (Some (assertR ok)) (\<lambda>_.
     bindO (Some (FileHeader_Allocate (j_hdr j) freeMap DirectoryFileSize)) (\<lambda>(ok, dirHdr, freeMap).
     bindO (Some (assertR ok)) (\<lambda>_.
     bindO (FileHeader_WriteBack mapHdr FreeMapSector k) (\<lambda>k.
     bindO (FileHeader_WriteBack dirHdr DirectorySector k) (\<lambda>k.
     bindO (OpenFile_new FreeMapSector k) (\<lambda>(mf, k).
     bindO (OpenFile_new DirectorySector k) (\<lambda>(df, k).
     bindO (BitMap_WriteBack (j_buf j) mf freeMap k) (\<lambda>k.
     bindO (Directory_WriteBack (j_buf j) df (Directory_new (j_table j)) k) (\<lambda>k.
     Some (Inr (k\<lparr>freeMapFile := mf, directoryFile := df\<rparr>)))))))))))))))"

definition FileSystem_new :: "bool \<Rightarrow> junk \<Rightarrow> 'm fsys_scheme \<Rightarrow> 'm fsys_scheme res option" where
  "FileSystem_new format j k =
     (if format then format_disk j k
      else bindO (OpenFile_new FreeMapSector k) (\<lambda>(mf, k).
           bindO (OpenFile_new DirectorySector k) (\<lambda>(df, k).
           Some (Inr (k\<lparr>freeMapFile := mf, directoryFile := df\<rparr>)))))"

definition FS_Create :: "junk \<Rightarrow> 8 word list \<Rightarrow> int \<Rightarrow> 'm fsys_scheme \<Rightarrow> (bool \<times> 'm fsys_scheme) res option" where
  "FS_Create j name initialSize k =
     bindO (Directory_FetchFrom (directoryFile k) (Directory_new (j_table j)) k) (\<lambda>(directory, k).
       if Directory_Find name directory \<noteq> - 1 then Some (Inr (False, k))
       else
         bindO (Some (BitMap_new (j_words j) NumSectors)) (\<lambda>freeMap.
         bindO (BitMap_FetchFrom (freeMapFile k) freeMap k) (\<lambda>(freeMap, k).
         bindO (Some (Find freeMap)) (\<lambda>(sec, freeMap).
           if sec = - 1 then Some (Inr (False, k))
           else
             let (added, directory) = Directory_Add name sec directory in
             if \<not> added then Some (Inr (False, k))
             else
               bindO (Some (FileHeader_Allocate (j_hdr j) freeMap initialSize)) (\<lambda>(ok, hdr, freeMap).
                 if \<not> ok then Some (Inr (False, k))
                 else
                   bindO (FileHeader_WriteBack hdr sec k) (\<lambda>k.
                   bindO (Directory_WriteBack (j_buf j) (directoryFile k) directory k) (\<lambda>k.
                   bindO (BitMap_WriteBack (j_buf j) (freeMapFile k) freeMap k) (\<lambda>k.
                   Some (Inr (True, k))))))))))"

definition FS_Open :: "junk \<Rightarrow> 8 word list \<Rightarrow> 'm fsys_scheme \<Rightarrow> (OpenFile option \<times> 'm fsys_scheme) res option" where
  "FS_Open j name k =
     bindO (Directory_FetchFrom (directoryFile k) (Directory_new (j_table j)) k) (\<lambda>(directory, k).
       let sec = Directory_Find name directory in
       if sec \<ge> 0 then bindO (OpenFile_new sec k) (\<lambda>(f, k). Some (Inr (Some f, k))) else Some (Inr (None, k)))"

definition FS_Remove :: "junk \<Rightarrow> 8 word list \<Rightarrow> 'm fsys_scheme \<Rightarrow> (bool \<times> 'm fsys_scheme) res option" where
  "FS_Remove j name k =
     bindO (Directory_FetchFrom (directoryFile k) (Directory_new (j_table j)) k) (\<lambda>(directory, k).
       let sec = Directory_Find name directory in
       if sec = - 1 then Some (Inr (False, k))
       else
         bindO (FileHeader_FetchFrom sec k) (\<lambda>(fileHdr, k).
         bindO (Some (BitMap_new (j_words j) NumSectors)) (\<lambda>freeMap.
         bindO (BitMap_FetchFrom (freeMapFile k) freeMap k) (\<lambda>(freeMap, k).
         bindO (Some (FileHeader_Deallocate fileHdr freeMap)) (\<lambda>freeMap.
         bindO (Some (Clear sec freeMap)) (\<lambda>freeMap.
         let (_, directory) = Directory_Remove name directory in
         bindO (BitMap_WriteBack (j_buf j) (freeMapFile k) freeMap k) (\<lambda>k.
         bindO (Directory_WriteBack (j_buf j) (directoryFile k) directory k) (\<lambda>k.
         Some (Inr (True, k))))))))))"

definition FS_List :: "junk \<Rightarrow> 'm fsys_scheme \<Rightarrow> (8 word list list \<times> 'm fsys_scheme) res option" where
  "FS_List j k =
     bindO (Directory_FetchFrom (directoryFile k) (Directory_new (j_table j)) k) (\<lambda>(directory, k). Some (Inr (Directory_List directory, k)))"

end
