(* ===== verification/File_Content.thy ===== *)
theory File_Content
  imports File_System
begin

text \<open>
  What a file of the Nachos file system is for its clients: an array of bytes of fixed length. \<open>ReadAt\<close> and \<open>WriteAt\<close> of
  \<^verbatim>\<open>src/code/filesys/openfile.cc\<close> work on whole sectors; the lemmas show that they read and replace exactly the bytes asked for, and that the
  objects the file system stores as bytes are read back as they were written.
\<close>

section \<open>Round trips of the encodings\<close>

lemma length_words_bytes [simp]: "length (words_bytes ws) = 4 * length ws"
  by (induction ws) (simp_all add: words_bytes_def)

lemma words_bytes_split: "i < length ws \<Longrightarrow> words_bytes ws = words_bytes (take i ws) @ word_bytes (ws ! i) @ words_bytes (drop (Suc i) ws)"
  by (subst id_take_nth_drop [of i ws]) (simp_all add: words_bytes_def)

lemma bytes_words_roundtrip: "bytes_words (length ws) (words_bytes ws) = ws"
proof (rule nth_equalityI)
  fix i assume "i < length (bytes_words (length ws) (words_bytes ws))"
  then have i: "i < length ws" by (simp add: bytes_words_def)
  have "word_of_bytes (words_bytes ws) (4 * i) = ws ! i"
    using i by (subst words_bytes_split [OF i]) (simp add: word_at_append)
  then show "bytes_words (length ws) (words_bytes ws) ! i = ws ! i" using i by (simp add: bytes_words_def)
qed (simp add: bytes_words_def)

lemma hdr_roundtrip: "length (dataSectors h) = NumDirect \<Longrightarrow> hdr_of_bytes (hdr_bytes h) = h" "length (dataSectors h) = NumDirect \<Longrightarrow> length (hdr_bytes h) = 128"
proof -
  assume l: "length (dataSectors h) = NumDirect"
  then have "bytes_words (2 + NumDirect) (hdr_bytes h) = numBytes h # numSectors h # dataSectors h"
    using bytes_words_roundtrip [of "numBytes h # numSectors h # dataSectors h"] by (simp add: hdr_bytes_def)
  then show "hdr_of_bytes (hdr_bytes h) = h" by (simp add: hdr_of_bytes_def Let_def)
  show "length (hdr_bytes h) = 128" using l by (simp add: hdr_bytes_def NumDirect_def)
qed

definition entry_ok :: "DirectoryEntry \<Rightarrow> bool" where
  "entry_ok e \<longleftrightarrow> length (de_name e) = 10 \<and> length (de_pad e) = 5"

lemma length_entry_bytes [simp]: "entry_ok e \<Longrightarrow> length (entry_bytes e) = 20"
  by (simp add: entry_bytes_def entry_ok_def)

lemma entry_roundtrip: "entry_ok e \<Longrightarrow> entry_of_bytes (entry_bytes e @ r) = e"
proof -
  assume ok: "entry_ok e"
  define p where "p = take 3 (de_pad e)"
  define p' where "p' = drop 3 (de_pad e)"
  have l: "length p = 3" "length p' = 2" "p @ p' = de_pad e" "length (de_name e) = 10" using ok by (simp_all add: p_def p'_def entry_ok_def)
  let ?b = "entry_bytes e @ r"
  have b: "?b = (if inUse e then 1 else 0) # p @ word_bytes (de_sector e) @ de_name e @ p' @ r" by (simp add: entry_bytes_def p_def p'_def)
  have "word_of_bytes ?b 4 = de_sector e"
    unfolding b using word_at_append [of 4 "(if inUse e then 1 else 0) # p" "de_sector e"] l by simp
  moreover have "take 10 (drop 8 ?b) = de_name e" "take 3 (drop 1 ?b) = p" "take 2 (drop 18 ?b) = p'"
    unfolding b using l by simp_all
  ultimately show ?thesis using l(3) by (simp add: entry_of_bytes_def entry_bytes_def)
qed

lemma length_dir_bytes [simp]: "\<forall>e \<in> set t. entry_ok e \<Longrightarrow> length (dir_bytes t) = 20 * length t"
  by (induction t) (simp_all add: dir_bytes_def)

lemma dir_roundtrip: "\<forall>e \<in> set t. entry_ok e \<Longrightarrow> dir_of_bytes (length t) (dir_bytes t) = t"
proof (rule nth_equalityI)
  assume ok: "\<forall>e \<in> set t. entry_ok e"
  fix i assume "i < length (dir_of_bytes (length t) (dir_bytes t))"
  then have i: "i < length t" by (simp add: dir_of_bytes_def)
  have "dir_bytes t = dir_bytes (take i t) @ entry_bytes (t ! i) @ dir_bytes (drop (Suc i) t)"
    by (subst id_take_nth_drop [OF i]) (simp add: dir_bytes_def)
  moreover have "length (dir_bytes (take i t)) = 20 * i" using ok i by (subst length_dir_bytes) (auto dest: in_set_takeD)
  ultimately have "drop (20 * i) (dir_bytes t) = entry_bytes (t ! i) @ dir_bytes (drop (Suc i) t)" by simp
  then show "dir_of_bytes (length t) (dir_bytes t) ! i = t ! i" using i ok entry_roundtrip by (simp add: dir_of_bytes_def EntrySize_def)
qed (simp add: dir_of_bytes_def)

section \<open>The bytes of a file\<close>

definition sectors_of :: "FileHeader \<Rightarrow> int list" where
  "sectors_of h = map sint (take (nat (sint (numSectors h))) (dataSectors h))"

definition hdr_ok :: "FileHeader \<Rightarrow> bool" where
  "hdr_ok h \<longleftrightarrow> length (dataSectors h) = NumDirect \<and> 0 \<le> FileLength h \<and> sint (numSectors h) = divRoundUp (FileLength h) 128 \<and>
     sint (numSectors h) \<le> int NumDirect \<and> distinct (sectors_of h) \<and> (\<forall>s \<in> set (sectors_of h). 0 \<le> s \<and> s < NumSectors)"

definition raw :: "'m dsys_scheme \<Rightarrow> FileHeader \<Rightarrow> 8 word list" where
  "raw k h = concat (map (sector k) (sectors_of h))"

definition content :: "'m dsys_scheme \<Rightarrow> FileHeader \<Rightarrow> 8 word list" where
  "content k h = take (nat (FileLength h)) (raw k h)"

lemma length_sectors: "hdr_ok h \<Longrightarrow> length (sectors_of h) = nat (sint (numSectors h))"
  by (auto simp: hdr_ok_def sectors_of_def min_def)

lemma divRoundUp_bounds: "0 \<le> n \<Longrightarrow> n \<le> 128 * divRoundUp n 128 \<and> 0 \<le> divRoundUp n 128 \<and> 128 * divRoundUp n 128 < n + 128"
  by (simp add: divRoundUp_def) presburger

lemma enough_sectors:
  assumes "hdr_ok h"
  shows "nat (FileLength h) \<le> 128 * length (sectors_of h)" "length (sectors_of h) \<le> 30" "p < nat (FileLength h) \<Longrightarrow> p div 128 < length (sectors_of h)"
proof -
  note d = divRoundUp_bounds [of "FileLength h"]
  have L: "0 \<le> FileLength h" "sint (numSectors h) = divRoundUp (FileLength h) 128" "sint (numSectors h) \<le> 30" using assms by (simp_all add: hdr_ok_def NumDirect_def)
  then have n: "int (length (sectors_of h)) = divRoundUp (FileLength h) 128" using length_sectors [OF assms] d by simp
  show l: "nat (FileLength h) \<le> 128 * length (sectors_of h)" using d L n by linarith
  show "length (sectors_of h) \<le> 30" using L n by linarith
  show "p div 128 < length (sectors_of h)" if "p < nat (FileLength h)" using that l by linarith
qed

lemma concat_blocks:
  assumes "\<forall>b \<in> set bs. length b = 128"
  shows "length (concat bs) = 128 * length bs" "drop (128 * i) (concat bs) = concat (drop i bs)" "take (128 * i) (concat bs) = concat (take i bs)"
proof -
  show "length (concat bs) = 128 * length bs" using assms by (induction bs) simp_all
  show "drop (128 * i) (concat bs) = concat (drop i bs)" using assms
  proof (induction bs arbitrary: i)
    case (Cons b bs)
    then show ?case by (cases i) simp_all
  qed simp
  show "take (128 * i) (concat bs) = concat (take i bs)" using assms
  proof (induction bs arbitrary: i)
    case (Cons b bs)
    then show ?case by (cases i) simp_all
  qed simp
qed

lemma raw_blocks: "disk_ready k \<Longrightarrow> hdr_ok h \<Longrightarrow> \<forall>b \<in> set (map (sector k) (sectors_of h)). length b = 128"
  using sector_length [of k] by (auto simp: hdr_ok_def)

lemma length_raw: "disk_ready k \<Longrightarrow> hdr_ok h \<Longrightarrow> length (raw k h) = 128 * length (sectors_of h)"
  unfolding raw_def using concat_blocks(1) [OF raw_blocks] by simp

lemma length_content: "disk_ready k \<Longrightarrow> hdr_ok h \<Longrightarrow> length (content k h) = nat (FileLength h)"
  using length_raw [of k h] enough_sectors(1) [of h] by (simp add: content_def)

lemma ByteToSector_ok: "hdr_ok h \<Longrightarrow> i < length (sectors_of h) \<Longrightarrow> ByteToSector h (int i * int DiskSectorSize) = Inr (sectors_of h ! i)"
  using enough_sectors(2) [of h] by (simp add: ByteToSector_def Let_def hdr_ok_def NumDirect_def sectors_of_def)

text \<open>States that differ only in the progress of time.\<close>

definition same_disk :: "'m dsys_scheme \<Rightarrow> 'm dsys_scheme \<Rightarrow> bool" where
  "same_disk k k' \<longleftrightarrow> disk_ready k' \<and> sector k' = sector k \<and> dsys.more k' = dsys.more k"

lemma ReadSector_same: "disk_ready k \<Longrightarrow> 0 \<le> n \<Longrightarrow> n < NumSectors \<Longrightarrow> \<exists>k'. ReadSector n k = Some (Inr (sector k n, k')) \<and> same_disk k k'"
  using sd.read_ok [of k n] by (auto simp: same_disk_def fun_eq_iff)

lemma same_disk_refl: "disk_ready k \<Longrightarrow> same_disk k k"
  by (simp add: same_disk_def)

lemma same_disk_trans: "same_disk k k1 \<Longrightarrow> same_disk k1 k2 \<Longrightarrow> same_disk k k2"
  by (simp add: same_disk_def)

lemma same_disk_raw: "same_disk k k' \<Longrightarrow> raw k' h = raw k h \<and> content k' h = content k h"
  by (simp add: same_disk_def raw_def content_def)

section \<open>Reading\<close>

lemma read_sectors_ok:
  assumes "disk_ready k" and "hdr_ok h" and "i + n \<le> length (sectors_of h)"
  shows "\<exists>k'. read_sectors n (int i) h k = Some (Inr (take (128 * n) (drop (128 * i) (raw k h)), k')) \<and> same_disk k k'"
  using assms
proof (induction n arbitrary: i k)
  case 0
  then show ?case by (simp add: same_disk_refl)
next
  case (Suc n)
  let ?s = "sectors_of h ! i"
  have i: "i < length (sectors_of h)" using Suc.prems(3) by simp
  have "0 \<le> ?s" "?s < NumSectors" using Suc.prems(2) i by (auto simp: hdr_ok_def)
  then obtain k1 where k1: "ReadSector ?s k = Some (Inr (sector k ?s, k1))" "same_disk k k1" using ReadSector_same [OF Suc.prems(1)] by blast
  then have r1: "disk_ready k1" "raw k1 h = raw k h" using same_disk_raw [OF k1(2)] by (simp_all add: same_disk_def)
  obtain k2 where k2: "read_sectors n (int (Suc i)) h k1 = Some (Inr (take (128 * n) (drop (128 * Suc i) (raw k h)), k2))" "same_disk k1 k2"
    using Suc.IH [OF r1(1) Suc.prems(2), of "Suc i"] Suc.prems(3) r1(2) by auto
  have "drop (128 * i) (raw k h) = sector k ?s @ drop (128 * Suc i) (raw k h)"
    unfolding raw_def concat_blocks(2) [OF raw_blocks [OF Suc.prems(1,2)]] using i by (simp add: drop_map Cons_nth_drop_Suc [symmetric])
  moreover have "length (sector k ?s) = 128" using raw_blocks [OF Suc.prems(1,2)] i by simp
  ultimately have "take (128 * Suc n) (drop (128 * i) (raw k h)) = sector k ?s @ take (128 * n) (drop (128 * Suc i) (raw k h))" by simp
  then show ?case using ByteToSector_ok [OF Suc.prems(2) i] k1 k2 same_disk_trans [OF k1(2) k2(2)] by (simp add: add.commute)
qed

lemma take_drop_window: "off + m \<le> c \<Longrightarrow> take m (drop off (take c xs)) = take m (drop off xs)"
  by (simp add: drop_take min_def)

text \<open>The window of sectors around the bytes from \<open>p\<close> to \<open>p + m\<close>.\<close>

lemma block_bound: "128 * a \<le> p \<Longrightarrow> p + m \<le> 128 * b + 128 \<Longrightarrow> a \<le> b \<Longrightarrow> p - 128 * a + m \<le> 128 * (1 + b - a)" for a b p m :: nat
proof -
  assume a: "128 * a \<le> p" "p + m \<le> 128 * b + 128" "a \<le> b"
  then obtain d where d: "b = a + d" using le_Suc_ex by blast
  have "1 + (a + d) - a = 1 + d" by simp
  then show ?thesis using a(1,2) unfolding d by simp
qed

lemma window:
  fixes p m :: nat
  assumes "0 < m"
  shows "p - 128 * (p div 128) + m \<le> 128 * (1 + (p + m - 1) div 128 - p div 128)" "p div 128 \<le> (p + m - 1) div 128" "128 * (p div 128) \<le> p"
    "int p sdiv 128 = int (p div 128)" "(int p + int m - 1) sdiv 128 = int ((p + m - 1) div 128)"
proof -
  show le: "p div 128 \<le> (p + m - 1) div 128" by (rule div_le_mono) (use assms in simp)
  show b: "128 * (p div 128) \<le> p" by (rule times_div_less_eq_dividend)
  have "p + m - 1 < 128 + 128 * ((p + m - 1) div 128)" by (rule dividend_less_times_div) simp
  then have "p + m \<le> 128 * ((p + m - 1) div 128) + 128" using assms by linarith
  then show "p - 128 * (p div 128) + m \<le> 128 * (1 + (p + m - 1) div 128 - p div 128)" by (rule block_bound [OF b _ le])
  have z: "int a sdiv 128 = int (a div 128)" for a by (simp add: zdiv_int)
  then show "int p sdiv 128 = int (p div 128)" .
  have "int p + int m - 1 = int (p + m - 1)" using assms by (simp only: of_nat_diff of_nat_add of_nat_1 Suc_leI)
  then show "(int p + int m - 1) sdiv 128 = int ((p + m - 1) div 128)" using z by (simp only:)
qed

text \<open>No sum of the routines overflows when the request ends below \<open>2 ^ 31\<close>.\<close>

lemma c_int_window: "int p + n < 2 ^ 31 \<Longrightarrow> 0 < n \<Longrightarrow> m \<le> nat n \<Longrightarrow> 0 < m \<Longrightarrow>
    c_int (int p + n) = int p + n \<and> c_int (int p + int m) = int p + int m \<and> c_int (int p + int m - 1) = int p + int m - 1"
  by (auto intro!: c_int_id simp: int_min_def int_max_def)

lemma ReadAt_window:
  assumes "0 < m" and "int p + int m \<le> FileLength (of_hdr f)" and "m = min (nat n) (nat (FileLength (of_hdr f)) - p)" and lt: "int p + n < 2 ^ 31"
  shows "ReadAt f n (int p) k = bindO (read_sectors (1 + (p + m - 1) div 128 - p div 128) (int (p div 128)) (of_hdr f) k)
    (\<lambda>(buf, k). Some (Inr (take m (drop (p - 128 * (p div 128)) buf), k)))"
proof -
  note W = window [OF assms(1), of p]
  have c: "\<not> (n \<le> 0 \<or> int p \<ge> FileLength (of_hdr f))" using assms by auto
  have C: "c_int (int p + n) = int p + n" "c_int (int p + int m - 1) = int p + int m - 1" using c_int_window [OF lt, of m] c assms(1,3) by simp_all
  have mi: "(if int p + n > FileLength (of_hdr f) then FileLength (of_hdr f) - int p else n) = int m" using assms(1-3) c by (auto simp: min_def split: if_splits)
  have nn: "\<not> 1 + int ((p + m - 1) div 128) - int (p div 128) < 0" using W(2) by linarith
  have cnt: "nat (1 + int ((p + m - 1) div 128) - int (p div 128)) = 1 + (p + m - 1) div 128 - p div 128" using W(2) by linarith
  have off: "int p - int (p div 128) * 128 = int (p - 128 * (p div 128))" using W(3) by (simp add: of_nat_diff)
  have z: "int DiskSectorSize = 128" by simp
  show ?thesis
    unfolding ReadAt_def Let_def if_not_P [OF c] C(1) mi C(2) z W(4,5) if_not_P [OF nn] cnt off by (simp only: nat_int of_nat_less_0_iff if_False)
qed

lemma ReadAt_ok:
  assumes rdy: "disk_ready k" and ok: "hdr_ok (of_hdr f)" and pos: "0 \<le> pos" and lt: "pos + n < 2 ^ 31"
  shows "\<exists>k'. ReadAt f n pos k = Some (Inr (take (nat n) (drop (nat pos) (content k (of_hdr f))), k')) \<and> same_disk k k'"
proof (cases "n \<le> 0 \<or> pos \<ge> FileLength (of_hdr f)")
  case True
  have "take (nat n) (drop (nat pos) (content k (of_hdr f))) = []"
  proof (cases "n \<le> 0")
    case False
    then have "length (content k (of_hdr f)) \<le> nat pos" using True length_content [OF rdy ok] by simp
    then show ?thesis by simp
  qed simp
  then show ?thesis using True same_disk_refl [OF rdy] by (simp add: ReadAt_def Let_def)
next
  case False
  define h where "h = of_hdr f"
  define p where "p = nat pos"
  define m where "m = min (nat n) (nat (FileLength h) - p)"
  have p: "pos = int p" "0 < m" "p + m \<le> nat (FileLength h)" using False pos by (auto simp: p_def m_def h_def)
  note W = window [OF p(2), of p]
  let ?first = "p div 128" and ?last = "(p + m - 1) div 128"
  have "?last < length (sectors_of h)" using enough_sectors(3) [of h "p + m - 1"] ok p by (simp add: h_def)
  then have fit: "?first + (1 + ?last - ?first) \<le> length (sectors_of h)" using W(2) by linarith
  obtain k' where k': "read_sectors (1 + ?last - ?first) (int ?first) h k =
      Some (Inr (take (128 * (1 + ?last - ?first)) (drop (128 * ?first) (raw k h)), k'))" "same_disk k k'"
    using read_sectors_ok [OF rdy _ fit] ok by (auto simp: h_def)
  have "int p + int m \<le> FileLength h" using p False by (simp add: h_def)
  then have "ReadAt f n (int p) k = bindO (read_sectors (1 + ?last - ?first) (int ?first) h k) (\<lambda>(buf, k). Some (Inr (take m (drop (p - 128 * ?first) buf), k)))"
    unfolding h_def by (intro ReadAt_window [OF p(2)]) (use lt in \<open>simp_all only: m_def h_def p(1)\<close>)
  then have "ReadAt f n (int p) k = Some (Inr (take m (drop (p - 128 * ?first) (take (128 * (1 + ?last - ?first)) (drop (128 * ?first) (raw k h)))), k'))"
    unfolding k'(1) by (simp only: bindO_simps prod.case)
  moreover have "take m (drop (p - 128 * ?first) (take (128 * (1 + ?last - ?first)) (drop (128 * ?first) (raw k h)))) = take m (drop p (raw k h))"
    unfolding take_drop_window [OF W(1)] using W(3) by simp
  moreover have "take (nat n) (drop (nat pos) (content k h)) = take m (drop p (raw k h))"
    unfolding p(1) by (simp add: content_def drop_take m_def)
  ultimately show ?thesis using k'(2) unfolding p(1) h_def by (simp only:) blast
qed

section \<open>Writing\<close>

lemma concat_update:
  assumes "distinct xs" and "i < length xs" and "\<forall>s \<in> set xs. length (g s) = 128" and "length d = 128"
  shows "concat (map (\<lambda>s. if s = xs ! i then d else g s) xs) = copy_into (concat (map g xs)) (128 * i) d"
proof -
  have l: "\<forall>b \<in> set (map g xs). length b = 128" using assms(3) by simp
  have "map (\<lambda>s. if s = xs ! i then d else g s) xs = (map g xs)[i := d]"
    using assms(1,2) by (intro nth_equalityI) (auto simp: nth_list_update nth_eq_iff_index_eq)
  also have "\<dots> = take i (map g xs) @ d # drop (Suc i) (map g xs)" using assms(2) by (simp add: upd_conv_take_nth_drop)
  also have "concat \<dots> = copy_into (concat (map g xs)) (128 * i) d"
    using concat_blocks(3) [OF l, of i] concat_blocks(2) [OF l, of "Suc i"] assms(4) by (simp add: copy_into_def add.commute)
  finally show ?thesis .
qed

lemma copy_into_split:
  assumes "p + length a + length b \<le> length r"
  shows "copy_into (copy_into r p a) (p + length a) b = copy_into r p (a @ b)"
  using assms by (simp add: copy_into_def ac_simps)

text \<open>The sectors of the file are changed, no others.\<close>

definition changed :: "FileHeader \<Rightarrow> 8 word list \<Rightarrow> 'm dsys_scheme \<Rightarrow> 'm dsys_scheme \<Rightarrow> bool" where
  "changed h r k k' \<longleftrightarrow> disk_ready k' \<and> dsys.more k' = dsys.more k \<and> raw k' h = r \<and>
     (\<forall>s. 0 \<le> s \<longrightarrow> s < NumSectors \<longrightarrow> s \<notin> set (sectors_of h) \<longrightarrow> sector k' s = sector k s)"

lemma write_sectors_ok:
  assumes "disk_ready k" and "hdr_ok h" and "i + n \<le> length (sectors_of h)" and "length buf = 128 * n"
  shows "\<exists>k'. write_sectors n (int i) h buf k = Some (Inr k') \<and> changed h (copy_into (raw k h) (128 * i) buf) k k'"
  using assms
proof (induction n arbitrary: i k buf)
  case 0
  then show ?case by (simp add: changed_def copy_into_def)
next
  case (Suc n)
  let ?s = "sectors_of h ! i" and ?d = "take 128 buf"
  have i: "i < length (sectors_of h)" using Suc.prems(3) by simp
  have d: "distinct (sectors_of h)" "\<forall>s \<in> set (sectors_of h). 0 \<le> s \<and> s < NumSectors" using Suc.prems(2) by (simp_all add: hdr_ok_def)
  have s: "0 \<le> ?s" "?s < NumSectors" "length ?d = 128" using d(2) i Suc.prems(4) by auto
  obtain k1 where k1: "WriteSector ?s ?d k = Some (Inr k1)" "disk_ready k1" "dsys.more k1 = dsys.more k"
    "\<forall>m. 0 \<le> m \<longrightarrow> m < NumSectors \<longrightarrow> sector k1 m = (if m = ?s then ?d else sector k m)"
    using sd.write_ok [OF Suc.prems(1) s] by blast
  have "raw k1 h = concat (map (\<lambda>s. if s = ?s then ?d else sector k s) (sectors_of h))"
    unfolding raw_def using k1(4) d(2) by (intro arg_cong [where f = concat] map_cong) simp_all
  also have "\<dots> = copy_into (raw k h) (128 * i) ?d"
    unfolding raw_def using raw_blocks [OF Suc.prems(1,2)] by (intro concat_update [OF d(1) i _ s(3)]) simp
  finally have r1: "raw k1 h = copy_into (raw k h) (128 * i) ?d" .
  obtain k' where k': "write_sectors n (int (Suc i)) h (drop 128 buf) k1 = Some (Inr k')" "changed h (copy_into (raw k1 h) (128 * Suc i) (drop 128 buf)) k1 k'"
    using Suc.IH [OF k1(2) Suc.prems(2), of "Suc i" "drop 128 buf"] Suc.prems(3,4) by auto
  have "128 * i + length ?d + length (drop 128 buf) \<le> length (raw k h)"
    using length_raw [OF Suc.prems(1,2)] Suc.prems(3,4) by simp
  then have "copy_into (raw k1 h) (128 * Suc i) (drop 128 buf) = copy_into (raw k h) (128 * i) buf"
    unfolding r1 using copy_into_split [of "128 * i" ?d "drop 128 buf"] s(3) by (simp add: add.commute)
  moreover have "?s \<in> set (sectors_of h)" using i by simp
  ultimately have "changed h (copy_into (raw k h) (128 * i) buf) k k'" using k'(2) k1(3,4) by (auto simp: changed_def)
  then show ?case using ByteToSector_ok [OF Suc.prems(2) i] k1(1) k'(1) by (simp add: add.commute)
qed

text \<open>The buffer of \<open>WriteAt\<close>. \<open>a\<close> and \<open>b\<close> are the first and the last sector, \<open>c\<close> is the content of the file.\<close>

lemma nth_copy_into:
  assumes "off + length bs \<le> length buf" and "i < length buf"
  shows "copy_into buf off bs ! i = (if off \<le> i \<and> i < off + length bs then bs ! (i - off) else buf ! i)"
proof (cases "i < off + length bs")
  case True
  then show ?thesis using assms by (cases "i < off") (auto simp: copy_into_def nth_append)
next
  case False
  then have "i - off - length bs = i - (off + length bs)" "\<not> i < off" "\<not> i - off < length bs" by auto
  then show ?thesis using assms False by (simp add: copy_into_def nth_append)
qed

lemma length_copy_into: "off + length bs \<le> length buf \<Longrightarrow> length (copy_into buf off bs) = length buf"
  by (simp add: copy_into_def)

definition fill_first :: "nat \<Rightarrow> nat \<Rightarrow> 8 word list \<Rightarrow> 8 word list \<Rightarrow> 8 word list" where
  "fill_first p a c buf = (if p \<noteq> 128 * a then copy_into buf 0 (take 128 (drop (128 * a) c)) else buf)"

definition fill_last :: "nat \<Rightarrow> nat \<Rightarrow> nat \<Rightarrow> nat \<Rightarrow> 8 word list \<Rightarrow> 8 word list \<Rightarrow> 8 word list" where
  "fill_last p m a b c buf = (if p + m \<noteq> 128 * (b + 1) \<and> (a \<noteq> b \<or> p = 128 * a) then copy_into buf (128 * (b - a)) (take 128 (drop (128 * b) c)) else buf)"

lemma fill_lengths:
  assumes "length buf = 128 * (1 + b - a)" and "a \<le> b"
  shows "length (fill_first p a c buf) = 128 * (1 + b - a)" "length (fill_last p m a b c buf) = 128 * (1 + b - a)"
proof -
  have "128 \<le> 128 * (1 + b - a)" "128 * (b - a) + 128 = 128 * (1 + b - a)" using assms(2) by (auto simp: diff_mult_distrib2)
  then show "length (fill_first p a c buf) = 128 * (1 + b - a)" "length (fill_last p m a b c buf) = 128 * (1 + b - a)"
    using assms(1) by (auto simp: fill_first_def fill_last_def length_copy_into)
qed

lemma fill_first_nth:
  assumes "length buf = 128 * (1 + b - a)" and "a \<le> b" and "p \<noteq> 128 * a" and "128 * a \<le> q" and "q < 128 * a + 128" and "q < length c"
  shows "fill_first p a c buf ! (q - 128 * a) = c ! q"
proof -
  let ?d = "take 128 (drop (128 * a) c)"
  have l: "0 + length ?d \<le> length buf" "q - 128 * a < length buf" using assms(1,2,5) by auto
  have "q - 128 * a < length ?d" using assms(4-6) by simp linarith
  then show ?thesis using nth_copy_into [OF l] assms(3,4,6) by (simp add: fill_first_def)
qed

lemma fill_last_nth:
  assumes "length buf = 128 * (1 + b - a)" and "a \<le> b" and "128 * a \<le> q" and "q < 128 * (b + 1)" and "q < length c"
  shows "fill_last p m a b c buf ! (q - 128 * a) =
    (if p + m \<noteq> 128 * (b + 1) \<and> (a \<noteq> b \<or> p = 128 * a) \<and> 128 * b \<le> q then c ! q else buf ! (q - 128 * a))"
proof -
  let ?d = "take 128 (drop (128 * b) c)"
  obtain d where d: "b = a + d" using assms(2) le_Suc_ex by blast
  have l: "128 * (b - a) + length ?d \<le> length buf" "q - 128 * a < length buf" using assms(1,4) unfolding d by auto
  have "128 * (b - a) \<le> q - 128 * a \<and> q - 128 * a < 128 * (b - a) + length ?d \<longleftrightarrow> 128 * b \<le> q" using assms(3-5) unfolding d by auto
  moreover have "?d ! (q - 128 * a - 128 * (b - a)) = c ! q" if "128 * b \<le> q"
  proof -
    have "q - 128 * a - 128 * (b - a) = q - 128 * b" "q - 128 * b < 128" "128 * b + (q - 128 * b) = q" using that assms(3,4) unfolding d by auto
    then show ?thesis using assms(5) by simp
  qed
  ultimately show ?thesis using nth_copy_into [OF l] by (simp add: fill_last_def)
qed

text \<open>The bytes of the buffer around those to be written are the ones of the file.\<close>

lemma buffer_agrees:
  assumes buf: "length buf = 128 * (1 + b - a)" and ab: "a \<le> b" "128 * a \<le> p" "p < 128 * a + 128" "128 * b < p + m" "0 < m"
    and q: "128 * a \<le> q" "q < 128 * (b + 1)" "q < length c" "q < p \<or> p + m \<le> q"
  shows "fill_last p m a b c (fill_first p a c buf) ! (q - 128 * a) = c ! q"
proof -
  note F = fill_first_nth [OF buf ab(1) _ q(1) _ q(3), of p]
  show ?thesis
  proof (cases "q < p")
    case True
    then have "p \<noteq> 128 * a" "q < 128 * a + 128" using q(1) ab(3) by linarith+
    then show ?thesis using F fill_last_nth [OF fill_lengths(1) [OF buf ab(1)] ab(1) q(1-3)] by simp
  next
    case False
    then have ge: "p + m \<le> q" "128 * b \<le> q" "p + m \<noteq> 128 * (b + 1)" using q(2,4) ab(4) by linarith+
    show ?thesis
    proof (cases "a \<noteq> b \<or> p = 128 * a")
      case True
      then show ?thesis using ge fill_last_nth [OF fill_lengths(1) [OF buf ab(1)] ab(1) q(1-3)] by simp
    next
      case no: False
      then have "q < 128 * a + 128" "p \<noteq> 128 * a" using q(2) by auto
      then show ?thesis using F no fill_last_nth [OF fill_lengths(1) [OF buf ab(1)] ab(1) q(1-3)] by simp
    qed
  qed
qed

lemma written_content:
  assumes raw: "length r = 128 * n" and ab: "a \<le> b" "b < n" "128 * a \<le> p" "p < 128 * a + 128" "128 * b < p + m" "p + m \<le> 128 * (b + 1)" "0 < m"
    and buf: "length buf = 128 * (1 + b - a)" and len: "p + m \<le> len" "len \<le> 128 * n" and bs: "length bs = m" and c: "c = take len r"
  shows "take len (copy_into r (128 * a) (copy_into (fill_last p m a b c (fill_first p a c buf)) (p - 128 * a) bs)) = copy_into c p bs"
    "length (copy_into (fill_last p m a b c (fill_first p a c buf)) (p - 128 * a) bs) = 128 * (1 + b - a)"
proof -
  let ?b = "fill_last p m a b c (fill_first p a c buf)"
  obtain d where d: "b = a + d" using ab(1) le_Suc_ex by blast
  have lb: "length ?b = 128 * (1 + b - a)" by (rule fill_lengths(2) [OF fill_lengths(1) [OF buf ab(1)] ab(1)])
  have off: "p - 128 * a + length bs \<le> length ?b" unfolding lb bs using ab(3,6) unfolding d by auto
  show lc: "length (copy_into ?b (p - 128 * a) bs) = 128 * (1 + b - a)" using length_copy_into [OF off] lb by simp
  have off': "128 * a + length (copy_into ?b (p - 128 * a) bs) \<le> length r" unfolding lc raw using ab(2) unfolding d by simp
  have len': "length c = len" using c raw len by simp
  show "take len (copy_into r (128 * a) (copy_into ?b (p - 128 * a) bs)) = copy_into c p bs"
  proof (rule nth_equalityI)
    show l: "length (take len (copy_into r (128 * a) (copy_into ?b (p - 128 * a) bs))) = length (copy_into c p bs)"
      using length_copy_into [OF off'] len raw bs len' by (simp add: length_copy_into)
    fix q assume "q < length (take len (copy_into r (128 * a) (copy_into ?b (p - 128 * a) bs)))"
    then have q: "q < len" "q < length r" using length_copy_into [OF off'] len raw by simp_all
    have rhs: "copy_into c p bs ! q = (if p \<le> q \<and> q < p + m then bs ! (q - p) else c ! q)" using nth_copy_into [of p bs c q] bs len q(1) len' by simp
    have cq: "c ! q = r ! q" using c q(1) by simp
    have lhs: "take len (copy_into r (128 * a) (copy_into ?b (p - 128 * a) bs)) ! q =
       (if 128 * a \<le> q \<and> q < 128 * (b + 1) then copy_into ?b (p - 128 * a) bs ! (q - 128 * a) else r ! q)"
    proof -
      have "128 * a + 128 * (1 + b - a) = 128 * (b + 1)" unfolding d by simp
      then show ?thesis using nth_copy_into [OF off' q(2)] q(1) lc by simp
    qed
    show "take len (copy_into r (128 * a) (copy_into ?b (p - 128 * a) bs)) ! q = copy_into c p bs ! q"
    proof (cases "128 * a \<le> q \<and> q < 128 * (b + 1)")
      case True
      have "q < 128 * (a + d + 1)" using True d by simp
      then have "q - 128 * a < 128 * (1 + d)" using True by (simp add: less_diff_conv2 algebra_simps)
      then have i: "q - 128 * a < length ?b" using lb d by simp
      have "copy_into ?b (p - 128 * a) bs ! (q - 128 * a) = (if p \<le> q \<and> q < p + m then bs ! (q - p) else ?b ! (q - 128 * a))"
        using nth_copy_into [OF off i] True ab(3) bs by auto
      moreover have "?b ! (q - 128 * a) = c ! q" if "\<not> (p \<le> q \<and> q < p + m)"
        by (rule buffer_agrees [OF buf ab(1,3,4,5,7)]) (use True that q len' in auto)
      ultimately show ?thesis unfolding lhs rhs using True by (simp only: if_True simp_thms split: if_splits)
    next
      case False
      then have "\<not> (p \<le> q \<and> q < p + m)" using ab(3,6) by linarith
      then show ?thesis unfolding lhs rhs cq using False by (simp only: if_False)
    qed
  qed
qed

lemma WriteAt_window:
  assumes m: "0 < m" "int p + int m \<le> FileLength (of_hdr f)" "m = min (nat n) (nat (FileLength (of_hdr f)) - p)" "m \<le> length from"
    and ab: "a = p div 128" "b = (p + m - 1) div 128" and lt: "int p + n < 2 ^ 31"
  shows "WriteAt junk f from n (int p) k =
    bindO (if \<not> p = 128 * a then bindO (ReadAt f 128 (int (128 * a)) k) (\<lambda>(d, k). Some (Inr (copy_into (new_buffer junk (128 * (1 + b - a))) 0 d, k)))
           else Some (Inr (new_buffer junk (128 * (1 + b - a)), k))) (\<lambda>(buf, k).
    bindO (if \<not> p + m = 128 * (b + 1) \<and> (a \<noteq> b \<or> p = 128 * a)
           then bindO (ReadAt f 128 (int (128 * b)) k) (\<lambda>(d, k). Some (Inr (copy_into buf (128 * (b - a)) d, k)))
           else Some (Inr (buf, k))) (\<lambda>(buf, k).
    bindO (write_sectors (1 + b - a) (int a) (of_hdr f) (copy_into buf (p - 128 * a) (take m from)) k) (\<lambda>k. Some (Inr (int m, k)))))"
proof -
  note W = window [OF m(1), of p, folded ab]
  have c: "\<not> (n \<le> 0 \<or> int p \<ge> FileLength (of_hdr f))" using m by auto
  have C: "c_int (int p + n) = int p + n" "c_int (int p + int m) = int p + int m" "c_int (int p + int m - 1) = int p + int m - 1" using c_int_window [OF lt, of m] c m(1,3) by simp_all
  have mi: "(if int p + n > FileLength (of_hdr f) then FileLength (of_hdr f) - int p else n) = int m" using m c by (auto simp: min_def split: if_splits)
  have nn: "\<not> 1 + int b - int a < 0" using W(2) by linarith
  have z: "int DiskSectorSize = 128" by simp
  have cnt: "nat (1 + int b - int a) = 1 + b - a" using W(2) by linarith
  then have cnt': "nat ((1 + int b - int a) * 128) = 128 * (1 + b - a)" by (simp add: nat_mult_distrib)
  have off: "int p - int a * 128 = int (p - 128 * a)" using W(3) by (simp add: of_nat_diff)
  have al: "(int p = int a * 128) = (p = 128 * a)" "(int p + int m = (int b + 1) * 128) = (p + m = 128 * (b + 1))" "(int a \<noteq> int b) = (a \<noteq> b)" by auto
  have mu: "int a * 128 = int (128 * a)" "int b * 128 = int (128 * b)" "nat ((int b - int a) * 128) = 128 * (b - a)"
    using W(2) by (auto simp: nat_mult_distrib nat_diff_distrib)
  have ok: "\<not> (int (p - 128 * a) < 0 \<or> int (length from) < int m)" using m(4) by simp
  show ?thesis
    unfolding WriteAt_def Let_def if_not_P [OF c] C(1) mi C(2,3) z W(4,5) if_not_P [OF nn] cnt cnt' al off unfolding mu if_not_P [OF ok] nat_int by (rule HOL.refl)
qed

lemma same_disk_changed: "same_disk k k1 \<Longrightarrow> changed h r k1 k' \<Longrightarrow> changed h r k k'"
  by (simp add: same_disk_def changed_def)

text \<open>The content of the file is \<open>c\<close>, and no sector outside the file has changed.\<close>

definition updated :: "FileHeader \<Rightarrow> 8 word list \<Rightarrow> 'm dsys_scheme \<Rightarrow> 'm dsys_scheme \<Rightarrow> bool" where
  "updated h c k k' \<longleftrightarrow> disk_ready k' \<and> dsys.more k' = dsys.more k \<and> content k' h = c \<and>
     (\<forall>s. 0 \<le> s \<longrightarrow> s < NumSectors \<longrightarrow> s \<notin> set (sectors_of h) \<longrightarrow> sector k' s = sector k s)"

lemma copy_into_nothing [simp]: "copy_into c p [] = c"
  by (simp add: copy_into_def)

lemma WriteAt_ok:
  assumes rdy: "disk_ready k" and ok: "hdr_ok (of_hdr f)" and pos: "0 \<le> pos" and fits: "nat n \<le> length from"
    and m: "m = min (nat n) (nat (FileLength (of_hdr f)) - nat pos)" and lt: "pos + n < 2 ^ 31"
  shows "\<exists>k'. WriteAt junk f from n pos k = Some (Inr (int m, k')) \<and> updated (of_hdr f) (copy_into (content k (of_hdr f)) (nat pos) (take m from)) k k'"
proof (cases "m = 0")
  case True
  then have "n \<le> 0 \<or> pos \<ge> FileLength (of_hdr f)" using m pos by auto
  then show ?thesis using True rdy by (simp add: WriteAt_def Let_def updated_def)
next
  case False
  define h where "h = of_hdr f"
  define p where "p = nat pos"
  define a where "a = p div 128"
  define b where "b = (p + m - 1) div 128"
  define c where "c = content k h"
  let ?n = "length (sectors_of h)" and ?len = "nat (FileLength h)" and ?bs = "take m from"
  have pos': "pos = int p" using pos by (simp add: p_def)
  have m': "m = min (nat n) (?len - p)" using m by (simp only: p_def h_def)
  have "m \<le> ?len - p" "m \<le> nat n" unfolding m' by simp_all
  then have pm: "0 < m" "p + m \<le> ?len" "m \<le> length from" using False fits by linarith+
  have FL: "int p + int m \<le> FileLength (of_hdr f)" using pm(1,2) unfolding h_def by linarith
  note W = window [OF pm(1), of p, folded a_def b_def]
  have bn: "b < ?n" using enough_sectors(3) [of h "p + m - 1"] ok pm by (simp add: h_def b_def)
  have pa: "p < 128 * a + 128" unfolding a_def using dividend_less_times_div [of 128 p] by simp
  have "p + m - 1 < 128 * b + 128" unfolding b_def using dividend_less_times_div [of 128 "p + m - 1"] by simp
  then have "p + m \<le> 128 * b + 128" using pm(1) by linarith
  moreover have "128 * b \<le> p + m - 1" by (rule times_div_less_eq_dividend [of 128 "p + m - 1", folded b_def])
  ultimately have pb: "128 * b < p + m" "p + m \<le> 128 * (b + 1)" using pm(1) by auto
  note run = WriteAt_window [OF pm(1) FL m [folded p_def] pm(3) a_def b_def lt [unfolded pos'], of junk k]
  let ?buf = "new_buffer junk (128 * (1 + b - a))"
  have lbuf: "length ?buf = 128 * (1 + b - a)" by (simp add: new_buffer_def)
  have R: "\<exists>k'. ReadAt f 128 (int q) k1 = Some (Inr (take 128 (drop q c), k')) \<and> same_disk k k'" if sd: "same_disk k k1" and q: "q < 2 ^ 30" for q k1
  proof -
    have "disk_ready k1" "content k1 h = c" using sd same_disk_raw [OF sd] by (simp_all add: same_disk_def c_def)
    then obtain k' where "ReadAt f 128 (int q) k1 = Some (Inr (take 128 (drop q c), k'))" "same_disk k1 k'"
      using ReadAt_ok [of k1 f "int q" 128] ok q by (auto simp: h_def)
    then show ?thesis using same_disk_trans [OF sd] by blast
  qed
  have lo: "128 * a < 2 ^ 30" "128 * b < 2 ^ 30" using bn W(2) enough_sectors(2) [of h] ok by (auto simp: h_def)
  obtain k1 where k1: "(if \<not> p = 128 * a then bindO (ReadAt f 128 (int (128 * a)) k) (\<lambda>(d, k). Some (Inr (copy_into ?buf 0 d, k))) else Some (Inr (?buf, k))) =
      Some (Inr (fill_first p a c ?buf, k1))" "same_disk k k1"
  proof (cases "p = 128 * a")
    case True
    then show ?thesis using same_disk_refl [OF rdy] that [of k] unfolding fill_first_def by (simp only: simp_thms if_False)
  next
    case False
    then show ?thesis using R [OF same_disk_refl [OF rdy] lo(1)] that by (auto simp: fill_first_def)
  qed
  obtain k2 where k2: "(if \<not> p + m = 128 * (b + 1) \<and> (a \<noteq> b \<or> p = 128 * a)
      then bindO (ReadAt f 128 (int (128 * b)) k1) (\<lambda>(d, k). Some (Inr (copy_into (fill_first p a c ?buf) (128 * (b - a)) d, k)))
      else Some (Inr (fill_first p a c ?buf, k1))) = Some (Inr (fill_last p m a b c (fill_first p a c ?buf), k2))" "same_disk k k2"
  proof (cases "\<not> p + m = 128 * (b + 1) \<and> (a \<noteq> b \<or> p = 128 * a)")
    case True
    then show ?thesis using R [OF k1(2) lo(2)] that by (auto simp: fill_last_def)
  next
    case False
    then show ?thesis using k1(2) that [of k1] unfolding fill_last_def by (simp only: if_False)
  qed
  let ?new = "copy_into (fill_last p m a b c (fill_first p a c ?buf)) (p - 128 * a) ?bs"
  have lr: "length (raw k h) = 128 * ?n" using length_raw [OF rdy] ok by (simp add: h_def)
  have le: "?len \<le> 128 * ?n" using enough_sectors(1) ok by (simp add: h_def)
  note C = written_content [OF lr W(2) bn W(3) pa pb pm(1) lbuf pm(2) le _ c_def [unfolded content_def], of ?bs]
  have lbs: "length ?bs = m" using pm(3) by simp
  have r2: "disk_ready k2" "raw k2 h = raw k h" using k2(2) same_disk_raw [OF k2(2)] by (simp_all add: same_disk_def)
  have "a + (1 + b - a) \<le> ?n" using W(2) bn by linarith
  from write_sectors_ok [OF r2(1) _ this C(2) [OF lbs]] obtain k' where k': "write_sectors (1 + b - a) (int a) h ?new k2 = Some (Inr k')"
    "changed h (copy_into (raw k h) (128 * a) ?new) k2 k'" using ok r2(2) by (auto simp: h_def)
  have "WriteAt junk f from n pos k = Some (Inr (int m, k'))"
    unfolding pos' run using k1(1) k2(1) k'(1) [unfolded h_def] by (simp only: bindO_simps prod.case)
  moreover have "content k' h = copy_into c p ?bs" using k'(2) C(1) [OF lbs] by (simp add: changed_def content_def)
  ultimately show ?thesis using same_disk_changed [OF k2(2) k'(2)] by (auto simp: updated_def changed_def h_def c_def p_def)
qed

section \<open>A file is an array of bytes\<close>

text \<open>The specification: a file has a fixed length, and a request is cut off at its end.\<close>

definition array_read :: "int \<Rightarrow> int \<Rightarrow> 8 word list \<Rightarrow> 8 word list" where
  "array_read n pos c = take (nat n) (drop (nat pos) c)"

definition array_write :: "8 word list \<Rightarrow> int \<Rightarrow> int \<Rightarrow> 8 word list \<Rightarrow> int \<times> 8 word list" where
  "array_write bs n pos c = (let m = min (nat n) (length c - nat pos) in (int m, take (nat pos) c @ take m bs @ drop (nat pos + m) c))"

text \<open>An open file refines an array of bytes: for every header whose sectors are distinct and on the disk, every position \<open>pos \<ge> 0\<close> and every number \<open>n\<close> of
  bytes with \<open>pos + n < 2 ^ 31\<close>, \<open>ReadAt\<close> returns the bytes of the file there and changes nothing on the disk; \<open>WriteAt\<close>, whatever its uninitialised buffer held, replaces
  exactly the bytes there, returns their number and changes no sector of another file. Neither stops or waits forever.\<close>

theorem open_file_is_array:
  assumes rdy: "disk_ready k" and ok: "hdr_ok (of_hdr f)" and pos: "0 \<le> pos" and fits: "nat n \<le> length from" and lt: "pos + n < 2 ^ 31"
  shows "(\<exists>k'. ReadAt f n pos k = Some (Inr (array_read n pos (content k (of_hdr f)), k')) \<and> same_disk k k') \<and>
    (case array_write from n pos (content k (of_hdr f)) of (r, c) \<Rightarrow> \<exists>k'. WriteAt junk f from n pos k = Some (Inr (r, k')) \<and> updated (of_hdr f) c k k')"
proof -
  let ?m = "min (nat n) (nat (FileLength (of_hdr f)) - nat pos)"
  have l: "length (content k (of_hdr f)) = nat (FileLength (of_hdr f))" by (rule length_content [OF rdy ok])
  have "length (take ?m from) = ?m" using fits by simp
  then have e: "array_write from n pos (content k (of_hdr f)) = (int ?m, copy_into (content k (of_hdr f)) (nat pos) (take ?m from))"
    unfolding array_write_def copy_into_def l Let_def by (simp only:)
  show ?thesis unfolding e prod.case array_read_def using ReadAt_ok [OF rdy ok pos lt] WriteAt_ok [OF rdy ok pos fits HOL.refl lt] by blast
qed

definition example_disk :: dsys where
  "example_disk = isys.extend (Interrupt_new (\<lambda>n. 0)) (dsys.fields \<lparr>d_file = MagicBytes @ replicate 131072 0, active = False, lastSector = 0, bufferInit = 0\<rparr> False 0)"

definition example_hdr :: FileHeader where
  "example_hdr = \<lparr>numBytes = 200, numSectors = 2, dataSectors = 9 # 5 # replicate 28 0\<rparr>"

lemma example_disk_ready: "disk_ready example_disk"
  by (simp add: disk_ready_def example_disk_def isys.defs dsys.defs Interrupt_new_def Statistics_new_def MagicBytes_def head_ok_def)

lemma example_hdr_ok: "hdr_ok example_hdr" "FileLength example_hdr = 200"
  by (simp_all add: hdr_ok_def example_hdr_def FileLength_def sectors_of_def NumDirect_def divRoundUp_def)

theorem open_file_is_array_witness:
  "\<exists>k'. WriteAt [] \<lparr>of_hdr = example_hdr, seekPosition = 0\<rparr> [1, 2, 3] 3 198 example_disk = Some (Inr (2, k')) \<and>
     content k' example_hdr = take 198 (content example_disk example_hdr) @ [1, 2]"
proof -
  have "length (content example_disk example_hdr) = 200" using length_content [OF example_disk_ready example_hdr_ok(1)] example_hdr_ok(2) by simp
  then show ?thesis
    using open_file_is_array [OF example_disk_ready, of "\<lparr>of_hdr = example_hdr, seekPosition = 0\<rparr>" 198 3 "[1, 2, 3]" "[]"] example_hdr_ok
    by (auto simp: array_write_def updated_def Let_def numeral_2_eq_2)
qed

text \<open>C39. A request whose end \<open>position + numBytes\<close> passes \<open>2 ^ 31\<close> is not cut off at the end of the file, unlike any other request that is too long: the sum is negative, and both routines fail at the
  allocation of a buffer of negative size, for every file, every position within the file and every such number of bytes.\<close>

theorem request_end_overflows:
  assumes "hdr_ok (of_hdr f)" and "0 \<le> pos" and "pos < FileLength (of_hdr f)" and "n < 2 ^ 31" and "2 ^ 31 < pos + n"
  shows "ReadAt f n pos k = Some (Inl OutOfBounds) \<and> WriteAt junk f from n pos k = Some (Inl OutOfBounds)"
proof -
  have "nat (FileLength (of_hdr f)) \<le> 3840" using enough_sectors(1,2) [OF assms(1)] by linarith
  then have l: "pos < 3840" using assms(3) by simp
  then have c: "\<not> (n \<le> 0 \<or> pos \<ge> FileLength (of_hdr f))" using assms(3,5) by auto
  have w: "c_int i = i - 2 ^ 32" if "2 ^ 31 \<le> i" "i < 2 ^ 32" for i
  proof -
    have "(i + 2 ^ 31) mod 2 ^ 32 = (i + 2 ^ 31 - 2 ^ 32) mod 2 ^ 32" by (rule minus_mod_self2 [symmetric])
    also have "\<dots> = i + 2 ^ 31 - 2 ^ 32" using that by (intro mod_pos_pos_trivial) auto
    finally show ?thesis by (simp add: c_int_def)
  qed
  have C: "c_int (pos + n) = pos + n - 2 ^ 32" "c_int (pos + n - 1) = pos + n - 1 - 2 ^ 32" using w [of "pos + n"] w [of "pos + n - 1"] assms(2,4,5) l by auto
  have cut: "\<not> pos + n - 2 ^ 32 > FileLength (of_hdr f)" using l assms(3,4) by simp
  have neg: "i sdiv 128 < - 1" if "i < - 1000" for i :: int
  proof -
    have "i sdiv 128 = - (- i div 128)" using that by (simp add: signed_divide_int_def)
    moreover have "7 \<le> - i div 128" using that zdiv_mono1 [of 1000 "- i" 128] by simp
    ultimately show ?thesis by simp
  qed
  have "(pos + n - 1 - 2 ^ 32) sdiv 128 < - 1" by (rule neg) (use l assms(4) in simp)
  moreover have "0 \<le> pos sdiv 128" using assms(2) by simp
  ultimately have m: "1 + (pos + n - 1 - 2 ^ 32) sdiv 128 - pos sdiv 128 < 0" by linarith
  have z: "int DiskSectorSize = 128" by simp
  show ?thesis unfolding ReadAt_def WriteAt_def Let_def if_not_P [OF c] C(1) if_not_P [OF cut] C(2) z if_P [OF m] by (intro conjI HOL.refl)
qed

theorem request_end_overflows_witness:
  "ReadAt \<lparr>of_hdr = example_hdr, seekPosition = 0\<rparr> 2147483647 2 example_disk = Some (Inl OutOfBounds) \<and>
   WriteAt [] \<lparr>of_hdr = example_hdr, seekPosition = 0\<rparr> [] 2147483647 2 example_disk = Some (Inl OutOfBounds)"
  by (rule request_end_overflows) (simp_all add: example_hdr_ok)

end
