(* ===== verification/Directory_Map.thy ===== *)
theory Directory_Map
  imports File_Content
begin

text \<open>
  The directory of \<^verbatim>\<open>src/code/filesys/directory.cc\<close> as a partial map from names to sectors. Two names are the same for the directory when they agree on
  their first nine characters: the map is on these (\<open>key\<close>).
\<close>

section \<open>Names\<close>

definition key :: "8 word list \<Rightarrow> 8 word list" where
  "key s = takeWhile (\<lambda>c. c \<noteq> 0) (take FileNameMaxLen s)"

lemma strncmp_eq_iff: "strncmp_eq n a b \<longleftrightarrow> takeWhile (\<lambda>c. c \<noteq> 0) (take n a) = takeWhile (\<lambda>c. c \<noteq> 0) (take n b)"
proof (induction n a b rule: strncmp_eq.induct)
  case (2 n a b)
  then show ?case by (cases a; cases b) (auto simp: Let_def)
qed simp

lemma key_strncpy: "key (strncpy dst src FileNameMaxLen) = key src"
proof -
  let ?s = "takeWhile (\<lambda>c. c \<noteq> 0) (take FileNameMaxLen src)"
  have l: "length ?s \<le> FileNameMaxLen" using length_takeWhile_le [of "\<lambda>c. c \<noteq> 0" "take FileNameMaxLen src"] by simp
  have nz: "\<forall>c \<in> set ?s. c \<noteq> 0" by (auto dest: set_takeWhileD)
  have "take FileNameMaxLen (?s @ replicate (FileNameMaxLen - length ?s) 0 @ drop FileNameMaxLen dst) = ?s @ replicate (FileNameMaxLen - length ?s) 0"
    using l by simp
  then have "key (strncpy dst src FileNameMaxLen) = takeWhile (\<lambda>c. c \<noteq> 0) (?s @ replicate (FileNameMaxLen - length ?s) 0)"
    by (simp add: key_def strncpy_def Let_def)
  also have "\<dots> = ?s @ takeWhile (\<lambda>c. c \<noteq> 0) (replicate (FileNameMaxLen - length ?s) 0)" using nz by (subst takeWhile_append2) auto
  also have "takeWhile (\<lambda>c. c \<noteq> (0 :: 8 word)) (replicate (FileNameMaxLen - length ?s) 0) = []" by (cases "FileNameMaxLen - length ?s") simp_all
  finally show ?thesis by (simp add: key_def)
qed

lemma length_strncpy: "length dst = 10 \<Longrightarrow> length (strncpy dst src FileNameMaxLen) = 10"
  using length_takeWhile_le [of "\<lambda>c. c \<noteq> 0" "take FileNameMaxLen src"] by (simp add: strncpy_def Let_def FileNameMaxLen_def)

section \<open>The map\<close>

fun lookup :: "DirectoryEntry list \<Rightarrow> 8 word list \<Rightarrow> int option" where
  "lookup [] x = None"
| "lookup (e # es) x = (if inUse e \<and> key (de_name e) = x then Some (sint (de_sector e)) else lookup es x)"

definition dir_ok :: "DirectoryEntry list \<Rightarrow> bool" where
  "dir_ok t \<longleftrightarrow> (\<forall>e \<in> set t. entry_ok e) \<and> distinct (map (key \<circ> de_name) (filter inUse t)) \<and> (\<forall>e \<in> set t. inUse e \<longrightarrow> 0 \<le> sint (de_sector e))"

definition dir_sectors :: "DirectoryEntry list \<Rightarrow> int list" where
  "dir_sectors t = map (sint \<circ> de_sector) (filter inUse t)"

lemma lookup_sector: "lookup t x = Some s \<Longrightarrow> s \<in> set (dir_sectors t)"
  by (induction t) (auto simp: dir_sectors_def split: if_splits)

lemma lookup_not: "x \<notin> (key \<circ> de_name) ` set (filter inUse t) \<Longrightarrow> lookup t x = None"
  by (induction t) (auto split: if_splits)

lemma lookup_append: "lookup (xs @ ys) x = (case lookup xs x of Some s \<Rightarrow> Some s | None \<Rightarrow> lookup ys x)"
  by (induction xs) auto

lemma find_index_lookup:
  assumes "0 \<le> i"
  shows "find_index name i t = (if lookup t (key name) = None then - 1 else i + int (length (takeWhile (\<lambda>e. \<not> (inUse e \<and> key (de_name e) = key name)) t)))"
  using assms
proof (induction t arbitrary: i)
  case (Cons e t)
  then show ?case by (auto simp: strncmp_eq_iff key_def)
qed simp

lemma lookup_nth:
  assumes "lookup t x \<noteq> None" and "n = length (takeWhile (\<lambda>e. \<not> (inUse e \<and> key (de_name e) = x)) t)"
  shows "n < length t" "lookup t x = Some (sint (de_sector (t ! n)))" "inUse (t ! n)" "key (de_name (t ! n)) = x"
proof -
  have "n < length t \<and> lookup t x = Some (sint (de_sector (t ! n))) \<and> inUse (t ! n) \<and> key (de_name (t ! n)) = x"
    using assms by (induction t arbitrary: n) (auto split: if_splits)
  then show "n < length t" "lookup t x = Some (sint (de_sector (t ! n)))" "inUse (t ! n)" "key (de_name (t ! n)) = x" by simp_all
qed

lemma Directory_Find_lookup: "Directory_Find name t = (case lookup t (key name) of None \<Rightarrow> - 1 | Some s \<Rightarrow> s)"
proof (cases "lookup t (key name) = None")
  case False
  then show ?thesis using find_index_lookup [of 0 name t] lookup_nth(2) [OF False HOL.refl] by (simp add: Directory_Find_def FindIndex_def Let_def)
qed (use find_index_lookup [of 0 name t] in \<open>simp add: Directory_Find_def FindIndex_def Let_def\<close>)

lemma FindIndex_none: "FindIndex name t = - 1 \<longleftrightarrow> lookup t (key name) = None"
  using find_index_lookup [of 0 name t] by (simp add: FindIndex_def)

section \<open>Adding and removing\<close>

definition new_entry :: "8 word list \<Rightarrow> int \<Rightarrow> DirectoryEntry \<Rightarrow> DirectoryEntry" where
  "new_entry name s e = e\<lparr>inUse := True, de_name := strncpy (de_name e) name FileNameMaxLen, de_sector := word_of_int s\<rparr>"

lemma add_entry_split:
  "(\<exists>e \<in> set t. \<not> inUse e) \<Longrightarrow> \<exists>xs e ys. t = xs @ e # ys \<and> (\<forall>x \<in> set xs. inUse x) \<and> \<not> inUse e \<and> add_entry name s t = (True, xs @ new_entry name s e # ys)"
proof (induction t)
  case (Cons a t)
  show ?case
  proof (cases "inUse a")
    case False
    then show ?thesis by (intro exI [of _ "[]"] exI [of _ a] exI [of _ t]) (simp add: new_entry_def)
  next
    case True
    then obtain xs e ys where "t = xs @ e # ys" "\<forall>x \<in> set xs. inUse x" "\<not> inUse e" "add_entry name s t = (True, xs @ new_entry name s e # ys)"
      using Cons by auto
    then show ?thesis using True by (intro exI [of _ "a # xs"] exI [of _ e] exI [of _ ys]) simp
  qed
qed simp

lemma add_entry_full: "\<forall>e \<in> set t. inUse e \<Longrightarrow> add_entry name s t = (False, t)"
  by (induction t) simp_all

lemma sint_word_of_int: "0 \<le> s \<Longrightarrow> s < 2 ^ 31 \<Longrightarrow> sint (word_of_int s :: 32 word) = s"
  by (simp add: sint_sbintrunc' signed_take_bit_int_eq_self)

text \<open>The effect of replacing one entry: of a free one by a new one, of a used one by a free one.\<close>

lemma dir_new_entry:
  assumes ok: "dir_ok (xs @ e # ys)" and e: "\<not> inUse e" and no: "lookup (xs @ e # ys) (key name) = None" and s: "0 \<le> s" "s < 2 ^ 31"
  shows "dir_ok (xs @ new_entry name s e # ys)" "lookup (xs @ new_entry name s e # ys) = (lookup (xs @ e # ys))(key name \<mapsto> s)"
    "dir_sectors (xs @ new_entry name s e # ys) = dir_sectors xs @ s # dir_sectors ys" "dir_sectors (xs @ e # ys) = dir_sectors xs @ dir_sectors ys"
proof -
  have n: "inUse (new_entry name s e)" "key (de_name (new_entry name s e)) = key name" "sint (de_sector (new_entry name s e)) = s"
    using s by (simp_all add: new_entry_def key_strncpy sint_word_of_int)
  have l: "lookup xs (key name) = None" "lookup ys (key name) = None" using no e by (auto simp: lookup_append split: option.splits)
  have used: "lookup t x \<noteq> None" if "x \<in> (key \<circ> de_name) ` set (filter inUse t)" for x t using that by (induction t) (auto split: if_splits)
  then have "key name \<notin> (key \<circ> de_name) ` set (filter inUse xs)" "key name \<notin> (key \<circ> de_name) ` set (filter inUse ys)" using l by blast+
  moreover have "entry_ok (new_entry name s e)" using ok length_strncpy by (simp add: dir_ok_def entry_ok_def new_entry_def)
  ultimately show "dir_ok (xs @ new_entry name s e # ys)" using ok e n s by (auto simp: dir_ok_def)
  show "lookup (xs @ new_entry name s e # ys) = (lookup (xs @ e # ys))(key name \<mapsto> s)"
    using n l e by (auto simp: fun_eq_iff lookup_append split: option.split)
  show "dir_sectors (xs @ new_entry name s e # ys) = dir_sectors xs @ s # dir_sectors ys" "dir_sectors (xs @ e # ys) = dir_sectors xs @ dir_sectors ys"
    using n e by (simp_all add: dir_sectors_def)
qed

lemma dir_free_entry:
  assumes ok: "dir_ok (xs @ e # ys)" and e: "inUse e"
  shows "dir_ok (xs @ e\<lparr>inUse := False\<rparr> # ys)" "lookup (xs @ e\<lparr>inUse := False\<rparr> # ys) = (lookup (xs @ e # ys))(key (de_name e) := None)"
    "dir_sectors (xs @ e # ys) = dir_sectors xs @ sint (de_sector e) # dir_sectors ys" "dir_sectors (xs @ e\<lparr>inUse := False\<rparr> # ys) = dir_sectors xs @ dir_sectors ys"
proof -
  have d: "key (de_name e) \<notin> (key \<circ> de_name) ` set (filter inUse xs)" "key (de_name e) \<notin> (key \<circ> de_name) ` set (filter inUse ys)"
    using ok e by (auto simp: dir_ok_def image_iff)
  show "dir_ok (xs @ e\<lparr>inUse := False\<rparr> # ys)" using ok e by (auto simp: dir_ok_def entry_ok_def)
  show "lookup (xs @ e\<lparr>inUse := False\<rparr> # ys) = (lookup (xs @ e # ys))(key (de_name e) := None)"
    using lookup_not [OF d(1)] lookup_not [OF d(2)] e by (auto simp: fun_eq_iff lookup_append split: option.split)
  show "dir_sectors (xs @ e # ys) = dir_sectors xs @ sint (de_sector e) # dir_sectors ys" "dir_sectors (xs @ e\<lparr>inUse := False\<rparr> # ys) = dir_sectors xs @ dir_sectors ys"
    using e by (simp_all add: dir_sectors_def)
qed

lemma Directory_Remove_split:
  assumes "lookup t (key name) = Some s"
  shows "\<exists>xs e ys. t = xs @ e # ys \<and> inUse e \<and> key (de_name e) = key name \<and> sint (de_sector e) = s \<and> Directory_Remove name t = (True, xs @ e\<lparr>inUse := False\<rparr> # ys)"
proof -
  define n where "n = length (takeWhile (\<lambda>e. \<not> (inUse e \<and> key (de_name e) = key name)) t)"
  have "lookup t (key name) \<noteq> None" using assms by simp
  note L = lookup_nth [OF this n_def]
  have i: "FindIndex name t = int n" using find_index_lookup [of 0 name t] assms by (simp add: FindIndex_def n_def)
  have "Directory_Remove name t = (True, take n t @ (t ! n)\<lparr>inUse := False\<rparr> # drop (Suc n) t)"
    using L(1) i by (simp add: Directory_Remove_def Let_def upd_conv_take_nth_drop)
  moreover have "t = take n t @ t ! n # drop (Suc n) t" using L(1) by (rule id_take_nth_drop)
  moreover have "sint (de_sector (t ! n)) = s" using L(2) assms by simp
  ultimately show ?thesis using L(3,4) by blast
qed

text \<open>The directory refines a partial map from names (their first nine characters) to sectors: \<open>Find\<close> looks the name up, \<open>Add\<close> enters a name that is
  not there as long as an entry is free and changes nothing otherwise, \<open>Remove\<close> deletes it, and the well-formedness of the table is kept.\<close>

theorem directory_is_map:
  assumes ok: "dir_ok t" and s: "0 \<le> s" "s < NumSectors"
  shows "Directory_Find name t = (case lookup t (key name) of None \<Rightarrow> - 1 | Some s \<Rightarrow> s) \<and>
    (case Directory_Add name s t of (added, t') \<Rightarrow> added = (lookup t (key name) = None \<and> (\<exists>e \<in> set t. \<not> inUse e)) \<and> dir_ok t' \<and> length t' = length t \<and>
       lookup t' = (if added then (lookup t)(key name \<mapsto> s) else lookup t)) \<and>
    (case Directory_Remove name t of (removed, t') \<Rightarrow> removed = (lookup t (key name) \<noteq> None) \<and> dir_ok t' \<and> length t' = length t \<and>
       lookup t' = (lookup t)(key name := None))"
proof (intro conjI)
  show "Directory_Find name t = (case lookup t (key name) of None \<Rightarrow> - 1 | Some s \<Rightarrow> s)" by (rule Directory_Find_lookup)
  show "case Directory_Add name s t of (added, t') \<Rightarrow> added = (lookup t (key name) = None \<and> (\<exists>e \<in> set t. \<not> inUse e)) \<and> dir_ok t' \<and> length t' = length t \<and>
       lookup t' = (if added then (lookup t)(key name \<mapsto> s) else lookup t)"
  proof (cases "lookup t (key name) = None \<and> (\<exists>e \<in> set t. \<not> inUse e)")
    case True
    obtain xs e ys where t: "t = xs @ e # ys" "\<not> inUse e" "add_entry name s t = (True, xs @ new_entry name s e # ys)" using add_entry_split True by blast
    then show ?thesis using dir_new_entry(1,2) [OF ok [unfolded t(1)] t(2)] True s FindIndex_none [of name t] by (simp add: Directory_Add_def)
  next
    case False
    then show ?thesis using ok FindIndex_none [of name t] add_entry_full [of t name s] by (auto simp: Directory_Add_def)
  qed
  show "case Directory_Remove name t of (removed, t') \<Rightarrow> removed = (lookup t (key name) \<noteq> None) \<and> dir_ok t' \<and> length t' = length t \<and>
       lookup t' = (lookup t)(key name := None)"
  proof (cases "lookup t (key name)")
    case None
    then show ?thesis using ok FindIndex_none [of name t] by (auto simp: Directory_Remove_def fun_eq_iff)
  next
    case (Some x)
    then obtain xs e ys where t: "t = xs @ e # ys" "inUse e" "key (de_name e) = key name" "Directory_Remove name t = (True, xs @ e\<lparr>inUse := False\<rparr> # ys)"
      using Directory_Remove_split by blast
    then show ?thesis using dir_free_entry(1,2) [OF ok [unfolded t(1)] t(2)] Some by simp
  qed
qed

definition example_table :: "DirectoryEntry list" where
  "example_table = replicate 10 \<lparr>inUse = False, de_sector = 0, de_name = replicate 10 0, de_pad = replicate 5 0\<rparr>"

lemma example_table_ok: "dir_ok example_table" "lookup example_table x = None"
  by (simp_all add: dir_ok_def example_table_def entry_ok_def lookup_not)

theorem directory_is_map_witness:
  "\<exists>t'. Directory_Add [97] 7 example_table = (True, t') \<and> dir_ok t' \<and> lookup t' [97] = Some 7"
proof -
  have "key [97] = [97]" by (simp add: key_def FileNameMaxLen_def)
  moreover have "\<exists>e \<in> set example_table. \<not> inUse e" by (simp add: example_table_def)
  ultimately show ?thesis using directory_is_map [OF example_table_ok(1), of 7 "[97]"] example_table_ok(2) by (auto split: prod.splits)
qed

end
