(* ===== verification/Filesys_Correct.thy ===== *)
theory Filesys_Correct
  imports Directory_Map
begin

text \<open>
  Correctness of the operations of \<^verbatim>\<open>src/code/filesys/filesys.cc\<close>.

  \<open>fs_inv\<close> is the invariant of the disk between two operations: the headers, the directory and the bitmap on it are well-formed, every block belongs to at most
  one owner (the bitmap file, the directory file, or a file of the directory), and the bitmap marks exactly the blocks that have one. \<open>fs_files\<close> is
  what the file system stores: a map from names to bytes. \<open>Create\<close>, \<open>Open\<close> and \<open>Remove\<close> are shown to be the operations on that map.
\<close>

section \<open>Allocating and freeing the sectors of a file\<close>

lemma alloc_sectors_many:
  assumes "i + n \<le> length ds" and "alloc_many Find n m = Inr (js, m')"
  shows "alloc_sectors n i ds m = Inr (take i ds @ map word_of_int js @ drop (i + n) ds, m')"
  using assms
proof (induction n arbitrary: i ds m js)
  case (Suc n)
  obtain j m1 js' where j: "Find m = Inr (j, m1)" "alloc_many Find n m1 = Inr (js', m')" "js = j # js'"
    using Suc.prems(2) by (auto simp: bindR_eq_Inr)
  have "alloc_sectors n (Suc i) (ds[i := word_of_int j]) m1 =
      Inr (take (Suc i) (ds[i := word_of_int j]) @ map word_of_int js' @ drop (Suc i + n) (ds[i := word_of_int j]), m')"
    using Suc.IH [OF _ j(2), of "Suc i" "ds[i := word_of_int j]"] Suc.prems(1) by simp
  moreover have "take (Suc i) (ds[i := word_of_int j]) = take i ds @ [word_of_int j]" using Suc.prems(1) by (simp add: take_Suc_conv_app_nth)
  ultimately show ?case using j Suc.prems(1) by simp
qed simp

lemma Allocate_ok:
  assumes wf: "bitmap_wf m" "numBits m = NumSectors" and h: "length (dataSectors h) = NumDirect" and sz: "0 \<le> sz" "divRoundUp sz 128 \<le> int NumDirect"
  shows "if divRoundUp sz 128 \<le> NumSectors - int (card (bits m))
    then \<exists>h' m'. FileHeader_Allocate h m sz = Inr (True, h', m') \<and> hdr_ok h' \<and> FileLength h' = sz \<and> bitmap_wf m' \<and> numBits m' = NumSectors \<and>
      set (sectors_of h') \<inter> bits m = {} \<and> bits m' = bits m \<union> set (sectors_of h')
    else \<exists>h'. FileHeader_Allocate h m sz = Inr (False, h', m)"
proof -
  let ?n = "divRoundUp sz 128"
  let ?h = "h\<lparr>numBytes := word_of_int sz, numSectors := word_of_int ?n\<rparr>"
  have b: "0 \<le> ?n" "?n \<le> 30" "sz \<le> 3840" using divRoundUp_bounds [OF sz(1)] sz(2) by (simp_all add: NumDirect_def)
  have s: "sint (word_of_int sz :: 32 word) = sz" "sint (word_of_int ?n :: 32 word) = ?n" using b sz(1) by (simp_all add: sint_word_of_int)
  note nc = NumClear_correct [OF wf(1)]
  show ?thesis
  proof (cases "?n \<le> NumSectors - int (card (bits m))")
    case False
    then show ?thesis using nc wf(2) by (simp add: FileHeader_Allocate_def Let_def)
  next
    case True
    then have "int (nat ?n) + int (card (bits m)) \<le> numBits m" using wf(2) b by simp
    from bitmap.alloc_many_fresh [OF wf(1) this] obtain js m' where
      js: "alloc_many Find (nat ?n) m = Inr (js, m')" "length js = nat ?n" "distinct js" "set js \<subseteq> {0..<numBits m} - bits m" "bitmap_wf m'"
      "numBits m' = numBits m" "bits m' = bits m \<union> set js" by blast
    let ?ds = "map word_of_int js @ drop (nat ?n) (dataSectors h)"
    let ?h' = "?h\<lparr>dataSectors := ?ds\<rparr>"
    have "nat ?n \<le> length (dataSectors h)" using h b by (simp add: NumDirect_def)
    then have "alloc_sectors (nat ?n) 0 (dataSectors ?h) m = Inr (?ds, m')" using alloc_sectors_many [OF _ js(1), of 0 "dataSectors h"] by simp
    then have run: "FileHeader_Allocate h m sz = Inr (True, ?h', m')"
      using True nc wf(2) by (simp add: FileHeader_Allocate_def Let_def)
    have "map (\<lambda>j. sint (word_of_int j :: 32 word)) js = js"
      using js(4) wf(2) by (intro map_idI) (auto simp: sint_word_of_int)
    then have sec: "sectors_of ?h' = js" using js(2) s(2) by (simp add: sectors_of_def o_def)
    have "hdr_ok ?h'" using h b s js sz(1) sec wf(2) by (auto simp: hdr_ok_def FileLength_def NumDirect_def)
    then show ?thesis using True run js wf(2) sec s(1) by (auto simp: FileLength_def)
  qed
qed

lemma dealloc_sectors_ok:
  assumes "bitmap_wf m" and "i + n \<le> length ds" and "distinct (map sint (take n (drop i ds)))" and "sint ` set (take n (drop i ds)) \<subseteq> bits m"
  shows "\<exists>m'. dealloc_sectors n i ds m = Inr m' \<and> bitmap_wf m' \<and> numBits m' = numBits m \<and> bits m' = bits m - sint ` set (take n (drop i ds))"
  using assms
proof (induction n arbitrary: i m)
  case (Suc n)
  let ?s = "sint (ds ! i)"
  have i: "i < length ds" using Suc.prems(2) by simp
  have e: "take (Suc n) (drop i ds) = ds ! i # take n (drop (Suc i) ds)" using i by (simp add: Cons_nth_drop_Suc [symmetric])
  have s: "?s \<in> bits m" "0 \<le> ?s" "?s < numBits m" using Suc.prems(4) bits_bounds [of ?s m] unfolding e by auto
  obtain m1 where m1: "Clear ?s m = Inr m1" "bitmap_wf m1" "numBits m1 = numBits m" "bits m1 = bits m - {?s}" using Clear_correct [OF Suc.prems(1) s(2,3)] by blast
  have d: "?s \<notin> sint ` set (take n (drop (Suc i) ds))" "distinct (map sint (take n (drop (Suc i) ds)))" using Suc.prems(3) unfolding e by auto
  have "sint ` set (take n (drop (Suc i) ds)) \<subseteq> bits m1" using Suc.prems(4) d(1) unfolding e m1(4) by (simp add: subset_insert_iff subset_Diff_insert)
  then obtain m' where m': "dealloc_sectors n (Suc i) ds m1 = Inr m'" "bitmap_wf m'" "numBits m' = numBits m1" "bits m' = bits m1 - sint ` set (take n (drop (Suc i) ds))"
    using Suc.IH [OF m1(2), of "Suc i"] Suc.prems(2) d(2) by auto
  have "bits m' = bits m - sint ` set (take (Suc n) (drop i ds))" unfolding m'(4) m1(4) e by auto
  then show ?case using i s Test_correct [OF Suc.prems(1) s(2,3)] m1 m' by simp
qed simp

lemma Deallocate_ok:
  assumes "bitmap_wf m" and "hdr_ok h" and "set (sectors_of h) \<subseteq> bits m"
  shows "\<exists>m'. FileHeader_Deallocate h m = Inr m' \<and> bitmap_wf m' \<and> numBits m' = numBits m \<and> bits m' = bits m - set (sectors_of h)"
proof -
  let ?n = "nat (sint (numSectors h))"
  have h: "0 + ?n \<le> length (dataSectors h)" "distinct (sectors_of h)" using assms(2) by (auto simp: hdr_ok_def)
  show ?thesis
    using dealloc_sectors_ok [OF assms(1) h(1)] h(2) assms(3) unfolding FileHeader_Deallocate_def sectors_of_def drop_0 set_map by blast
qed

section \<open>The invariant of the disk\<close>

definition the_dir :: "'m fsys_scheme \<Rightarrow> DirectoryEntry list" where
  "the_dir k = dir_of_bytes NumDirEntries (content k (of_hdr (directoryFile k)))"

definition the_map :: "'m fsys_scheme \<Rightarrow> BitMap" where
  "the_map k = \<lparr>numBits = NumSectors, numWords = 32, bm_map = bytes_words 32 (content k (of_hdr (freeMapFile k)))\<rparr>"

definition hdr_at :: "'m fsys_scheme \<Rightarrow> int \<Rightarrow> FileHeader" where
  "hdr_at k s = hdr_of_bytes (sector k s)"

definition file_blocks :: "'m fsys_scheme \<Rightarrow> int \<Rightarrow> int list" where
  "file_blocks k s = s # sectors_of (hdr_at k s)"

definition meta_blocks :: "'m fsys_scheme \<Rightarrow> int list" where
  "meta_blocks k = 0 # sectors_of (of_hdr (freeMapFile k)) @ 1 # sectors_of (of_hdr (directoryFile k))"

definition blocks :: "'m fsys_scheme \<Rightarrow> int list" where
  "blocks k = meta_blocks k @ concat (map (file_blocks k) (dir_sectors (the_dir k)))"

definition meta_ok :: "'m fsys_scheme \<Rightarrow> bool" where
  "meta_ok k \<longleftrightarrow> disk_ready k \<and> hdr_ok (of_hdr (freeMapFile k)) \<and> FileLength (of_hdr (freeMapFile k)) = 128 \<and>
     hdr_ok (of_hdr (directoryFile k)) \<and> FileLength (of_hdr (directoryFile k)) = 200 \<and> distinct (meta_blocks k) \<and>
     hdr_at k 0 = of_hdr (freeMapFile k) \<and> hdr_at k 1 = of_hdr (directoryFile k)"

definition fs_inv :: "'m fsys_scheme \<Rightarrow> bool" where
  "fs_inv k \<longleftrightarrow> meta_ok k \<and> dir_ok (the_dir k) \<and> (\<forall>s \<in> set (dir_sectors (the_dir k)). hdr_ok (hdr_at k s)) \<and>
     distinct (blocks k) \<and> set (blocks k) = bits (the_map k)"

definition fs_files :: "'m fsys_scheme \<Rightarrow> 8 word list \<Rightarrow> 8 word list option" where
  "fs_files k x = map_option (\<lambda>s. content k (hdr_at k s)) (lookup (the_dir k) x)"

text \<open>What \<open>new\<close> returns has the right size, whatever it holds.\<close>

definition junk_ok :: "junk \<Rightarrow> bool" where
  "junk_ok j \<longleftrightarrow> length (j_table j) = NumDirEntries \<and> (\<forall>e \<in> set (j_table j). entry_ok e) \<and> length (dataSectors (j_hdr j)) = NumDirect"

lemma same_more: "dsys.more k' = dsys.more k \<Longrightarrow> freeMapFile k' = freeMapFile k \<and> directoryFile k' = directoryFile k" for k k' :: "'m fsys_scheme"
  by (cases k; cases k') simp

lemma content_cong: "(\<And>s. s \<in> set (sectors_of h) \<Longrightarrow> sector k' s = sector k s) \<Longrightarrow> content k' h = content k h"
  by (simp add: content_def raw_def cong: map_cong)

lemma the_map_wf [simp]: "bitmap_wf (the_map k)" "numBits (the_map k) = NumSectors"
  by (simp_all add: bitmap_wf_def the_map_def bytes_words_def divRoundUp_def BitsInWord_def)

lemma the_dir_length [simp]: "length (the_dir k) = NumDirEntries"
  by (simp add: the_dir_def dir_of_bytes_def)

lemma blocks_range: "fs_inv k \<Longrightarrow> s \<in> set (blocks k) \<Longrightarrow> 0 \<le> s \<and> s < NumSectors"
  using bits_bounds [of s "the_map k"] by (simp add: fs_inv_def)

text \<open>Reading and writing the directory and the bitmap.\<close>

lemma copy_into_all [simp]: "length bs = length buf \<Longrightarrow> copy_into buf 0 bs = bs"
  by (simp add: copy_into_def)

lemma dir_fetch:
  assumes "meta_ok k" and "junk_ok j"
  shows "\<exists>k'. Directory_FetchFrom (directoryFile k) (Directory_new (j_table j)) k = Some (Inr (the_dir k, k')) \<and> same_disk k k'"
proof -
  let ?t = "Directory_new (j_table j)" and ?h = "of_hdr (directoryFile k)"
  have ok: "disk_ready k" "hdr_ok ?h" "length (content k ?h) = 200" using assms(1) length_content [of k ?h] by (auto simp: meta_ok_def)
  have t: "length ?t = 10" "\<forall>e \<in> set ?t. entry_ok e" using assms(2) by (auto simp: junk_ok_def Directory_new_def NumDirEntries_def entry_ok_def)
  obtain k' where "ReadAt (directoryFile k) 200 0 k = Some (Inr (content k ?h, k'))" "same_disk k k'"
    using ReadAt_ok [OF ok(1,2), of 0 200] ok(3) by auto
  then show ?thesis using t ok(3) by (simp add: Directory_FetchFrom_def EntrySize_def the_dir_def NumDirEntries_def)
qed

lemma map_fetch:
  assumes "meta_ok k"
  shows "\<exists>b k'. BitMap_new ws NumSectors = Inr b \<and> BitMap_FetchFrom (freeMapFile k) b k = Some (Inr (the_map k, k')) \<and> same_disk k k'"
proof -
  let ?h = "of_hdr (freeMapFile k)"
  have ok: "disk_ready k" "hdr_ok ?h" "length (content k ?h) = 128" using assms(1) length_content [of k ?h] by (auto simp: meta_ok_def)
  obtain b where b: "BitMap_new ws NumSectors = Inr b" "bitmap_wf b" "numBits b = NumSectors" using BitMap_new_correct [of NumSectors ws] by auto
  then have w: "numWords b = 32" "length (bm_map b) = 32" by (simp_all add: bitmap_wf_def divRoundUp_def BitsInWord_def)
  obtain k' where k': "ReadAt (freeMapFile k) 128 0 k = Some (Inr (content k ?h, k'))" "same_disk k k'"
    using ReadAt_ok [OF ok(1,2), of 0 128] ok(3) by auto
  have "b\<lparr>bm_map := bytes_words 32 (content k ?h)\<rparr> = the_map k" using b(3) w(1) by (cases b) (simp add: the_map_def)
  then show ?thesis using b(1) k' w ok(3) by (simp add: BitMap_FetchFrom_def)
qed

lemma dir_write:
  assumes ok: "disk_ready k" "hdr_ok (of_hdr f)" "FileLength (of_hdr f) = 200" and t: "length t = NumDirEntries" "\<forall>e \<in> set t. entry_ok e"
  shows "\<exists>k'. Directory_WriteBack buf f t k = Some (Inr k') \<and> updated (of_hdr f) (dir_bytes t) k k'"
proof -
  have l: "length (dir_bytes t) = 200" "int (length t) * int EntrySize = 200" "length (content k (of_hdr f)) = 200"
    using t ok(3) length_content [OF ok(1,2)] by (simp_all add: NumDirEntries_def EntrySize_def)
  obtain k' where "WriteAt buf f (dir_bytes t) 200 0 k = Some (Inr (200, k'))" "updated (of_hdr f) (dir_bytes t) k k'"
    using WriteAt_ok [OF ok(1,2), of 0 200 "dir_bytes t" _ buf, OF _ _ HOL.refl] l(1,3) ok(3) by auto
  then show ?thesis using l(2) by (simp add: Directory_WriteBack_def)
qed

lemma map_write:
  assumes ok: "disk_ready k" "hdr_ok (of_hdr f)" "FileLength (of_hdr f) = 128" and m: "bitmap_wf m" "numBits m = NumSectors"
  shows "\<exists>k'. BitMap_WriteBack buf f m k = Some (Inr k') \<and> updated (of_hdr f) (words_bytes (bm_map m)) k k'"
proof -
  have w: "numWords m = 32" "length (bm_map m) = 32" "length (content k (of_hdr f)) = 128"
    using m ok(3) length_content [OF ok(1,2)] by (simp_all add: bitmap_wf_def divRoundUp_def BitsInWord_def)
  obtain k' where "WriteAt buf f (words_bytes (bm_map m)) 128 0 k = Some (Inr (128, k'))" "updated (of_hdr f) (words_bytes (bm_map m)) k k'"
    using WriteAt_ok [OF ok(1,2), of 0 128 "words_bytes (bm_map m)" _ buf, OF _ _ HOL.refl] w(2,3) ok(3) by auto
  then show ?thesis using w(1) by (simp add: BitMap_WriteBack_def)
qed

section \<open>What a change of the disk keeps\<close>

lemma same_disk_fs:
  assumes "same_disk k k'" and "disk_ready k"
  shows "the_dir k' = the_dir k" "the_map k' = the_map k" "hdr_at k' = hdr_at k" "meta_ok k' = meta_ok k" "fs_inv k' = fs_inv k" "fs_files k' = fs_files k"
    "freeMapFile k' = freeMapFile k" "directoryFile k' = directoryFile k"
proof -
  have rdy: "disk_ready k'" "sector k' = sector k" and m: "freeMapFile k' = freeMapFile k" "directoryFile k' = directoryFile k"
    using assms same_more [of k' k] by (auto simp: same_disk_def)
  have c: "content k' = content k" using same_disk_raw [OF assms(1)] by auto
  show d: "the_dir k' = the_dir k" "the_map k' = the_map k" "hdr_at k' = hdr_at k" by (simp_all add: the_dir_def the_map_def hdr_at_def m c rdy(2) fun_eq_iff)
  have b: "meta_blocks k' = meta_blocks k" "blocks k' = blocks k" by (simp_all add: blocks_def meta_blocks_def file_blocks_def [abs_def] d m)
  show mo: "meta_ok k' = meta_ok k"
    using rdy assms(2) by (simp add: meta_ok_def m b d)
  show "fs_inv k' = fs_inv k" "fs_files k' = fs_files k" by (simp_all add: fs_inv_def fs_files_def fun_eq_iff mo b c d)
  show "freeMapFile k' = freeMapFile k" "directoryFile k' = directoryFile k" by (rule m)+
qed

text \<open>The directory file and the file of the bitmap are rewritten, and the sectors of \<open>W\<close>; no other sector changes.\<close>

definition stored :: "DirectoryEntry list \<Rightarrow> BitMap \<Rightarrow> int set \<Rightarrow> 'm fsys_scheme \<Rightarrow> 'm fsys_scheme \<Rightarrow> bool" where
  "stored t m W k k' \<longleftrightarrow> disk_ready k' \<and> dsys.more k' = dsys.more k \<and> the_dir k' = t \<and> the_map k' = m \<and>
     (\<forall>s. 0 \<le> s \<and> s < NumSectors \<and> s \<notin> set (sectors_of (of_hdr (freeMapFile k))) \<union> set (sectors_of (of_hdr (directoryFile k))) \<union> W \<longrightarrow> sector k' s = sector k s)"

lemma meta_frame:
  assumes "meta_ok k" and "disk_ready k'" and "dsys.more k' = dsys.more k" and "sector k' 0 = sector k 0" and "sector k' 1 = sector k 1"
  shows "meta_ok k'" "meta_blocks k' = meta_blocks k"
  using assms same_more [OF assms(3)] by (simp_all add: meta_ok_def hdr_at_def meta_blocks_def)

lemma meta_disjoint:
  assumes "meta_ok k"
  shows "set (sectors_of (of_hdr (freeMapFile k))) \<inter> set (sectors_of (of_hdr (directoryFile k))) = {}"
    "0 \<notin> set (sectors_of (of_hdr (freeMapFile k))) \<union> set (sectors_of (of_hdr (directoryFile k)))"
    "1 \<notin> set (sectors_of (of_hdr (freeMapFile k))) \<union> set (sectors_of (of_hdr (directoryFile k)))"
  using assms by (auto simp: meta_ok_def meta_blocks_def)

lemma hdr_sectors_range: "hdr_ok h \<Longrightarrow> s \<in> set (sectors_of h) \<Longrightarrow> 0 \<le> s \<and> s < NumSectors"
  by (simp add: hdr_ok_def)

lemma the_map_written: "bitmap_wf m \<Longrightarrow> numBits m = NumSectors \<Longrightarrow> content k (of_hdr (freeMapFile k)) = words_bytes (bm_map m) \<Longrightarrow> the_map k = m"
  using bytes_words_roundtrip [of "bm_map m"] by (cases m) (simp add: the_map_def bitmap_wf_def divRoundUp_def BitsInWord_def)

lemma the_dir_written:
  "length t = NumDirEntries \<Longrightarrow> \<forall>e \<in> set t. entry_ok e \<Longrightarrow> content k (of_hdr (directoryFile k)) = dir_bytes t \<Longrightarrow> the_dir k = t"
  using dir_roundtrip [of t] by (simp add: the_dir_def)

text \<open>The two writes, in either order.\<close>

lemma updated_meta:
  assumes ok: "meta_ok k" and h: "h = of_hdr (freeMapFile k) \<or> h = of_hdr (directoryFile k)" and u: "updated h c k k'"
  shows "meta_ok k'" "dsys.more k' = dsys.more k" "freeMapFile k' = freeMapFile k" "directoryFile k' = directoryFile k"
proof -
  show m: "dsys.more k' = dsys.more k" using u by (simp add: updated_def)
  then show "freeMapFile k' = freeMapFile k" "directoryFile k' = directoryFile k" using same_more by blast+
  show "meta_ok k'" by (rule meta_frame(1) [OF ok _ m]) (use u h meta_disjoint(2,3) [OF ok] in \<open>auto simp: updated_def\<close>)
qed

lemma updated_pair:
  assumes ok: "meta_ok k" and u: "updated h c k k1" "updated h' c' k1 k'" and h: "{h, h'} = {of_hdr (freeMapFile k), of_hdr (directoryFile k)}"
  shows "content k' h = c" "content k' h' = c'" "disk_ready k'" "dsys.more k' = dsys.more k"
    "\<forall>s. 0 \<le> s \<and> s < NumSectors \<and> s \<notin> set (sectors_of (of_hdr (freeMapFile k))) \<union> set (sectors_of (of_hdr (directoryFile k))) \<longrightarrow> sector k' s = sector k s"
proof -
  have ok': "hdr_ok h" "hdr_ok h'" using ok h by (auto simp: meta_ok_def doubleton_eq_iff)
  have "set (sectors_of h) \<inter> set (sectors_of h') = {}" using meta_disjoint(1) [OF ok] h by (auto simp: doubleton_eq_iff)
  then have "content k' h = content k1 h" using u(2) hdr_sectors_range [OF ok'(1)] by (intro content_cong) (auto simp: updated_def)
  then show "content k' h = c" "content k' h' = c'" "disk_ready k'" "dsys.more k' = dsys.more k" using u by (simp_all add: updated_def)
  show "\<forall>s. 0 \<le> s \<and> s < NumSectors \<and> s \<notin> set (sectors_of (of_hdr (freeMapFile k))) \<union> set (sectors_of (of_hdr (directoryFile k))) \<longrightarrow> sector k' s = sector k s"
    using u h by (auto simp: updated_def doubleton_eq_iff)
qed

lemma store_both:
  assumes ok: "meta_ok k" and t: "length t = NumDirEntries" "\<forall>e \<in> set t. entry_ok e" and m: "bitmap_wf m" "numBits m = NumSectors"
  shows "\<exists>k1 k'. Directory_WriteBack buf (directoryFile k) t k = Some (Inr k1) \<and> BitMap_WriteBack buf (freeMapFile k1) m k1 = Some (Inr k') \<and> stored t m {} k k'"
    and "\<exists>k1 k'. BitMap_WriteBack buf (freeMapFile k) m k = Some (Inr k1) \<and> Directory_WriteBack buf (directoryFile k1) t k1 = Some (Inr k') \<and> stored t m {} k k'"
proof -
  obtain k1 where k1: "Directory_WriteBack buf (directoryFile k) t k = Some (Inr k1)" "updated (of_hdr (directoryFile k)) (dir_bytes t) k k1"
    using dir_write [OF _ _ _ t] ok unfolding meta_ok_def by blast
  note U = updated_meta [OF ok disjI2 [OF HOL.refl] k1(2)]
  obtain k' where k': "BitMap_WriteBack buf (freeMapFile k1) m k1 = Some (Inr k')" "updated (of_hdr (freeMapFile k)) (words_bytes (bm_map m)) k1 k'"
    using map_write [OF _ _ _ m] U(1,3) unfolding meta_ok_def by metis
  note P = updated_pair [OF ok k1(2) k'(2) insert_commute]
  have "stored t m {} k k'"
    using P the_dir_written [OF t, of k'] the_map_written [OF m, of k'] same_more [OF P(4)] by (simp add: stored_def)
  then show "\<exists>k1 k'. Directory_WriteBack buf (directoryFile k) t k = Some (Inr k1) \<and> BitMap_WriteBack buf (freeMapFile k1) m k1 = Some (Inr k') \<and> stored t m {} k k'"
    using k1(1) k'(1) by blast
next
  obtain k1 where k1: "BitMap_WriteBack buf (freeMapFile k) m k = Some (Inr k1)" "updated (of_hdr (freeMapFile k)) (words_bytes (bm_map m)) k k1"
    using map_write [OF _ _ _ m] ok unfolding meta_ok_def by blast
  note U = updated_meta [OF ok disjI1 [OF HOL.refl] k1(2)]
  obtain k' where k': "Directory_WriteBack buf (directoryFile k1) t k1 = Some (Inr k')" "updated (of_hdr (directoryFile k)) (dir_bytes t) k1 k'"
    using dir_write [OF _ _ _ t] U(1,4) unfolding meta_ok_def by metis
  note P = updated_pair [OF ok k1(2) k'(2) HOL.refl]
  have "stored t m {} k k'"
    using P the_dir_written [OF t, of k'] the_map_written [OF m, of k'] same_more [OF P(4)] by (simp add: stored_def)
  then show "\<exists>k1 k'. BitMap_WriteBack buf (freeMapFile k) m k = Some (Inr k1) \<and> Directory_WriteBack buf (directoryFile k1) t k1 = Some (Inr k') \<and> stored t m {} k k'"
    using k1(1) k'(1) by blast
qed

text \<open>The files that were there keep their headers and their contents.\<close>

lemma stored_keeps:
  assumes inv: "fs_inv k" and st: "stored t m W k k'" and W: "W \<inter> set (blocks k) = {}"
  shows "meta_ok k'" "meta_blocks k' = meta_blocks k"
    "s \<in> set (dir_sectors (the_dir k)) \<Longrightarrow> hdr_at k' s = hdr_at k s \<and> content k' (hdr_at k s) = content k (hdr_at k s) \<and> file_blocks k' s = file_blocks k s"
proof -
  let ?m = "set (sectors_of (of_hdr (freeMapFile k))) \<union> set (sectors_of (of_hdr (directoryFile k)))"
  have ok: "meta_ok k" and d: "distinct (blocks k)" using inv by (simp_all add: fs_inv_def)
  have S: "sector k' s = sector k s" if "s \<in> set (blocks k)" "s \<notin> ?m" for s
    using st blocks_range [OF inv that(1)] that W by (auto simp: stored_def)
  have b: "0 \<in> set (blocks k)" "1 \<in> set (blocks k)" "?m \<subseteq> set (meta_blocks k)" by (auto simp: blocks_def meta_blocks_def)
  show "meta_ok k'" "meta_blocks k' = meta_blocks k"
    using meta_frame [OF ok, of k'] st S [OF b(1)] S [OF b(2)] meta_disjoint(2,3) [OF ok] by (simp_all add: stored_def)
  assume s: "s \<in> set (dir_sectors (the_dir k))"
  have F: "sector k' x = sector k x" if "x \<in> set (file_blocks k s)" for x
    by (rule S) (use that s d b(3) in \<open>auto simp: blocks_def\<close>)
  then have h: "hdr_at k' s = hdr_at k s" by (simp add: hdr_at_def file_blocks_def)
  moreover have "content k' (hdr_at k s) = content k (hdr_at k s)" using F by (intro content_cong) (simp add: file_blocks_def)
  ultimately show "hdr_at k' s = hdr_at k s \<and> content k' (hdr_at k s) = content k (hdr_at k s) \<and> file_blocks k' s = file_blocks k s" by (simp add: file_blocks_def)
qed

section \<open>The operations\<close>

definition free_sectors :: "'m fsys_scheme \<Rightarrow> int" where
  "free_sectors k = NumSectors - int (card (bits (the_map k)))"

lemma free_entry: "dir_ok t \<Longrightarrow> (\<exists>e \<in> set t. \<not> inUse e) \<longleftrightarrow> card (dom (lookup t)) < length t"
proof -
  assume ok: "dir_ok t"
  have "dom (lookup t) = set (map (key \<circ> de_name) (filter inUse t))" by (induction t) (auto simp: dom_def)
  then have "card (dom (lookup t)) = length (filter inUse t)" using ok distinct_card by (fastforce simp: dir_ok_def)
  moreover have "length (filter inUse t) < length t \<longleftrightarrow> (\<exists>e \<in> set t. \<not> inUse e)"
    using length_filter_less [of _ t inUse] filter_True [of t inUse] by (metis less_irrefl)
  ultimately show ?thesis by simp
qed

lemma fs_files_dom: "dom (fs_files k) = dom (lookup (the_dir k))"
  by (auto simp: fs_files_def dom_def)

lemma Open_ok:
  assumes inv: "fs_inv k" and j: "junk_ok j"
  shows "\<exists>k'. FS_Open j name k = Some (Inr (map_option (\<lambda>s. \<lparr>of_hdr = hdr_at k s, seekPosition = 0\<rparr>) (lookup (the_dir k) (key name)), k')) \<and> same_disk k k'"
proof -
  have ok: "meta_ok k" "disk_ready k" "dir_ok (the_dir k)" using inv by (simp_all add: fs_inv_def meta_ok_def)
  obtain k1 where k1: "Directory_FetchFrom (directoryFile k) (Directory_new (j_table j)) k = Some (Inr (the_dir k, k1))" "same_disk k k1"
    using dir_fetch [OF ok(1) j] by blast
  show ?thesis
  proof (cases "lookup (the_dir k) (key name)")
    case None
    then show ?thesis using k1 by (simp add: FS_Open_def Directory_Find_lookup)
  next
    case (Some s)
    then have "s \<in> set (blocks k)" using lookup_sector [OF Some] by (auto simp: blocks_def file_blocks_def)
    then have r: "0 \<le> s" "s < NumSectors" using blocks_range [OF inv] by auto
    obtain k2 where k2: "ReadSector s k1 = Some (Inr (sector k1 s, k2))" "same_disk k1 k2"
      using ReadSector_same [OF _ r, of k1] k1(2) by (auto simp: same_disk_def)
    have "sector k1 s = sector k s" using k1(2) by (simp add: same_disk_def)
    then show ?thesis using k1 k2 Some r same_disk_trans [OF k1(2) k2(2)]
      by (simp add: FS_Open_def Directory_Find_lookup OpenFile_new_def FileHeader_FetchFrom_def hdr_at_def)
  qed
qed

lemma distinct_delete: "distinct (m @ a @ (b @ c)) \<Longrightarrow> distinct (m @ a @ c) \<and> set (m @ a @ c) = set (m @ a @ (b @ c)) - set b"
  by auto

lemma Remove_inv:
  assumes inv: "fs_inv k" and t: "the_dir k = xs @ e # ys" "inUse e" and sec: "s = sint (de_sector e)"
    and m: "bits m = bits (the_map k) - set (file_blocks k s)" and st: "stored (xs @ e\<lparr>inUse := False\<rparr> # ys) m {} k k'"
  shows "fs_inv k'" "fs_files k' = (fs_files k)(key (de_name e) := None)"
proof -
  let ?t = "xs @ e\<lparr>inUse := False\<rparr> # ys"
  have ok: "dir_ok (the_dir k)" "distinct (blocks k)" "set (blocks k) = bits (the_map k)" using inv by (simp_all add: fs_inv_def)
  note D = dir_free_entry [OF ok(1) [unfolded t(1)] t(2)]
  note K = stored_keeps [OF inv st, simplified]
  have td: "the_dir k' = ?t" "the_map k' = m" using st by (simp_all add: stored_def)
  have sub: "set (dir_sectors ?t) \<subseteq> set (dir_sectors (the_dir k))" unfolding D(4) t(1) D(3) by auto
  let ?A = "concat (map (file_blocks k) (dir_sectors xs))" and ?C = "concat (map (file_blocks k) (dir_sectors ys))"
  have "map (file_blocks k') (dir_sectors ?t) = map (file_blocks k) (dir_sectors ?t)" using K(3) sub by (intro map_cong) auto
  then have "blocks k' = meta_blocks k @ concat (map (file_blocks k) (dir_sectors ?t))" using K(2) unfolding blocks_def td(1) by (simp only:)
  then have b': "blocks k' = meta_blocks k @ ?A @ ?C" unfolding D(4) by simp
  have b: "blocks k = meta_blocks k @ ?A @ (file_blocks k s @ ?C)" unfolding blocks_def t(1) D(3) by (simp add: sec)
  have h: "\<forall>s \<in> set (dir_sectors ?t). hdr_ok (hdr_at k' s)" using K(3) sub inv by (auto simp: fs_inv_def)
  show "fs_inv k'"
    unfolding fs_inv_def td using K(1) D(1) h distinct_delete [OF ok(2) [unfolded b]] b b' ok(3) m by simp
  show "fs_files k' = (fs_files k)(key (de_name e) := None)"
  proof (rule ext)
    fix x
    have L: "lookup ?t x = (if x = key (de_name e) then None else lookup (the_dir k) x)" using D(2) t(1) by simp
    show "fs_files k' x = ((fs_files k)(key (de_name e) := None)) x"
      using L K(3) [OF lookup_sector [of "the_dir k" x]] unfolding fs_files_def td(1) by (cases "lookup (the_dir k) x") auto
  qed
qed

lemma Remove_ok:
  assumes inv: "fs_inv k" and j: "junk_ok j"
  shows "\<exists>k'. FS_Remove j name k = Some (Inr (key name \<in> dom (fs_files k), k')) \<and> fs_inv k' \<and> fs_files k' = (fs_files k)(key name := None)"
proof -
  have ok: "meta_ok k" "disk_ready k" "dir_ok (the_dir k)" using inv by (simp_all add: fs_inv_def meta_ok_def)
  obtain k1 where k1: "Directory_FetchFrom (directoryFile k) (Directory_new (j_table j)) k = Some (Inr (the_dir k, k1))" "same_disk k k1"
    using dir_fetch [OF ok(1) j] by blast
  note S1 = same_disk_fs [OF k1(2) ok(2)]
  show ?thesis
  proof (cases "lookup (the_dir k) (key name)")
    case None
    then have "fs_files k (key name) = None" by (simp add: fs_files_def)
    then show ?thesis using k1(1) None S1 inv by (auto simp: FS_Remove_def Directory_Find_lookup Let_def fun_eq_iff)
  next
    case (Some s)
    have fb: "set (file_blocks k s) \<subseteq> bits (the_map k)" "hdr_ok (hdr_at k s)" "distinct (file_blocks k s)"
      using lookup_sector [OF Some] inv distinct_concat [of "map (file_blocks k) (dir_sectors (the_dir k))"]
      by (auto simp: fs_inv_def blocks_def distinct_concat_iff)
    then have r: "0 \<le> s" "s < NumSectors" using bits_bounds [of s "the_map k"] by (auto simp: file_blocks_def)
    obtain k2 where k2: "ReadSector s k1 = Some (Inr (sector k1 s, k2))" "same_disk k1 k2"
      using ReadSector_same [OF _ r, of k1] k1(2) by (auto simp: same_disk_def)
    note S2 = same_disk_fs [OF same_disk_trans [OF k1(2) k2(2)] ok(2)]
    have mo2: "meta_ok k2" using S2(4) ok(1) by simp
    obtain b k3 where k3: "BitMap_new (j_words j) NumSectors = Inr b" "BitMap_FetchFrom (freeMapFile k2) b k2 = Some (Inr (the_map k, k3))" "same_disk k2 k3"
      using map_fetch [OF mo2, of "j_words j"] S2(2) by auto
    have sd3: "same_disk k k3" using same_disk_trans k1(2) k2(2) k3(3) by blast
    note S3 = same_disk_fs [OF sd3 ok(2)]
    obtain m1 where m1: "FileHeader_Deallocate (hdr_at k s) (the_map k) = Inr m1" "bitmap_wf m1" "numBits m1 = NumSectors"
      "bits m1 = bits (the_map k) - set (sectors_of (hdr_at k s))"
      using Deallocate_ok [OF the_map_wf(1) fb(2), of k] fb(1) by (auto simp: file_blocks_def)
    obtain m where m: "Clear s m1 = Inr m" "bitmap_wf m" "numBits m = NumSectors" "bits m = bits (the_map k) - set (file_blocks k s)"
      using Clear_correct [OF m1(2), of s] r m1(3,4) by (auto simp: file_blocks_def)
    obtain xs e ys where t: "the_dir k = xs @ e # ys" "inUse e" "key (de_name e) = key name" "sint (de_sector e) = s"
      "Directory_Remove name (the_dir k) = (True, xs @ e\<lparr>inUse := False\<rparr> # ys)" using Directory_Remove_split [OF Some] by blast
    have D: "dir_ok (xs @ e\<lparr>inUse := False\<rparr> # ys)" using dir_free_entry(1) [OF ok(3) [unfolded t(1)] t(2)] .
    have len: "length (xs @ e\<lparr>inUse := False\<rparr> # ys) = NumDirEntries" using the_dir_length [of k] t(1) by simp
    have eo: "\<forall>e \<in> set (xs @ e\<lparr>inUse := False\<rparr> # ys). entry_ok e" using D unfolding dir_ok_def by blast
    have "meta_ok k3" using S3(4) ok(1) by simp
    from store_both(2) [OF this len eo m(2,3), of "j_buf j"] obtain k4 k' where w: "BitMap_WriteBack (j_buf j) (freeMapFile k3) m k3 = Some (Inr k4)"
      "Directory_WriteBack (j_buf j) (directoryFile k4) (xs @ e\<lparr>inUse := False\<rparr> # ys) k4 = Some (Inr k')" "stored (xs @ e\<lparr>inUse := False\<rparr> # ys) m {} k3 k'" by blast
    have inv3: "fs_inv k3" using S3(5) inv by simp
    have m3: "bits m = bits (the_map k3) - set (file_blocks k3 s)" using m(4) S3(2,3) by (simp add: file_blocks_def)
    note R = Remove_inv [OF inv3 t(1) [folded S3(1)] t(2) t(4) [symmetric] m3 w(3)]
    have h: "hdr_of_bytes (sector k1 s) = hdr_at k s" using S1(3) by (simp add: hdr_at_def fun_eq_iff)
    have "FS_Remove j name k = Some (Inr (True, k'))"
      unfolding FS_Remove_def Let_def FileHeader_FetchFrom_def using k1(1) Some r k2(1) k3(1,2) m1(1) m(1) t(5) w(1,2) h
      by (simp add: Directory_Find_lookup)
    moreover have "key name \<in> dom (fs_files k)" using Some by (simp add: fs_files_dom domI)
    ultimately show ?thesis using R S3(6) t(3) by simp
  qed
qed

section \<open>Creating a file\<close>

lemma distinct_insert_blocks: "distinct (m @ a @ c) \<Longrightarrow> distinct b \<Longrightarrow> set b \<inter> set (m @ a @ c) = {} \<Longrightarrow>
    distinct (m @ a @ (b @ c)) \<and> set (m @ a @ (b @ c)) = set (m @ a @ c) \<union> set b"
  by auto

lemma Create_inv:
  assumes inv: "fs_inv k" and t: "the_dir k = xs @ e # ys" "\<not> inUse e" and new: "lookup (the_dir k) (key name) = None" and h: "hdr_ok h"
    and fr: "s \<notin> bits (the_map k)" "0 \<le> s" "s < NumSectors" "s \<notin> set (sectors_of h)" "set (sectors_of h) \<inter> bits (the_map k) = {}"
    and m: "bits m = bits (the_map k) \<union> insert s (set (sectors_of h))" and st: "stored (xs @ new_entry name s e # ys) m {s} k k'" and w: "sector k' s = hdr_bytes h"
  shows "fs_inv k'" "fs_files k' = (fs_files k)(key name \<mapsto> content k h)"
proof -
  let ?t = "xs @ new_entry name s e # ys"
  have ok: "meta_ok k" "dir_ok (the_dir k)" "distinct (blocks k)" "set (blocks k) = bits (the_map k)" using inv by (simp_all add: fs_inv_def)
  have s31: "s < 2 ^ 31" using fr(3) by simp
  note D = dir_new_entry [OF ok(2) [unfolded t(1)] t(2) new [unfolded t(1)] fr(2) s31]
  have W: "{s} \<inter> set (blocks k) = {}" using ok(4) fr(1) by simp
  note K = stored_keeps [OF inv st W]
  have td: "the_dir k' = ?t" "the_map k' = m" using st by (simp_all add: stored_def)
  have hs: "hdr_at k' s = h" using w hdr_roundtrip(1) [of h] h by (simp add: hdr_at_def hdr_ok_def)
  let ?A = "concat (map (file_blocks k) (dir_sectors xs))" and ?C = "concat (map (file_blocks k) (dir_sectors ys))"
  have ds: "set (dir_sectors xs) \<union> set (dir_sectors ys) = set (dir_sectors (the_dir k))" unfolding t(1) D(4) by simp
  have e: "map (file_blocks k') (dir_sectors xs) = map (file_blocks k) (dir_sectors xs)" "map (file_blocks k') (dir_sectors ys) = map (file_blocks k) (dir_sectors ys)"
    using K(3) ds by (auto intro: map_cong)
  have b: "blocks k = meta_blocks k @ ?A @ ?C" unfolding blocks_def t(1) D(4) by simp
  have "file_blocks k' s = s # sectors_of h" using hs by (simp add: file_blocks_def)
  then have b': "blocks k' = meta_blocks k @ ?A @ ((s # sectors_of h) @ ?C)" unfolding blocks_def td(1) D(3) K(2) map_append list.map concat_append concat.simps e by simp
  have ds': "distinct (s # sectors_of h)" using fr(4) h by (simp add: hdr_ok_def)
  have dj: "set (s # sectors_of h) \<inter> set (blocks k) = {}" using fr(1,5) ok(4) by auto
  note B = distinct_insert_blocks [OF ok(3) [unfolded b] ds' dj [unfolded b]]
  have hh: "\<forall>s \<in> set (dir_sectors ?t). hdr_ok (hdr_at k' s)" using K(3) ds inv hs h unfolding D(3) by (auto simp: fs_inv_def)
  have "set (blocks k') = bits m" using B b b' ok(4) m by auto
  moreover have "distinct (blocks k')" using B unfolding b' by blast
  ultimately show "fs_inv k'" unfolding fs_inv_def td using K(1) D(1) hh by blast
  have c: "content k' h = content k h"
  proof (rule content_cong)
    fix x assume x: "x \<in> set (sectors_of h)"
    have "x \<notin> set (blocks k)" using x fr(5) ok(4) by auto
    then have "x \<notin> set (sectors_of (of_hdr (freeMapFile k))) \<union> set (sectors_of (of_hdr (directoryFile k))) \<union> {s}"
      using x fr(4) by (auto simp: blocks_def meta_blocks_def)
    then show "sector k' x = sector k x" using st hdr_sectors_range [OF h x] by (auto simp: stored_def)
  qed
  show "fs_files k' = (fs_files k)(key name \<mapsto> content k h)"
  proof (rule ext)
    fix x
    have L: "lookup ?t x = (if x = key name then Some s else lookup (the_dir k) x)" using D(2) t(1) by simp
    show "fs_files k' x = ((fs_files k)(key name \<mapsto> content k h)) x"
      using L hs c K(3) [OF lookup_sector [of "the_dir k" x]] unfolding fs_files_def td(1) by (cases "lookup (the_dir k) x") auto
  qed
qed

text \<open>Up to the first write nothing on the disk changes.\<close>

definition create_tail :: "junk \<Rightarrow> 8 word list \<Rightarrow> int \<Rightarrow> 'm fsys_scheme \<Rightarrow> BitMap \<Rightarrow> DirectoryEntry list \<Rightarrow> (bool \<times> 'm fsys_scheme) res option" where
  "create_tail j name sz k freeMap directory =
     bindO (Some (Find freeMap)) (\<lambda>(sec, freeMap).
       if sec = - 1 then Some (Inr (False, k))
       else
         let (added, directory) = Directory_Add name sec directory in
         if \<not> added then Some (Inr (False, k))
         else
           bindO (Some (FileHeader_Allocate (j_hdr j) freeMap sz)) (\<lambda>(ok, hdr, freeMap).
             if \<not> ok then Some (Inr (False, k))
             else
               bindO (FileHeader_WriteBack hdr sec k) (\<lambda>k.
               bindO (Directory_WriteBack (j_buf j) (directoryFile k) directory k) (\<lambda>k.
               bindO (BitMap_WriteBack (j_buf j) (freeMapFile k) freeMap k) (\<lambda>k.
               Some (Inr (True, k)))))))"

lemma Create_prefix:
  assumes inv: "fs_inv k" and j: "junk_ok j"
  shows "\<exists>k'. FS_Create j name sz k = (if key name \<in> dom (fs_files k) then Some (Inr (False, k')) else create_tail j name sz k' (the_map k) (the_dir k)) \<and> same_disk k k'"
proof -
  have ok: "meta_ok k" "disk_ready k" using inv by (simp_all add: fs_inv_def meta_ok_def)
  obtain k1 where k1: "Directory_FetchFrom (directoryFile k) (Directory_new (j_table j)) k = Some (Inr (the_dir k, k1))" "same_disk k k1"
    using dir_fetch [OF ok(1) j] by blast
  note S1 = same_disk_fs [OF k1(2) ok(2)]
  have "meta_ok k1" using S1(4) ok(1) by simp
  from map_fetch [OF this, of "j_words j"] obtain b k2 where k2: "BitMap_new (j_words j) NumSectors = Inr b"
    "BitMap_FetchFrom (freeMapFile k1) b k1 = Some (Inr (the_map k, k2))" "same_disk k1 k2" using S1(2) by auto
  have rs: "0 \<le> s" if "lookup (the_dir k) (key name) = Some s" for s
    using lookup_sector [OF that] blocks_range [OF inv, of s] by (auto simp: blocks_def file_blocks_def)
  then have nn: "Directory_Find name (the_dir k) = - 1 \<longleftrightarrow> lookup (the_dir k) (key name) = None"
    unfolding Directory_Find_lookup by (force split: option.split)
  show ?thesis
  proof (cases "lookup (the_dir k) (key name)")
    case None
    then have "FS_Create j name sz k = create_tail j name sz k2 (the_map k) (the_dir k)"
      unfolding FS_Create_def k1(1) bindO_simps prod.case k2(1,2) create_tail_def using nn by simp
    then show ?thesis using None same_disk_trans [OF k1(2) k2(3)] by (auto simp: fs_files_dom)
  next
    case (Some s)
    then show ?thesis using k1 nn by (auto simp: FS_Create_def fs_files_dom)
  qed
qed

lemma Create_writes:
  assumes ok: "meta_ok k" and s: "0 \<le> s" "s < NumSectors" "s \<notin> set (meta_blocks k)" and h: "hdr_ok h"
    and t: "length t = NumDirEntries" "\<forall>e \<in> set t. entry_ok e" and m: "bitmap_wf m" "numBits m = NumSectors"
  shows "\<exists>k1 k2 k'. FileHeader_WriteBack h s k = Some (Inr k1) \<and> Directory_WriteBack buf (directoryFile k1) t k1 = Some (Inr k2) \<and>
    BitMap_WriteBack buf (freeMapFile k2) m k2 = Some (Inr k') \<and> stored t m {s} k k' \<and> sector k' s = hdr_bytes h"
proof -
  have lh: "length (hdr_bytes h) = 128" using hdr_roundtrip(2) h by (simp add: hdr_ok_def)
  have rdy: "disk_ready k" using ok by (simp add: meta_ok_def)
  obtain k1 where k1: "WriteSector s (hdr_bytes h) k = Some (Inr k1)" "disk_ready k1" "dsys.more k1 = dsys.more k"
    "\<forall>x. 0 \<le> x \<longrightarrow> x < NumSectors \<longrightarrow> sector k1 x = (if x = s then hdr_bytes h else sector k x)" using sd.write_ok [OF rdy s(1,2) lh] by blast
  have "s \<noteq> 0" "s \<noteq> 1" using s(3) by (auto simp: meta_blocks_def)
  then have mo: "meta_ok k1" using meta_frame(1) [OF ok k1(2,3)] k1(4) by simp
  obtain k2 k' where w: "Directory_WriteBack buf (directoryFile k1) t k1 = Some (Inr k2)" "BitMap_WriteBack buf (freeMapFile k2) m k2 = Some (Inr k')"
    "stored t m {} k1 k'" using store_both(1) [OF mo t m] by blast
  note M = same_more [OF k1(3)]
  have "stored t m {s} k k'" using w(3) M k1(3,4) by (simp add: stored_def)
  moreover have "sector k' s = hdr_bytes h" using w(3) M k1(4) s by (simp add: stored_def meta_blocks_def)
  ultimately show ?thesis using k1(1) w(1,2) unfolding FileHeader_WriteBack_def by blast
qed

lemma create_tail_ok:
  assumes inv: "fs_inv k" and j: "junk_ok j" and sz: "0 \<le> sz" "sz \<le> 3840" and new: "lookup (the_dir k) (key name) = None"
  shows "\<exists>r k'. create_tail j name sz k (the_map k) (the_dir k) = Some (Inr (r, k')) \<and> fs_inv k' \<and>
    r = ((\<exists>e \<in> set (the_dir k). \<not> inUse e) \<and> 1 + divRoundUp sz 128 \<le> free_sectors k) \<and>
    (if r then \<exists>bs. length bs = nat sz \<and> fs_files k' = (fs_files k)(key name \<mapsto> bs) else k' = k)"
proof -
  have ok: "meta_ok k" "disk_ready k" "dir_ok (the_dir k)" "set (blocks k) = bits (the_map k)" using inv by (simp_all add: fs_inv_def meta_ok_def)
  have n: "0 \<le> divRoundUp sz 128" "divRoundUp sz 128 \<le> int NumDirect" using divRoundUp_bounds [OF sz(1)] sz(2) by (simp_all add: NumDirect_def)
  have card: "bits (the_map k) = {0..<NumSectors} \<Longrightarrow> free_sectors k = 0" by (simp add: free_sectors_def)
  from Find_correct [OF the_map_wf(1), of k] consider "Find (the_map k) = Inr (- 1, the_map k)" "bits (the_map k) = {0..<NumSectors}"
    | s m1 where "Find (the_map k) = Inr (s, m1)" "0 \<le> s" "s < NumSectors" "s \<notin> bits (the_map k)" "bitmap_wf m1" "numBits m1 = NumSectors"
      "bits m1 = insert s (bits (the_map k))" by auto
  then show ?thesis
  proof cases
    case 1
    then show ?thesis using inv n card by (intro exI [of _ False] exI [of _ k]) (simp add: create_tail_def)
  next
    case 2
    then have s1: "s \<noteq> - 1" by simp
    show ?thesis
    proof (cases "\<exists>e \<in> set (the_dir k). \<not> inUse e")
      case False
      then have "Directory_Add name s (the_dir k) = (False, the_dir k)" using add_entry_full [of "the_dir k"] new FindIndex_none [of name] by (simp add: Directory_Add_def)
      then show ?thesis using inv 2(1) s1 False by (intro exI [of _ False] exI [of _ k]) (simp add: create_tail_def)
    next
      case True
      obtain xs e ys where t: "the_dir k = xs @ e # ys" "\<not> inUse e" "add_entry name s (the_dir k) = (True, xs @ new_entry name s e # ys)"
        using add_entry_split [OF True] by blast
      have add: "Directory_Add name s (the_dir k) = (True, xs @ new_entry name s e # ys)" using t(3) new FindIndex_none [of name] by (simp add: Directory_Add_def)
      have fs: "NumSectors - int (card (bits m1)) = free_sectors k - 1" using 2(4,7) by (simp add: free_sectors_def)
      have lh: "length (dataSectors (j_hdr j)) = NumDirect" using j by (simp add: junk_ok_def)
      note A = Allocate_ok [OF 2(5,6) lh sz(1) n(2), unfolded fs]
      show ?thesis
      proof (cases "divRoundUp sz 128 \<le> free_sectors k - 1")
        case False
        then obtain h' where "FileHeader_Allocate (j_hdr j) m1 sz = Inr (False, h', m1)" using A by (simp only: if_False) blast
        then show ?thesis using inv 2(1) s1 add False by (intro exI [of _ False] exI [of _ k]) (simp add: create_tail_def)
      next
        case en: True
        then obtain h m where al: "FileHeader_Allocate (j_hdr j) m1 sz = Inr (True, h, m)" "hdr_ok h" "FileLength h = sz" "bitmap_wf m" "numBits m = NumSectors"
          "set (sectors_of h) \<inter> bits m1 = {}" "bits m = bits m1 \<union> set (sectors_of h)" using A by (simp only: if_True) blast
        have s31: "s < 2 ^ 31" using 2(3) by simp
        have D: "dir_ok (xs @ new_entry name s e # ys)" using dir_new_entry(1) [OF ok(3) [unfolded t(1)] t(2) new [unfolded t(1)] 2(2) s31] .
        have len: "length (xs @ new_entry name s e # ys) = NumDirEntries" using the_dir_length [of k] t(1) by simp
        have eo: "\<forall>e \<in> set (xs @ new_entry name s e # ys). entry_ok e" using D unfolding dir_ok_def by blast
        have sm: "s \<notin> set (meta_blocks k)" using 2(4) ok(4) by (auto simp: blocks_def)
        obtain k1 k2 k' where w: "FileHeader_WriteBack h s k = Some (Inr k1)" "Directory_WriteBack (j_buf j) (directoryFile k1) (xs @ new_entry name s e # ys) k1 = Some (Inr k2)"
          "BitMap_WriteBack (j_buf j) (freeMapFile k2) m k2 = Some (Inr k')" "stored (xs @ new_entry name s e # ys) m {s} k k'" "sector k' s = hdr_bytes h"
          using Create_writes [OF ok(1) 2(2,3) sm al(2) len eo al(4,5), of "j_buf j"] by blast
        have sh: "s \<notin> set (sectors_of h)" "set (sectors_of h) \<inter> bits (the_map k) = {}" using al(6) 2(7) by auto
        have bm: "bits m = bits (the_map k) \<union> insert s (set (sectors_of h))" using al(7) 2(7) by auto
        note C = Create_inv [OF inv t(1,2) new al(2) 2(4,2,3) sh bm w(4,5)]
        have "create_tail j name sz k (the_map k) (the_dir k) = Some (Inr (True, k'))"
          using 2(1) s1 add al(1) w(1-3) by (simp add: create_tail_def)
        moreover have "length (content k h) = nat sz" using length_content [OF ok(2) al(2)] al(3) by simp
        ultimately show ?thesis using C True en by (intro exI [of _ True] exI [of _ k']) auto
      qed
    qed
  qed
qed

section \<open>Writing to a file of the directory\<close>

lemma lookup_inj: "distinct (dir_sectors t) \<Longrightarrow> lookup t x = Some s \<Longrightarrow> lookup t y = Some s \<Longrightarrow> x = y"
proof (induction t)
  case (Cons e t)
  then show ?case using lookup_sector [of t x s] lookup_sector [of t y s] by (auto simp: dir_sectors_def split: if_splits)
qed simp

lemma distinct_concat_blocks:
  assumes "distinct (concat (map f xs))" and "x \<in> set xs" and "y \<in> set xs" and "x \<noteq> y"
  shows "set (f x) \<inter> set (f y) = {}"
  using assms by (induction xs) (auto simp: disjoint_iff)

lemma distinct_concat_each: "distinct (concat (map f xs)) \<Longrightarrow> x \<in> set xs \<Longrightarrow> distinct (f x)"
  by (induction xs) auto

lemma distinct_concat_heads: "distinct (concat (map (file_blocks k) xs)) \<Longrightarrow> distinct xs"
  by (induction xs) (auto simp: file_blocks_def)

text \<open>A write to the sectors of one file leaves the rest of the disk as it was.\<close>

lemma write_inv:
  assumes inv: "fs_inv k" and l: "lookup (the_dir k) x = Some s" and u: "updated (hdr_at k s) c k k'"
  shows "fs_inv k'" "fs_files k' = (fs_files k)(x \<mapsto> c)" "lookup (the_dir k') x = Some s" "hdr_at k' s = hdr_at k s"
proof -
  let ?h = "hdr_at k s" and ?ds = "dir_sectors (the_dir k)"
  have db: "distinct (blocks k)" and ok: "meta_ok k" "dir_ok (the_dir k)" using inv by (simp_all add: fs_inv_def)
  have s: "s \<in> set ?ds" by (rule lookup_sector [OF l])
  have more: "dsys.more k' = dsys.more k" and rdy: "disk_ready k'" using u by (simp_all add: updated_def)
  note M = same_more [OF more]
  have dc: "distinct (concat (map (file_blocks k) ?ds))" using db by (simp add: blocks_def)
  have sub: "set (sectors_of ?h) \<subseteq> set (concat (map (file_blocks k) ?ds))" using s by (auto simp: file_blocks_def)
  have S: "sector k' y = sector k y" if "y \<in> set (blocks k)" "y \<notin> set (sectors_of ?h)" for y
    using u blocks_range [OF inv that(1)] that(2) by (simp add: updated_def)
  have meta: "sector k' y = sector k y" if "y \<in> set (meta_blocks k)" for y
    by (rule S) (use that sub db in \<open>auto simp: blocks_def\<close>)
  have F: "sector k' y = sector k y" if "s' \<in> set ?ds" "s' \<noteq> s" "y \<in> set (file_blocks k s')" for s' y
    by (rule S) (use that distinct_concat_blocks [OF dc that(1) s that(2)] in \<open>auto simp: blocks_def file_blocks_def\<close>)
  have H: "hdr_at k' s' = hdr_at k s'" if "s' \<in> set ?ds" for s'
  proof (cases "s' = s")
    case True
    have "s \<in> set (blocks k)" using s by (auto simp: file_blocks_def blocks_def)
    moreover have "s \<notin> set (sectors_of ?h)" using distinct_concat_each [OF dc s] by (simp add: file_blocks_def)
    ultimately show ?thesis using S [of s] True by (simp add: hdr_at_def)
  qed (use F [OF that] in \<open>simp add: hdr_at_def file_blocks_def\<close>)
  have mo: "meta_ok k'" "meta_blocks k' = meta_blocks k" using meta_frame [OF ok(1) rdy more] meta by (simp_all add: meta_blocks_def)
  have C: "content k' (of_hdr (directoryFile k)) = content k (of_hdr (directoryFile k))" "content k' (of_hdr (freeMapFile k)) = content k (of_hdr (freeMapFile k))"
    using meta by (auto intro!: content_cong simp: meta_blocks_def)
  then have td: "the_dir k' = the_dir k" "the_map k' = the_map k" using M by (simp_all add: the_dir_def the_map_def)
  have "map (file_blocks k') ?ds = map (file_blocks k) ?ds" using H by (simp add: file_blocks_def)
  then have "blocks k' = blocks k" using mo(2) td(1) by (simp only: blocks_def)
  then show "fs_inv k'" using inv mo(1) td H by (simp add: fs_inv_def)
  show "lookup (the_dir k') x = Some s" "hdr_at k' s = hdr_at k s" using l td H [OF s] by simp_all
  have cs: "content k' ?h = c" using u by (simp add: updated_def)
  have co: "content k' (hdr_at k s') = content k (hdr_at k s')" if "s' \<in> set ?ds" "s' \<noteq> s" for s'
    using F [OF that] by (intro content_cong) (simp add: file_blocks_def)
  show "fs_files k' = (fs_files k)(x \<mapsto> c)"
  proof (rule ext)
    fix y
    show "fs_files k' y = ((fs_files k)(x \<mapsto> c)) y"
    proof (cases "lookup (the_dir k) y")
      case None
      then show ?thesis using l by (auto simp: fs_files_def td)
    next
      case (Some s')
      then have "s' = s \<longleftrightarrow> y = x" using l lookup_inj [OF distinct_concat_heads [OF dc], of x s y] by auto
      then show ?thesis using Some l lookup_sector [OF Some] H cs co by (auto simp: fs_files_def td)
    qed
  qed
qed

section \<open>Formatting and reopening\<close>

lemma OpenFile_new_ok:
  assumes "disk_ready k" and "0 \<le> s" and "s < NumSectors"
  shows "\<exists>k'. OpenFile_new s k = Some (Inr (\<lparr>of_hdr = hdr_of_bytes (sector k s), seekPosition = 0\<rparr>, k')) \<and> same_disk k k'"
  using ReadSector_same [OF assms] by (auto simp: OpenFile_new_def FileHeader_FetchFrom_def)

lemma format_maps:
  assumes j: "junk_ok j"
  shows "\<exists>b0 b1 b2 h1 m1 h2 m2. BitMap_new (j_words j) NumSectors = Inr b0 \<and> Mark FreeMapSector b0 = Inr b1 \<and> Mark DirectorySector b1 = Inr b2 \<and>
    FileHeader_Allocate (j_hdr j) b2 FreeMapFileSize = Inr (True, h1, m1) \<and> FileHeader_Allocate (j_hdr j) m1 DirectoryFileSize = Inr (True, h2, m2) \<and>
    hdr_ok h1 \<and> FileLength h1 = 128 \<and> hdr_ok h2 \<and> FileLength h2 = 200 \<and> bitmap_wf m2 \<and> numBits m2 = NumSectors \<and>
    distinct (0 # sectors_of h1 @ 1 # sectors_of h2) \<and> bits m2 = set (0 # sectors_of h1 @ 1 # sectors_of h2) \<and> length (sectors_of h1) = 1 \<and> length (sectors_of h2) = 2"
proof -
  have lh: "length (dataSectors (j_hdr j)) = NumDirect" using j by (simp add: junk_ok_def)
  obtain b0 where b0: "BitMap_new (j_words j) NumSectors = Inr b0" "bitmap_wf b0" "numBits b0 = NumSectors" "bits b0 = {}" using BitMap_new_correct [of NumSectors "j_words j"] by auto
  obtain b1 where b1: "Mark FreeMapSector b0 = Inr b1" "bitmap_wf b1" "numBits b1 = NumSectors" "bits b1 = {0}"
    using Mark_correct [OF b0(2), of 0] b0(3,4) by (auto simp: FreeMapSector_def)
  obtain b2 where b2: "Mark DirectorySector b1 = Inr b2" "bitmap_wf b2" "numBits b2 = NumSectors" "bits b2 = {0, 1}"
    using Mark_correct [OF b1(2), of 1] b1(3,4) by (auto simp: DirectorySector_def)
  have n1: "(0::int) \<le> 128" "divRoundUp 128 128 \<le> int NumDirect" "divRoundUp 128 128 \<le> NumSectors - int (card (bits b2))"
    by (simp_all add: divRoundUp_def NumDirect_def b2(4))
  obtain h1 m1 where a1: "FileHeader_Allocate (j_hdr j) b2 FreeMapFileSize = Inr (True, h1, m1)" "hdr_ok h1" "FileLength h1 = 128" "bitmap_wf m1" "numBits m1 = NumSectors"
    "set (sectors_of h1) \<inter> {0, 1} = {}" "bits m1 = {0, 1} \<union> set (sectors_of h1)"
    using Allocate_ok [OF b2(2,3) lh n1(1,2), unfolded if_P [OF n1(3)]] b2(4) by (auto simp: FreeMapFileSize_def)
  have l1: "length (sectors_of h1) = 1" using length_sectors [OF a1(2)] a1(2,3) by (simp add: hdr_ok_def divRoundUp_def)
  then have c1: "card (bits m1) \<le> 3" using card_Un_le [of "{0, 1}" "set (sectors_of h1)"] card_length [of "sectors_of h1"] a1(7) by simp
  have n2: "(0::int) \<le> 200" "divRoundUp 200 128 \<le> int NumDirect" "divRoundUp 200 128 \<le> NumSectors - int (card (bits m1))"
    using c1 by (simp_all add: divRoundUp_def NumDirect_def)
  obtain h2 m2 where a2: "FileHeader_Allocate (j_hdr j) m1 DirectoryFileSize = Inr (True, h2, m2)" "hdr_ok h2" "FileLength h2 = 200" "bitmap_wf m2" "numBits m2 = NumSectors"
    "set (sectors_of h2) \<inter> bits m1 = {}" "bits m2 = bits m1 \<union> set (sectors_of h2)"
    using Allocate_ok [OF a1(4,5) lh n2(1,2), unfolded if_P [OF n2(3)]] by (auto simp: DirectoryFileSize_def EntrySize_def NumDirEntries_def)
  have l2: "length (sectors_of h2) = 2" using length_sectors [OF a2(2)] a2(2,3) by (simp add: hdr_ok_def divRoundUp_def)
  have "distinct (sectors_of h1)" "distinct (sectors_of h2)" using a1(2) a2(2) by (simp_all add: hdr_ok_def)
  then have "distinct (0 # sectors_of h1 @ 1 # sectors_of h2)" "bits m2 = set (0 # sectors_of h1 @ 1 # sectors_of h2)"
    using a1(6,7) a2(6,7) by auto
  then show ?thesis using b0(1) b1(1) b2(1) a1(1-3) a2(1-5) l1 l2 by blast
qed

lemma unused_dir:
  assumes "\<forall>e \<in> set t. entry_ok e"
  shows "dir_ok (Directory_new t)" "lookup (Directory_new t) x = None" "dir_sectors (Directory_new t) = []" "\<forall>e \<in> set (Directory_new t). entry_ok e"
  using assms by (auto simp: Directory_new_def dir_ok_def entry_ok_def dir_sectors_def filter_empty_conv intro!: lookup_not)

lemma format_ok:
  assumes rdy: "disk_ready k" and j: "junk_ok j"
  shows "\<exists>k'. FileSystem_new True j k = Some (Inr k') \<and> fs_inv k' \<and> fs_files k' = Map.empty \<and> free_sectors k' = NumSectors - 5"
proof -
  obtain b0 b1 b2 h1 m1 h2 m2 where mp: "BitMap_new (j_words j) NumSectors = Inr b0" "Mark FreeMapSector b0 = Inr b1" "Mark DirectorySector b1 = Inr b2"
    "FileHeader_Allocate (j_hdr j) b2 FreeMapFileSize = Inr (True, h1, m1)" "FileHeader_Allocate (j_hdr j) m1 DirectoryFileSize = Inr (True, h2, m2)"
    and h: "hdr_ok h1" "FileLength h1 = 128" "hdr_ok h2" "FileLength h2 = 200" and m2: "bitmap_wf m2" "numBits m2 = NumSectors"
    and d: "distinct (0 # sectors_of h1 @ 1 # sectors_of h2)" "bits m2 = set (0 # sectors_of h1 @ 1 # sectors_of h2)" and l: "length (sectors_of h1) = 1" "length (sectors_of h2) = 2"
    using format_maps [OF j] by blast
  have hb: "length (hdr_bytes h1) = 128" "length (hdr_bytes h2) = 128" "hdr_of_bytes (hdr_bytes h1) = h1" "hdr_of_bytes (hdr_bytes h2) = h2"
    using hdr_roundtrip h(1,3) by (simp_all add: hdr_ok_def)
  obtain k1 where k1: "WriteSector 0 (hdr_bytes h1) k = Some (Inr k1)" "disk_ready k1" "\<forall>x. 0 \<le> x \<longrightarrow> x < NumSectors \<longrightarrow> sector k1 x = (if x = 0 then hdr_bytes h1 else sector k x)"
    using sd.write_ok [OF rdy, of 0 "hdr_bytes h1"] hb(1) by auto
  obtain k2 where k2: "WriteSector 1 (hdr_bytes h2) k1 = Some (Inr k2)" "disk_ready k2" "\<forall>x. 0 \<le> x \<longrightarrow> x < NumSectors \<longrightarrow> sector k2 x = (if x = 1 then hdr_bytes h2 else sector k1 x)"
    using sd.write_ok [OF k1(2), of 1 "hdr_bytes h2"] hb(2) by auto
  have s2: "sector k2 0 = hdr_bytes h1" "sector k2 1 = hdr_bytes h2" using k1(3) k2(3) by simp_all
  let ?mf = "\<lparr>of_hdr = h1, seekPosition = 0\<rparr>" and ?df = "\<lparr>of_hdr = h2, seekPosition = 0\<rparr>"
  obtain k3 where k3: "OpenFile_new 0 k2 = Some (Inr (?mf, k3))" "same_disk k2 k3" using OpenFile_new_ok [OF k2(2), of 0] s2(1) hb(3) by auto
  then have "disk_ready k3" "sector k3 1 = hdr_bytes h2" using s2(2) by (simp_all add: same_disk_def)
  then obtain k4 where k4: "OpenFile_new 1 k3 = Some (Inr (?df, k4))" "same_disk k3 k4" using OpenFile_new_ok [of k3 1] hb(4) by auto
  have r4: "disk_ready k4" "sector k4 = sector k2" using k3(2) k4(2) by (simp_all add: same_disk_def)
  obtain k5 where k5: "BitMap_WriteBack (j_buf j) ?mf m2 k4 = Some (Inr k5)" "updated h1 (words_bytes (bm_map m2)) k4 k5"
    using map_write [of k4 ?mf m2 "j_buf j"] r4(1) h m2 by auto
  let ?t = "Directory_new (j_table j)"
  have jt: "\<forall>e \<in> set (j_table j). entry_ok e" "length ?t = NumDirEntries" using j by (simp_all add: junk_ok_def Directory_new_def)
  note U = unused_dir [OF jt(1)]
  have r5: "disk_ready k5" using k5(2) by (simp add: updated_def)
  obtain k6 where k6: "Directory_WriteBack (j_buf j) ?df ?t k5 = Some (Inr k6)" "updated h2 (dir_bytes ?t) k5 k6"
    using dir_write [of k5 ?df ?t "j_buf j"] r5 h jt(2) U(4) by auto
  let ?k = "k6\<lparr>freeMapFile := ?mf, directoryFile := ?df\<rparr>"
  have run: "FileSystem_new True j k = Some (Inr ?k)"
    unfolding FileSystem_new_def format_disk_def FileHeader_WriteBack_def using mp k1(1) k2(1) k3(1) k4(1) k5(1) k6(1)
    by (simp add: FreeMapSector_def DirectorySector_def)
  have sk: "sector ?k = sector k6" "disk_ready ?k" using k6(2) by (auto simp: sector_def updated_def disk_ready_def head_ok_def)
  have ck: "content ?k = content k6" by (intro ext content_cong) (simp only: sk(1))
  have s6: "sector k6 0 = hdr_bytes h1" "sector k6 1 = hdr_bytes h2" using k5(2) k6(2) r4(2) s2 d(1) by (simp_all add: updated_def)
  have "content k6 h1 = content k5 h1" by (rule content_cong) (use k6(2) d(1) hdr_sectors_range [OF h(1)] in \<open>auto simp: updated_def\<close>)
  then have c6: "content k6 h1 = words_bytes (bm_map m2)" "content k6 h2 = dir_bytes ?t" using k5(2) k6(2) by (simp_all add: updated_def)
  have tm: "the_map ?k = m2" by (rule the_map_written [OF m2]) (simp add: ck c6)
  have td: "the_dir ?k = ?t" by (rule the_dir_written [OF jt(2) U(4)]) (simp add: ck c6)
  have mb: "meta_blocks ?k = 0 # sectors_of h1 @ 1 # sectors_of h2" "blocks ?k = meta_blocks ?k" unfolding blocks_def td U(3) by (simp_all add: meta_blocks_def)
  have "meta_ok ?k" unfolding meta_ok_def hdr_at_def mb sk(1) using sk(2) h d(1) s6 hb(3,4) by simp
  then have "fs_inv ?k" unfolding fs_inv_def td tm mb U(3) using U(1) d by simp
  moreover have "fs_files ?k = Map.empty" by (rule ext) (simp add: fs_files_def td U(2))
  moreover have "card (bits m2) = 5" unfolding d(2) using distinct_card [OF d(1)] l by simp
  ultimately show ?thesis using run tm by (simp add: free_sectors_def)
qed

lemma reopen_ok:
  assumes inv: "fs_inv k"
  shows "\<exists>k'. FileSystem_new False j (k\<lparr>freeMapFile := a, directoryFile := b\<rparr>) = Some (Inr k') \<and> fs_inv k' \<and> fs_files k' = fs_files k"
proof -
  let ?k = "k\<lparr>freeMapFile := a, directoryFile := b\<rparr>"
  have ok: "meta_ok k" using inv by (simp add: fs_inv_def)
  have sk: "sector ?k = sector k" "disk_ready ?k" using ok by (auto simp: sector_def meta_ok_def disk_ready_def head_ok_def)
  let ?mf = "\<lparr>of_hdr = of_hdr (freeMapFile k), seekPosition = 0\<rparr>" and ?df = "\<lparr>of_hdr = of_hdr (directoryFile k), seekPosition = 0\<rparr>"
  have hs: "hdr_of_bytes (sector k 0) = of_hdr (freeMapFile k)" "hdr_of_bytes (sector k 1) = of_hdr (directoryFile k)" using ok by (simp_all add: meta_ok_def hdr_at_def)
  obtain k1 where k1: "OpenFile_new 0 ?k = Some (Inr (?mf, k1))" "same_disk ?k k1" using OpenFile_new_ok [OF sk(2), of 0] sk(1) hs(1) by auto
  then have r1: "disk_ready k1" "sector k1 = sector k" using sk(1) by (simp_all add: same_disk_def)
  then obtain k2 where k2: "OpenFile_new 1 k1 = Some (Inr (?df, k2))" "same_disk k1 k2" using OpenFile_new_ok [of k1 1] hs(2) by auto
  let ?k' = "k2\<lparr>freeMapFile := ?mf, directoryFile := ?df\<rparr>"
  have r2: "disk_ready ?k'" "sector ?k' = sector k" using k2(2) r1(2) by (auto simp: same_disk_def sector_def disk_ready_def head_ok_def fun_eq_iff)
  have c: "content ?k' = content k" by (intro ext content_cong) (simp only: r2(2))
  have e: "the_dir ?k' = the_dir k" "the_map ?k' = the_map k" "meta_blocks ?k' = meta_blocks k" "hdr_at ?k' = hdr_at k"
    by (simp_all add: the_dir_def the_map_def meta_blocks_def hdr_at_def c r2(2) fun_eq_iff)
  have "blocks ?k' = blocks k" by (simp add: blocks_def e file_blocks_def [abs_def])
  moreover have "meta_ok ?k'" using ok r2(1) by (simp add: meta_ok_def e)
  ultimately have "fs_inv ?k'" using inv by (simp add: fs_inv_def e)
  moreover have "fs_files ?k' = fs_files k" by (simp add: fs_files_def e c fun_eq_iff)
  moreover have "FileSystem_new False j ?k = Some (Inr ?k')" using k1(1) k2(1) by (simp add: FileSystem_new_def FreeMapSector_def DirectorySector_def)
  ultimately show ?thesis by blast
qed

section \<open>A file that is too large\<close>

lemma alloc_sectors_overflow:
  assumes "bitmap_wf m" and "int n + int (card (bits m)) \<le> numBits m" and "i \<le> length ds" and "length ds < i + n"
  shows "alloc_sectors n i ds m = Inl OutOfBounds"
  using assms
proof (induction n arbitrary: i ds m)
  case (Suc n)
  have "bits m \<noteq> {0..<numBits m}" using Suc.prems(1,2) by (auto simp: bitmap_wf_def split: if_splits)
  from bitmap.alloc_fresh [OF Suc.prems(1) this] obtain s m1 where
    s: "Find m = Inr (s, m1)" "s \<notin> bits m" "bitmap_wf m1" "numBits m1 = numBits m" "bits m1 = insert s (bits m)" by blast
  then have "int n + int (card (bits m1)) \<le> numBits m1" using Suc.prems(2) by simp
  then show ?case using s Suc.IH [OF s(3), of "Suc i" "ds[i := word_of_int s]"] Suc.prems(3,4) by simp
qed simp

lemma create_tail_overflow:
  assumes inv: "fs_inv k" and j: "junk_ok j" and sz: "3840 < sz" and new: "lookup (the_dir k) (key name) = None" and en: "\<exists>e \<in> set (the_dir k). \<not> inUse e"
    and free: "1 + divRoundUp sz 128 \<le> free_sectors k"
  shows "create_tail j name sz k' (the_map k) (the_dir k) = Some (Inl OutOfBounds)"
proof -
  have n: "30 < divRoundUp sz 128" using sz divRoundUp_bounds [of sz] by linarith
  have "bits (the_map k) \<noteq> {0..<numBits (the_map k)}" using free n by (auto simp: free_sectors_def)
  from bitmap.alloc_fresh [OF the_map_wf(1) this] obtain s m1 where
    s: "Find (the_map k) = Inr (s, m1)" "0 \<le> s" "s \<notin> bits (the_map k)" "bitmap_wf m1" "numBits m1 = NumSectors" "bits m1 = insert s (bits (the_map k))" by auto
  have c: "NumSectors - int (card (bits m1)) = free_sectors k - 1" using s by (simp add: free_sectors_def)
  have "Directory_Add name s (the_dir k) = add_entry name s (the_dir k)" using new FindIndex_none [of name] by (simp add: Directory_Add_def)
  then obtain t where t: "Directory_Add name s (the_dir k) = (True, t)" using add_entry_split [OF en] by metis
  have "alloc_sectors (nat (divRoundUp sz 128)) 0 (dataSectors (j_hdr j)) m1 = Inl OutOfBounds"
    using n c free s(5) j by (intro alloc_sectors_overflow [OF s(4)]) (auto simp: junk_ok_def NumDirect_def)
  moreover have "\<not> NumSectors - int (card (bits m1)) < divRoundUp sz 128" using c free by simp
  ultimately have "FileHeader_Allocate (j_hdr j) m1 sz = Inl OutOfBounds" using NumClear_correct [OF s(4)] s(5) by (simp add: FileHeader_Allocate_def Let_def)
  then show ?thesis using s(1,2) t by (simp add: create_tail_def)
qed

lemma Create_ok:
  assumes inv: "fs_inv k" and j: "junk_ok j" and sz: "0 \<le> sz" "sz \<le> 3840"
  shows "\<exists>r k'. FS_Create j name sz k = Some (Inr (r, k')) \<and> fs_inv k' \<and>
    r = (fs_files k (key name) = None \<and> card (dom (fs_files k)) < 10 \<and> 1 + divRoundUp sz 128 \<le> free_sectors k) \<and>
    (if r then \<exists>bs. length bs = nat sz \<and> fs_files k' = (fs_files k)(key name \<mapsto> bs) else fs_files k' = fs_files k)"
proof -
  obtain k1 where k1: "FS_Create j name sz k = (if key name \<in> dom (fs_files k) then Some (Inr (False, k1)) else create_tail j name sz k1 (the_map k) (the_dir k))"
    "same_disk k k1" using Create_prefix [OF inv j] by blast
  have "disk_ready k" using inv by (simp add: fs_inv_def meta_ok_def)
  note S = same_disk_fs [OF k1(2) this]
  have free: "free_sectors k1 = free_sectors k" using S(2) by (simp add: free_sectors_def)
  have inv1: "fs_inv k1" using S(5) inv by simp
  show ?thesis
  proof (cases "key name \<in> dom (fs_files k)")
    case True
    then show ?thesis using k1(1) inv1 S(6) by (intro exI [of _ False] exI [of _ k1]) auto
  next
    case False
    then have new: "lookup (the_dir k1) (key name) = None" using S(1) by (simp add: fs_files_dom domIff)
    have fe: "(\<exists>e \<in> set (the_dir k1). \<not> inUse e) \<longleftrightarrow> card (dom (fs_files k)) < 10"
      using free_entry [of "the_dir k1"] inv1 fs_files_dom [of k1] S(6) by (simp add: fs_inv_def NumDirEntries_def)
    obtain r k' where r: "create_tail j name sz k1 (the_map k) (the_dir k) = Some (Inr (r, k'))" "fs_inv k'"
      "r = (card (dom (fs_files k)) < 10 \<and> 1 + divRoundUp sz 128 \<le> free_sectors k)"
      "if r then \<exists>bs. length bs = nat sz \<and> fs_files k' = (fs_files k)(key name \<mapsto> bs) else k' = k1"
      using create_tail_ok [OF inv1 j sz new] unfolding S(1,2,6) free fe [unfolded S(1)] by blast
    have "if r then \<exists>bs. length bs = nat sz \<and> fs_files k' = (fs_files k)(key name \<mapsto> bs) else fs_files k' = fs_files k" using r(4) S(6) by (auto split: if_splits)
    moreover have "FS_Create j name sz k = Some (Inr (r, k'))" using k1(1) r(1) False by simp
    moreover have "r = (fs_files k (key name) = None \<and> card (dom (fs_files k)) < 10 \<and> 1 + divRoundUp sz 128 \<le> free_sectors k)" using r(3) False by (simp add: domIff)
    ultimately show ?thesis using r(2) by blast
  qed
qed

definition example_junk :: junk where
  "example_junk = \<lparr>j_words = [], j_table = example_table, j_hdr = example_hdr, j_buf = []\<rparr>"

definition example_blank :: fsys where
  "example_blank = dsys.extend example_disk (fsys.fields \<lparr>of_hdr = example_hdr, seekPosition = 0\<rparr> \<lparr>of_hdr = example_hdr, seekPosition = 0\<rparr>)"

lemma example_blank_ready: "disk_ready example_blank" "junk_ok example_junk"
  using example_disk_ready
  by (simp_all add: disk_ready_def example_blank_def dsys.defs fsys.defs head_ok_def junk_ok_def example_junk_def example_table_def entry_ok_def NumDirEntries_def
      example_hdr_def NumDirect_def)

lemma example_formatted: "\<exists>k. FileSystem_new True example_junk example_blank = Some (Inr k) \<and> fs_inv k \<and> fs_files k = Map.empty \<and> free_sectors k = 1019"
  using format_ok [OF example_blank_ready] by simp

lemma key_a: "key [97] = [97]"
  by (simp add: key_def FileNameMaxLen_def)

lemma divRoundUp_300: "divRoundUp 300 128 = 3"
  by (simp add: divRoundUp_def)

lemma example_file:
  "\<exists>k k1 bs. FileSystem_new True example_junk example_blank = Some (Inr k) \<and> FS_Create example_junk [97] 300 k = Some (Inr (True, k1)) \<and> fs_inv k1 \<and>
    length bs = 300 \<and> fs_files k1 = [[97] \<mapsto> bs]"
proof -
  obtain k where k: "FileSystem_new True example_junk example_blank = Some (Inr k)" "fs_inv k" "fs_files k = Map.empty" "free_sectors k = 1019"
    using example_formatted by blast
  obtain r k1 where "FS_Create example_junk [97] 300 k = Some (Inr (r, k1))" "fs_inv k1" "r"
    "if r then \<exists>bs. length bs = nat 300 \<and> fs_files k1 = [[97] \<mapsto> bs] else fs_files k1 = Map.empty"
    using Create_ok [OF k(2) example_blank_ready(2), of 300 "[97]"] unfolding k(3,4) key_a divRoundUp_300 by auto
  then show ?thesis using k(1) by auto
qed

section \<open>Properties\<close>

text \<open>C4. \<open>FileSystem::Create\<close> of a file of at most 30 sectors: it succeeds exactly when the name (its first nine characters) is new, fewer than ten
  files exist and enough sectors are free for the data and the header. Then the file is in the directory with the size asked for, and every other file has the contents it had;
  otherwise no file changes. In both cases the disk stays consistent: no sector has two owners, and the bitmap marks exactly the owned ones.\<close>

theorem create_correct:
  assumes inv: "fs_inv k" and j: "junk_ok j" and sz: "0 \<le> sz" "sz \<le> 3840"
  shows "\<exists>r k'. FS_Create j name sz k = Some (Inr (r, k')) \<and> fs_inv k' \<and>
    r = (fs_files k (key name) = None \<and> card (dom (fs_files k)) < 10 \<and> 1 + divRoundUp sz 128 \<le> free_sectors k) \<and>
    (if r then \<exists>bs. length bs = nat sz \<and> fs_files k' = (fs_files k)(key name \<mapsto> bs) else fs_files k' = fs_files k)"
  by (rule Create_ok [OF assms])

theorem create_correct_witness:
  "\<exists>k k'. FileSystem_new True example_junk example_blank = Some (Inr k) \<and> FS_Create example_junk [97] 300 k = Some (Inr (True, k')) \<and> fs_inv k' \<and>
    (\<exists>bs. length bs = 300 \<and> fs_files k' = [[97] \<mapsto> bs])"
proof -
  obtain k where k: "FileSystem_new True example_junk example_blank = Some (Inr k)" "fs_inv k" "fs_files k = Map.empty" "free_sectors k = 1019"
    using example_formatted by blast
  obtain r k' where "FS_Create example_junk [97] 300 k = Some (Inr (r, k'))" "fs_inv k'" "r"
    "if r then \<exists>bs. length bs = nat 300 \<and> fs_files k' = [[97] \<mapsto> bs] else fs_files k' = Map.empty"
    using create_correct [OF k(2) example_blank_ready(2), of 300 "[97]"] unfolding k(3,4) key_a divRoundUp_300 by auto
  then show ?thesis using k(1) by auto
qed

text \<open>C7. \<open>FileSystem::Remove\<close> removes the file of that name from the map and nothing else: it returns whether the file was there, its sectors and its header become
  free, the other files keep their contents, and the disk stays consistent. None of the assertions on the way fails.\<close>

theorem remove_correct:
  assumes "fs_inv k" and "junk_ok j"
  shows "\<exists>k'. FS_Remove j name k = Some (Inr (key name \<in> dom (fs_files k), k')) \<and> fs_inv k' \<and> fs_files k' = (fs_files k)(key name := None)"
  by (rule Remove_ok [OF assms])

theorem remove_correct_witness:
  "\<exists>k k'. FileSystem_new True example_junk example_blank = Some (Inr k) \<and> FS_Remove example_junk [97] k = Some (Inr (False, k')) \<and> fs_inv k' \<and> fs_files k' = Map.empty"
proof -
  obtain k where k: "FileSystem_new True example_junk example_blank = Some (Inr k)" "fs_inv k" "fs_files k = Map.empty"
    using example_formatted by blast
  have e: "Map.empty(x := None) = Map.empty" for x :: "8 word list" by (rule ext) simp
  show ?thesis using remove_correct [OF k(2) example_blank_ready(2), of "[97]"] k(1) unfolding k(3) e by auto
qed

text \<open>C6. \<open>FileSystem::Open\<close> returns the null pointer exactly for a name that is not there. What it returns for another name is an open file on the bytes
  of that name: reading through it at a position \<open>pos \<ge> 0\<close> returns them, and writing through it there changes that file and no other, and keeps the disk consistent. The request ends below \<open>2 ^ 31\<close>, so that the sum
  \<open>position + numBytes\<close> does not overflow.\<close>

theorem open_correct:
  assumes inv: "fs_inv k" and j: "junk_ok j" and pos: "0 \<le> pos" and fits: "nat n \<le> length from" and lt: "pos + n < 2 ^ 31"
  shows "case fs_files k (key name) of
     None \<Rightarrow> \<exists>k'. FS_Open j name k = Some (Inr (None, k')) \<and> fs_inv k' \<and> fs_files k' = fs_files k
   | Some c \<Rightarrow> \<exists>f k1. FS_Open j name k = Some (Inr (Some f, k1)) \<and> fs_inv k1 \<and> fs_files k1 = fs_files k \<and>
       (\<exists>k'. ReadAt f n pos k1 = Some (Inr (array_read n pos c, k')) \<and> fs_inv k' \<and> fs_files k' = fs_files k) \<and>
       (case array_write from n pos c of (r, c') \<Rightarrow>
          \<exists>k'. WriteAt buf f from n pos k1 = Some (Inr (r, k')) \<and> fs_inv k' \<and> fs_files k' = (fs_files k)(key name \<mapsto> c'))"
proof -
  obtain k1 where k1: "FS_Open j name k = Some (Inr (map_option (\<lambda>s. \<lparr>of_hdr = hdr_at k s, seekPosition = 0\<rparr>) (lookup (the_dir k) (key name)), k1))" "same_disk k k1"
    using Open_ok [OF inv j] by blast
  have rdy: "disk_ready k" using inv by (simp add: fs_inv_def meta_ok_def)
  note S = same_disk_fs [OF k1(2) rdy]
  show ?thesis
  proof (cases "lookup (the_dir k) (key name)")
    case None
    then show ?thesis using k1 S inv by (simp add: fs_files_def)
  next
    case (Some s)
    let ?f = "\<lparr>of_hdr = hdr_at k s, seekPosition = 0\<rparr>" and ?c = "content k (hdr_at k s)"
    have c: "fs_files k (key name) = Some ?c" "content k1 (hdr_at k s) = ?c" using Some same_disk_raw [OF k1(2)] by (simp_all add: fs_files_def)
    have h: "hdr_ok (of_hdr ?f)" using lookup_sector [OF Some] inv by (simp add: fs_inv_def)
    have rdy1: "disk_ready k1" using k1(2) by (simp add: same_disk_def)
    obtain k2 where k2: "ReadAt ?f n pos k1 = Some (Inr (array_read n pos ?c, k2))" "same_disk k1 k2"
      using ReadAt_ok [OF rdy1 h pos lt] c(2) by (auto simp: array_read_def)
    note S2 = same_disk_fs [OF k2(2) rdy1]
    obtain r c' where aw: "array_write from n pos ?c = (r, c')" by (cases "array_write from n pos ?c")
    let ?m = "min (nat n) (nat (FileLength (hdr_at k s)) - nat pos)"
    have lc: "length ?c = nat (FileLength (hdr_at k s))" using length_content [OF rdy] h by simp
    have lm: "length (take ?m from) = ?m" using fits by simp
    have rc: "r = int ?m" "c' = copy_into ?c (nat pos) (take ?m from)" using aw unfolding array_write_def copy_into_def lc lm Let_def by simp_all
    obtain k3 where k3: "WriteAt buf ?f from n pos k1 = Some (Inr (r, k3))" "updated (hdr_at k1 s) c' k1 k3"
      using WriteAt_ok [OF rdy1 h pos fits HOL.refl lt, of buf] c(2) S(3) unfolding rc by auto
    have inv1: "fs_inv k1" "lookup (the_dir k1) (key name) = Some s" using S inv Some by simp_all
    note W = write_inv [OF inv1 k3(2)]
    show ?thesis unfolding c(1) option.case aw prod.case using k1(1) Some k2(1) k3(1) W S inv1(1) S2(5,6) by auto
  qed
qed


theorem open_correct_witness:
  "\<exists>k k1 f k2 k3 bs. FileSystem_new True example_junk example_blank = Some (Inr k) \<and> FS_Create example_junk [97] 300 k = Some (Inr (True, k1)) \<and>
    fs_files k1 = [[97] \<mapsto> bs] \<and> FS_Open example_junk [97] k1 = Some (Inr (Some f, k2)) \<and> WriteAt [] f [1, 2, 3] 3 298 k2 = Some (Inr (2, k3)) \<and>
    fs_files k3 = [[97] \<mapsto> take 298 bs @ [1, 2]]"
proof -
  obtain k k1 bs where k: "FileSystem_new True example_junk example_blank = Some (Inr k)" "FS_Create example_junk [97] 300 k = Some (Inr (True, k1))" "fs_inv k1"
    "length bs = 300" "fs_files k1 = [[97] \<mapsto> bs]" using example_file by blast
  have aw: "array_write [1, 2, 3] 3 298 bs = (2, take 298 bs @ [1, 2])" using k(4) by (simp add: array_write_def numeral_2_eq_2)
  have fits: "nat 3 \<le> length [1 :: 8 word, 2, 3]" by simp
  have pos: "0 \<le> (298 :: int)" "298 + (3 :: int) < 2 ^ 31" by simp_all
  obtain f k2 k3 where "FS_Open example_junk [97] k1 = Some (Inr (Some f, k2))" "WriteAt [] f [1, 2, 3] 3 298 k2 = Some (Inr (2, k3))"
    "fs_files k3 = [[97] \<mapsto> bs, [97] \<mapsto> take 298 bs @ [1, 2]]"
    using open_correct [OF k(3) example_blank_ready(2) pos(1) fits pos(2), of "[97]" "[]"] unfolding k(5) key_a fun_upd_same option.case aw prod.case by blast
  then show ?thesis using k(1,2,5) unfolding fun_upd_upd by blast
qed

text \<open>C28. The constructor of the file system. Formatting any disk gives a consistent, empty file system with all but five sectors free, whatever the disk held.
  Opening the file system again from the disk, as the next run of Nachos does, finds exactly the files that were there.\<close>

theorem format_and_reopen:
  assumes "junk_ok j"
  shows "(disk_ready k \<longrightarrow> (\<exists>k'. FileSystem_new True j k = Some (Inr k') \<and> fs_inv k' \<and> fs_files k' = Map.empty \<and> free_sectors k' = 1019)) \<and>
    (fs_inv k \<longrightarrow> (\<exists>k'. FileSystem_new False j (k\<lparr>freeMapFile := a, directoryFile := b\<rparr>) = Some (Inr k') \<and> fs_inv k' \<and> fs_files k' = fs_files k))"
  using format_ok [OF _ assms, of k] reopen_ok [where k = k and j = j and a = a and b = b] by simp

theorem format_and_reopen_witness:
  "(\<exists>k'. FileSystem_new True example_junk example_blank = Some (Inr k') \<and> fs_files k' = Map.empty) \<and>
   (\<exists>k k1 k2 bs. FileSystem_new True example_junk example_blank = Some (Inr k) \<and> FS_Create example_junk [97] 300 k = Some (Inr (True, k1)) \<and>
     FileSystem_new False example_junk (k1\<lparr>freeMapFile := freeMapFile example_blank, directoryFile := directoryFile example_blank\<rparr>) = Some (Inr k2) \<and>
     length bs = 300 \<and> fs_files k2 = [[97] \<mapsto> bs])"
proof -
  obtain k k1 bs where k: "FileSystem_new True example_junk example_blank = Some (Inr k)" "FS_Create example_junk [97] 300 k = Some (Inr (True, k1))" "fs_inv k1"
    "length bs = 300" "fs_files k1 = [[97] \<mapsto> bs]" using example_file by blast
  note T = format_and_reopen [OF example_blank_ready(2)]
  obtain k2 where k2: "FileSystem_new False example_junk (k1\<lparr>freeMapFile := freeMapFile example_blank, directoryFile := directoryFile example_blank\<rparr>) = Some (Inr k2)"
    "fs_files k2 = fs_files k1" using T [where k = k1 and a = "freeMapFile example_blank" and b = "directoryFile example_blank", THEN conjunct2] k(3) by blast
  obtain k0 where k0: "FileSystem_new True example_junk example_blank = Some (Inr k0)" "fs_files k0 = Map.empty"
    using T [where k = example_blank, THEN conjunct1] example_blank_ready(1) by blast
  have "fs_files k2 = [[97] \<mapsto> bs]" using k2(2) k(5) by simp
  then show ?thesis using k0 k(1,2,4) k2(1) by blast
qed

text \<open>C38. A file of more than 30 sectors: \<open>Allocate\<close> compares the size with the free sectors only, not with the 30 entries of the header, and stores past the
  end of the array \<open>dataSectors\<close>. \<open>Create\<close> does so for every such size for which enough sectors are free.\<close>

theorem create_too_large:
  assumes inv: "fs_inv k" and j: "junk_ok j" and sz: "3840 < sz" and new: "fs_files k (key name) = None" and few: "card (dom (fs_files k)) < 10"
    and free: "1 + divRoundUp sz 128 \<le> free_sectors k"
  shows "FS_Create j name sz k = Some (Inl OutOfBounds)"
proof -
  have l: "lookup (the_dir k) (key name) = None" using new by (simp add: fs_files_def)
  have "\<exists>e \<in> set (the_dir k). \<not> inUse e" using free_entry [of "the_dir k"] inv few fs_files_dom [of k] by (simp add: fs_inv_def NumDirEntries_def)
  note T = create_tail_overflow [OF inv j sz l this free]
  show ?thesis using Create_prefix [OF inv j, of name sz] T new by (auto simp: domIff)
qed

theorem create_too_large_witness:
  "\<exists>k. FileSystem_new True example_junk example_blank = Some (Inr k) \<and> FS_Create example_junk [97] 3841 k = Some (Inl OutOfBounds)"
proof -
  obtain k where k: "FileSystem_new True example_junk example_blank = Some (Inr k)" "fs_inv k" "fs_files k = Map.empty" "free_sectors k = 1019"
    using example_formatted by blast
  have "divRoundUp 3841 128 = 31" by (simp add: divRoundUp_def)
  then show ?thesis using create_too_large [OF k(2) example_blank_ready(2), of 3841 "[97]"] k by simp
qed

end
