(* ===== verification/File_Commands.thy ===== *)
theory File_Commands
  imports Filesys_Correct
begin

text \<open>
  The commands on the file system (\<^verbatim>\<open>src/code/filesys/fstest.cc\<close>): copying a UNIX file to a Nachos file, printing a Nachos file, and the performance test. UNIX files are a map from names to bytes;
  what is printed of a file is part of the result, messages are not. \<open>j\<close> is the uninitialised memory of the calls, \<open>buf\<close> that of a buffer.
\<close>

definition TransferSize :: nat where "TransferSize = 10"

section \<open>Copy and Print\<close>

text \<open>The loop of \<open>Copy\<close>, with the bytes of the UNIX file that \<open>fread\<close> has not returned yet. A short last chunk leaves the end of the buffer as it was.\<close>

function copy_loop :: "junk \<Rightarrow> 8 word list \<Rightarrow> 8 word list \<Rightarrow> OpenFile \<Rightarrow> 'm fsys_scheme \<Rightarrow> 'm fsys_scheme res option" where
  "copy_loop j buf left f k =
     (let chunk = take TransferSize left; buf = chunk @ drop (length chunk) buf in
      if left = [] then Some (Inr k)
      else bindO (OpenFile_Write (j_buf j) f buf (int (length chunk)) k) (\<lambda>(_, f, k). copy_loop j buf (drop TransferSize left) f k))"
  by pat_completeness auto
termination by (relation "measure (\<lambda>(j, buf, left, f, k). length left)") (auto simp: TransferSize_def)

declare copy_loop.simps [simp del]

definition Copy :: "junk \<Rightarrow> (8 word list \<Rightarrow> 8 word list option) \<Rightarrow> 8 word list \<Rightarrow> 8 word list \<Rightarrow> 8 word list \<Rightarrow> 'm fsys_scheme \<Rightarrow> 'm fsys_scheme res option" where
  "Copy j unix buf from to k =
     (case unix from of None \<Rightarrow> Some (Inr k)
      | Some bytes \<Rightarrow>
          bindO (FS_Create j to (c_int (int (length bytes))) k) (\<lambda>(ok, k).
            if \<not> ok then Some (Inr k)
            else bindO (FS_Open j to k) (\<lambda>(openFile, k).
                   case openFile of None \<Rightarrow> Some (Inl AssertFail) | Some f \<Rightarrow> copy_loop j buf bytes f k)))"

text \<open>The loop of \<open>Print\<close>, which may run forever on a file that never ends, and what it prints.\<close>

partial_function (option) print_loop :: "8 word list \<Rightarrow> OpenFile \<Rightarrow> 'm fsys_scheme \<Rightarrow> (8 word list \<times> 'm fsys_scheme) res option" where
  "print_loop out f k =
     bindO (OpenFile_Read f (int TransferSize) k) (\<lambda>(bs, f, k). if bs = [] then Some (Inr (out, k)) else print_loop (out @ bs) f k)"

definition Print_file :: "junk \<Rightarrow> 8 word list \<Rightarrow> 'm fsys_scheme \<Rightarrow> (8 word list option \<times> 'm fsys_scheme) res option" where
  "Print_file j name k =
     bindO (FS_Open j name k) (\<lambda>(openFile, k).
       case openFile of None \<Rightarrow> Some (Inr (None, k)) | Some f \<Rightarrow> bindO (print_loop [] f k) (\<lambda>(out, k). Some (Inr (Some out, k))))"

section \<open>The performance test\<close>

definition FileName :: "8 word list" where "FileName = [84, 101, 115, 116, 70, 105, 108, 101]"
definition Contents :: "8 word list" where "Contents = [49, 50, 51, 52, 53, 54, 55, 56, 57, 48]"
definition FileSize :: nat where "FileSize = length Contents * 5000"

text \<open>The loops, with \<open>left\<close> rounds to go; the flag says whether the loop came to its end.\<close>

primrec perf_write :: "nat \<Rightarrow> junk \<Rightarrow> OpenFile \<Rightarrow> 'm fsys_scheme \<Rightarrow> (bool \<times> 'm fsys_scheme) res option" where
  "perf_write 0 j f k = Some (Inr (True, k))"
| "perf_write (Suc left) j f k =
     bindO (OpenFile_Write (j_buf j) f Contents (int (length Contents)) k) (\<lambda>(numBytes, f, k). if numBytes < 10 then Some (Inr (False, k)) else perf_write left j f k)"

primrec perf_read :: "nat \<Rightarrow> OpenFile \<Rightarrow> 'm fsys_scheme \<Rightarrow> (bool \<times> 'm fsys_scheme) res option" where
  "perf_read 0 f k = Some (Inr (True, k))"
| "perf_read (Suc left) f k =
     bindO (OpenFile_Read f (int (length Contents)) k) (\<lambda>(bs, f, k).
       if length bs < 10 \<or> \<not> strncmp_eq (length Contents) bs Contents then Some (Inr (False, k)) else perf_read left f k)"

definition FileWrite :: "junk \<Rightarrow> 'm fsys_scheme \<Rightarrow> (bool \<times> 'm fsys_scheme) res option" where
  "FileWrite j k =
     bindO (FS_Create j FileName 0 k) (\<lambda>(ok, k).
       if \<not> ok then Some (Inr (False, k))
       else bindO (FS_Open j FileName k) (\<lambda>(openFile, k).
              case openFile of None \<Rightarrow> Some (Inr (False, k)) | Some f \<Rightarrow> perf_write (FileSize div length Contents) j f k))"

definition FileRead :: "junk \<Rightarrow> 'm fsys_scheme \<Rightarrow> (bool \<times> 'm fsys_scheme) res option" where
  "FileRead j k =
     bindO (FS_Open j FileName k) (\<lambda>(openFile, k).
       case openFile of None \<Rightarrow> Some (Inr (False, k)) | Some f \<Rightarrow> perf_read (FileSize div length Contents) f k)"

text \<open>\<open>PerformanceTest\<close>, and whether the writing, the reading and the removal succeeded.\<close>

definition PerformanceTest :: "junk \<Rightarrow> 'm fsys_scheme \<Rightarrow> ((bool \<times> bool \<times> bool) \<times> 'm fsys_scheme) res option" where
  "PerformanceTest j k =
     bindO (FileWrite j k) (\<lambda>(w, k). bindO (FileRead j k) (\<lambda>(r, k). bindO (FS_Remove j FileName k) (\<lambda>(d, k). Some (Inr ((w, r, d), k)))))"

section \<open>Open files\<close>

text \<open>\<open>f\<close> is an open file on the Nachos file \<open>x\<close>, which holds the bytes \<open>c\<close>.\<close>

definition opened :: "8 word list \<Rightarrow> OpenFile \<Rightarrow> 8 word list \<Rightarrow> 'm fsys_scheme \<Rightarrow> bool" where
  "opened x f c k \<longleftrightarrow> fs_inv k \<and> (\<exists>s. lookup (the_dir k) x = Some s \<and> of_hdr f = hdr_at k s) \<and> fs_files k x = Some c"

lemma openedD:
  assumes "opened x f c k"
  shows "disk_ready k" "hdr_ok (of_hdr f)" "content k (of_hdr f) = c" "length c = nat (FileLength (of_hdr f))" "length c \<le> 3840"
proof -
  obtain s where s: "lookup (the_dir k) x = Some s" "of_hdr f = hdr_at k s" and inv: "fs_inv k" and c: "fs_files k x = Some c" using assms by (auto simp: opened_def)
  show rdy: "disk_ready k" using inv by (simp add: fs_inv_def meta_ok_def)
  show h: "hdr_ok (of_hdr f)" using lookup_sector [OF s(1)] inv s(2) by (simp add: fs_inv_def)
  show e: "content k (of_hdr f) = c" using s c by (simp add: fs_files_def)
  show l: "length c = nat (FileLength (of_hdr f))" using length_content [OF rdy h] e by simp
  show "length c \<le> 3840" using l enough_sectors(1,2) [OF h] by linarith
qed

lemma open_opened:
  assumes "fs_inv k" and "junk_ok j" and "fs_files k (key name) = Some c"
  shows "\<exists>f k'. FS_Open j name k = Some (Inr (Some f, k')) \<and> opened (key name) f c k' \<and> seekPosition f = 0 \<and> fs_files k' = fs_files k"
proof -
  obtain s where s: "lookup (the_dir k) (key name) = Some s" using assms(3) by (auto simp: fs_files_def)
  obtain k1 where k1: "FS_Open j name k = Some (Inr (Some \<lparr>of_hdr = hdr_at k s, seekPosition = 0\<rparr>, k1))" "same_disk k k1" using Open_ok [OF assms(1,2), of name] s by auto
  note S = same_disk_fs [OF k1(2)]
  have "disk_ready k" using assms(1) by (simp add: fs_inv_def meta_ok_def)
  then show ?thesis using k1(1) S assms(1,3) s by (auto simp: opened_def)
qed

lemma open_missing:
  assumes "fs_inv k" and "junk_ok j" and "fs_files k (key name) = None"
  shows "\<exists>k'. FS_Open j name k = Some (Inr (None, k')) \<and> fs_inv k' \<and> fs_files k' = fs_files k"
proof -
  have "lookup (the_dir k) (key name) = None" using assms(3) by (simp add: fs_files_def)
  then obtain k1 where k1: "FS_Open j name k = Some (Inr (None, k1))" "same_disk k k1" using Open_ok [OF assms(1,2), of name] by auto
  have "disk_ready k" using assms(1) by (simp add: fs_inv_def meta_ok_def)
  then show ?thesis using k1(1) same_disk_fs [OF k1(2)] assms(1) by auto
qed

lemma read_opened:
  assumes "opened x f c k" and "0 \<le> seekPosition f" and "seekPosition f + n < 2 ^ 31"
  shows "\<exists>k'. OpenFile_Read f n k = Some (Inr (array_read n (seekPosition f) c, f\<lparr>seekPosition := seekPosition f + int (length (array_read n (seekPosition f) c))\<rparr>, k')) \<and>
    opened x f c k' \<and> fs_files k' = fs_files k"
proof -
  note D = openedD [OF assms(1)]
  obtain k1 where k1: "ReadAt f n (seekPosition f) k = Some (Inr (array_read n (seekPosition f) c, k1))" "same_disk k k1"
    using ReadAt_ok [OF D(1,2) assms(2,3)] D(3) by (auto simp: array_read_def)
  then show ?thesis using same_disk_fs [OF k1(2) D(1)] assms(1) by (auto simp: OpenFile_Read_def opened_def)
qed

lemma write_opened:
  assumes "opened x f c k" and "0 \<le> seekPosition f" and "nat n \<le> length from" and "array_write from n (seekPosition f) c = (r, c')" and "seekPosition f + n < 2 ^ 31"
  shows "\<exists>k'. OpenFile_Write buf f from n k = Some (Inr (r, f\<lparr>seekPosition := seekPosition f + r\<rparr>, k')) \<and> opened x f c' k' \<and> fs_files k' = (fs_files k)(x \<mapsto> c')"
proof -
  note D = openedD [OF assms(1)]
  obtain s where s: "lookup (the_dir k) x = Some s" "of_hdr f = hdr_at k s" and inv: "fs_inv k" using assms(1) by (auto simp: opened_def)
  let ?m = "min (nat n) (nat (FileLength (of_hdr f)) - nat (seekPosition f))"
  have lm: "length (take ?m from) = ?m" using assms(3) by simp
  have rc: "r = int ?m" "c' = copy_into c (nat (seekPosition f)) (take ?m from)" using assms(4) unfolding array_write_def copy_into_def D(4) lm Let_def by simp_all
  obtain k1 where k1: "WriteAt buf f from n (seekPosition f) k = Some (Inr (r, k1))" "updated (hdr_at k s) c' k k1"
    using WriteAt_ok [OF D(1,2) assms(2,3) HOL.refl assms(5), of buf] unfolding rc D(3) s(2) [symmetric] by auto
  note W = write_inv [OF inv s(1) k1(2)]
  show ?thesis using k1(1) W s by (auto simp: OpenFile_Write_def opened_def)
qed

section \<open>The loops\<close>

lemma opened_seek [simp]: "opened x (f\<lparr>seekPosition := i\<rparr>) c k = opened x f c k"
  by (simp add: opened_def)

lemma copy_loop_correct:
  assumes "opened x f c k" and "seekPosition f = int p" and "p + length left = length c"
  shows "\<exists>k'. copy_loop j buf left f k = Some (Inr k') \<and> fs_inv k' \<and> fs_files k' = (fs_files k)(x \<mapsto> take p c @ left)"
  using assms
proof (induction j buf left f k arbitrary: c p rule: copy_loop.induct)
  case (1 j buf left f k)
  show ?case
  proof (cases "left = []")
    case True
    have "(fs_files k)(x \<mapsto> c) = fs_files k" using 1(2) by (auto simp: opened_def)
    then show ?thesis using True 1(2,4) by (simp add: copy_loop.simps [of j buf "[]" f k] opened_def)
  next
    case False
    let ?ch = "take TransferSize left" and ?p = "p + length (take TransferSize left)"
    let ?buf = "?ch @ drop (length ?ch) buf" and ?c = "take p c @ take TransferSize left @ drop (p + length (take TransferSize left)) c"
    have l0: "length c - p = length left" using 1(4) by simp
    have aw: "array_write ?buf (int (length ?ch)) (seekPosition f) c = (int (length ?ch), ?c)" using 1(3) l0 by (simp add: array_write_def Let_def min_def)
    have "length ?ch \<le> length left" by simp
    then have "seekPosition f + int (length ?ch) \<le> 3840" using 1(3,4) openedD(5) [OF 1(2)] by linarith
    then have lt: "seekPosition f + int (length ?ch) < 2 ^ 31" by (rule order_le_less_trans) simp
    obtain k1 where k1: "OpenFile_Write (j_buf j) f ?buf (int (length ?ch)) k = Some (Inr (int (length ?ch), f\<lparr>seekPosition := seekPosition f + int (length ?ch)\<rparr>, k1))"
      "opened x f ?c k1" "fs_files k1 = (fs_files k)(x \<mapsto> ?c)"
      using write_opened [OF 1(2) _ _ aw lt, of "j_buf j"] 1(3) by auto
    let ?f = "f\<lparr>seekPosition := seekPosition f + int (length ?ch)\<rparr>"
    have l: "length ?ch + length (drop TransferSize left) = length left" by simp
    have t: "take ?p ?c @ drop TransferSize left = take p c @ left" using 1(4) l0 False by (auto simp: min_def)
    have "\<exists>k'. copy_loop j ?buf (drop TransferSize left) ?f k1 = Some (Inr k') \<and> fs_inv k' \<and> fs_files k' = (fs_files k1)(x \<mapsto> take ?p ?c @ drop TransferSize left)"
      by (rule 1(1) [OF HOL.refl HOL.refl False]) (use k1(2) 1(3,4) l in simp_all)
    moreover have "copy_loop j buf left f k = copy_loop j ?buf (drop TransferSize left) ?f k1" using False k1(1) by (simp add: copy_loop.simps [of j buf left f k] Let_def)
    ultimately show ?thesis unfolding t k1(3) fun_upd_upd by (simp only:)
  qed
qed

lemma take_drop_rest: "take n (drop p c) @ drop (p + length (take n (drop p c))) c = drop p c"
proof -
  have "drop (p + length (take n (drop p c))) c = drop (length (take n (drop p c))) (drop p c)" by (simp add: add.commute)
  moreover have "take n xs @ drop (length (take n xs)) xs = xs" for xs :: "'a list" by (cases "n \<le> length xs") simp_all
  ultimately show ?thesis by metis
qed

lemma print_loop_correct:
  assumes "opened x f c k" and "seekPosition f = int p" and "p \<le> length c"
  shows "\<exists>k'. print_loop out f k = Some (Inr (out @ drop p c, k')) \<and> fs_inv k' \<and> fs_files k' = fs_files k"
  using assms
proof (induction "length c - p" arbitrary: p f k out rule: less_induct)
  case less
  let ?bs = "take TransferSize (drop p c)"
  have a: "array_read (int TransferSize) (seekPosition f) c = ?bs" using less(3) by (simp add: array_read_def)
  obtain k1 where k1: "OpenFile_Read f (int TransferSize) k = Some (Inr (?bs, f\<lparr>seekPosition := seekPosition f + int (length ?bs)\<rparr>, k1))" "opened x f c k1" "fs_files k1 = fs_files k"
    using read_opened [OF less(2), of "int TransferSize"] less(3,4) openedD(5) [OF less(2)] unfolding a by (auto simp: TransferSize_def)
  show ?case
  proof (cases "?bs = []")
    case True
    then have "drop p c = []" by (simp add: TransferSize_def)
    then show ?thesis using True k1 by (simp add: print_loop.simps [of out f k] opened_def)
  next
    case False
    let ?f = "f\<lparr>seekPosition := seekPosition f + int (length ?bs)\<rparr>"
    have q: "p + length ?bs \<le> length c" "length c - (p + length ?bs) < length c - p" using less(4) False by (auto simp: TransferSize_def)
    obtain k2 where "print_loop (out @ ?bs) ?f k1 = Some (Inr ((out @ ?bs) @ drop (p + length ?bs) c, k2))" "fs_inv k2" "fs_files k2 = fs_files k1"
      using less(1) [OF q(2), of ?f k1 "out @ ?bs"] k1(2) less(3) q(1) by auto
    moreover have "?bs @ drop (p + length ?bs) c = drop p c" by (rule take_drop_rest)
    ultimately show ?thesis using False k1 by (simp add: print_loop.simps [of out f k])
  qed
qed

section \<open>The commands\<close>

text \<open>C23. \<open>Copy\<close> of a UNIX file of at most 3840 bytes comes to its end with the disk consistent: the Nachos file is created exactly when its name is new, fewer than ten files exist and enough sectors are free, and
  then it holds the bytes of the UNIX file; every other file is unchanged. \<open>Print\<close> of the copy prints these bytes and changes no file. Neither loop runs forever and no assertion fails.
\<close>

theorem copy_print:
  assumes inv: "fs_inv k" and j: "junk_ok j" and src: "unix from = Some bytes" and len: "length bytes \<le> 3840"
  shows "\<exists>k1. Copy j unix buf from to k = Some (Inr k1) \<and> fs_inv k1 \<and>
    (if fs_files k (key to) = None \<and> card (dom (fs_files k)) < 10 \<and> 1 + divRoundUp (int (length bytes)) 128 \<le> free_sectors k
     then fs_files k1 = (fs_files k)(key to \<mapsto> bytes) \<and> (\<exists>k2. Print_file j to k1 = Some (Inr (Some bytes, k2)) \<and> fs_inv k2 \<and> fs_files k2 = fs_files k1)
     else fs_files k1 = fs_files k)"
proof -
  let ?n = "int (length bytes)"
  have n: "c_int ?n = ?n" using len by (simp add: c_int_def)
  obtain r k0 where C: "FS_Create j to ?n k = Some (Inr (r, k0))" "fs_inv k0" "r = (fs_files k (key to) = None \<and> card (dom (fs_files k)) < 10 \<and> 1 + divRoundUp ?n 128 \<le> free_sectors k)"
    "if r then \<exists>bs. length bs = nat ?n \<and> fs_files k0 = (fs_files k)(key to \<mapsto> bs) else fs_files k0 = fs_files k"
    using Create_ok [OF inv j, of ?n to] len by auto
  show ?thesis
  proof (cases r)
    case False
    then have "Copy j unix buf from to k = Some (Inr k0)" using C(1) src n by (simp add: Copy_def)
    then show ?thesis using False C(2-4) by auto
  next
    case True
    then obtain bs where bs: "length bs = length bytes" "fs_files k0 = (fs_files k)(key to \<mapsto> bs)" using C(4) by auto
    then have "fs_files k0 (key to) = Some bs" by simp
    then obtain f k1 where f: "FS_Open j to k0 = Some (Inr (Some f, k1))" "opened (key to) f bs k1" "seekPosition f = 0" "fs_files k1 = fs_files k0"
      using open_opened [OF C(2) j, of to bs] by blast
    obtain k2 where k2: "copy_loop j buf bytes f k1 = Some (Inr k2)" "fs_inv k2" "fs_files k2 = (fs_files k1)(key to \<mapsto> bytes)"
      using copy_loop_correct [OF f(2), of 0 bytes j buf] f(3) bs(1) by auto
    have k2f: "fs_files k2 = (fs_files k)(key to \<mapsto> bytes)" using k2(3) f(4) bs(2) by simp
    then have "fs_files k2 (key to) = Some bytes" by simp
    then obtain g k3 where g: "FS_Open j to k2 = Some (Inr (Some g, k3))" "opened (key to) g bytes k3" "seekPosition g = 0" "fs_files k3 = fs_files k2"
      using open_opened [OF k2(2) j, of to bytes] by blast
    obtain k4 where "print_loop [] g k3 = Some (Inr (bytes, k4))" "fs_inv k4" "fs_files k4 = fs_files k3" using print_loop_correct [OF g(2), of 0 "[]"] g(3) by auto
    then have "\<exists>k4. Print_file j to k2 = Some (Inr (Some bytes, k4)) \<and> fs_inv k4 \<and> fs_files k4 = fs_files k2" using g(1,4) by (simp add: Print_file_def)
    moreover have "Copy j unix buf from to k = Some (Inr k2)" using True C(1) f(1) k2(1) src n by (simp add: Copy_def)
    ultimately show ?thesis using True C(3) k2(2) k2f by auto
  qed
qed

theorem copy_print_witness:
  "\<exists>k k1 k2. FileSystem_new True example_junk example_blank = Some (Inr k) \<and> Copy example_junk [[98] \<mapsto> [1, 2, 3]] (replicate 10 0) [98] [97] k = Some (Inr k1) \<and> fs_files k1 = [[97] \<mapsto> [1, 2, 3]] \<and>
    Print_file example_junk [97] k1 = Some (Inr (Some [1, 2, 3], k2))"
proof -
  obtain k where k: "FileSystem_new True example_junk example_blank = Some (Inr k)" "fs_inv k" "fs_files k = Map.empty" "free_sectors k = 1019"
    using example_formatted by blast
  have "divRoundUp 3 128 = 1" by (simp add: divRoundUp_def)
  then show ?thesis
    using copy_print [OF k(2) example_blank_ready(2), of "[[98] \<mapsto> [1, 2, 3]]" "[98]" "[1, 2, 3]" "replicate 10 0" "[97]"] k(1) unfolding k(3,4) key_a by auto
qed

text \<open>The performance test creates its file with no bytes; a Nachos file does not grow, so the first write and the first read transfer nothing. The file is removed in the end.\<close>

lemma empty_file:
  assumes "opened x f [] k" and "seekPosition f = 0"
  shows "\<exists>k'. perf_write (Suc i) j f k = Some (Inr (False, k')) \<and> fs_inv k' \<and> fs_files k' = fs_files k"
    "\<exists>k'. perf_read (Suc i) f k = Some (Inr (False, k')) \<and> fs_inv k' \<and> fs_files k' = fs_files k"
proof -
  have aw: "array_write Contents (int (length Contents)) (seekPosition f) [] = (0, [])" by (simp add: array_write_def)
  have same: "(fs_files k)(x \<mapsto> []) = fs_files k" using assms(1) by (auto simp: opened_def)
  show "\<exists>k'. perf_write (Suc i) j f k = Some (Inr (False, k')) \<and> fs_inv k' \<and> fs_files k' = fs_files k"
    using write_opened [OF assms(1) _ _ aw, of "j_buf j"] assms(2) same by (auto simp: opened_def Contents_def)
  show "\<exists>k'. perf_read (Suc i) f k = Some (Inr (False, k')) \<and> fs_inv k' \<and> fs_files k' = fs_files k"
    using read_opened [OF assms(1), of "int (length Contents)"] assms(2) by (auto simp: opened_def array_read_def Contents_def)
qed

lemma performance_test:
  assumes inv: "fs_inv k" and j: "junk_ok j" and new: "fs_files k (key FileName) = None" and room: "card (dom (fs_files k)) < 10" "1 \<le> free_sectors k"
  shows "\<exists>k'. PerformanceTest j k = Some (Inr ((False, False, True), k')) \<and> fs_inv k' \<and> fs_files k' = fs_files k"
proof -
  have rounds: "FileSize div length Contents = Suc 4999" by (simp add: FileSize_def Contents_def)
  have "divRoundUp 0 128 = 0" by (simp add: divRoundUp_def)
  then obtain k0 where k0: "FS_Create j FileName 0 k = Some (Inr (True, k0))" "fs_inv k0" "fs_files k0 = (fs_files k)(key FileName \<mapsto> [])"
    using Create_ok [OF inv j, of 0 FileName] new room by auto
  then have "fs_files k0 (key FileName) = Some []" by simp
  then obtain f k1 where f: "FS_Open j FileName k0 = Some (Inr (Some f, k1))" "opened (key FileName) f [] k1" "seekPosition f = 0" "fs_files k1 = fs_files k0"
    using open_opened [OF k0(2) j, of FileName "[]"] by blast
  obtain k2 where k2: "perf_write (Suc 4999) j f k1 = Some (Inr (False, k2))" "fs_inv k2" "fs_files k2 = fs_files k0" using empty_file(1) [OF f(2,3), of 4999 j] unfolding f(4) by blast
  have w: "FileWrite j k = Some (Inr (False, k2))" using k0(1) f(1) k2(1) unfolding FileWrite_def rounds by simp
  have "fs_files k2 (key FileName) = Some []" using k0(3) k2(3) by simp
  then obtain g k3 where g: "FS_Open j FileName k2 = Some (Inr (Some g, k3))" "opened (key FileName) g [] k3" "seekPosition g = 0" "fs_files k3 = fs_files k2"
    using open_opened [OF k2(2) j, of FileName "[]"] by blast
  obtain k4 where k4: "perf_read (Suc 4999) g k3 = Some (Inr (False, k4))" "fs_inv k4" "fs_files k4 = fs_files k2" using empty_file(2) [OF g(2,3), of 4999] unfolding g(4) by blast
  have r: "FileRead j k2 = Some (Inr (False, k4))" using g(1) k4(1) unfolding FileRead_def rounds by simp
  have d: "key FileName \<in> dom (fs_files k4)" using k4(3) k2(3) k0(3) by auto
  obtain k5 where k5: "FS_Remove j FileName k4 = Some (Inr (True, k5))" "fs_inv k5" "fs_files k5 = (fs_files k4)(key FileName := None)"
    using Remove_ok [OF k4(2) j, of FileName] d by auto
  have "fs_files k5 = fs_files k" using k5(3) k4(3) k2(3) k0(3) new by auto
  then show ?thesis using w r k5(1,2) by (simp add: PerformanceTest_def)
qed

end
