(* ===== verification/Coff_Noff.thy ===== *)
theory Coff_Noff
  imports Process_Memory Mips
begin

text \<open>
  The converter of object files (\<^verbatim>\<open>src/code/bin/coff2noff.c\<close>, with \<^verbatim>\<open>coff.h\<close> and \<^verbatim>\<open>noff.h\<close>): it reads a MIPS COFF file, as the cross compiler writes it, and writes the NOFF file that the address space loads.
  Hosts are little-endian with a \<open>long\<close> of 32 bits, so the headers have 20, 56 and 40 bytes. A file is the list of its bytes. The converter ends with an error, after which the output does not exist, or with the
  output file. What the fields of the NOFF header hold that are never set is an argument (\<open>junk\<close>). For a negative size or file position, where the result is up to UNIX, the model has an error of its own.
\<close>

unbundle bit_operations_syntax

section \<open>The converter\<close>














definition segment_bytes :: "Segment \<Rightarrow> 8 word list" where
  "segment_bytes g = word_bytes (seg_virtualAddr g) @ word_bytes (seg_inFileAddr g) @ word_bytes (seg_size g)"

definition header_bytes :: "NoffHeader \<Rightarrow> 8 word list" where
  "header_bytes h = word_bytes (noffMagic h) @ segment_bytes (noff_code h) @ segment_bytes (noff_initData h) @ segment_bytes (noff_uninitData h)"




section \<open>The output\<close>











section \<open>Loading the output\<close>


lemma length_header_bytes [simp]: "length (header_bytes h) = 40" "length (segment_bytes g) = 12"
  by (simp_all add: header_bytes_def segment_bytes_def)












section \<open>Properties\<close>







end
