(* ===== verification/Spec2Isabelle.thy ===== *)
theory Spec2Isabelle
  imports Linked_List Bit_Map Table_Pipe Interrupts Translate Mips Threads Synch User_State Monitors Rendezvous Join_Finish Virtual_Memory Paging Process_Memory Second_Chance Console_Device Syscalls Process_Calls Startup User_Memory Post_Office Mail_Delivery
    Disk File_System File_Content Directory_Map Filesys_Correct File_Commands Coff_Noff
begin

text \<open>
  A verification development for Nachos, an instructional operating system in C++ (\<^verbatim>\<open>src/code\<close>): a kernel with threads, synchronization, virtual memory and a file
  system, running on a simulated machine (MIPS processor, interrupt controller, timer, disk, terminal, network).

  \<^bold>\<open>The program and its parts.\<close> The simulated hardware is in \<^verbatim>\<open>machine/\<close>: \<^verbatim>\<open>interrupt.cc\<close> keeps the clock and the list of pending interrupts, \<^verbatim>\<open>mipssim.cc\<close> and
  \<^verbatim>\<open>translate.cc\<close> execute user instructions through a page table, \<^verbatim>\<open>disk.cc\<close> and \<^verbatim>\<open>timer.cc\<close> schedule interrupts. The kernel proper is in \<^verbatim>\<open>threads/\<close> (list, scheduler,
  threads, semaphores, locks, condition variables and monitors built on them), \<^verbatim>\<open>userprog/\<close> (address spaces, demand paging with a backing store, process table, pipes, system
  calls) and \<^verbatim>\<open>filesys/\<close> (a file system on the disk). User instructions that fault enter the kernel; the kernel switches threads; the timer interrupt makes a
  thread yield; the file system waits for disk interrupts.

  \<^bold>\<open>Theories and sources.\<close>
  \<^item> \<open>Nachos_Prelude\<close>: results (\<open>error + 'a\<close>, \<open>Inl\<close> being a failed \<open>ASSERT\<close>, an access outside an array or through a null or dangling pointer), \<open>bindR\<close> for them and
    \<open>bindO\<close> for computations that may also run forever (\<open>None\<close>), C arithmetic on \<open>int\<close> (\<open>c_int\<close> wraps at 32 bits).
  \<^item> \<open>Linked_List\<close>: \<^verbatim>\<open>threads/list.cc\<close> on an explicit heap of elements; refinement of \<open>Append\<close>, \<open>SortedInsert\<close>, \<open>SortedRemove\<close> to sequences (\<open>sorted_insert\<close>).
  \<^item> \<open>Bit_Map\<close>, \<open>Table_Pipe\<close>: \<^verbatim>\<open>userprog/bitmap.cc\<close>, and the classes \<open>Table\<close> and \<open>Pipe\<close> of \<^verbatim>\<open>userprog/exception.cc\<close>. The locale \<open>slot_allocator\<close> is interpreted on the bitmap and on
    the page allocator.
  \<^item> \<open>Interrupts\<close>: \<^verbatim>\<open>machine/interrupt.cc\<close>, \<^verbatim>\<open>timer.cc\<close>, the counters of \<^verbatim>\<open>stats.cc\<close>.
  \<^item> \<open>Translate\<close>, \<open>Mips\<close>: \<^verbatim>\<open>machine/translate.cc\<close>, \<^verbatim>\<open>machine.cc\<close>, \<^verbatim>\<open>mipssim.cc\<close>, on 32-bit words.
  \<^item> \<open>Threads\<close>, \<open>Synch\<close>: \<^verbatim>\<open>threads/thread.cc\<close>, \<^verbatim>\<open>scheduler.cc\<close>, \<^verbatim>\<open>synch.cc\<close>; the interleaving of all threads is the step relation \<open>kstep\<close>.
    \<open>User_State\<close>: runs of \<open>kstep\<close> interleaved with everything else the machine does, and what a user thread finds when it is back on the processor.
  \<^item> \<open>Monitors\<close>: objects with a private lock and condition variables, statement by statement on \<open>kstep\<close>; the locale \<open>monitor\<close> carries invariants of the abstract monitor over to the
    kernel and is interpreted on \<open>SynchList\<close> (\<^verbatim>\<open>synchlist.cc\<close>), \<open>Mailbox\<close> and \<open>Whale\<close> (\<^verbatim>\<open>synch.cc\<close>) in \<open>Rendezvous\<close> and on \<open>Thread::Join\<close> with \<open>Thread::Finish\<close> in \<open>Join_Finish\<close>.
  \<^item> \<open>Virtual_Memory\<close> (definitions), \<open>Paging\<close>, \<open>Process_Memory\<close>, \<open>Second_Chance\<close> (proofs): \<^verbatim>\<open>userprog/addrspace.cc\<close> and the page fault branch of \<^verbatim>\<open>exception.cc\<close>.
  \<^item> \<open>Console_Device\<close>: \<^verbatim>\<open>machine/console.cc\<close> and \<^verbatim>\<open>userprog/SynchConsole.cc\<close>; \<open>Syscalls\<close> (definitions) and \<open>Process_Calls\<close> (proofs): system calls and exceptions of \<^verbatim>\<open>userprog/exception.cc\<close>,
    \<open>Machine::Run\<close> and \<^verbatim>\<open>userprog/progtest.cc\<close>.
  \<^item> \<open>Startup\<close>: \<^verbatim>\<open>threads/main.cc\<close> and \<^verbatim>\<open>threads/system.cc\<close> in the build with user programs.
  \<^item> \<open>User_Memory\<close>: user memory through the trap handlers of \<open>Machine::Run\<close> and of the system calls; the locale \<open>demand_paging\<close> is interpreted on both.
  \<^item> \<open>Byte_Order\<close>, \<open>Coff_Noff\<close>: the converter \<^verbatim>\<open>bin/coff2noff.c\<close> from the compiler's object files to the executables the kernel loads.
  \<^item> \<open>Post_Office\<close> (definitions), \<open>Mail_Delivery\<close> (proofs): \<^verbatim>\<open>machine/network.cc\<close> and \<^verbatim>\<open>network/post.cc\<close>, with any number of machines.
  \<^item> \<open>Disk\<close>, \<open>File_System\<close> (definitions), \<open>File_Content\<close>, \<open>Directory_Map\<close>, \<open>Filesys_Correct\<close> (proofs): \<^verbatim>\<open>machine/disk.cc\<close> and \<^verbatim>\<open>filesys/\<close>;
    \<open>File_Commands\<close>: the commands of \<^verbatim>\<open>filesys/fstest.cc\<close>.

  \<^bold>\<open>State.\<close> Objects with methods are records, extended along the dependencies (\<open>isys\<close>, \<open>Machine\<close>, \<open>kernel\<close>, \<open>synch\<close>, \<open>vm\<close>, \<open>csys\<close>, \<open>sys\<close>, \<open>psys\<close>; \<open>dsys\<close>, \<open>fsys\<close>); objects reached by pointers are in
  maps from addresses, so that deleted objects and aliases are visible. Uninitialised memory is an argument (\<open>junk\<close>). Device handlers are values of a datatype.

  \<^bold>\<open>What is shown.\<close>
  \<^item> Synchronization: each kernel step refines abstract wait queues and keeps the invariant; mutual exclusion, the counting law of semaphores, no lost wake-up; the run queue is
    served by priority and round robin; a user thread finds its registers and page table again after any run of the others.
  \<^item> Monitors: every object is entered by one thread at a time; lists and mailboxes deliver in order, the counts of the whale are right, joining and finishing never block each
    other.
  \<^item> Machine: exact outcomes of address translation, loads after stores, isolation of user stores, a well-formed state after every instruction word, exact multiplication and
    overflow detection; interrupts are delivered in time order and none is lost.
  \<^item> Virtual memory: a page fault keeps the invariant that relates page tables, frames, the core map, the backing stores and the program files, and changes the contents of
    no page; hence the memory of a program is an array of bytes, whatever is paged in and out under it; both replacement policies; where the second-chance policy leaves a dangling pointer.
  \<^item> Console and system calls: every typed character is delivered once and in order, and where an assertion of the terminal can fail; what ends a thread and what is left of it; a process that \<open>Exec\<close> creates has the pages of its program
    and changes no other process; lost results and a null pointer.
  \<^item> Start: the command line \<^verbatim>\<open>-x\<close> with a sound executable brings the kernel, with or without the timer, to the first instruction of the program in a state that fulfils the invariants above.
  \<^item> Mail: the wire format loses nothing; letters between machines arrive once, undamaged and in the order they were transmitted, and which assertions can stop a machine.
  \<^item> File system: files are arrays of bytes, the directory is a map, \<open>Create\<close>, \<open>Open\<close>, \<open>Remove\<close> are the operations of a map from names to contents and keep the disk consistent; a file
    copied in from UNIX is printed as it was; where sizes overflow.
  \<^item> Executables: what \<^verbatim>\<open>coff2noff\<close> accepts is what the pages of a process are filled with.

  \<^bold>\<open>Bounds and fuel.\<close> No fuel is used in the file system: its loops are bounded by sector counts. \<open>Idle\<close>, \<open>OneTick\<close> and the searches through linked lists, which may
  not end on a malformed state, have \<open>option\<close> results, and the theorems state that a result exists. A system call that waits is continued by \<open>away\<close>, what the rest of the system does until the
  thread runs again; \<open>None\<close> is a thread that never does. Sizes are those of the source (128-byte pages and sectors, 32 frames, 1024 sectors,
  30 direct sectors, ten directory entries).

  \<^bold>\<open>Limits.\<close> The clock \<open>totalTicks\<close> and the other counters of \<^verbatim>\<open>stats.h\<close> are integers without bound, so the theorems are about runs of less than \<open>2 ^ 31\<close> ticks. \<open>page_fault\<close> is one step: with the
  random time slices of \<^verbatim>\<open>-rs\<close> the lock of the page allocator can let another thread run inside the real handler, which no theorem covers. \<open>Run\<close> deletes the control block of a finished thread and leaves its lock and condition
  variable in their tables. The lock and the condition variables of a pipe are not objects of their own, so the assertions of their destructors are left out. When \<open>StartProcess\<close> cannot load the program, the
  global objects it deletes on its way out stay.

  \<^bold>\<open>Not modelled.\<close> The register switch (assembly), the interactive debugger, printing, wrappers of UNIX system calls (\<^verbatim>\<open>sysdep.cc\<close>), flags and commands of the other builds, the clean-up at the end, test programs, the
  tools in \<^verbatim>\<open>bin/\<close> other than \<^verbatim>\<open>coff2noff\<close>.
\<close>

end
